(* ===== verification/Kernel_Prelude.thy ===== *)
theory Kernel_Prelude
  imports Main "HOL-Library.Word"
begin

unbundle bit_operations_syntax

text \<open>
  What the component theories share: the C integer types, the machine constants of
  \<open>include/mm/memory.h\<close>, the collections of simplification rules the proofs
  draw from, and generic facts about words, lists and searches.
\<close>

subsection \<open>Integer types of the C sources\<close>

type_synonym u8 = "8 word"
type_synonym u16 = "16 word"
type_synonym u32 = "32 word"
type_synonym u64 = "64 word"

definition PAGE_SIZE :: nat where
  "PAGE_SIZE = 4096"

subsection \<open>Rule collections\<close>

named_theorems kdefs \<open>definitions that evaluation unfolds\<close>
named_theorems kinv \<open>preservation of component invariants\<close>
named_theorems kframe \<open>fields an operation leaves alone\<close>

subsection \<open>Words\<close>

lemma unat_u64_less [simp]: "unat (w :: u64) < 18446744073709551616"
  using unsigned_less [of w, where ?'a = nat] by simp

lemma unat_u32_less [simp]: "unat (w :: u32) < 4294967296"
  using unsigned_less [of w, where ?'a = nat] by simp

lemma unat_u16_less [simp]: "unat (w :: u16) < 65536"
  using unsigned_less [of w, where ?'a = nat] by simp

lemma unat_u8_less [simp]: "unat (w :: u8) < 256"
  using unsigned_less [of w, where ?'a = nat] by simp

lemma of_nat_unat_id: "of_nat (unat w) = (w :: 'a::len word)"
  by simp

lemma unat_of_nat_small: "n < 2 ^ LENGTH('a) \<Longrightarrow> unat (of_nat n :: 'a::len word) = n"
  by (simp add: unat_of_nat)

lemma unat_of_nat_le: "n \<le> unat w \<Longrightarrow> unat (of_nat n :: 'a word) = n" for w :: "'a::len word"
  using unsigned_less [of w, where ?'a = nat] by (intro unat_of_nat_small) (rule le_less_trans)

lemma unat_add_small:
  "unat a + unat b < 2 ^ LENGTH('a) \<Longrightarrow> unat (a + b) = unat a + unat (b :: 'a::len word)"
  by (simp add: unat_word_ariths)

lemma unat_sub_le: "b \<le> a \<Longrightarrow> unat (a - b) = unat a - unat (b :: 'a::len word)"
  by (rule unat_sub)

text \<open>The C idiom \<open>(x >> n) & 1\<close> reads bit \<open>n\<close>.\<close>

lemma and_one_drop_bit_word:
  "(drop_bit n (w :: 'a::len word) AND 1) \<noteq> 0 \<longleftrightarrow> bit w n"
  by (simp add: and_one_eq odd_iff_mod_2_eq_one [symmetric] bit_iff_odd_drop_bit mod_2_eq_odd)

lemma bit_or_push_bit_1:
  "n < LENGTH('a) \<Longrightarrow> bit ((w :: 'a::len word) OR push_bit n 1) k \<longleftrightarrow> bit w k \<or> k = n"
  by (auto simp: bit_or_iff bit_exp_iff)

lemma bit_and_not_push_bit_1:
  "bit ((w :: 'a::len word) AND NOT (push_bit n 1)) k \<longleftrightarrow> bit w k \<and> k \<noteq> n"
  by (auto simp: bit_and_iff bit_not_iff bit_exp_iff dest: bit_imp_le_length)

subsection \<open>Rounding\<close>

lemma and_not_mask_push_drop:
  "w AND NOT (mask n) = push_bit n (drop_bit n (w :: 'a::len word))"
  by (rule bit_eqI) (auto simp: bit_simps)

text \<open>Clearing the low bits rounds down to a multiple of the power of two.\<close>

lemma unat_and_not_mask: "unat ((w :: 'a::len word) AND NOT (mask n)) = unat w div 2 ^ n * 2 ^ n"
proof -
  have "unat (push_bit n (drop_bit n w)) = take_bit LENGTH('a) (push_bit n (unat (drop_bit n w)))"
    by (rule unsigned_push_bit_eq)
  also have "push_bit n (unat (drop_bit n w)) = unat w div 2 ^ n * 2 ^ n"
    unfolding unat_drop_bit_eq by (simp add: push_bit_eq_mult drop_bit_eq_div)
  also have "unat w div 2 ^ n * 2 ^ n < 2 ^ LENGTH('a)"
    using div_times_less_eq_dividend [of "unat w" "2 ^ n"] unsigned_less [of w, where ?'a = nat]
    by (rule le_less_trans)
  then have "take_bit LENGTH('a) (unat w div 2 ^ n * 2 ^ n) = unat w div 2 ^ n * 2 ^ n"
    by (rule take_bit_nat_eq_self)
  finally show ?thesis by (simp only: and_not_mask_push_drop)
qed

lemma div_round_up:
  fixes e m :: nat
  assumes "e mod m \<noteq> 0" and "0 < m"
  shows "(e + (m - 1)) div m = e div m + 1"
proof -
  have "(e mod m + (m - 1)) div m = 1"
    using assms mod_less_divisor [OF assms(2), of e] by (intro div_nat_eqI) auto
  moreover have "(e + (m - 1)) div m = e div m + (e mod m + (m - 1)) div m"
  proof -
    have "e + (m - 1) = m * (e div m) + (e mod m + (m - 1))" by simp
    then show ?thesis using assms(2) by (metis div_mult_self4 neq0_conv)
  qed
  ultimately show ?thesis by simp
qed

subsection \<open>Linear search\<close>

text \<open>
  The loop \<open>for (p = lo; p < hi; p++) if (test(p)) return p;\<close>. Several
  components scan a table this way.
\<close>

function scan_from :: "(nat \<Rightarrow> bool) \<Rightarrow> nat \<Rightarrow> nat \<Rightarrow> nat option" where
  "scan_from test lo hi =
     (if lo < hi then (if test lo then Some lo else scan_from test (Suc lo) hi) else None)"
  by pat_completeness auto
termination
  by (relation "measure (\<lambda>(test, lo, hi). hi - lo)") auto

declare scan_from.simps [simp del]

lemma scan_from_Some:
  "scan_from test lo hi = Some p \<Longrightarrow>
     lo \<le> p \<and> p < hi \<and> test p \<and> (\<forall>q. lo \<le> q \<and> q < p \<longrightarrow> \<not> test q)"
proof (induction test lo hi rule: scan_from.induct)
  case (1 test lo hi)
  show ?case
  proof (cases "lo < hi \<and> \<not> test lo")
    case True
    with "1.prems" have "scan_from test (Suc lo) hi = Some p"
      by (simp add: scan_from.simps [of test lo hi])
    with "1.IH" True show ?thesis
      by (metis Suc_le_eq le_eq_less_or_eq)
  next
    case False
    with "1.prems" show ?thesis
      by (auto simp: scan_from.simps [of test lo hi] split: if_splits)
  qed
qed

lemma scan_from_None:
  "scan_from test lo hi = None \<longleftrightarrow> (\<forall>q. lo \<le> q \<and> q < hi \<longrightarrow> \<not> test q)"
proof (induction test lo hi rule: scan_from.induct)
  case (1 test lo hi)
  show ?case
  proof (cases "lo < hi \<and> \<not> test lo")
    case True
    then have "scan_from test lo hi = scan_from test (Suc lo) hi"
      by (simp add: scan_from.simps [of test lo hi])
    moreover have "(\<forall>q. lo \<le> q \<and> q < hi \<longrightarrow> \<not> test q) \<longleftrightarrow>
                   (\<forall>q. Suc lo \<le> q \<and> q < hi \<longrightarrow> \<not> test q)"
      using True by (metis Suc_le_eq le_eq_less_or_eq)
    ultimately show ?thesis using "1.IH" True by simp
  next
    case False
    then show ?thesis
      by (auto simp: scan_from.simps [of test lo hi])
  qed
qed

lemma scan_from_cong [fundef_cong]:
  assumes "lo = lo'" and "hi = hi'" and "\<And>p. lo' \<le> p \<Longrightarrow> p < hi' \<Longrightarrow> test p = test' p"
  shows "scan_from test lo hi = scan_from test' lo' hi'"
proof -
  have "scan_from test lo hi = scan_from test' lo hi"
    if "\<And>p. lo \<le> p \<Longrightarrow> p < hi \<Longrightarrow> test p = test' p"
    using that
  proof (induction test lo hi rule: scan_from.induct)
    case (1 test lo hi)
    then show ?case
      by (auto simp: scan_from.simps [of test lo hi] scan_from.simps [of test' lo hi])
  qed
  with assms show ?thesis by auto
qed

end
