(* ===== verification/Pmm.thy ===== *)
theory Pmm
  imports Kernel_Prelude
begin

unbundle bit_operations_syntax

text \<open>
  The physical page allocator of \<open>src/kernel/mm/memory.c\<close> (section PMM): a bitmap
  with one bit per 4 KiB page (set = in use), a search hint, an incremental count of the
  set bits, the snapshot of usable ranges and the top of RAM. Page numbers are \<open>nat\<close>
  (they stay below \<open>PMM_MAX_PAGES\<close>); byte addresses, lengths and the counter keep
  their 64 bits. Physical memory that \<open>pmm_init\<close> reads is a function from byte
  addresses to bytes.
\<close>

section \<open>State and bitmap primitives\<close>

definition PMM_MAX_PAGES :: nat where
  "PMM_MAX_PAGES = 1048576"

definition PMM_USABLE_MAX :: nat where
  "PMM_USABLE_MAX = 32"

record pmm_usable_t =
  us_base :: u64
  us_len :: u64

record pmm_state =
  pmm_bitmap :: "nat \<Rightarrow> u8"
  pmm_last_page :: nat
  pmm_used_pages :: u64
  pmm_usable :: "pmm_usable_t list"
  pmm_ram_top :: u64

text \<open>The static initial values: zeroed tables and the counter at \<open>PMM_MAX_PAGES\<close>.\<close>

definition pmm_static :: pmm_state where
  "pmm_static = \<lparr>pmm_bitmap = (\<lambda>_. 0), pmm_last_page = 0,
     pmm_used_pages = of_nat PMM_MAX_PAGES, pmm_usable = [], pmm_ram_top = 0\<rparr>"

definition bitmap_bit :: "(nat \<Rightarrow> u8) \<Rightarrow> nat \<Rightarrow> bool" where
  "bitmap_bit bm page = ((drop_bit (page mod 8) (bm (page div 8)) AND 1) \<noteq> 0)"

definition bitmap_set :: "nat \<Rightarrow> pmm_state \<Rightarrow> pmm_state" where
  "bitmap_set page s =
     (if page < PMM_MAX_PAGES then
        (if \<not> bitmap_bit (pmm_bitmap s) page then
           s\<lparr>pmm_bitmap := (pmm_bitmap s)(page div 8 :=
                 pmm_bitmap s (page div 8) OR push_bit (page mod 8) 1),
             pmm_used_pages := pmm_used_pages s + 1\<rparr>
         else s)
      else s)"

definition bitmap_clear :: "nat \<Rightarrow> pmm_state \<Rightarrow> pmm_state" where
  "bitmap_clear page s =
     (if page < PMM_MAX_PAGES then
        (if bitmap_bit (pmm_bitmap s) page then
           s\<lparr>pmm_bitmap := (pmm_bitmap s)(page div 8 :=
                 pmm_bitmap s (page div 8) AND NOT (push_bit (page mod 8) 1)),
             pmm_used_pages := pmm_used_pages s - 1\<rparr>
         else s)
      else s)"

definition bitmap_test :: "pmm_state \<Rightarrow> nat \<Rightarrow> bool" where
  "bitmap_test s page =
     (if page \<ge> PMM_MAX_PAGES then True else bitmap_bit (pmm_bitmap s) page)"

text \<open>
  \<open>pmm_mark_region\<close>: the start page is rounded down, the end page rounded up, with
  the 64-bit sum wrapping as in the source.
\<close>

definition pmm_mark_region :: "u64 \<Rightarrow> u64 \<Rightarrow> bool \<Rightarrow> pmm_state \<Rightarrow> pmm_state" where
  "pmm_mark_region base len used s =
     (let start_page = unat (base div 4096);
          end_page = unat ((base + len + 4096 - 1) div 4096);
          end_page = (if end_page > PMM_MAX_PAGES then PMM_MAX_PAGES else end_page)
      in fold (\<lambda>p s. if used then bitmap_set p s else bitmap_clear p s)
           [start_page..<end_page] s)"

definition pmm_cap4g :: u64 where
  "pmm_cap4g = of_nat (PMM_MAX_PAGES * PAGE_SIZE)"

definition pmm_note_usable :: "u64 \<Rightarrow> u64 \<Rightarrow> pmm_state \<Rightarrow> pmm_state" where
  "pmm_note_usable base len0 s =
     (let len = (if base + len0 > pmm_cap4g then pmm_cap4g - base else len0) in
      if base \<ge> pmm_cap4g \<or> len = 0 then s
      else if length (pmm_usable s) < PMM_USABLE_MAX then
        s\<lparr>pmm_usable := pmm_usable s @ [\<lparr>us_base = base, us_len = len\<rparr>]\<rparr>
      else
        s\<lparr>pmm_usable := (pmm_usable s)[PMM_USABLE_MAX - 1 :=
           (pmm_usable s ! (PMM_USABLE_MAX - 1))
             \<lparr>us_len := us_len (pmm_usable s ! (PMM_USABLE_MAX - 1)) + len\<rparr>]\<rparr>)"

section \<open>Boot-time initialisation\<close>

definition rd32 :: "(nat \<Rightarrow> u8) \<Rightarrow> nat \<Rightarrow> u32" where
  "rd32 mem a = ucast (mem a) OR push_bit 8 (ucast (mem (a + 1)))
     OR push_bit 16 (ucast (mem (a + 2))) OR push_bit 24 (ucast (mem (a + 3)))"

definition rd64 :: "(nat \<Rightarrow> u8) \<Rightarrow> nat \<Rightarrow> u64" where
  "rd64 mem a = ucast (rd32 mem a) OR push_bit 32 (ucast (rd32 mem (a + 4)))"

text \<open>What both map parsers do with one usable range that starts below 4 GiB.\<close>

definition pmm_add_usable :: "u64 \<Rightarrow> u64 \<Rightarrow> pmm_state \<Rightarrow> pmm_state" where
  "pmm_add_usable base len0 s =
     (let len = (if base + len0 > pmm_cap4g then pmm_cap4g - base else len0);
          s = pmm_mark_region base len False s;
          s = pmm_note_usable base len s
      in if base + len > pmm_ram_top s then s\<lparr>pmm_ram_top := base + len\<rparr> else s)"

definition mb2_mmap_entry :: "(nat \<Rightarrow> u8) \<Rightarrow> nat \<Rightarrow> u32 \<Rightarrow> u32 \<Rightarrow> pmm_state \<Rightarrow> pmm_state" where
  "mb2_mmap_entry mem tag entry_size i s =
     (let e = tag + 16 + unat (i * entry_size);
          base = rd64 mem e; len = rd64 mem (e + 8); mtype = rd32 mem (e + 16)
      in if mtype = 1 \<and> base < pmm_cap4g then pmm_add_usable base len s else s)"

text \<open>
  One MMAP tag; \<open>None\<close> is the divide fault of an \<open>entry_size\<close> of zero.
\<close>

definition mb2_mmap_tag :: "(nat \<Rightarrow> u8) \<Rightarrow> nat \<Rightarrow> pmm_state \<Rightarrow> pmm_state option" where
  "mb2_mmap_tag mem tag s =
     (let entry_size = rd32 mem (tag + 8);
          data_size = rd32 mem (tag + 4) - 16
      in if entry_size = 0 then None
         else Some (fold (\<lambda>i s. mb2_mmap_entry mem tag entry_size (of_nat i) s)
                      [0..<unat (data_size div entry_size)] s))"

definition mb2_advance :: "u32 \<Rightarrow> u32" where
  "mb2_advance sz = (sz + 7) AND NOT 7"

lemma advance_decreases:
  fixes w :: u32
  assumes "tag < e" and "w \<noteq> 0"
  shows "e - (tag + unat w) < e - tag"
proof -
  from assms(2) have "0 < unat w" by (simp add: unat_gt_0)
  with assms(1) show ?thesis by arith
qed

function mb2_tags :: "(nat \<Rightarrow> u8) \<Rightarrow> nat \<Rightarrow> nat \<Rightarrow> bool \<Rightarrow> pmm_state \<Rightarrow> (bool \<times> pmm_state) option" where
  "mb2_tags mem tag info_end have_mmap s =
     (if tag < info_end then
        (let type = rd32 mem tag; advance = mb2_advance (rd32 mem (tag + 4)) in
         if type = 0 then Some (have_mmap, s)
         else (case (if type = 6 then mb2_mmap_tag mem tag s else Some s) of
                 None \<Rightarrow> None
               | Some s' \<Rightarrow>
                   (let have' = (have_mmap \<or> type = 6) in
                    if advance = 0 then Some (have', s')
                    else mb2_tags mem (tag + unat advance) info_end have' s')))
      else Some (have_mmap, s))"
  by pat_completeness auto
termination
  by (relation "measure (\<lambda>(mem, tag, info_end, h, s). info_end - tag)")
     (auto intro: advance_decreases)

declare mb2_tags.simps [simp del]

text \<open>
  The EFI fallback reads descriptors of \<open>dsz\<close> bytes; \<open>off + dsz\<close> and
  \<open>off += dsz\<close> are 32-bit sums. A wrapped \<open>off\<close> makes the C loop start over,
  so the loop is a partial function whose \<open>None\<close> is a loop that never ends;
  \<open>efi_map_loop_returns\<close> shows that a snapshot whose sums do not wrap is read to its end.
\<close>

partial_function (option) efi_map_loop ::
    "(nat \<Rightarrow> u8) \<Rightarrow> u32 \<Rightarrow> u32 \<Rightarrow> u32 \<Rightarrow> pmm_state \<Rightarrow> pmm_state option" where
  "efi_map_loop mp sz dsz off s =
     (if off + dsz \<le> sz then
        (let etype = rd32 mp (unat off); base = rd64 mp (unat off + 8);
             pages = rd64 mp (unat off + 24);
             s' = (if etype = 7 \<and> base < pmm_cap4g
                   then pmm_add_usable base (pages * 4096) s else s)
         in efi_map_loop mp sz dsz (off + dsz) s')
      else Some s)"

record efi_map =
  efi_bytes :: "nat \<Rightarrow> u8"
  efi_size :: u32
  efi_desc_size :: u32

text \<open>
  Linker symbols, the bitmap's own address, the framebuffer range and the EFI snapshot
  are fixed before \<open>pmm_init\<close> runs.
\<close>

record pmm_boot =
  kernel_start :: u64
  kernel_end :: u64
  bitmap_addr :: u64
  fb_base :: u64
  fb_size :: u64
  efi_memory_map :: "efi_map option"

definition pmm_reserve_fixed :: "pmm_boot \<Rightarrow> (nat \<Rightarrow> u8) \<Rightarrow> u64 \<Rightarrow> pmm_state \<Rightarrow> pmm_state" where
  "pmm_reserve_fixed b mem mb_info_phys s =
     (let s = pmm_mark_region (kernel_start b) (kernel_end b - kernel_start b) True s;
          s = pmm_mark_region (bitmap_addr b) (of_nat (PMM_MAX_PAGES div 8)) True s;
          s = pmm_mark_region 0 0x200000 True s;
          s = (if mb_info_phys \<noteq> 0
               then pmm_mark_region mb_info_phys (ucast (rd32 mem (unat mb_info_phys))) True s
               else s)
      in if fb_base b \<noteq> 0 \<and> fb_size b \<noteq> 0
         then pmm_mark_region (fb_base b) (fb_size b) True s else s)"

definition pmm_init :: "pmm_boot \<Rightarrow> (nat \<Rightarrow> u8) \<Rightarrow> u64 \<Rightarrow> pmm_state \<Rightarrow> pmm_state option" where
  "pmm_init b mem mb_info_phys s0 =
     (let s = s0\<lparr>pmm_bitmap := (\<lambda>i. if i < PMM_MAX_PAGES div 8 then 255 else pmm_bitmap s0 i)\<rparr> in
      case (if mb_info_phys \<noteq> 0
            then mb2_tags mem (unat mb_info_phys + 8)
                   (unat mb_info_phys + unat (rd32 mem (unat mb_info_phys))) False s
            else Some (False, s)) of
        None \<Rightarrow> None
      | Some (have_mmap, s) \<Rightarrow>
          (case (if have_mmap then Some s
                 else (case efi_memory_map b of
                         None \<Rightarrow> Some s
                       | Some e \<Rightarrow>
                           (let dsz = (if efi_desc_size e < 40 then 40 else efi_desc_size e)
                            in efi_map_loop (efi_bytes e) (efi_size e) dsz 0 s))) of
             None \<Rightarrow> None
           | Some s \<Rightarrow> Some (pmm_reserve_fixed b mem mb_info_phys s)))"

section \<open>Allocation and release\<close>

definition page_addr :: "nat \<Rightarrow> u64" where
  "page_addr p = of_nat (p * PAGE_SIZE)"

definition pmm_alloc_page :: "pmm_state \<Rightarrow> u64 \<times> pmm_state" where
  "pmm_alloc_page s =
     (case scan_from (\<lambda>p. \<not> bitmap_test s p) (pmm_last_page s) PMM_MAX_PAGES of
        Some p \<Rightarrow> (page_addr p, (bitmap_set p s)\<lparr>pmm_last_page := p + 1\<rparr>)
      | None \<Rightarrow>
          (case scan_from (\<lambda>p. \<not> bitmap_test s p) 0 (pmm_last_page s) of
             Some p \<Rightarrow> (page_addr p, (bitmap_set p s)\<lparr>pmm_last_page := p + 1\<rparr>)
           | None \<Rightarrow> (0, s)))"

text \<open>The inner loop of \<open>pmm_alloc_pages\<close>: a run of \<open>count\<close> clear bits in one segment.\<close>

function run_scan :: "pmm_state \<Rightarrow> nat \<Rightarrow> nat \<Rightarrow> nat \<Rightarrow> nat \<Rightarrow> nat option" where
  "run_scan s count p consecutive start =
     (if p < PMM_MAX_PAGES then
        (if \<not> bitmap_test s p then
           (let start = (if consecutive = 0 then p else start);
                consecutive = consecutive + 1
            in if consecutive \<ge> count then Some start
               else run_scan s count (Suc p) consecutive start)
         else run_scan s count (Suc p) 0 start)
      else None)"
  by pat_completeness auto
termination
  by (relation "measure (\<lambda>(s, count, p, c, st). PMM_MAX_PAGES - p)") auto

declare run_scan.simps [simp del]

definition pmm_take_run :: "nat \<Rightarrow> nat \<Rightarrow> pmm_state \<Rightarrow> u64 \<times> pmm_state" where
  "pmm_take_run count start s =
     (page_addr start,
      (fold bitmap_set [start..<start + count] s)\<lparr>pmm_last_page := start + count\<rparr>)"

definition pmm_alloc_pages :: "nat \<Rightarrow> pmm_state \<Rightarrow> u64 \<times> pmm_state" where
  "pmm_alloc_pages count s =
     (if count = 0 then (0, s)
      else if count = 1 then pmm_alloc_page s
      else
        (let base = pmm_last_page s in
         case (if base < PMM_MAX_PAGES then run_scan s count base 0 0 else None) of
           Some start \<Rightarrow> pmm_take_run count start s
         | None \<Rightarrow>
             (if base = 0 then (0, s)
              else (case run_scan s count 0 0 0 of
                      Some start \<Rightarrow> pmm_take_run count start s
                    | None \<Rightarrow> (0, s)))))"

definition pmm_free_page :: "u64 \<Rightarrow> pmm_state \<Rightarrow> pmm_state" where
  "pmm_free_page phys s =
     (if phys = 0 then s
      else (let p = unat (phys div 4096) in
            if p < PMM_MAX_PAGES then bitmap_clear p s else s))"

definition pmm_free_pages :: "u64 \<Rightarrow> nat \<Rightarrow> pmm_state \<Rightarrow> pmm_state" where
  "pmm_free_pages phys count s =
     fold (\<lambda>i s. pmm_free_page (phys + of_nat i * 4096) s) [0..<count] s"

text \<open>\<open>pmm_get_stats\<close>: (total, used, free), in 64-bit arithmetic.\<close>

definition pmm_get_stats :: "pmm_state \<Rightarrow> u64 \<times> u64 \<times> u64" where
  "pmm_get_stats s =
     (let total = pmm_ram_top s div 4096;
          total = (if total = 0 then of_nat PMM_MAX_PAGES else total);
          above = of_nat PMM_MAX_PAGES - total;
          used = pmm_used_pages s - above;
          used = (if used > total then total else used)
      in (total, used, total - used))"

section \<open>Bitmap laws\<close>

lemma bitmap_bit_iff: "bitmap_bit bm p \<longleftrightarrow> bit (bm (p div 8)) (p mod 8)"
  by (simp only: bitmap_bit_def and_one_drop_bit_word)

lemma same_bit_iff: "p div 8 = q div 8 \<and> p mod 8 = q mod 8 \<longleftrightarrow> p = (q :: nat)"
  by (metis div_mult_mod_eq)

lemma bitmap_bit_or:
  "bitmap_bit (bm(p div 8 := bm (p div 8) OR push_bit (p mod 8) 1)) q \<longleftrightarrow> bitmap_bit bm q \<or> q = p"
proof (cases "q div 8 = p div 8")
  case True
  have "p mod 8 < LENGTH(8)" by simp
  then have "bit (bm (p div 8) OR push_bit (p mod 8) 1) (q mod 8) \<longleftrightarrow>
             bit (bm (p div 8)) (q mod 8) \<or> q mod 8 = p mod 8"
    by (rule bit_or_push_bit_1)
  with True show ?thesis
    using same_bit_iff [of q p] by (simp add: bitmap_bit_iff)
next
  case False
  then have "q \<noteq> p" by auto
  with False show ?thesis by (simp add: bitmap_bit_iff)
qed

lemma bitmap_bit_and_not:
  "bitmap_bit (bm(p div 8 := bm (p div 8) AND NOT (push_bit (p mod 8) 1))) q
     \<longleftrightarrow> bitmap_bit bm q \<and> q \<noteq> p"
proof (cases "q div 8 = p div 8")
  case True
  have "bit (bm (p div 8) AND NOT (push_bit (p mod 8) 1)) (q mod 8) \<longleftrightarrow>
             bit (bm (p div 8)) (q mod 8) \<and> q mod 8 \<noteq> p mod 8"
    by (rule bit_and_not_push_bit_1)
  with True show ?thesis
    using same_bit_iff [of q p] by (simp add: bitmap_bit_iff)
next
  case False
  then have "q \<noteq> p" by auto
  with False show ?thesis by (simp add: bitmap_bit_iff)
qed

lemma bitmap_test_set [simp]:
  "bitmap_test (bitmap_set p s) q \<longleftrightarrow> bitmap_test s q \<or> q = p"
  by (auto simp: bitmap_test_def bitmap_set_def bitmap_bit_or simp del: fun_upd_apply push_bit_of_1)

lemma bitmap_test_clear [simp]:
  "bitmap_test (bitmap_clear p s) q \<longleftrightarrow> bitmap_test s q \<and> (q \<noteq> p \<or> PMM_MAX_PAGES \<le> p)"
  by (auto simp: bitmap_test_def bitmap_clear_def bitmap_bit_and_not simp del: fun_upd_apply push_bit_of_1)

lemma bitmap_test_beyond [simp]: "PMM_MAX_PAGES \<le> p \<Longrightarrow> bitmap_test s p"
  by (simp add: bitmap_test_def)

lemma bitmap_test_updates [simp]:
  "bitmap_test (s\<lparr>pmm_last_page := n\<rparr>) q = bitmap_test s q"
  "bitmap_test (s\<lparr>pmm_usable := us\<rparr>) q = bitmap_test s q"
  "bitmap_test (s\<lparr>pmm_ram_top := t\<rparr>) q = bitmap_test s q"
  by (simp_all add: bitmap_test_def)

lemma bitmap_set_frame [simp]:
  "pmm_last_page (bitmap_set p s) = pmm_last_page s"
  "pmm_usable (bitmap_set p s) = pmm_usable s"
  "pmm_ram_top (bitmap_set p s) = pmm_ram_top s"
  by (simp_all add: bitmap_set_def)

lemma bitmap_clear_frame [simp]:
  "pmm_last_page (bitmap_clear p s) = pmm_last_page s"
  "pmm_usable (bitmap_clear p s) = pmm_usable s"
  "pmm_ram_top (bitmap_clear p s) = pmm_ram_top s"
  by (simp_all add: bitmap_clear_def)

lemma fold_bitmap_set [simp]:
  "bitmap_test (fold bitmap_set ps s) q \<longleftrightarrow> bitmap_test s q \<or> q \<in> set ps"
  "pmm_last_page (fold bitmap_set ps s) = pmm_last_page s"
  "pmm_usable (fold bitmap_set ps s) = pmm_usable s"
  "pmm_ram_top (fold bitmap_set ps s) = pmm_ram_top s"
  by (induction ps arbitrary: s) auto

lemma fold_bitmap_clear [simp]:
  "bitmap_test (fold bitmap_clear ps s) q \<longleftrightarrow>
     bitmap_test s q \<and> (q \<notin> set ps \<or> PMM_MAX_PAGES \<le> q)"
  "pmm_last_page (fold bitmap_clear ps s) = pmm_last_page s"
  "pmm_usable (fold bitmap_clear ps s) = pmm_usable s"
  "pmm_ram_top (fold bitmap_clear ps s) = pmm_ram_top s"
  by (induction ps arbitrary: s) auto

definition region_pages :: "u64 \<Rightarrow> u64 \<Rightarrow> nat set" where
  "region_pages base len =
     {unat (base div 4096)..<min PMM_MAX_PAGES (unat ((base + len + 4096 - 1) div 4096))}"

lemma pmm_mark_region_fold:
  "pmm_mark_region base len used s =
     fold (if used then bitmap_set else bitmap_clear)
       [unat (base div 4096)..<min PMM_MAX_PAGES (unat ((base + len + 4096 - 1) div 4096))] s"
  by (auto simp: pmm_mark_region_def Let_def min_def)

lemma pmm_mark_region_test:
  "bitmap_test (pmm_mark_region base len used s) q \<longleftrightarrow>
     (if q \<in> region_pages base len then used else bitmap_test s q)"
  by (auto simp: pmm_mark_region_fold region_pages_def)

lemma pmm_mark_region_frame [simp]:
  "pmm_last_page (pmm_mark_region base len used s) = pmm_last_page s"
  "pmm_usable (pmm_mark_region base len used s) = pmm_usable s"
  "pmm_ram_top (pmm_mark_region base len used s) = pmm_ram_top s"
  by (simp_all add: pmm_mark_region_fold)

section \<open>The counter invariant\<close>

definition pmm_used_set :: "pmm_state \<Rightarrow> nat set" where
  "pmm_used_set s = {p. p < PMM_MAX_PAGES \<and> bitmap_test s p}"

definition pmm_count_ok :: "pmm_state \<Rightarrow> bool" where
  "pmm_count_ok s \<longleftrightarrow> pmm_used_pages s = of_nat (card (pmm_used_set s))"

lemma finite_pmm_used_set [simp]: "finite (pmm_used_set s)"
  by (simp add: pmm_used_set_def)

lemma card_pmm_used_set_le: "card (pmm_used_set s) \<le> PMM_MAX_PAGES"
proof -
  have "pmm_used_set s \<subseteq> {..<PMM_MAX_PAGES}" by (auto simp: pmm_used_set_def)
  then have "card (pmm_used_set s) \<le> card {..<PMM_MAX_PAGES}" by (intro card_mono) auto
  then show ?thesis by simp
qed

lemma pmm_count_ok_unat: "pmm_count_ok s \<Longrightarrow> unat (pmm_used_pages s) = card (pmm_used_set s)"
  using card_pmm_used_set_le [of s]
  by (simp add: pmm_count_ok_def unat_of_nat_small PMM_MAX_PAGES_def)

lemma pmm_used_set_set:
  "p < PMM_MAX_PAGES \<Longrightarrow> pmm_used_set (bitmap_set p s) = insert p (pmm_used_set s)"
  by (auto simp: pmm_used_set_def)

lemma pmm_used_set_clear:
  "p < PMM_MAX_PAGES \<Longrightarrow> pmm_used_set (bitmap_clear p s) = pmm_used_set s - {p}"
  by (auto simp: pmm_used_set_def)

lemma bitmap_set_count [kinv]: "pmm_count_ok s \<Longrightarrow> pmm_count_ok (bitmap_set p s)"
proof (cases "p < PMM_MAX_PAGES \<and> \<not> bitmap_bit (pmm_bitmap s) p")
  case True
  then have new: "p \<notin> pmm_used_set s" and lt: "p < PMM_MAX_PAGES"
    by (auto simp: pmm_used_set_def bitmap_test_def)
  assume "pmm_count_ok s"
  moreover have "pmm_used_pages (bitmap_set p s) = pmm_used_pages s + 1"
    using True by (simp add: bitmap_set_def)
  moreover have "card (pmm_used_set (bitmap_set p s)) = Suc (card (pmm_used_set s))"
    using new by (simp add: pmm_used_set_set [OF lt])
  ultimately show ?thesis by (simp add: pmm_count_ok_def)
next
  case False
  assume "pmm_count_ok s"
  moreover have "bitmap_set p s = s" using False by (auto simp: bitmap_set_def)
  ultimately show ?thesis by simp
qed

lemma bitmap_clear_count [kinv]: "pmm_count_ok s \<Longrightarrow> pmm_count_ok (bitmap_clear p s)"
proof (cases "p < PMM_MAX_PAGES \<and> bitmap_bit (pmm_bitmap s) p")
  case True
  then have old: "p \<in> pmm_used_set s" and lt: "p < PMM_MAX_PAGES"
    by (auto simp: pmm_used_set_def bitmap_test_def)
  assume "pmm_count_ok s"
  moreover have "pmm_used_pages (bitmap_clear p s) = pmm_used_pages s - 1"
    using True by (simp add: bitmap_clear_def)
  moreover have "card (pmm_used_set s) = Suc (card (pmm_used_set (bitmap_clear p s)))"
    unfolding pmm_used_set_clear [OF lt] by (rule card.remove [OF finite_pmm_used_set old])
  ultimately show ?thesis by (simp add: pmm_count_ok_def)
next
  case False
  assume "pmm_count_ok s"
  moreover have "bitmap_clear p s = s" using False by (auto simp: bitmap_clear_def)
  ultimately show ?thesis by simp
qed

lemma fold_count:
  assumes "\<And>x s. pmm_count_ok s \<Longrightarrow> pmm_count_ok (f x s)" and "pmm_count_ok s"
  shows "pmm_count_ok (fold f xs s)"
  using assms(2) by (induction xs arbitrary: s) (auto intro: assms(1))

lemma pmm_mark_region_count [kinv]: "pmm_count_ok s \<Longrightarrow> pmm_count_ok (pmm_mark_region b l u s)"
  unfolding pmm_mark_region_fold by (rule fold_count) (auto intro: kinv)

lemma count_ok_updates [simp]:
  "pmm_count_ok (s\<lparr>pmm_last_page := n\<rparr>) = pmm_count_ok s"
  "pmm_count_ok (s\<lparr>pmm_usable := us\<rparr>) = pmm_count_ok s"
  "pmm_count_ok (s\<lparr>pmm_ram_top := t\<rparr>) = pmm_count_ok s"
  by (simp_all add: pmm_count_ok_def pmm_used_set_def)

section \<open>Page addresses\<close>

lemma unat_page_addr: "p < PMM_MAX_PAGES \<Longrightarrow> unat (page_addr p) = p * 4096"
  unfolding page_addr_def PAGE_SIZE_def PMM_MAX_PAGES_def
  by (subst unat_of_nat_small) auto

lemma page_addr_div [simp]: "p < PMM_MAX_PAGES \<Longrightarrow> unat (page_addr p div 4096) = p"
  by (simp add: unat_div unat_page_addr)

lemma page_addr_eq_0 [simp]: "p < PMM_MAX_PAGES \<Longrightarrow> page_addr p = 0 \<longleftrightarrow> p = 0"
  using unat_page_addr [of p] by (auto simp: unat_eq_zero [symmetric] page_addr_def)

lemma page_addr_inj:
  "p < PMM_MAX_PAGES \<Longrightarrow> q < PMM_MAX_PAGES \<Longrightarrow> page_addr p = page_addr q \<longleftrightarrow> p = q"
  by (metis page_addr_div)

lemma page_addr_add:
  "page_addr p + of_nat i * 4096 = page_addr (p + i)"
  by (simp add: page_addr_def PAGE_SIZE_def algebra_simps)

section \<open>Searching the bitmap\<close>

lemma pmm_alloc_page_cases:
  assumes "pmm_last_page s \<le> PMM_MAX_PAGES"
  obtains (full) "pmm_alloc_page s = (0, s)" "\<And>q. bitmap_test s q"
    | (page) p where "p < PMM_MAX_PAGES" "\<not> bitmap_test s p"
        "pmm_alloc_page s = (page_addr p, (bitmap_set p s)\<lparr>pmm_last_page := p + 1\<rparr>)"
        "\<And>q. pmm_last_page s \<le> q \<Longrightarrow> q < p \<Longrightarrow> bitmap_test s q"
proof -
  let ?free = "\<lambda>p. \<not> bitmap_test s p"
  show ?thesis
  proof (cases "scan_from ?free (pmm_last_page s) PMM_MAX_PAGES")
    case (Some p)
    with scan_from_Some [OF Some] show ?thesis
      by (intro page [of p]) (auto simp: pmm_alloc_page_def)
  next
    case hi: None
    show ?thesis
    proof (cases "scan_from ?free 0 (pmm_last_page s)")
      case (Some p)
      with scan_from_Some [OF Some] hi assms show ?thesis
        by (intro page [of p]) (auto simp: pmm_alloc_page_def)
    next
      case lo: None
      have "bitmap_test s q" for q
        using hi lo by (metis scan_from_None bitmap_test_beyond leI zero_le)
      with hi lo show ?thesis
        by (intro full) (auto simp: pmm_alloc_page_def)
    qed
  qed
qed

definition free_run :: "pmm_state \<Rightarrow> nat \<Rightarrow> nat \<Rightarrow> bool" where
  "free_run s start count \<longleftrightarrow>
     start + count \<le> PMM_MAX_PAGES \<and> (\<forall>q. start \<le> q \<and> q < start + count \<longrightarrow> \<not> bitmap_test s q)"

lemma run_scan_sound:
  assumes "run_scan s count p c st = Some a" and "0 < count" and "c \<le> p" and "c < count"
    and "0 < c \<Longrightarrow> st = p - c" and "\<And>q. p - c \<le> q \<Longrightarrow> q < p \<Longrightarrow> \<not> bitmap_test s q"
  shows "free_run s a count \<and> p - c \<le> a"
  using assms
proof (induction s count p c st arbitrary: a rule: run_scan.induct)
  case (1 s count p c st)
  note prems = "1.prems"
  show ?case
  proof (cases "p < PMM_MAX_PAGES \<and> \<not> bitmap_test s p")
    case True
    let ?st = "if c = 0 then p else st"
    have st: "?st = p - c" using prems(5) by auto
    have run: "\<not> bitmap_test s q" if "p - c \<le> q" "q < Suc p" for q
      using that prems(6) True by (metis less_Suc_eq)
    show ?thesis
    proof (cases "c + 1 \<ge> count")
      case enough: True
      with True prems(1) have "a = ?st"
        by (simp add: run_scan.simps [of s count p c st] Let_def split: if_splits)
      moreover have "count = c + 1" using enough prems(4) by simp
      ultimately show ?thesis
        using st run True prems(3) by (auto simp: free_run_def)
    next
      case False
      with True prems(1) have step: "run_scan s count (Suc p) (c + 1) ?st = Some a"
        by (simp add: run_scan.simps [of s count p c st] Let_def split: if_splits)
      have cond: "p < PMM_MAX_PAGES" "\<not> bitmap_test s p" "\<not> count \<le> c + 1"
        using True False by auto
      have "free_run s a count \<and> Suc p - (c + 1) \<le> a"
        by (rule "1.IH"(1) [OF cond(1,2) refl refl cond(3) step])
           (use prems st run False in auto)
      then show ?thesis by simp
    qed
  next
    case False
    with prems(1) have used: "p < PMM_MAX_PAGES" "bitmap_test s p"
      and step: "run_scan s count (Suc p) 0 st = Some a"
      by (auto simp: run_scan.simps [of s count p c st] split: if_splits)
    have "free_run s a count \<and> Suc p - 0 \<le> a"
      by (rule "1.IH"(2) [OF used(1) _ step]) (use used prems in auto)
    then show ?thesis by auto
  qed
qed

lemma run_scan_complete:
  assumes "free_run s b count" and "p - c \<le> b" and "c < count" and "c \<le> p"
  shows "run_scan s count p c st \<noteq> None"
  using assms
proof (induction s count p c st rule: run_scan.induct)
  case (1 s count p c st)
  note prems = "1.prems"
  show ?case
  proof (cases "p < PMM_MAX_PAGES")
    case lt: True
    show ?thesis
    proof (cases "bitmap_test s p")
      case True
      have "Suc p \<le> b"
      proof (rule ccontr)
        assume "\<not> Suc p \<le> b"
        then have "b \<le> p" and "p < b + count" using prems by auto
        with prems(1) True show False by (auto simp: free_run_def)
      qed
      then have "run_scan s count (Suc p) 0 st \<noteq> None"
        by (intro "1.IH"(2)) (use lt True prems in auto)
      with lt True show ?thesis by (simp add: run_scan.simps [of s count p c st])
    next
      case False
      then show ?thesis
        using "1.IH"(1) [OF lt False refl refl] prems lt
        by (cases "count \<le> c + 1") (auto simp: run_scan.simps [of s count p c st] Let_def)
    qed
  next
    case False
    with prems show ?thesis by (auto simp: free_run_def)
  qed
qed

lemma pmm_alloc_pages_cases:
  assumes "pmm_last_page s \<le> PMM_MAX_PAGES" and "1 < count"
  obtains (full) "pmm_alloc_pages count s = (0, s)" "\<And>b. \<not> free_run s b count"
    | (run) a where "free_run s a count" "pmm_alloc_pages count s = pmm_take_run count a s"
proof -
  let ?l = "pmm_last_page s"
  let ?first = "if ?l < PMM_MAX_PAGES then run_scan s count ?l 0 0 else None"
  show ?thesis
  proof (cases ?first)
    case (Some a)
    then have "run_scan s count ?l 0 0 = Some a" by (simp split: if_splits)
    from run_scan_sound [OF this] assms(2) have "free_run s a count" by auto
    with Some assms(2) show ?thesis
      by (intro run [of a]) (auto simp: pmm_alloc_pages_def Let_def)
  next
    case first: None
    show ?thesis
    proof (cases "run_scan s count 0 0 0")
      case (Some a)
      then have "free_run s a count" using run_scan_sound [OF Some] assms(2) by auto
      moreover have "?l \<noteq> 0"
      proof
        assume "?l = 0"
        with first Some show False by (simp add: PMM_MAX_PAGES_def)
      qed
      ultimately show ?thesis
        using first Some assms(2) by (intro run [of a]) (auto simp: pmm_alloc_pages_def Let_def)
    next
      case None
      then have "\<not> free_run s b count" for b
        using run_scan_complete [of s b count 0 0 0] assms(2) by auto
      moreover have "pmm_alloc_pages count s = (0, s)"
        using first None assms(2) by (auto simp: pmm_alloc_pages_def Let_def)
      ultimately show ?thesis by (intro full)
    qed
  qed
qed

section \<open>The allocator invariant\<close>

text \<open>
  What every operation keeps: the counter is the number of set bits, the hint lies inside
  the bitmap, and page 0 is reserved. The last part is what makes the return value 0 mean
  "out of memory".
\<close>

definition pmm_inv :: "pmm_state \<Rightarrow> bool" where
  "pmm_inv s \<longleftrightarrow> pmm_count_ok s \<and> pmm_last_page s \<le> PMM_MAX_PAGES \<and> bitmap_test s 0"

lemma pmm_inv_alloc_page:
  assumes "pmm_inv s" and "pmm_alloc_page s = (a, s')"
  shows "pmm_inv s'"
proof -
  from assms(1) have "pmm_last_page s \<le> PMM_MAX_PAGES" by (simp add: pmm_inv_def)
  then show ?thesis
    by (cases rule: pmm_alloc_page_cases) (use assms in \<open>auto simp: pmm_inv_def intro: kinv\<close>)
qed

lemma pmm_alloc_page_fail:
  assumes "pmm_inv s" and "pmm_alloc_page s = (0, s')"
  shows "s' = s \<and> pmm_used_set s = {..<PMM_MAX_PAGES}"
proof -
  from assms(1) have "pmm_last_page s \<le> PMM_MAX_PAGES" by (simp add: pmm_inv_def)
  then show ?thesis
  proof (cases rule: pmm_alloc_page_cases)
    case full
    with assms show ?thesis by (auto simp: pmm_used_set_def)
  next
    case (page p)
    with assms have "p = 0" by auto
    with page assms(1) show ?thesis by (simp add: pmm_inv_def)
  qed
qed

lemma pmm_alloc_page_fresh:
  assumes "pmm_inv s" and "pmm_alloc_page s = (a, s')" and "a \<noteq> 0"
  shows "\<exists>p. a = page_addr p \<and> p < PMM_MAX_PAGES \<and> p \<noteq> 0 \<and> p \<notin> pmm_used_set s
           \<and> pmm_used_set s' = insert p (pmm_used_set s)"
proof -
  from assms(1) have "pmm_last_page s \<le> PMM_MAX_PAGES" by (simp add: pmm_inv_def)
  then show ?thesis
  proof (cases rule: pmm_alloc_page_cases)
    case full
    with assms show ?thesis by simp
  next
    case (page p)
    with assms have "a = page_addr p" and "s' = (bitmap_set p s)\<lparr>pmm_last_page := p + 1\<rparr>" by auto
    moreover have "p \<noteq> 0" using page(2) assms(1) by (cases p) (auto simp: pmm_inv_def)
    moreover have "p \<notin> pmm_used_set s" using page(2) by (simp add: pmm_used_set_def)
    ultimately show ?thesis using page(1) by (auto simp: pmm_used_set_def)
  qed
qed

lemma pmm_inv_free_page [kinv]:
  assumes "pmm_inv s" and "phys = 0 \<or> unat (phys div 4096) \<noteq> 0"
  shows "pmm_inv (pmm_free_page phys s)"
  using assms by (auto simp: pmm_inv_def pmm_free_page_def Let_def intro: kinv)

lemma pmm_free_page_used:
  "p < PMM_MAX_PAGES \<Longrightarrow> p \<noteq> 0 \<Longrightarrow>
     pmm_used_set (pmm_free_page (page_addr p) s) = pmm_used_set s - {p}"
  by (simp add: pmm_free_page_def pmm_used_set_clear)

lemma pmm_take_run_used:
  "free_run s a n \<Longrightarrow> pmm_used_set (snd (pmm_take_run n a s)) = pmm_used_set s \<union> {a..<a + n}"
  by (auto simp: pmm_used_set_def pmm_take_run_def free_run_def)

lemma pmm_take_run_inv:
  "pmm_inv s \<Longrightarrow> free_run s a n \<Longrightarrow> pmm_inv (snd (pmm_take_run n a s))"
  by (auto simp: pmm_inv_def pmm_take_run_def free_run_def intro!: fold_count kinv)

lemma pmm_inv_alloc_pages:
  assumes "pmm_inv s" and "pmm_alloc_pages n s = (a, s')"
  shows "pmm_inv s'"
proof (cases "1 < n")
  case True
  from assms(1) have last: "pmm_last_page s \<le> PMM_MAX_PAGES" by (simp add: pmm_inv_def)
  show ?thesis
    by (cases rule: pmm_alloc_pages_cases [OF last True])
       (use assms pmm_take_run_inv [OF assms(1)] in \<open>metis snd_conv\<close>)+
next
  case False
  then consider "n = 0" | "n = 1" by linarith
  then show ?thesis
    by cases (use assms in \<open>auto simp: pmm_alloc_pages_def intro: pmm_inv_alloc_page\<close>)
qed

lemma pmm_alloc_pages_fresh:
  assumes inv: "pmm_inv s" and eq: "pmm_alloc_pages n s = (a, s')" and ok: "a \<noteq> 0"
  shows "\<exists>p. a = page_addr p \<and> p \<noteq> 0 \<and> p + n \<le> PMM_MAX_PAGES \<and> {p..<p + n} \<inter> pmm_used_set s = {}
           \<and> pmm_used_set s' = pmm_used_set s \<union> {p..<p + n}"
proof (cases "1 < n")
  case True
  from inv have last: "pmm_last_page s \<le> PMM_MAX_PAGES" by (simp add: pmm_inv_def)
  show ?thesis
  proof (cases rule: pmm_alloc_pages_cases [OF last True, case_names full run])
    case full
    with eq ok show ?thesis by simp
  next
    case (run p)
    with eq have res: "a = page_addr p" "s' = snd (pmm_take_run n p s)"
      by (auto simp: pmm_take_run_def)
    have "p \<noteq> 0" using res(1) ok by (cases p) (auto simp: page_addr_def)
    moreover have "{p..<p + n} \<inter> pmm_used_set s = {}"
      using run(1) by (auto simp: free_run_def pmm_used_set_def)
    ultimately show ?thesis
      using run(1) res pmm_take_run_used [OF run(1)] by (auto simp: free_run_def)
  qed
next
  case False
  then consider "n = 0" | "n = 1" by linarith
  then show ?thesis
  proof cases
    case 1
    with eq ok show ?thesis by (simp add: pmm_alloc_pages_def)
  next
    case 2
    with eq have "pmm_alloc_page s = (a, s')" by (simp add: pmm_alloc_pages_def)
    from pmm_alloc_page_fresh [OF inv this ok] obtain p where
      "a = page_addr p" "p < PMM_MAX_PAGES" "p \<noteq> 0" "p \<notin> pmm_used_set s"
      "pmm_used_set s' = insert p (pmm_used_set s)" by blast
    with 2 show ?thesis by (intro exI [of _ p]) auto
  qed
qed

section \<open>The page-allocator interface\<close>

text \<open>
  What the page-table code and the address-space code rely on: a successful allocation
  returns a page that was not in use and marks exactly that page; a failed one changes
  nothing; releasing a page unmarks exactly that page.
\<close>

locale page_allocator =
  fixes inv :: "'s \<Rightarrow> bool"
    and inuse :: "'s \<Rightarrow> nat set"
    and alloc :: "'s \<Rightarrow> u64 \<times> 's"
    and release :: "u64 \<Rightarrow> 's \<Rightarrow> 's"
  assumes alloc_inv: "inv s \<Longrightarrow> alloc s = (a, s') \<Longrightarrow> inv s'"
    and alloc_fail: "inv s \<Longrightarrow> alloc s = (0, s') \<Longrightarrow> s' = s"
    and alloc_fresh: "inv s \<Longrightarrow> alloc s = (a, s') \<Longrightarrow> a \<noteq> 0 \<Longrightarrow>
          \<exists>p. a = page_addr p \<and> p < PMM_MAX_PAGES \<and> p \<noteq> 0 \<and> p \<notin> inuse s \<and>
              inuse s' = insert p (inuse s)"
    and release_inv: "inv s \<Longrightarrow> p < PMM_MAX_PAGES \<Longrightarrow> p \<noteq> 0 \<Longrightarrow> inv (release (page_addr p) s)"
    and release_inuse: "p < PMM_MAX_PAGES \<Longrightarrow> p \<noteq> 0 \<Longrightarrow>
          inuse (release (page_addr p) s) = inuse s - {p}"
begin

lemma alloc_release:
  assumes "inv s" and "alloc s = (a, s')" and "a \<noteq> 0"
  shows "inuse (release a s') = inuse s"
  using alloc_fresh [OF assms] by (auto simp: release_inuse)

lemma alloc_distinct:
  assumes "inv s" and "alloc s = (a, s')" and "alloc s' = (b, s'')" and "a \<noteq> 0" and "b \<noteq> 0"
  shows "a \<noteq> b"
proof -
  from assms(1,2) have "inv s'" by (rule alloc_inv)
  from alloc_fresh [OF assms(1,2,4)] alloc_fresh [OF this assms(3,5)]
  show ?thesis by (auto simp: page_addr_inj)
qed

lemma alloc_mono:
  assumes "inv s" and "alloc s = (a, s')"
  shows "inuse s \<subseteq> inuse s'"
  using alloc_fresh [OF assms] alloc_fail [of s s'] assms by (cases "a = 0") auto

lemma alloc_page_aligned:
  assumes "inv s" and "alloc s = (a, s')"
  shows "a = page_addr (unat (a div 4096)) \<and> unat (a div 4096) < PMM_MAX_PAGES"
proof (cases "a = 0")
  case True
  then show ?thesis by (simp add: page_addr_def PMM_MAX_PAGES_def)
next
  case False
  with alloc_fresh [OF assms] show ?thesis by auto
qed

end

interpretation pmm: page_allocator pmm_inv pmm_used_set pmm_alloc_page pmm_free_page
proof unfold_locales
  fix s a s' assume "pmm_inv s" "pmm_alloc_page s = (a, s')"
  then show "pmm_inv s'" by (rule pmm_inv_alloc_page)
next
  fix s s' assume "pmm_inv s" "pmm_alloc_page s = (0, s')"
  then show "s' = s" using pmm_alloc_page_fail by blast
next
  fix s a s' assume "pmm_inv s" "pmm_alloc_page s = (a, s')" "a \<noteq> 0"
  then show "\<exists>p. a = page_addr p \<and> p < PMM_MAX_PAGES \<and> p \<noteq> 0 \<and> p \<notin> pmm_used_set s \<and>
      pmm_used_set s' = insert p (pmm_used_set s)"
    by (rule pmm_alloc_page_fresh)
next
  fix s p assume "pmm_inv s" "p < PMM_MAX_PAGES" "p \<noteq> 0"
  then show "pmm_inv (pmm_free_page (page_addr p) s)"
    by (intro pmm_inv_free_page) auto
next
  fix p s assume "p < PMM_MAX_PAGES" "p \<noteq> 0"
  then show "pmm_used_set (pmm_free_page (page_addr p) s) = pmm_used_set s - {p}"
    by (rule pmm_free_page_used)
qed

section \<open>Ownership: the allocator and its clients\<close>

text \<open>
  A run of the allocator together with the set of pages its clients hold. A step is one
  call; clients release only what they hold.
\<close>

inductive pmm_step :: "pmm_state \<times> nat set \<Rightarrow> pmm_state \<times> nat set \<Rightarrow> bool" where
  step_alloc: "pmm_alloc_page s = (a, s') \<Longrightarrow>
     pmm_step (s, own) (s', own \<union> (if a = 0 then {} else {unat (a div 4096)}))"
| step_alloc_n: "pmm_alloc_pages n s = (a, s') \<Longrightarrow>
     pmm_step (s, own) (s', own \<union>
       (if a = 0 then {} else {unat (a div 4096)..<unat (a div 4096) + n}))"
| step_free: "p \<in> own \<Longrightarrow> pmm_step (s, own) (pmm_free_page (page_addr p) s, own - {p})"
| step_free_n: "{p..<p + n} \<subseteq> own \<Longrightarrow>
     pmm_step (s, own) (pmm_free_pages (page_addr p) n s, own - {p..<p + n})"

inductive pmm_reachable :: "pmm_state \<times> nat set \<Rightarrow> bool" where
  reach_init: "pmm_inv s \<Longrightarrow> pmm_reachable (s, {})"
| reach_step: "pmm_reachable c \<Longrightarrow> pmm_step c c' \<Longrightarrow> pmm_reachable c'"

definition pmm_own_inv :: "pmm_state \<times> nat set \<Rightarrow> bool" where
  "pmm_own_inv c \<longleftrightarrow> pmm_inv (fst c) \<and> snd c \<subseteq> pmm_used_set (fst c) \<and> 0 \<notin> snd c"

lemma pmm_own_range: "pmm_own_inv (s, own) \<Longrightarrow> p \<in> own \<Longrightarrow> p < PMM_MAX_PAGES \<and> p \<noteq> 0"
proof
  assume own: "pmm_own_inv (s, own)" "p \<in> own"
  then have "p \<in> pmm_used_set s" by (auto simp: pmm_own_inv_def)
  then show "p < PMM_MAX_PAGES" by (simp add: pmm_used_set_def)
  have "0 \<notin> own" using own by (simp add: pmm_own_inv_def)
  then show "p \<noteq> 0" using own(2) by metis
qed

lemma pmm_own_free:
  assumes "pmm_own_inv (s, own)" and "p \<in> own"
  shows "pmm_own_inv (pmm_free_page (page_addr p) s, own - {p})"
proof -
  from pmm_own_range [OF assms] have p: "p < PMM_MAX_PAGES" "p \<noteq> 0" by auto
  with assms have "pmm_inv (pmm_free_page (page_addr p) s)"
    by (intro pmm.release_inv) (auto simp: pmm_own_inv_def)
  with assms show ?thesis
    unfolding pmm_own_inv_def fst_conv snd_conv pmm.release_inuse [OF p] by blast
qed

lemma pmm_free_pages_Suc:
  "pmm_free_pages (page_addr p) (Suc n) s =
     pmm_free_page (page_addr (p + n)) (pmm_free_pages (page_addr p) n s)"
  by (simp add: pmm_free_pages_def page_addr_add)

lemma pmm_own_free_pages:
  assumes "pmm_own_inv (s, own)" and "{p..<p + n} \<subseteq> own"
  shows "pmm_own_inv (pmm_free_pages (page_addr p) n s, own - {p..<p + n})"
  using assms
proof (induction n)
  case 0
  then show ?case by (simp add: pmm_free_pages_def)
next
  case (Suc n)
  have "{p..<p + n} \<subseteq> {p..<p + Suc n}" by auto
  with Suc have "pmm_own_inv (pmm_free_pages (page_addr p) n s, own - {p..<p + n})"
    by (metis order_trans)
  moreover have "p + n \<in> own - {p..<p + n}" using Suc.prems(2) by auto
  ultimately have "pmm_own_inv (pmm_free_pages (page_addr p) (Suc n) s,
      own - {p..<p + n} - {p + n})"
    unfolding pmm_free_pages_Suc by (rule pmm_own_free)
  moreover have "own - {p..<p + n} - {p + n} = own - {p..<p + Suc n}" by auto
  ultimately show ?case by simp
qed

lemma pmm_own_extend:
  assumes "pmm_own_inv (s, own)" and "pmm_inv s'"
    and "pmm_used_set s' = pmm_used_set s \<union> new" and "0 \<notin> new"
  shows "pmm_own_inv (s', own \<union> new)"
  using assms unfolding pmm_own_inv_def fst_conv snd_conv by blast

lemma pmm_step_own: "pmm_step c c' \<Longrightarrow> pmm_own_inv c \<Longrightarrow> pmm_own_inv c'"
proof (induction rule: pmm_step.induct)
  case (step_alloc s a s' own)
  then have inv: "pmm_inv s" by (simp add: pmm_own_inv_def)
  show ?case
  proof (cases "a = 0")
    case True
    with step_alloc inv have "s' = s" by (blast dest: pmm.alloc_fail)
    with step_alloc True show ?thesis by simp
  next
    case False
    from pmm_alloc_page_fresh [OF inv step_alloc(1) False] obtain p where
      "a = page_addr p" "p < PMM_MAX_PAGES" "p \<noteq> 0" "pmm_used_set s' = insert p (pmm_used_set s)"
      by blast
    then have "pmm_own_inv (s', own \<union> {p})"
      using step_alloc pmm_inv_alloc_page [OF inv step_alloc(1)] by (intro pmm_own_extend) simp_all
    with \<open>a = page_addr p\<close> \<open>p < PMM_MAX_PAGES\<close> False show ?thesis by simp
  qed
next
  case (step_alloc_n n s a s' own)
  then have inv: "pmm_inv s" by (simp add: pmm_own_inv_def)
  show ?case
  proof (cases "a = 0")
    case True
    have "s' = s"
    proof (cases "1 < n")
      case n: True
      from inv have last: "pmm_last_page s \<le> PMM_MAX_PAGES" by (simp add: pmm_inv_def)
      show ?thesis
      proof (cases rule: pmm_alloc_pages_cases [OF last n, case_names full run])
        case full
        with step_alloc_n show ?thesis by simp
      next
        case (run p)
        with True step_alloc_n n have "page_addr p = 0" and "p < PMM_MAX_PAGES"
          by (auto simp: pmm_take_run_def free_run_def)
        then have "p = 0" by simp
        with run n inv show ?thesis by (auto simp: free_run_def pmm_inv_def)
      qed
    next
      case False
      then consider "n = 0" | "pmm_alloc_page s = (0, s')"
        using step_alloc_n(1) True by (cases n) (auto simp: pmm_alloc_pages_def)
      then show ?thesis
        using step_alloc_n(1) inv by cases (auto simp: pmm_alloc_pages_def dest: pmm.alloc_fail)
    qed
    then show ?thesis using step_alloc_n True by simp
  next
    case False
    from pmm_alloc_pages_fresh [OF inv step_alloc_n(1) False] obtain p where
      p: "a = page_addr p" "p \<noteq> 0" "p + n \<le> PMM_MAX_PAGES"
        "pmm_used_set s' = pmm_used_set s \<union> {p..<p + n}"
      by blast
    have "n \<noteq> 0" using step_alloc_n(1) False by (cases n) (auto simp: pmm_alloc_pages_def)
    with p have "unat (a div 4096) = p" by simp
    moreover have "pmm_own_inv (s', own \<union> {p..<p + n})"
      using step_alloc_n p pmm_inv_alloc_pages [OF inv step_alloc_n(1)]
      by (intro pmm_own_extend) simp_all
    ultimately show ?thesis using False by simp
  qed
next
  case (step_free p own s)
  then show ?case by (intro pmm_own_free)
next
  case (step_free_n p n own s)
  then show ?case by (intro pmm_own_free_pages)
qed

lemma pmm_reachable_own: "pmm_reachable c \<Longrightarrow> pmm_own_inv c"
proof (induction rule: pmm_reachable.induct)
  case (reach_init s)
  then show ?case by (simp add: pmm_own_inv_def)
next
  case (reach_step c c')
  then show ?case by (blast intro: pmm_step_own)
qed

section \<open>Boot-time initialisation keeps the counter and the reservations\<close>

lemma pmm_note_usable_frame [simp]:
  "bitmap_test (pmm_note_usable b l s) q = bitmap_test s q"
  "pmm_last_page (pmm_note_usable b l s) = pmm_last_page s"
  "pmm_count_ok (pmm_note_usable b l s) = pmm_count_ok s"
  by (simp_all add: pmm_note_usable_def Let_def)

text \<open>The facts every boot-map operation keeps.\<close>

definition boot_ok :: "pmm_state \<Rightarrow> bool" where
  "boot_ok s \<longleftrightarrow> pmm_count_ok s \<and> pmm_last_page s = 0"

lemma boot_ok_mark [kinv]: "boot_ok s \<Longrightarrow> boot_ok (pmm_mark_region b l u s)"
  by (simp add: boot_ok_def pmm_mark_region_count)

lemma boot_ok_add [kinv]: "boot_ok s \<Longrightarrow> boot_ok (pmm_add_usable b l s)"
  by (simp add: boot_ok_def pmm_add_usable_def Let_def pmm_mark_region_count)

lemma boot_ok_fold:
  assumes "\<And>x s. boot_ok s \<Longrightarrow> boot_ok (f x s)" and "boot_ok s"
  shows "boot_ok (fold f xs s)"
  using assms(2) by (induction xs arbitrary: s) (auto intro: assms(1))

lemma boot_ok_mmap_tag:
  "boot_ok s \<Longrightarrow> mb2_mmap_tag mem tag s = Some s' \<Longrightarrow> boot_ok s'"
  by (auto simp: mb2_mmap_tag_def Let_def mb2_mmap_entry_def split: if_splits
           intro!: boot_ok_fold kinv)

lemma boot_ok_tags:
  "boot_ok s \<Longrightarrow> mb2_tags mem tag e h s = Some (h', s') \<Longrightarrow> boot_ok s'"
proof (induction mem tag e h s rule: mb2_tags.induct)
  case (1 mem tag e h s)
  let ?r = "if rd32 mem tag = 6 then mb2_mmap_tag mem tag s else Some s"
  show ?case
  proof (cases "tag < e \<and> rd32 mem tag \<noteq> 0")
    case True
    with "1.prems" obtain s1 where s1: "?r = Some s1"
      by (auto simp: mb2_tags.simps [of mem tag e h s] Let_def split: option.splits)
    with "1.prems" have ok: "boot_ok s1"
      by (auto split: if_splits intro: boot_ok_mmap_tag)
    show ?thesis
    proof (cases "mb2_advance (rd32 mem (tag + 4)) = 0")
      case zero: True
      with "1.prems" True s1 ok show ?thesis
        by (auto simp: mb2_tags.simps [of mem tag e h s] Let_def)
    next
      case False
      with "1.prems" True s1 have "mb2_tags mem (tag + unat (mb2_advance (rd32 mem (tag + 4)))) e
          (h \<or> rd32 mem tag = 6) s1 = Some (h', s')"
        by (simp add: mb2_tags.simps [of mem tag e h s] Let_def)
      with "1.IH" True s1 ok False show ?thesis by blast
    qed
  next
    case False
    with "1.prems" show ?thesis
      by (auto simp: mb2_tags.simps [of mem tag e h s] Let_def split: if_splits)
  qed
qed

lemma efi_map_loop_cases:
  assumes "unat sz + unat dsz < 2 ^ 32" and "0 < dsz" and "off \<le> sz" and "boot_ok s"
  shows "\<exists>s'. efi_map_loop m sz dsz off s = Some s' \<and> boot_ok s'"
  using assms
proof (induction "unat sz - unat off" arbitrary: off s rule: less_induct)
  case less
  have sum: "unat (off + dsz) = unat off + unat dsz"
    using less.prems(1,3) by (intro unat_add_small) (simp add: word_le_nat_alt)
  have pos: "0 < unat dsz" using less.prems(2) by (simp add: word_less_nat_alt)
  show ?case
  proof (cases "off + dsz \<le> sz")
    case True
    then have "unat sz - unat (off + dsz) < unat sz - unat off"
      using pos sum by (simp add: word_le_nat_alt)
    from less.hyps [OF this less.prems(1,2) True]
    have "boot_ok t \<Longrightarrow> \<exists>s'. efi_map_loop m sz dsz (off + dsz) t = Some s' \<and> boot_ok s'" for t .
    then show ?thesis
      using True less.prems(4) by (subst efi_map_loop.simps) (simp add: Let_def kinv)
  next
    case False
    then show ?thesis using less.prems(4) by (subst efi_map_loop.simps) simp
  qed
qed

lemma efi_map_loop_returns:
  assumes "unat sz + unat dsz < 2 ^ 32" and "0 < dsz" and "boot_ok s"
  shows "\<exists>s'. efi_map_loop m sz dsz 0 s = Some s' \<and> boot_ok s'"
  using efi_map_loop_cases [of sz dsz 0 s m] assms by simp

text \<open>
  The tags the loop visits carry no MMAP tag with an \<open>entry_size\<close> of zero, the only
  fault of the tag loop.
\<close>

function mb2_entry_sizes :: "(nat \<Rightarrow> u8) \<Rightarrow> nat \<Rightarrow> nat \<Rightarrow> bool" where
  "mb2_entry_sizes mem tag info_end \<longleftrightarrow>
     (tag < info_end \<and> rd32 mem tag \<noteq> 0 \<longrightarrow>
        (rd32 mem tag = 6 \<longrightarrow> rd32 mem (tag + 8) \<noteq> 0) \<and>
        (mb2_advance (rd32 mem (tag + 4)) \<noteq> 0 \<longrightarrow>
           mb2_entry_sizes mem (tag + unat (mb2_advance (rd32 mem (tag + 4)))) info_end))"
  by pat_completeness auto
termination
  by (relation "measure (\<lambda>(mem, tag, info_end). info_end - tag)")
     (auto intro: advance_decreases)

declare mb2_entry_sizes.simps [simp del]

lemma mb2_tags_returns:
  "mb2_entry_sizes mem tag e \<Longrightarrow> \<exists>h' s'. mb2_tags mem tag e h s = Some (h', s')"
proof (induction mem tag e h s rule: mb2_tags.induct)
  case (1 mem tag e h s)
  let ?r = "if rd32 mem tag = 6 then mb2_mmap_tag mem tag s else Some s"
  let ?adv = "mb2_advance (rd32 mem (tag + 4))"
  show ?case
  proof (cases "tag < e \<and> rd32 mem tag \<noteq> 0")
    case True
    with "1.prems" have sz: "rd32 mem tag = 6 \<longrightarrow> rd32 mem (tag + 8) \<noteq> 0"
      and rest: "?adv \<noteq> 0 \<longrightarrow> mb2_entry_sizes mem (tag + unat ?adv) e"
      by (simp_all add: mb2_entry_sizes.simps [of mem tag e])
    from sz have "\<exists>s1. ?r = Some s1" by (simp add: mb2_mmap_tag_def Let_def)
    then obtain s1 where s1: "?r = Some s1" by blast
    have "\<exists>h' s'. mb2_tags mem (tag + unat ?adv) e (h \<or> rd32 mem tag = 6) s1 = Some (h', s')"
      if "?adv \<noteq> 0"
      using "1.IH" True s1 rest that by blast
    with True s1 show ?thesis
      by (simp add: mb2_tags.simps [of mem tag e h s] Let_def)
  qed (auto simp: mb2_tags.simps [of mem tag e h s] Let_def)
qed

lemma pmm_all_set_boot_ok:
  "boot_ok (pmm_static\<lparr>pmm_bitmap := (\<lambda>i. if i < PMM_MAX_PAGES div 8 then 255 else f i)\<rparr>)"
    (is "boot_ok ?s")
proof -
  have "bitmap_test ?s p" for p
  proof (cases "p < PMM_MAX_PAGES")
    case True
    then have "p div 8 < PMM_MAX_PAGES div 8" by (auto simp: PMM_MAX_PAGES_def)
    moreover have "bit (255 :: u8) (p mod 8)"
    proof -
      have "(255 :: u8) = mask 8" by (simp add: mask_eq_exp_minus_1)
      then show ?thesis by (simp only: bit_mask_iff) (simp add: possible_bit_word)
    qed
    ultimately show ?thesis by (simp add: bitmap_test_def bitmap_bit_iff)
  qed simp
  then have "pmm_used_set ?s = {..<PMM_MAX_PAGES}" by (auto simp: pmm_used_set_def)
  then show ?thesis by (simp add: boot_ok_def pmm_count_ok_def pmm_static_def)
qed

lemma pmm_reserve_fixed_ok: "boot_ok s \<Longrightarrow> boot_ok (pmm_reserve_fixed b mem mb s)"
  by (simp add: pmm_reserve_fixed_def Let_def boot_ok_mark)

lemma pmm_reserve_fixed_test:
  "bitmap_test (pmm_reserve_fixed b mem mb s) p \<longleftrightarrow>
     bitmap_test s p
     \<or> p \<in> region_pages (kernel_start b) (kernel_end b - kernel_start b)
     \<or> p \<in> region_pages (bitmap_addr b) (of_nat (PMM_MAX_PAGES div 8))
     \<or> p \<in> region_pages 0 0x200000
     \<or> mb \<noteq> 0 \<and> p \<in> region_pages mb (ucast (rd32 mem (unat mb)))
     \<or> fb_base b \<noteq> 0 \<and> fb_size b \<noteq> 0 \<and> p \<in> region_pages (fb_base b) (fb_size b)"
  by (simp add: pmm_reserve_fixed_def Let_def pmm_mark_region_test)

text \<open>
  What the boot loader and the firmware hand over: an MMAP tag has entries of some size,
  and the 32-bit sums of the EFI loop do not wrap (\<open>efi_gop.c\<close> takes its snapshot
  into a buffer of 64 KiB).
\<close>

definition boot_info_ok :: "pmm_boot \<Rightarrow> (nat \<Rightarrow> u8) \<Rightarrow> u64 \<Rightarrow> bool" where
  "boot_info_ok b mem mb \<longleftrightarrow>
     (mb \<noteq> 0 \<longrightarrow> mb2_entry_sizes mem (unat mb + 8) (unat mb + unat (rd32 mem (unat mb)))) \<and>
     (case efi_memory_map b of None \<Rightarrow> True
      | Some e \<Rightarrow> unat (efi_size e) + max 40 (unat (efi_desc_size e)) < 2 ^ 32)"

lemma pmm_init_fixed:
  assumes "boot_info_ok b mem mb"
  shows "\<exists>s1. boot_ok s1 \<and> pmm_init b mem mb pmm_static = Some (pmm_reserve_fixed b mem mb s1)"
proof -
  let ?s0 = "pmm_static\<lparr>pmm_bitmap :=
      (\<lambda>i. if i < PMM_MAX_PAGES div 8 then 255 else pmm_bitmap pmm_static i)\<rparr>"
  let ?tags = "if mb \<noteq> 0 then mb2_tags mem (unat mb + 8) (unat mb + unat (rd32 mem (unat mb))) False ?s0
      else Some (False, ?s0)"
  have s0: "boot_ok ?s0" by (rule pmm_all_set_boot_ok)
  from assms obtain h s1 where s1: "?tags = Some (h, s1)"
    using mb2_tags_returns [of mem "unat mb + 8" "unat mb + unat (rd32 mem (unat mb))" False ?s0]
    by (cases "mb = 0") (auto simp: boot_info_ok_def)
  with s0 have ok1: "boot_ok s1" by (auto split: if_splits intro: boot_ok_tags)
  let ?efi = "if h then Some s1 else case efi_memory_map b of None \<Rightarrow> Some s1
      | Some e \<Rightarrow> (let dsz = (if efi_desc_size e < 40 then 40 else efi_desc_size e)
                  in efi_map_loop (efi_bytes e) (efi_size e) dsz 0 s1)"
  have "\<exists>s2. ?efi = Some s2 \<and> boot_ok s2"
  proof (cases "h \<or> efi_memory_map b = None")
    case False
    then obtain e where e: "efi_memory_map b = Some e" "\<not> h" by auto
    let ?dsz = "if efi_desc_size e < 40 then 40 else efi_desc_size e"
    have "unat (efi_size e) + unat ?dsz < 2 ^ 32" and "0 < ?dsz"
      using assms e by (auto simp: boot_info_ok_def word_less_nat_alt max_def split: if_splits)
    from efi_map_loop_returns [OF this ok1, of "efi_bytes e"] e show ?thesis by (simp add: Let_def)
  qed (use ok1 in auto)
  then show ?thesis using s1 by (auto simp: pmm_init_def Let_def)
qed

lemma region_pages_low: "region_pages 0 0x200000 = {0..<512}"
  by (simp add: region_pages_def PMM_MAX_PAGES_def unat_div)

section \<open>Main results\<close>

text \<open>
  C1. No page is ever handed out twice. In every state reachable from an initialised
  allocator by page allocations, run allocations and releases of held pages, a successful
  \<open>pmm_alloc_pages\<close> returns \<open>n\<close> consecutive pages that no client holds, never
  page 0, and the counter reported to \<open>pmm_get_stats\<close> grows by exactly \<open>n\<close>.
\<close>

theorem pmm_alloc_never_shared:
  assumes "pmm_reachable (s, own)" and "pmm_alloc_pages n s = (a, s')" and "a \<noteq> 0"
  shows "\<exists>p. a = page_addr p \<and> p \<noteq> 0 \<and> p + n \<le> PMM_MAX_PAGES \<and> {p..<p + n} \<inter> own = {}
           \<and> unat (pmm_used_pages s') = unat (pmm_used_pages s) + n"
proof -
  from assms(1) have own: "pmm_own_inv (s, own)" by (rule pmm_reachable_own)
  then have inv: "pmm_inv s" by (simp add: pmm_own_inv_def)
  from pmm_alloc_pages_fresh [OF inv assms(2,3)] obtain p where
    p: "a = page_addr p" "p \<noteq> 0" "p + n \<le> PMM_MAX_PAGES" "{p..<p + n} \<inter> pmm_used_set s = {}"
      "pmm_used_set s' = pmm_used_set s \<union> {p..<p + n}" by blast
  from inv pmm_inv_alloc_pages [OF inv assms(2)]
  have "pmm_count_ok s" and "pmm_count_ok s'" by (simp_all add: pmm_inv_def)
  then have "unat (pmm_used_pages s') = card (pmm_used_set s \<union> {p..<p + n})"
    and "unat (pmm_used_pages s) = card (pmm_used_set s)"
    by (simp_all add: pmm_count_ok_unat p(5))
  moreover have "card (pmm_used_set s \<union> {p..<p + n}) = card (pmm_used_set s) + n"
    using p(4) by (subst card_Un_disjoint) auto
  moreover have "{p..<p + n} \<inter> own = {}" using p(4) own by (auto simp: pmm_own_inv_def)
  ultimately show ?thesis using p by auto
qed

text \<open>
  C7. \<open>pmm_alloc_pages\<close> is sound and complete for its two-segment scan: it fails,
  changing nothing, exactly when no run of \<open>n\<close> free pages exists anywhere, and
  otherwise marks exactly one such run.
\<close>

theorem pmm_alloc_pages_correct:
  assumes "pmm_inv s" and "0 < n"
  shows "case pmm_alloc_pages n s of (a, s') \<Rightarrow>
           (if \<exists>b. free_run s b n
            then \<exists>p. a = page_addr p \<and> a \<noteq> 0 \<and> free_run s p n
                   \<and> (\<forall>q. bitmap_test s' q \<longleftrightarrow> bitmap_test s q \<or> p \<le> q \<and> q < p + n)
            else a = 0 \<and> s' = s)"
proof (cases "n = 1")
  case True
  from assms(1) have "pmm_last_page s \<le> PMM_MAX_PAGES" by (simp add: pmm_inv_def)
  then show ?thesis
  proof (cases rule: pmm_alloc_page_cases)
    case full
    then have "\<not> free_run s b 1" for b by (auto simp: free_run_def)
    with full True show ?thesis by (simp add: pmm_alloc_pages_def)
  next
    case (page p)
    then have "free_run s p 1" by (auto simp: free_run_def le_less_Suc_eq)
    moreover have "p \<noteq> 0" using page(2) assms(1) by (cases p) (auto simp: pmm_inv_def)
    moreover have "page_addr p \<noteq> 0" using page(1) \<open>p \<noteq> 0\<close> by simp
    moreover have "\<exists>b. free_run s b 1" using \<open>free_run s p 1\<close> by blast
    ultimately show ?thesis
      using page(3) True by (simp add: pmm_alloc_pages_def) (intro exI [of _ p], auto)
  qed
next
  case False
  with assms have n: "1 < n" and last: "pmm_last_page s \<le> PMM_MAX_PAGES"
    by (auto simp: pmm_inv_def)
  show ?thesis
  proof (cases rule: pmm_alloc_pages_cases [OF last n, case_names full run])
    case full
    then show ?thesis by simp
  next
    case (run p)
    have "p \<noteq> 0" using run(1) assms by (cases p) (auto simp: free_run_def pmm_inv_def)
    moreover have "p < PMM_MAX_PAGES" using run(1) n by (auto simp: free_run_def)
    ultimately have "page_addr p \<noteq> 0" by simp
    moreover have "\<exists>b. free_run s b n" using run(1) by blast
    ultimately show ?thesis
      using run(1) by (simp add: run(2) pmm_take_run_def) (intro exI [of _ p], simp)
  qed
qed

text \<open>
  C9. \<open>pmm_init\<close> establishes the invariant from the static initial state and leaves
  the low 2 MiB, the kernel image, the bitmap, the boot information and the framebuffer
  reserved, whatever regions the boot memory map lists. It returns when no MMAP tag it
  visits has entries of size zero (the division would fault) and the size of the EFI
  snapshot and of its descriptors stay below 4 GiB together (the offset would wrap and the
  loop start over).
\<close>

theorem pmm_init_reserves:
  assumes "boot_info_ok b mem mb"
  shows "\<exists>s. pmm_init b mem mb pmm_static = Some s
     \<and> pmm_inv s \<and> {0..<512} \<subseteq> pmm_used_set s
     \<and> region_pages (kernel_start b) (kernel_end b - kernel_start b) \<subseteq> pmm_used_set s
     \<and> region_pages (bitmap_addr b) (of_nat (PMM_MAX_PAGES div 8)) \<subseteq> pmm_used_set s
     \<and> (mb \<noteq> 0 \<longrightarrow> region_pages mb (ucast (rd32 mem (unat mb))) \<subseteq> pmm_used_set s)
     \<and> (fb_base b \<noteq> 0 \<and> fb_size b \<noteq> 0 \<longrightarrow> region_pages (fb_base b) (fb_size b) \<subseteq> pmm_used_set s)"
proof -
  from pmm_init_fixed [OF assms] obtain s s1 where s1: "boot_ok s1"
    and s: "s = pmm_reserve_fixed b mem mb s1" and init: "pmm_init b mem mb pmm_static = Some s"
    by blast
  have region: "region_pages x y \<subseteq> pmm_used_set s"
    if "\<And>p. p \<in> region_pages x y \<Longrightarrow> bitmap_test s p" for x y
    using that by (auto simp: pmm_used_set_def region_pages_def)
  have low: "region_pages 0 0x200000 \<subseteq> pmm_used_set s"
    by (rule region) (simp add: s pmm_reserve_fixed_test)
  moreover have "0 \<in> region_pages 0 0x200000" unfolding region_pages_low by simp
  ultimately have "0 \<in> pmm_used_set s" by blast
  then have "bitmap_test s 0" by (simp add: pmm_used_set_def)
  with pmm_reserve_fixed_ok [OF s1] have "pmm_inv s"
    by (simp add: s boot_ok_def pmm_inv_def)
  moreover have "{0..<512} \<subseteq> pmm_used_set s" using low by (simp only: region_pages_low)
  ultimately show ?thesis using init
    by (intro exI [of _ s] conjI impI region) (simp_all add: s pmm_reserve_fixed_test)
qed

text \<open>
  \<open>pmm_get_stats\<close> agrees with a walk of the bitmap: when every page at or above
  the top of RAM is marked, the constant-time arithmetic on the counter yields the number
  of set and of clear bits below it.
\<close>

lemma pmm_get_stats_correct:
  assumes "pmm_count_ok s" and "unat (pmm_ram_top s) \<le> PMM_MAX_PAGES * 4096"
    and "ram_pages = unat (pmm_ram_top s) div 4096" and "0 < ram_pages"
    and "\<forall>p. ram_pages \<le> p \<and> p < PMM_MAX_PAGES \<longrightarrow> bitmap_test s p"
  shows "pmm_get_stats s = (of_nat ram_pages, of_nat (card {p. p < ram_pages \<and> bitmap_test s p}),
           of_nat (card {p. p < ram_pages \<and> \<not> bitmap_test s p}))"
proof -
  let ?U = "{p. p < ram_pages \<and> bitmap_test s p}" and ?F = "{p. p < ram_pages \<and> \<not> bitmap_test s p}"
  have le: "ram_pages \<le> PMM_MAX_PAGES" using assms(2,3) by (simp add: PMM_MAX_PAGES_def)
  have "pmm_used_set s = ?U \<union> {ram_pages..<PMM_MAX_PAGES}"
    using assms(5) le by (auto simp: pmm_used_set_def)
  then have "card (pmm_used_set s) = card ?U + (PMM_MAX_PAGES - ram_pages)"
    by (simp add: card_Un_disjoint disjoint_iff)
  then have used: "pmm_used_pages s - (of_nat PMM_MAX_PAGES - of_nat ram_pages) = of_nat (card ?U)"
    using assms(1) le by (simp add: pmm_count_ok_def of_nat_diff)
  have "?U \<union> ?F = {..<ram_pages}" and "?U \<inter> ?F = {}" by auto
  then have split: "card ?U + card ?F = ram_pages"
    by (metis card_Un_disjoint card_lessThan finite_Un finite_lessThan)
  have small: "ram_pages < 2 ^ 64" using le by (simp add: PMM_MAX_PAGES_def)
  have rp: "pmm_ram_top s div 4096 = of_nat ram_pages"
    using assms(3) small by (simp add: word_unat_eq_iff unat_div unat_of_nat_small)
  have "(of_nat ram_pages :: u64) \<noteq> 0"
    using assms(4) small by (simp add: word_unat_eq_iff unat_of_nat_small)
  then have nz: "pmm_ram_top s div 4096 \<noteq> 0" unfolding rp .
  have "\<not> of_nat (card ?U) > (of_nat ram_pages :: u64)"
    using split small by (simp add: word_less_nat_alt unat_of_nat_small)
  moreover have "of_nat n - of_nat u = (of_nat f :: u64)" if "u + f = n" for u f n :: nat
    using that [symmetric] by simp
  then have "of_nat ram_pages - of_nat (card ?U) = (of_nat (card ?F) :: u64)"
    using split by blast
  ultimately show ?thesis
    using nz used by (simp add: pmm_get_stats_def Let_def rp)
qed

text \<open>
  C35. Clearing a region rounds outwards. When a usable range ends inside a page, that page
  is marked free although the bytes past the range are not RAM, and it lies at or above
  \<open>pmm_ram_top\<close>, where the comment of \<open>pmm_get_stats\<close> says no bit is ever
  cleared.
\<close>

theorem pmm_partial_page_freed:
  assumes "unat base + unat len \<le> PMM_MAX_PAGES * 4096" and "len \<noteq> 0"
    and "(unat base + unat len) mod 4096 \<noteq> 0"
    and "edge = (unat base + unat len) div 4096"
  shows "\<not> bitmap_test (pmm_add_usable base len s) edge
     \<and> unat base + unat len < (edge + 1) * 4096"
proof -
  let ?e = "unat base + unat len"
  have sum: "unat (base + len) = ?e"
    using assms(1) by (intro unat_add_small) (simp add: PMM_MAX_PAGES_def)
  have round: "unat ((base + len + 4096 - 1) div 4096) = (?e + 4095) div 4096"
  proof -
    have "unat (base + len) + unat (4095 :: u64) < 2 ^ LENGTH(64)"
      using assms(1) unfolding sum by (simp add: PMM_MAX_PAGES_def)
    from unat_add_small [OF this] have "unat (base + len + 4095) = ?e + 4095"
      unfolding sum by simp
    moreover have "base + len + 4096 - 1 = base + len + 4095" by simp
    ultimately show ?thesis by (simp only: unat_div unat_numeral) simp
  qed
  have cap: "\<not> base + len > pmm_cap4g"
    using assms(1) sum by (simp add: pmm_cap4g_def PAGE_SIZE_def PMM_MAX_PAGES_def word_less_nat_alt)
  have up: "(?e + 4095) div 4096 = edge + 1"
    using div_round_up [OF assms(3)] assms(4) by simp
  have "?e \<noteq> PMM_MAX_PAGES * 4096" using assms(3) by auto
  with assms(1) have "?e < PMM_MAX_PAGES * 4096" by simp
  then have "edge < PMM_MAX_PAGES" unfolding assms(4) by (rule less_mult_imp_div_less)
  moreover have "unat (base div 4096) \<le> edge"
    using assms(4) by (simp add: unat_div div_le_mono)
  ultimately have "edge \<in> region_pages base len"
    unfolding region_pages_def round up by simp
  then show ?thesis
    using cap assms(4) by (simp add: pmm_add_usable_def Let_def pmm_mark_region_test)
qed

section \<open>Concrete instances\<close>

text \<open>A bitmap with every page taken, and one with pages 600 and 601 free.\<close>

definition pmm_full :: pmm_state where
  "pmm_full = pmm_static\<lparr>pmm_bitmap :=
     (\<lambda>i. if i < PMM_MAX_PAGES div 8 then 255 else pmm_bitmap pmm_static i)\<rparr>"

definition pmm_two_free :: pmm_state where
  "pmm_two_free = (bitmap_clear 601 (bitmap_clear 600 pmm_full))
     \<lparr>pmm_last_page := 600, pmm_ram_top := 602 * 4096\<rparr>"

lemma pmm_full_test: "bitmap_test pmm_full p"
proof (rule ccontr)
  assume no: "\<not> bitmap_test pmm_full p"
  then have "p < PMM_MAX_PAGES" by (metis bitmap_test_beyond leI)
  then have "pmm_used_set pmm_full \<noteq> {..<PMM_MAX_PAGES}" using no by (auto simp: pmm_used_set_def)
  then have "pmm_used_set pmm_full \<subset> {..<PMM_MAX_PAGES}" by (auto simp: pmm_used_set_def)
  then have "card (pmm_used_set pmm_full) < PMM_MAX_PAGES"
    by (metis card_lessThan finite_lessThan psubset_card_mono)
  moreover have "pmm_count_ok pmm_full"
    using pmm_all_set_boot_ok unfolding pmm_full_def boot_ok_def by blast
  then have "unat (pmm_used_pages pmm_full) = card (pmm_used_set pmm_full)"
    by (rule pmm_count_ok_unat)
  ultimately show False
    by (simp add: pmm_full_def pmm_static_def PMM_MAX_PAGES_def)
qed

lemma pmm_two_free_test: "bitmap_test pmm_two_free p \<longleftrightarrow> p \<noteq> 600 \<and> p \<noteq> 601"
  by (auto simp: pmm_two_free_def pmm_full_test PMM_MAX_PAGES_def)

lemma pmm_two_free_inv: "pmm_inv pmm_two_free"
proof -
  have "pmm_count_ok pmm_full"
    using pmm_all_set_boot_ok unfolding pmm_full_def boot_ok_def by blast
  then have "pmm_count_ok pmm_two_free"
    unfolding pmm_two_free_def by (simp add: bitmap_clear_count)
  then show ?thesis
    by (simp add: pmm_inv_def pmm_two_free_test)
       (simp add: pmm_two_free_def PMM_MAX_PAGES_def)
qed

lemma pmm_two_free_alloc: "\<exists>s'. pmm_alloc_pages 2 pmm_two_free = (0x258000, s')"
proof -
  have "pmm_last_page pmm_two_free = 600" by (simp add: pmm_two_free_def)
  moreover have "run_scan pmm_two_free 2 600 0 0 = Some 600"
    by (simp add: run_scan.simps [of _ _ 600] run_scan.simps [of _ _ "Suc 600"]
        pmm_two_free_test PMM_MAX_PAGES_def)
       (simp add: run_scan.simps [of _ _ 601] pmm_two_free_test PMM_MAX_PAGES_def)
  ultimately show ?thesis
    by (simp add: pmm_alloc_pages_def pmm_take_run_def page_addr_def PAGE_SIZE_def PMM_MAX_PAGES_def)
qed

theorem pmm_alloc_never_shared_witness:
  "pmm_reachable (pmm_two_free, {}) \<and>
   (\<exists>s'. pmm_alloc_pages 2 pmm_two_free = (0x258000, s') \<and>
     (\<exists>p. 0x258000 = page_addr p \<and> p \<noteq> 0 \<and> p + 2 \<le> PMM_MAX_PAGES \<and> {p..<p + 2} \<inter> {} = {}
        \<and> unat (pmm_used_pages s') = unat (pmm_used_pages pmm_two_free) + 2))"
proof -
  have r: "pmm_reachable (pmm_two_free, {})" by (rule reach_init [OF pmm_two_free_inv])
  obtain s' where e: "pmm_alloc_pages 2 pmm_two_free = (0x258000, s')"
    using pmm_two_free_alloc by blast
  show ?thesis using r e pmm_alloc_never_shared [OF r e] by auto
qed

theorem pmm_alloc_pages_correct_witness:
  "pmm_inv pmm_two_free \<and> free_run pmm_two_free 600 2 \<and>
   (case pmm_alloc_pages 2 pmm_two_free of (a, s') \<Rightarrow>
      \<exists>p. a = page_addr p \<and> a \<noteq> 0 \<and> free_run pmm_two_free p 2
        \<and> (\<forall>q. bitmap_test s' q \<longleftrightarrow> bitmap_test pmm_two_free q \<or> p \<le> q \<and> q < p + 2))"
proof -
  have run: "free_run pmm_two_free 600 2"
    by (auto simp: free_run_def pmm_two_free_test PMM_MAX_PAGES_def)
  then have "\<exists>b. free_run pmm_two_free b 2" by blast
  with pmm_alloc_pages_correct [OF pmm_two_free_inv, of 2] run pmm_two_free_inv
  show ?thesis by (simp split: prod.splits)
qed

text \<open>
  Two boots: a multiboot2 information block at 0x9000 with one MMAP tag that lists 4 MiB of
  RAM at 16 MiB, and a boot without one whose EFI snapshot has one descriptor of
  conventional memory.
\<close>

definition mb2_demo :: "u8 list" where
  "mb2_demo = [56,0,0,0, 0,0,0,0, 6,0,0,0, 40,0,0,0, 24,0,0,0, 0,0,0,0,
     0,0,0,1, 0,0,0,0, 0,0,64,0, 0,0,0,0, 1,0,0,0, 0,0,0,0, 0,0,0,0, 8,0,0,0]"

definition efi_demo :: "u8 list" where
  "efi_demo = [7,0,0,0, 0,0,0,0, 0,0,0,2, 0,0,0,0, 0,0,0,0, 0,0,0,0,
     16,0,0,0, 0,0,0,0, 0,0,0,0, 0,0,0,0]"

definition pmm_demo_boot :: pmm_boot where
  "pmm_demo_boot = \<lparr>kernel_start = 0x100000, kernel_end = 0x400000, bitmap_addr = 0x380000,
     fb_base = 0xE0000000, fb_size = 0x300000,
     efi_memory_map = Some \<lparr>efi_bytes = (\<lambda>i. efi_demo ! i), efi_size = 40, efi_desc_size = 40\<rparr>\<rparr>"

abbreviation mb2_demo_mem :: "nat \<Rightarrow> u8" where
  "mb2_demo_mem a \<equiv> mb2_demo ! (a - 0x9000)"

lemma mb2_demo_reads:
  "rd32 mb2_demo_mem 0x9000 = 56" "rd32 mb2_demo_mem 0x9008 = 6" "rd32 mb2_demo_mem 0x900C = 40"
  "rd32 mb2_demo_mem 0x9010 = 24" "rd64 mb2_demo_mem 0x9018 = 0x1000000"
  "rd64 mb2_demo_mem 0x9020 = 0x400000" "rd32 mb2_demo_mem 0x9028 = 1"
  "rd32 mb2_demo_mem 0x9030 = 0"
  by (simp_all add: rd32_def rd64_def mb2_demo_def)

lemma mb2_demo_tags:
  "mb2_tags mb2_demo_mem 0x9008 0x9038 False s = Some (True, pmm_add_usable 0x1000000 0x400000 s)"
  by (subst mb2_tags.simps, subst mb2_tags.simps) (simp add: mb2_mmap_tag_def
      mb2_mmap_entry_def mb2_demo_reads mb2_advance_def pmm_cap4g_def PMM_MAX_PAGES_def
      PAGE_SIZE_def Let_def)

lemma efi_demo_loop:
  "efi_map_loop (\<lambda>i. efi_demo ! i) 40 40 0 s = Some (pmm_add_usable 0x2000000 0x10000 s)"
proof -
  have "efi_map_loop (\<lambda>i. efi_demo ! i) 40 40 40 t = Some t" for t
    by (simp add: efi_map_loop.simps [of _ 40 40 40])
  moreover have "rd32 (\<lambda>i. efi_demo ! i) 0 = 7" "rd64 (\<lambda>i. efi_demo ! i) 8 = 0x2000000"
    "rd64 (\<lambda>i. efi_demo ! i) 24 = 16"
    by (simp_all add: rd32_def rd64_def efi_demo_def)
  ultimately show ?thesis
    by (subst efi_map_loop.simps) (simp add: Let_def pmm_cap4g_def PMM_MAX_PAGES_def PAGE_SIZE_def)
qed

lemma pmm_demo_boot_ok:
  "boot_info_ok pmm_demo_boot mb2_demo_mem 0x9000" "boot_info_ok pmm_demo_boot (\<lambda>_. 0) 0"
proof -
  have "mb2_entry_sizes mb2_demo_mem 0x9008 0x9038"
    by (subst mb2_entry_sizes.simps, subst mb2_entry_sizes.simps)
       (simp add: mb2_demo_reads mb2_advance_def)
  then show "boot_info_ok pmm_demo_boot mb2_demo_mem 0x9000"
    by (simp add: boot_info_ok_def pmm_demo_boot_def mb2_demo_reads)
  show "boot_info_ok pmm_demo_boot (\<lambda>_. 0) 0"
    by (simp add: boot_info_ok_def pmm_demo_boot_def)
qed

theorem pmm_init_reserves_witness:
  "(\<exists>s. pmm_init pmm_demo_boot mb2_demo_mem 0x9000 pmm_static = Some s \<and> pmm_inv s
     \<and> {0..<512} \<subseteq> pmm_used_set s \<and> region_pages 0x9000 56 \<subseteq> pmm_used_set s)
   \<and> (\<exists>s. pmm_init pmm_demo_boot (\<lambda>_. 0) 0 pmm_static = Some s \<and> pmm_inv s
     \<and> region_pages 0xE0000000 0x300000 \<subseteq> pmm_used_set s)
   \<and> (\<forall>s. mb2_tags mb2_demo_mem 0x9008 0x9038 False s
            = Some (True, pmm_add_usable 0x1000000 0x400000 s))
   \<and> (\<forall>s. efi_map_loop (\<lambda>i. efi_demo ! i) 40 40 0 s
            = Some (pmm_add_usable 0x2000000 0x10000 s))"
proof (intro conjI allI mb2_demo_tags efi_demo_loop)
  show "\<exists>s. pmm_init pmm_demo_boot mb2_demo_mem 0x9000 pmm_static = Some s \<and> pmm_inv s
     \<and> {0..<512} \<subseteq> pmm_used_set s \<and> region_pages 0x9000 56 \<subseteq> pmm_used_set s"
    using pmm_init_reserves [OF pmm_demo_boot_ok(1)] by (auto simp: mb2_demo_reads)
  show "\<exists>s. pmm_init pmm_demo_boot (\<lambda>_. 0) 0 pmm_static = Some s \<and> pmm_inv s
     \<and> region_pages 0xE0000000 0x300000 \<subseteq> pmm_used_set s"
    using pmm_init_reserves [OF pmm_demo_boot_ok(2)] by (auto simp: pmm_demo_boot_def)
qed

lemma pmm_get_stats_correct_example:
  "pmm_get_stats pmm_two_free =
     (602, of_nat (card {p. p < 602 \<and> bitmap_test pmm_two_free p}),
      of_nat (card {p. p < 602 \<and> \<not> bitmap_test pmm_two_free p}))"
  using pmm_get_stats_correct [of pmm_two_free 602] pmm_two_free_inv
  by (simp add: pmm_inv_def pmm_two_free_test) (simp add: pmm_two_free_def PMM_MAX_PAGES_def)

theorem pmm_partial_page_freed_witness:
  "\<not> bitmap_test (pmm_add_usable 0x100000 0x1800 pmm_static) 257"
proof -
  have "\<not> bitmap_test (pmm_add_usable 0x100000 0x1800 pmm_static) 257
      \<and> unat (0x100000 :: u64) + unat (0x1800 :: u64) < (257 + 1) * 4096"
    by (rule pmm_partial_page_freed) (simp_all add: PMM_MAX_PAGES_def)
  then show ?thesis ..
qed

end
