(* ===== verification/Heap.thy ===== *)
theory Heap
  imports Pmm
begin

unbundle bit_operations_syntax

text \<open>
  The kernel heap of \<open>src/kernel/mm/memory.c\<close>: an address-ordered list of blocks, each
  a 24-byte header followed by its payload, first-fit allocation with splitting, and
  coalescing on release. Headers live in a map from addresses to header values and the
  payload bytes in a separate byte memory (no client writes outside its payload). All
  addresses and sizes are 64-bit and wrap. The list walks may not end on a corrupted list,
  so they are \<open>partial_function (option)\<close>. The text that the C code logs is left out.
\<close>

section \<open>State\<close>

definition HEAP_MAGIC :: u32 where
  "HEAP_MAGIC = 0x4B594F53"

record heap_block =
  hb_size :: u64
  hb_next :: u64
  hb_free :: bool
  hb_magic :: u32

record heap =
  heap_start :: u64
  heap_end :: u64
  heap_list :: u64
  hdr :: "u64 \<Rightarrow> heap_block"
  payload :: "u64 \<Rightarrow> u8"

abbreviation HDR :: u64 where
  "HDR \<equiv> 24"

definition put_hdr :: "u64 \<Rightarrow> heap_block \<Rightarrow> heap \<Rightarrow> heap" where
  "put_hdr a b h = h\<lparr>hdr := (hdr h)(a := b)\<rparr>"

section \<open>Statistics and verification walks\<close>

partial_function (option) free_bytes_loop :: "heap \<Rightarrow> u64 \<Rightarrow> u64 \<Rightarrow> u64 option" where
  "free_bytes_loop h it tot =
     (if it = 0 then Some tot
      else free_bytes_loop h (hb_next (hdr h it))
             (if hb_free (hdr h it) then tot + hb_size (hdr h it) else tot))"

definition heap_free_bytes :: "heap \<Rightarrow> u64 option" where
  "heap_free_bytes h = free_bytes_loop h (heap_list h) 0"

record heap_stats =
  arena :: u64
  used_bytes :: u64
  free_bytes :: u64
  largest_free :: u64
  free_blocks :: u64

partial_function (option) stats_loop :: "heap \<Rightarrow> u64 \<Rightarrow> heap_stats \<Rightarrow> heap_stats option" where
  "stats_loop h it out =
     (if it = 0 then Some out
      else stats_loop h (hb_next (hdr h it))
        (if hb_free (hdr h it) then
           out\<lparr>free_bytes := free_bytes out + hb_size (hdr h it),
               free_blocks := free_blocks out + 1,
               largest_free := (if hb_size (hdr h it) > largest_free out
                                then hb_size (hdr h it) else largest_free out)\<rparr>
         else out))"

definition heap_get_stats :: "heap \<Rightarrow> heap_stats option" where
  "heap_get_stats h =
     map_option (\<lambda>out. out\<lparr>used_bytes := arena out - free_bytes out\<rparr>)
       (stats_loop h (heap_list h)
          \<lparr>arena = heap_end h - heap_start h, used_bytes = 0, free_bytes = 0,
           largest_free = 0, free_blocks = 0\<rparr>)"

text \<open>\<open>heap_verify\<close>: 0 for a clean list, -1 otherwise.\<close>

partial_function (option) verify_loop :: "heap \<Rightarrow> u64 \<Rightarrow> u64 \<Rightarrow> int option" where
  "verify_loop h it prev =
     (if it = 0 then Some 0
      else if it < heap_start h \<or> it \<ge> heap_end h \<or> (prev \<noteq> 0 \<and> it \<le> prev)
              \<or> hb_magic (hdr h it) \<noteq> HEAP_MAGIC then Some (-1)
      else if hb_next (hdr h it) \<noteq> 0 \<and> hb_next (hdr h it) \<noteq> it + HDR + hb_size (hdr h it)
      then Some (-1)
      else verify_loop h (hb_next (hdr h it)) it)"

definition heap_verify :: "heap \<Rightarrow> int option" where
  "heap_verify h = verify_loop h (heap_list h) 0"

section \<open>Initialisation\<close>

record memory_map_t =
  base_addr_low :: u32
  base_addr_high :: u32
  length_low :: u32
  length_high :: u32
  mm_type :: u32
  mm_acpi :: u32

definition join64 :: "u32 \<Rightarrow> u32 \<Rightarrow> u64" where
  "join64 hi lo = push_bit 32 (ucast hi) OR ucast lo"

text \<open>The scan for the largest usable range at or above \<open>heap_base\<close>.\<close>

fun largest_region :: "u64 \<Rightarrow> memory_map_t list \<Rightarrow> u64 \<times> u64 \<Rightarrow> u64 \<times> u64" where
  "largest_region heap_base [] acc = acc"
| "largest_region heap_base (e # es) (lsize, lstart) =
     largest_region heap_base es
       (if mm_type e \<noteq> 1 then (lsize, lstart)
        else (let base = join64 (base_addr_high e) (base_addr_low e);
                  len = join64 (length_high e) (length_low e)
              in if len > lsize \<and> base \<ge> heap_base then (len, base) else (lsize, lstart)))"

definition heap_range :: "u64 \<Rightarrow> memory_map_t list \<Rightarrow> u64 \<times> u64" where
  "heap_range kend mm =
     (let heap_base = (kend + 0xFFF) AND NOT 0xFFF;
          heap_base = (if heap_base < 0x200000 then 0x200000 else heap_base);
          (lsize, lstart) = largest_region heap_base mm (0, heap_base)
      in if mm \<noteq> [] \<and> lsize > 0x100000
         then (lstart, lstart + (if lsize > 0x2000000 then 0x2000000 else lsize))
         else (heap_base, heap_base + 0x2000000))"

definition memory_init :: "u64 \<Rightarrow> memory_map_t list \<Rightarrow> heap \<Rightarrow> pmm_state \<Rightarrow> heap \<times> pmm_state" where
  "memory_init kend mm h p =
     (let (hs, he) = heap_range kend mm in
      (put_hdr hs \<lparr>hb_size = he - hs - HDR, hb_next = 0, hb_free = True, hb_magic = HEAP_MAGIC\<rparr>
         (h\<lparr>heap_start := hs, heap_end := he, heap_list := hs\<rparr>),
       pmm_mark_region hs (he - hs) True p))"

section \<open>Allocation\<close>

definition round8 :: "u64 \<Rightarrow> u64" where
  "round8 sz = ((if sz = 0 then 8 else sz) + 7) AND NOT 7"

text \<open>
  The search loop: \<open>Inl\<close> the first free block that is large enough, \<open>Inr\<close> the last
  block of the list (0 for an empty list).
\<close>

partial_function (option) kmalloc_find :: "heap \<Rightarrow> u64 \<Rightarrow> u64 \<Rightarrow> u64 \<Rightarrow> (u64 + u64) option" where
  "kmalloc_find h sz current prev =
     (if current = 0 then Some (Inr prev)
      else if hb_free (hdr h current) \<and> hb_size (hdr h current) \<ge> sz then Some (Inl current)
      else kmalloc_find h sz (hb_next (hdr h current)) current)"

text \<open>Taking a block that was found: split when the rest holds a header, then mark it.\<close>

definition kmalloc_take :: "u64 \<Rightarrow> u64 \<Rightarrow> heap \<Rightarrow> heap" where
  "kmalloc_take sz current h =
     (let b = hdr h current;
          h = (if hb_size b - sz > HDR then
                 (let new_block = current + HDR + sz in
                  put_hdr current (b\<lparr>hb_next := new_block, hb_size := sz\<rparr>)
                    (put_hdr new_block
                       \<lparr>hb_size = hb_size b - sz - HDR, hb_next = hb_next b,
                        hb_free = True, hb_magic = HEAP_MAGIC\<rparr> h))
               else h)
      in put_hdr current ((hdr h current)\<lparr>hb_free := False, hb_magic := HEAP_MAGIC\<rparr>) h)"

text \<open>The fallback that appends a block after the last one.\<close>

definition kmalloc_append :: "u64 \<Rightarrow> u64 \<Rightarrow> heap \<Rightarrow> u64 \<times> heap" where
  "kmalloc_append sz prev h =
     (let new_addr = (if prev \<noteq> 0 then prev + HDR + hb_size (hdr h prev)
                      else if heap_list h \<noteq> 0 then heap_list h + HDR + hb_size (hdr h (heap_list h))
                      else heap_start h)
      in if new_addr + HDR + sz \<le> heap_end h then
           (let h1 = put_hdr new_addr
                       \<lparr>hb_size = sz, hb_next = 0, hb_free = False, hb_magic = HEAP_MAGIC\<rparr> h;
                h2 = (if prev \<noteq> 0 then put_hdr prev ((hdr h1 prev)\<lparr>hb_next := new_addr\<rparr>) h1
                      else if heap_list h = 0 then h1\<lparr>heap_list := new_addr\<rparr> else h1)
            in (new_addr + HDR, h2))
         else (0, h))"

definition kmalloc :: "u64 \<Rightarrow> heap \<Rightarrow> (u64 \<times> heap) option" where
  "kmalloc size0 h =
     (let sz = round8 size0 in
      case kmalloc_find h sz (heap_list h) 0 of
        None \<Rightarrow> None
      | Some (Inl current) \<Rightarrow> Some (current + HDR, kmalloc_take sz current h)
      | Some (Inr prev) \<Rightarrow> Some (kmalloc_append sz prev h))"

section \<open>Release\<close>

definition kfree_bad :: "heap \<Rightarrow> u64 \<Rightarrow> bool" where
  "kfree_bad h block =
     (let b = hdr h block; nxt = hb_next b in
      if hb_magic b \<noteq> HEAP_MAGIC then True
      else if nxt \<noteq> 0 then
        (if nxt \<noteq> block + HDR + hb_size b then True
         else nxt < heap_start h \<or> nxt \<ge> heap_end h \<or> hb_magic (hdr h nxt) \<noteq> HEAP_MAGIC)
      else False)"

partial_function (option) kfree_merge :: "heap \<Rightarrow> u64 \<Rightarrow> u64 \<Rightarrow> heap option" where
  "kfree_merge h block current =
     (if current \<noteq> 0 \<and> hb_next (hdr h current) \<noteq> 0 \<and> current \<le> block then
        (let c = hdr h current; n = hdr h (hb_next c) in
         if hb_free c \<and> hb_free n then
           kfree_merge (put_hdr current
             (c\<lparr>hb_size := hb_size c + (HDR + hb_size n), hb_next := hb_next n\<rparr>) h) block current
         else kfree_merge h block (hb_next c))
      else Some h)"

definition kfree :: "u64 \<Rightarrow> heap \<Rightarrow> heap option" where
  "kfree ptr h =
     (if ptr = 0 then Some h
      else if ptr < heap_start h + HDR \<or> ptr \<ge> heap_end h then Some h
      else
        (let block = ptr - HDR in
         if block < heap_start h \<or> block \<ge> heap_end h then Some h
         else if kfree_bad h block then Some h
         else
           (let h = put_hdr block ((hdr h block)\<lparr>hb_free := True\<rparr>) h
            in kfree_merge h block (heap_list h))))"

section \<open>The derived operations\<close>

definition mem_set :: "u64 \<Rightarrow> u8 \<Rightarrow> nat \<Rightarrow> (u64 \<Rightarrow> u8) \<Rightarrow> (u64 \<Rightarrow> u8)" where
  "mem_set ptr v n m = fold (\<lambda>i m. m(ptr + of_nat i := v)) [0..<n] m"

definition mem_copy :: "u64 \<Rightarrow> u64 \<Rightarrow> nat \<Rightarrow> (u64 \<Rightarrow> u8) \<Rightarrow> (u64 \<Rightarrow> u8)" where
  "mem_copy d s n m = fold (\<lambda>i m. m(d + of_nat i := m (s + of_nat i))) [0..<n] m"

definition kcalloc :: "u64 \<Rightarrow> u64 \<Rightarrow> heap \<Rightarrow> (u64 \<times> heap) option" where
  "kcalloc nmemb sz h =
     (if nmemb \<noteq> 0 \<and> sz > (- 1) div nmemb then Some (0, h)
      else
        (let tot = nmemb * sz in
         case kmalloc tot h of
           None \<Rightarrow> None
         | Some (ptr, h') \<Rightarrow>
             Some (ptr, if ptr \<noteq> 0 then h'\<lparr>payload := mem_set ptr 0 (unat tot) (payload h')\<rparr> else h')))"

definition krealloc :: "u64 \<Rightarrow> u64 \<Rightarrow> heap \<Rightarrow> (u64 \<times> heap) option" where
  "krealloc ptr sz h =
     (if ptr = 0 then kmalloc sz h
      else if sz = 0 then map_option (\<lambda>h'. (0, h')) (kfree ptr h)
      else if hb_size (hdr h (ptr - HDR)) \<ge> sz then Some (ptr, h)
      else
        (case kmalloc sz h of
           None \<Rightarrow> None
         | Some (new_ptr, h1) \<Rightarrow>
             (if new_ptr \<noteq> 0 then
                (let h2 = h1\<lparr>payload :=
                       mem_copy new_ptr ptr (unat (hb_size (hdr h1 (ptr - HDR)))) (payload h1)\<rparr>
                 in map_option (\<lambda>h'. (new_ptr, h')) (kfree ptr h2))
              else Some (0, h1))))"

section \<open>The abstract heap\<close>

text \<open>
  An abstract heap is the list of its blocks (payload size, free flag) in address order.
  \<open>chain m a bs e\<close> says that the headers from address \<open>a\<close> on are exactly
  \<open>bs\<close>, back to back, and that the last block ends at \<open>e\<close>.
\<close>

type_synonym ablock = "nat \<times> bool"

fun chain :: "(u64 \<Rightarrow> heap_block) \<Rightarrow> nat \<Rightarrow> ablock list \<Rightarrow> nat \<Rightarrow> bool" where
  "chain m a [] e = (a = e)"
| "chain m a ((n, f) # bs) e =
     (m (of_nat a) = \<lparr>hb_size = of_nat n, hb_next = (if bs = [] then 0 else of_nat (a + 24 + n)),
                      hb_free = f, hb_magic = HEAP_MAGIC\<rparr>
      \<and> chain m (a + 24 + n) bs e)"

definition heap_abs :: "heap \<Rightarrow> ablock list \<Rightarrow> bool" where
  "heap_abs h bs \<longleftrightarrow> bs \<noteq> [] \<and> heap_list h = heap_start h \<and> heap_start h \<noteq> 0
     \<and> chain (hdr h) (unat (heap_start h)) bs (unat (heap_end h))"

text \<open>Block start addresses, live blocks (address of the payload, its size), free bytes.\<close>

fun starts :: "nat \<Rightarrow> ablock list \<Rightarrow> nat list" where
  "starts a [] = []"
| "starts a ((n, f) # bs) = a # starts (a + 24 + n) bs"

fun live :: "nat \<Rightarrow> ablock list \<Rightarrow> (nat \<times> nat) list" where
  "live a [] = []"
| "live a ((n, f) # bs) = (if f then live (a + 24 + n) bs else (a + 24, n) # live (a + 24 + n) bs)"

fun no_adj_free :: "ablock list \<Rightarrow> bool" where
  "no_adj_free ((n, f) # (m, g) # bs) = (\<not> (f \<and> g) \<and> no_adj_free ((m, g) # bs))"
| "no_adj_free bs = True"

text \<open>The specification of allocation: first fit, splitting when a header fits in the rest.\<close>

definition split_block :: "nat \<Rightarrow> nat \<Rightarrow> ablock list" where
  "split_block k n = (if n - k > 24 then [(k, False), (n - k - 24, True)] else [(n, False)])"

fun ff_alloc :: "nat \<Rightarrow> nat \<Rightarrow> ablock list \<Rightarrow> (nat \<times> ablock list) option" where
  "ff_alloc k a [] = None"
| "ff_alloc k a ((n, f) # bs) =
     (if f \<and> k \<le> n then Some (a, split_block k n @ bs)
      else map_option (\<lambda>(c, bs'). (c, (n, f) # bs')) (ff_alloc k (a + 24 + n) bs))"

text \<open>The specification of release: mark the block, then merge neighbours up to it.\<close>

fun mark_free :: "nat \<Rightarrow> nat \<Rightarrow> ablock list \<Rightarrow> ablock list" where
  "mark_free c a [] = []"
| "mark_free c a ((n, f) # bs) =
     (if a = c then (n, True) # bs else (n, f) # mark_free c (a + 24 + n) bs)"

fun merge_pass :: "nat \<Rightarrow> nat \<Rightarrow> ablock list \<Rightarrow> ablock list" where
  "merge_pass c a ((n, f) # (m, g) # bs) =
     (if c < a then (n, f) # (m, g) # bs
      else if f \<and> g then merge_pass c a ((n + (24 + m), True) # bs)
      else (n, f) # merge_pass c (a + 24 + n) ((m, g) # bs))"
| "merge_pass c a [] = []"
| "merge_pass c a [b] = [b]"

definition rnd8 :: "nat \<Rightarrow> nat" where
  "rnd8 n = (if n = 0 then 8 else (n + 7) div 8 * 8)"

section \<open>Chains\<close>

lemma chain_le: "chain m a bs e \<Longrightarrow> a \<le> e"
  by (induction m a bs e rule: chain.induct) auto

lemma chain_le_next: "chain m a ((n, f) # bs) e \<Longrightarrow> a + 24 + n \<le> e"
  using chain_le by fastforce

lemma chain_starts: "chain m a bs e \<Longrightarrow> c \<in> set (starts a bs) \<Longrightarrow> a \<le> c \<and> c + 24 \<le> e"
  by (induction m a bs e rule: chain.induct) (auto dest: chain_le)

lemma of_nat_u64_inj:
  "x < 2 ^ 64 \<Longrightarrow> y < 2 ^ 64 \<Longrightarrow> (of_nat x :: u64) = of_nat y \<longleftrightarrow> x = y"
  by (simp add: word_unat_eq_iff unat_of_nat_small)

lemma of_nat_u64_0: "x < 2 ^ 64 \<Longrightarrow> (of_nat x :: u64) = 0 \<longleftrightarrow> x = 0"
  using of_nat_u64_inj [of x 0] by simp

text \<open>Headers below the start of a chain do not matter to it.\<close>

lemma chain_upd_below:
  assumes "chain m a bs e" and "e < 2 ^ 64" and "x < a"
  shows "chain (m(of_nat x := v)) a bs e"
  using assms
proof (induction m a bs e rule: chain.induct)
  case (2 m a n f bs e)
  from "2.prems" have "a < 2 ^ 64" using chain_le [OF "2.prems"(1)] by simp
  with "2.prems"(3) have "(of_nat a :: u64) \<noteq> of_nat x" by (simp add: of_nat_u64_inj)
  with 2 show ?case by simp
qed simp

lemma chain_same:
  assumes "chain m a bs e" and "e < 2 ^ 64" and "\<And>x. a \<le> unat x \<Longrightarrow> m' x = m x"
  shows "chain m' a bs e"
  using assms
proof (induction m a bs e rule: chain.induct)
  case (2 m a n f bs e)
  from "2.prems" have "a < 2 ^ 64" using chain_le [OF "2.prems"(1)] by simp
  then have "unat (of_nat a :: u64) = a" by (simp add: unat_of_nat_small)
  with "2.prems"(3) [of "of_nat a"] have "m' (of_nat a) = m (of_nat a)" by simp
  with 2 show ?case by simp
qed simp

lemma rnd8_le: "rnd8 n \<le> n + 8"
proof -
  have "(n + 7) div 8 * 8 \<le> n + 7" by (rule div_times_less_eq_dividend)
  then show ?thesis unfolding rnd8_def by (simp only: split: if_split) linarith
qed

lemma rnd8_ge: "n \<le> rnd8 n"
proof -
  have "n + 7 = (n + 7) div 8 * 8 + (n + 7) mod 8" by (rule div_mult_mod_eq [symmetric])
  moreover have "(n + 7) mod 8 < 8" by simp
  ultimately show ?thesis unfolding rnd8_def by (simp only: split: if_split) linarith
qed

lemma rnd8_pos: "0 < rnd8 n"
  using rnd8_ge [of n] by (cases "n = 0") (auto simp: rnd8_def)

lemma rnd8_dvd: "8 dvd rnd8 n"
  by (simp add: rnd8_def)

lemma unat_round8:
  assumes "unat sz + 7 < 2 ^ 64"
  shows "unat (round8 sz) = rnd8 (unat sz)"
proof -
  have seven: "(7 :: u64) = mask 3" by (simp add: mask_eq_exp_minus_1)
  show ?thesis
  proof (cases "sz = 0")
    case True
    have "unat ((8 + 7 :: u64) AND NOT (mask 3)) = unat (8 + 7 :: u64) div 2 ^ 3 * 2 ^ 3"
      by (rule unat_and_not_mask)
    then show ?thesis using True unfolding round8_def by (simp add: rnd8_def flip: seven)
  next
    case False
    have "unat (sz + 7) = unat sz + 7"
      using assms unat_add_small [of sz 7] by simp
    moreover have "unat sz \<noteq> 0" using False by (simp add: unat_eq_zero)
    moreover have "unat ((sz + 7) AND NOT (mask 3)) = unat (sz + 7) div 2 ^ 3 * 2 ^ 3"
      by (rule unat_and_not_mask)
    ultimately show ?thesis using False unfolding round8_def by (simp add: rnd8_def flip: seven)
  qed
qed

section \<open>Allocation refines first fit\<close>

fun last_start :: "nat \<Rightarrow> ablock list \<Rightarrow> nat" where
  "last_start a [] = a"
| "last_start a [b] = a"
| "last_start a ((n, f) # b # bs) = last_start (a + 24 + n) (b # bs)"

lemma kmalloc_find_chain:
  assumes "chain (hdr h) a bs e" and "e < 2 ^ 64" and "0 < a" and "bs \<noteq> []" and "k < 2 ^ 64"
  shows "kmalloc_find h (of_nat k) (of_nat a) prev =
     Some (case ff_alloc k a bs of Some (c, bs') \<Rightarrow> Inl (of_nat c)
           | None \<Rightarrow> Inr (of_nat (last_start a bs)))"
  using assms
proof (induction a bs arbitrary: prev rule: last_start.induct)
  case (1 a)
  then show ?case by simp
next
  case (2 a b)
  obtain n f where b: "b = (n, f)" by (cases b)
  have "a < 2 ^ 64" and "n < 2 ^ 64" using 2 chain_le b by auto
  with 2 b show ?case
    by (simp add: kmalloc_find.simps [of _ _ "of_nat a"] kmalloc_find.simps [of _ _ 0]
        of_nat_u64_0 word_le_nat_alt unat_of_nat_small)
next
  case (3 a n f b bs)
  have lt: "a < 2 ^ 64" "n < 2 ^ 64" using "3.prems" chain_le [of "hdr h" "a + 24 + n" "b # bs" e] by auto
  let ?next = "of_nat (a + 24 + n)"
  show ?case
  proof (cases "f \<and> k \<le> n")
    case True
    with "3.prems" lt show ?thesis
      by (simp add: kmalloc_find.simps [of _ _ "of_nat a"] of_nat_u64_0 word_le_nat_alt
          unat_of_nat_small)
  next
    case False
    with "3.prems" lt have "kmalloc_find h (of_nat k) (of_nat a) prev =
        kmalloc_find h (of_nat k) ?next (of_nat a)"
      by (auto simp: kmalloc_find.simps [of _ _ "of_nat a"] of_nat_u64_0 word_le_nat_alt
          unat_of_nat_small)
    also have "\<dots> = Some (case ff_alloc k (a + 24 + n) (b # bs) of Some (c, bs') \<Rightarrow> Inl (of_nat c)
           | None \<Rightarrow> Inr (of_nat (last_start (a + 24 + n) (b # bs))))"
      using "3.prems" by (intro "3.IH") auto
    finally show ?thesis using False by (auto split: option.splits)
  qed
qed

lemma kmalloc_take_frame [simp]:
  "heap_start (kmalloc_take sz c h) = heap_start h"
  "heap_end (kmalloc_take sz c h) = heap_end h"
  "heap_list (kmalloc_take sz c h) = heap_list h"
  "payload (kmalloc_take sz c h) = payload h"
  by (simp_all add: kmalloc_take_def put_hdr_def Let_def)

lemma kmalloc_take_head:
  assumes ch: "chain (hdr h) a ((n, True) # bs) e" and e: "e < 2 ^ 64" and k: "k \<le> n"
  shows "chain (hdr (kmalloc_take (of_nat k) (of_nat a) h)) a (split_block k n @ bs) e
       \<and> (\<forall>x. unat x < a \<longrightarrow> hdr (kmalloc_take (of_nat k) (of_nat a) h) x = hdr h x)"
proof -
  let ?h' = "kmalloc_take (of_nat k) (of_nat a) h"
  have le: "a + 24 + n \<le> e" using ch chain_le [of "hdr h" "a + 24 + n" bs e] by simp
  have sizes: "unat (of_nat n - of_nat k :: u64) = n - k"
    using le e k by (simp add: unat_of_nat_small flip: of_nat_diff)
  have rest: "chain (hdr h) (a + 24 + n) bs e" using ch by simp
  have un: "unat (of_nat a :: u64) = a" using le e by (simp add: unat_of_nat_small)
  show ?thesis
  proof (cases "n - k > 24")
    case True
    let ?new = "a + 24 + k"
    have new: "unat (of_nat ?new :: u64) = ?new" using le e k by (intro unat_of_nat_small) simp
    have new_eq: "of_nat a + 24 + of_nat k = (of_nat ?new :: u64)" by simp
    have ne: "(of_nat ?new :: u64) \<noteq> of_nat a" using un new by (metis add_cancel_right_right
        add_is_0 add.assoc zero_neq_numeral)
    have bound: "(24 :: u64) < of_nat n - of_nat k"
      using True sizes by (simp add: word_less_nat_alt)
    let ?B1 = "\<lparr>hb_size = of_nat k, hb_next = of_nat ?new, hb_free = False, hb_magic = HEAP_MAGIC\<rparr>"
    let ?B2 = "\<lparr>hb_size = of_nat (n - k - 24), hb_next = (if bs = [] then 0 else of_nat (a + 24 + n)),
        hb_free = True, hb_magic = HEAP_MAGIC\<rparr>"
    have sz2: "of_nat n - of_nat k - 24 = (of_nat (n - k - 24) :: u64)"
      using True k by (simp add: of_nat_diff)
    have hdr': "hdr ?h' = (hdr h)(of_nat ?new := ?B2, of_nat a := ?B1)"
      using ch bound ne sz2 unfolding kmalloc_take_def put_hdr_def Let_def new_eq by simp
    have "chain (hdr ?h') (a + 24 + n) bs e"
      unfolding hdr' using rest e k True by (intro chain_upd_below) auto
    moreover have "hdr ?h' (of_nat a) = ?B1" "hdr ?h' (of_nat ?new) = ?B2"
      unfolding hdr' using ne by simp_all
    moreover have "?new + 24 + (n - k - 24) = a + 24 + n" using True k by simp
    ultimately have "chain (hdr ?h') a ((k, False) # (n - k - 24, True) # bs) e"
      by (simp only: chain.simps list.distinct if_False simp_thms)
    moreover have "hdr ?h' x = hdr h x" if "unat x < a" for x
      using that un new unfolding hdr' by auto
    ultimately show ?thesis using True by (simp add: split_block_def)
  next
    case False
    then have "\<not> (24 :: u64) < of_nat n - of_nat k"
      using sizes by (simp add: word_less_nat_alt)
    then have hdr': "hdr ?h' = (hdr h)(of_nat a := (hdr h (of_nat a))
        \<lparr>hb_free := False, hb_magic := HEAP_MAGIC\<rparr>)"
      using ch unfolding kmalloc_take_def put_hdr_def Let_def by simp
    have "chain (hdr ?h') (a + 24 + n) bs e"
      unfolding hdr' using rest e by (intro chain_upd_below) auto
    with ch have "chain (hdr ?h') a ((n, False) # bs) e" by (simp add: hdr')
    moreover have "hdr ?h' x = hdr h x" if "unat x < a" for x
      using that un unfolding hdr' by auto
    ultimately show ?thesis using False by (simp add: split_block_def)
  qed
qed

lemma ff_alloc_chain:
  assumes "chain (hdr h) a bs e" and "e < 2 ^ 64" and "ff_alloc k a bs = Some (c, bs')"
  shows "chain (hdr (kmalloc_take (of_nat k) (of_nat c) h)) a bs' e
       \<and> (\<forall>x. unat x < a \<longrightarrow> hdr (kmalloc_take (of_nat k) (of_nat c) h) x = hdr h x)
       \<and> (bs' = [] \<longleftrightarrow> bs = [])"
  using assms
proof (induction k a bs arbitrary: bs' rule: ff_alloc.induct)
  case (1 k a)
  then show ?case by simp
next
  case (2 k a n f bs)
  show ?case
  proof (cases "f \<and> k \<le> n")
    case True
    with "2.prems" have "c = a" and "bs' = split_block k n @ bs" and "f" by auto
    with kmalloc_take_head [of h a n bs e k] "2.prems" True show ?thesis
      by (auto simp: split_block_def)
  next
    case False
    with "2.prems" obtain bs1 where bs1: "ff_alloc k (a + 24 + n) bs = Some (c, bs1)"
      and bs': "bs' = (n, f) # bs1" by auto
    let ?h' = "kmalloc_take (of_nat k) (of_nat c) h"
    from "2.prems" False bs1 have IH: "chain (hdr ?h') (a + 24 + n) bs1 e"
      "\<forall>x. unat x < a + 24 + n \<longrightarrow> hdr ?h' x = hdr h x" "bs1 = [] \<longleftrightarrow> bs = []"
      using "2.IH" by auto
    have "unat (of_nat a :: u64) = a"
      using "2.prems"(2) chain_le [OF "2.prems"(1)] by (simp add: unat_of_nat_small)
    with IH "2.prems" show ?thesis by (auto simp: bs')
  qed
qed

lemma last_start_chain:
  assumes "chain m a bs e" and "bs \<noteq> []"
  shows "\<exists>n f. m (of_nat (last_start a bs)) = \<lparr>hb_size = of_nat n, hb_next = 0, hb_free = f,
                    hb_magic = HEAP_MAGIC\<rparr> \<and> last_start a bs + 24 + n = e \<and> a \<le> last_start a bs"
  using assms
proof (induction a bs rule: last_start.induct)
  case (2 a b)
  then show ?case by (cases b) auto
next
  case (3 a n f b bs)
  then have "chain m (a + 24 + n) (b # bs) e" by simp
  from "3.IH" [OF this] show ?case by fastforce
qed simp

lemma kmalloc_refines_size:
  assumes abs: "heap_abs h bs" and rk: "round8 sz = of_nat k"
    and fits: "unat (heap_end h) + k + 24 < 2 ^ 64"
  shows "case ff_alloc k (unat (heap_start h)) bs of
           None \<Rightarrow> kmalloc sz h = Some (0, h)
         | Some (c, bs') \<Rightarrow> \<exists>h'. kmalloc sz h = Some (of_nat (c + 24), h') \<and> heap_abs h' bs'
              \<and> heap_start h' = heap_start h \<and> heap_end h' = heap_end h \<and> payload h' = payload h"
proof -
  let ?a = "unat (heap_start h)" and ?e = "unat (heap_end h)"
  from abs have ch: "chain (hdr h) ?a bs ?e" and ne: "bs \<noteq> []" and a0: "0 < ?a"
    and hl: "heap_list h = of_nat ?a"
    by (auto simp: heap_abs_def unat_gt_0)
  have find: "kmalloc_find h (of_nat k) (of_nat ?a) 0 =
     Some (case ff_alloc k ?a bs of Some (c, bs') \<Rightarrow> Inl (of_nat c)
           | None \<Rightarrow> Inr (of_nat (last_start ?a bs)))"
    using ch ne a0 fits by (intro kmalloc_find_chain) auto
  show ?thesis
  proof (cases "ff_alloc k ?a bs")
    case None
    let ?l = "last_start ?a bs"
    obtain n f where last: "hdr h (of_nat ?l) = \<lparr>hb_size = of_nat n, hb_next = 0, hb_free = f,
        hb_magic = HEAP_MAGIC\<rparr>" "?l + 24 + n = ?e" "?a \<le> ?l"
      using last_start_chain [OF ch ne] by auto
    have "(of_nat ?l :: u64) \<noteq> 0"
      using last a0 fits by (subst of_nat_u64_0) auto
    moreover have new: "of_nat ?l + HDR + of_nat n = heap_end h"
      using last(2) by (metis of_nat_add of_nat_numeral of_nat_unat_id)
    moreover have "\<not> heap_end h + HDR + of_nat k \<le> heap_end h"
    proof -
      have "unat (of_nat (?e + 24 + k) :: u64) = ?e + 24 + k"
        using fits by (intro unat_of_nat_small) auto
      then show ?thesis by (simp add: word_le_nat_alt)
    qed
    ultimately have "kmalloc_append (of_nat k) (of_nat ?l) h = (0, h)"
      unfolding kmalloc_append_def Let_def by (simp add: last(1))
    then show ?thesis using None find by (simp add: kmalloc_def rk hl)
  next
    case (Some r)
    obtain c bs' where r: "r = (c, bs')" by (cases r)
    let ?h' = "kmalloc_take (of_nat k) (of_nat c) h"
    have "chain (hdr ?h') ?a bs' ?e \<and> (bs' = [] \<longleftrightarrow> bs = [])"
      using ff_alloc_chain [OF ch _ Some [unfolded r]] by simp
    then have "heap_abs ?h' bs'" using abs by (auto simp: heap_abs_def)
    moreover have "kmalloc sz h = Some (of_nat (c + 24), ?h')"
      using Some find r by (simp add: kmalloc_def rk hl)
    ultimately show ?thesis using Some r by simp
  qed
qed

lemma kmalloc_refines:
  assumes "heap_abs h bs" and fits: "unat (heap_end h) + unat sz + 32 < 2 ^ 64"
  shows "case ff_alloc (rnd8 (unat sz)) (unat (heap_start h)) bs of
           None \<Rightarrow> kmalloc sz h = Some (0, h)
         | Some (c, bs') \<Rightarrow> \<exists>h'. kmalloc sz h = Some (of_nat (c + 24), h') \<and> heap_abs h' bs'
              \<and> heap_start h' = heap_start h \<and> heap_end h' = heap_end h \<and> payload h' = payload h"
proof (rule kmalloc_refines_size [OF assms(1)])
  have "unat (round8 sz) = rnd8 (unat sz)" using fits by (intro unat_round8) simp
  then show "round8 sz = of_nat (rnd8 (unat sz))" by (metis of_nat_unat_id)
  show "unat (heap_end h) + rnd8 (unat sz) + 24 < 2 ^ 64" using fits rnd8_le [of "unat sz"] by simp
qed

section \<open>Release refines marking and merging\<close>

lemma chain_at:
  assumes "chain m a bs e" and "c \<in> set (starts a bs)"
  shows "\<exists>n f ys. chain m c ((n, f) # ys) e \<and> a \<le> c"
  using assms
proof (induction m a bs e rule: chain.induct)
  case (2 m a n f bs e)
  show ?case
  proof (cases "c = a")
    case True
    with 2 show ?thesis by blast
  next
    case False
    with 2 obtain n' f' ys where "chain m c ((n', f') # ys) e \<and> a + 24 + n \<le> c" by auto
    then show ?thesis by (meson add_leD1 order_trans)
  qed
qed simp

lemma kfree_bad_chain:
  assumes ch: "chain (hdr h) c ((n, f) # ys) (unat (heap_end h))"
    and c: "unat (heap_start h) \<le> c"
  shows "\<not> kfree_bad h (of_nat c)"
proof (cases ys)
  case Nil
  with ch show ?thesis by (simp add: kfree_bad_def)
next
  case (Cons y zs)
  obtain n' f' where y: "y = (n', f')" by (cases y)
  let ?x = "c + 24 + n"
  have "chain (hdr h) (?x + 24 + n') zs (unat (heap_end h))" using ch Cons y by simp
  then have "?x < unat (heap_end h)" using chain_le by fastforce
  then have "unat (of_nat ?x :: u64) = ?x"
    by (intro unat_of_nat_le [of _ "heap_end h"]) simp
  then have "heap_start h \<le> of_nat ?x \<and> of_nat ?x < heap_end h"
    using c \<open>?x < unat (heap_end h)\<close> by (simp add: word_le_nat_alt word_less_nat_alt)
  with ch Cons y show ?thesis by (auto simp: kfree_bad_def Let_def)
qed

lemma mark_free_chain:
  assumes "chain m a bs e" and "e < 2 ^ 64" and "c \<in> set (starts a bs)"
  shows "chain (m(of_nat c := (m (of_nat c))\<lparr>hb_free := True\<rparr>)) a (mark_free c a bs) e
       \<and> (mark_free c a bs = [] \<longleftrightarrow> bs = [])"
  using assms
proof (induction m a bs e rule: chain.induct)
  case (2 m a n f bs e)
  show ?case
  proof (cases "c = a")
    case True
    let ?m = "m(of_nat a := (m (of_nat a))\<lparr>hb_free := True\<rparr>)"
    have "chain ?m (a + 24 + n) bs e" using "2.prems" by (intro chain_upd_below) auto
    moreover have "?m (of_nat a) = (m (of_nat a))\<lparr>hb_free := True\<rparr>" by simp
    ultimately have "chain ?m a ((n, True) # bs) e"
      using "2.prems"(1) by (simp only: chain.simps heap_block.simps simp_thms)
    then show ?thesis using True by (simp only: mark_free.simps if_True list.distinct simp_thms)
  next
    case False
    with 2 have c: "a + 24 + n \<le> c" "c + 24 \<le> e"
      using chain_starts [of m "a + 24 + n" bs e c] by auto
    then have "(of_nat a :: u64) \<noteq> of_nat c" using False "2.prems" by (subst of_nat_u64_inj) auto
    with False 2 show ?thesis by auto
  qed
qed simp

lemma kfree_merge_chain:
  assumes "chain (hdr h) a bs e" and "e < 2 ^ 64" and "0 < a" and "bs \<noteq> []" and "c < 2 ^ 64"
  shows "\<exists>h'. kfree_merge h (of_nat c) (of_nat a) = Some h'
       \<and> chain (hdr h') a (merge_pass c a bs) e \<and> merge_pass c a bs \<noteq> []
       \<and> (\<forall>x. unat x < a \<longrightarrow> hdr h' x = hdr h x)
       \<and> heap_start h' = heap_start h \<and> heap_end h' = heap_end h
       \<and> heap_list h' = heap_list h \<and> payload h' = payload h"
  using assms
proof (induction c a bs arbitrary: h rule: merge_pass.induct)
  case (1 c a n f m g bs h)
  let ?x = "a + 24 + n"
  have le: "?x + 24 + m \<le> e" using "1.prems" chain_le [of "hdr h" "?x + 24 + m" bs e] by auto
  have un: "unat (of_nat a :: u64) = a" "unat (of_nat c :: u64) = c" "unat (of_nat ?x :: u64) = ?x"
    using le "1.prems"(2,5) by (intro unat_of_nat_small, simp)+
  have nz: "(of_nat ?x :: u64) \<noteq> 0" "(of_nat a :: u64) \<noteq> 0"
    using le "1.prems" un by (metis unat_0 add_is_0 less_numeral_extra(3))+
  have cmp: "(of_nat a :: u64) \<le> of_nat c \<longleftrightarrow> a \<le> c" by (simp add: word_le_nat_alt un)
  have ha: "hdr h (of_nat a) = \<lparr>hb_size = of_nat n, hb_next = of_nat ?x, hb_free = f,
      hb_magic = HEAP_MAGIC\<rparr>"
    and hx: "hdr h (of_nat ?x) = \<lparr>hb_size = of_nat m, hb_next = (if bs = [] then 0
      else of_nat (?x + 24 + m)), hb_free = g, hb_magic = HEAP_MAGIC\<rparr>"
    and rest: "chain (hdr h) (?x + 24 + m) bs e" and tl: "chain (hdr h) ?x ((m, g) # bs) e"
    using "1.prems"(1) by auto
  note unf = kfree_merge.simps [of h "of_nat c" "of_nat a"]
  consider "c < a" | "a \<le> c" "f \<and> g" | "a \<le> c" "\<not> (f \<and> g)" by linarith
  then show ?case
  proof cases
    case 1
    then have "kfree_merge h (of_nat c) (of_nat a) = Some h" by (subst unf) (simp add: cmp)
    with 1 "1.prems" show ?thesis by auto
  next
    case 2
    let ?B = "\<lparr>hb_size = of_nat (n + (24 + m)), hb_next = (if bs = [] then 0
      else of_nat (a + 24 + (n + (24 + m)))), hb_free = True, hb_magic = HEAP_MAGIC\<rparr>"
    let ?h = "put_hdr (of_nat a) ?B h"
    have "a + 24 + (n + (24 + m)) = ?x + 24 + m" by simp
    then have B: "(hdr h (of_nat a))\<lparr>hb_size := of_nat n + (HDR + of_nat m),
         hb_next := (if bs = [] then 0 else of_nat (?x + 24 + m))\<rparr> = ?B"
      using 2 ha by simp
    have step: "kfree_merge h (of_nat c) (of_nat a) = kfree_merge ?h (of_nat c) (of_nat a)"
      by (subst unf) (use 2 nz cmp B in \<open>simp only: ha hx Let_def heap_block.simps simp_thms if_True\<close>)
    have "chain (hdr ?h) (?x + 24 + m) bs e"
      unfolding put_hdr_def using rest "1.prems" by (auto intro!: chain_upd_below)
    moreover have "hdr ?h (of_nat a) = ?B" by (simp add: put_hdr_def)
    moreover have "a + 24 + (n + (24 + m)) = ?x + 24 + m" by simp
    ultimately have ch: "chain (hdr ?h) a ((n + (24 + m), True) # bs) e"
      by (simp only: chain.simps simp_thms)
    have frame: "hdr ?h x = hdr h x" if "unat x < a" for x
      using that un by (auto simp: put_hdr_def)
    from 2 have "\<not> c < a" by simp
    from "1.IH"(1) [OF this 2(2) ch] "1.prems" obtain h' where
      "kfree_merge ?h (of_nat c) (of_nat a) = Some h'"
      "chain (hdr h') a (merge_pass c a ((n + (24 + m), True) # bs)) e"
      "merge_pass c a ((n + (24 + m), True) # bs) \<noteq> []"
      "\<forall>x. unat x < a \<longrightarrow> hdr h' x = hdr ?h x"
      "heap_start h' = heap_start ?h \<and> heap_end h' = heap_end ?h
       \<and> heap_list h' = heap_list ?h \<and> payload h' = payload ?h" by auto
    with 2 step frame show ?thesis by (simp add: put_hdr_def)
  next
    case 3
    have step: "kfree_merge h (of_nat c) (of_nat a) = kfree_merge h (of_nat c) (of_nat ?x)"
      by (subst unf) (use 3 nz cmp in \<open>simp only: ha hx Let_def heap_block.simps simp_thms if_True if_False\<close>)
    from 3 have "\<not> c < a" by simp
    from "1.IH"(2) [OF this 3(2) tl] "1.prems" obtain h' where h':
      "kfree_merge h (of_nat c) (of_nat ?x) = Some h'"
      "chain (hdr h') ?x (merge_pass c ?x ((m, g) # bs)) e" "merge_pass c ?x ((m, g) # bs) \<noteq> []"
      "\<forall>x. unat x < ?x \<longrightarrow> hdr h' x = hdr h x"
      "heap_start h' = heap_start h \<and> heap_end h' = heap_end h
       \<and> heap_list h' = heap_list h \<and> payload h' = payload h" by auto
    have "hdr h' (of_nat a) = hdr h (of_nat a)" using h'(4) un by simp
    with h' ha 3 step show ?thesis by (cases f) simp_all
  qed
next
  case (3 c a b h)
  obtain n f where "b = (n, f)" by (cases b)
  with 3 show ?case by (subst kfree_merge.simps) simp
qed simp

lemma kfree_refines:
  assumes abs: "heap_abs h bs" and c: "c \<in> set (starts (unat (heap_start h)) bs)"
    and lim: "c + 24 < unat (heap_end h)"
  shows "\<exists>h'. kfree (of_nat (c + 24)) h = Some h'
     \<and> heap_abs h' (merge_pass c (unat (heap_start h)) (mark_free c (unat (heap_start h)) bs))
     \<and> heap_start h' = heap_start h \<and> heap_end h' = heap_end h \<and> payload h' = payload h"
proof -
  let ?a = "unat (heap_start h)" and ?e = "unat (heap_end h)" and ?p = "of_nat (c + 24) :: u64"
  let ?h = "put_hdr (of_nat c) ((hdr h (of_nat c))\<lparr>hb_free := True\<rparr>) h"
  from abs have ch: "chain (hdr h) ?a bs ?e" and ne: "bs \<noteq> []" and a0: "0 < ?a"
    and hl: "heap_list h = of_nat ?a"
    by (auto simp: heap_abs_def unat_gt_0)
  obtain n f ys where at: "chain (hdr h) c ((n, f) # ys) ?e" and ac: "?a \<le> c"
    using chain_at [OF ch c] by blast
  have un: "unat ?p = c + 24" "unat (of_nat c :: u64) = c"
    using lim by (auto intro!: unat_of_nat_le [of _ "heap_end h"] simp del: of_nat_add)
  have us: "unat (heap_start h + HDR) = ?a + 24"
    using ac lim unat_of_nat_le [of "?a + 24" "heap_end h"] by simp
  have guards: "?p \<noteq> 0" "\<not> ?p < heap_start h + HDR" "\<not> ?p \<ge> heap_end h"
    "\<not> (of_nat c :: u64) < heap_start h" "\<not> (of_nat c :: u64) \<ge> heap_end h"
    using un us ac lim by (auto simp: word_less_nat_alt word_le_nat_alt simp del: of_nat_add)
  have "?p - HDR = of_nat c" by simp
  then have kfree: "kfree ?p h = kfree_merge ?h (of_nat c) (of_nat ?a)"
    using guards kfree_bad_chain [OF at ac] unfolding kfree_def Let_def
    by (simp add: put_hdr_def hl del: of_nat_add)
  have e: "?e < 2 ^ 64" by simp
  have mk: "chain (hdr ?h) ?a (mark_free c ?a bs) ?e" "mark_free c ?a bs \<noteq> []"
    using mark_free_chain [OF ch e c] ne by (simp_all add: put_hdr_def)
  have "c < 2 ^ 64" using lim e by linarith
  from kfree_merge_chain [OF mk(1) e a0 mk(2) this] kfree show ?thesis
    using abs unfolding heap_abs_def by (auto simp: put_hdr_def)
qed

section \<open>Properties of the abstract operations\<close>

definition sizes_pos :: "ablock list \<Rightarrow> bool" where
  "sizes_pos bs = list_all (\<lambda>(n, f). 0 < n) bs"

definition aligned8 :: "nat \<Rightarrow> ablock list \<Rightarrow> bool" where
  "aligned8 a bs = list_all (\<lambda>c. 8 dvd c) (starts a bs)"

definition wf_blocks :: "nat \<Rightarrow> ablock list \<Rightarrow> bool" where
  "wf_blocks a bs \<longleftrightarrow> sizes_pos bs \<and> aligned8 a bs \<and> no_adj_free bs"

lemma no_adj_free_Cons:
  "no_adj_free ((n, f) # bs) \<longleftrightarrow> (bs \<noteq> [] \<longrightarrow> \<not> (f \<and> snd (hd bs))) \<and> no_adj_free bs"
  by (cases bs) (auto simp: neq_Nil_conv)

lemma ff_alloc_hd:
  "ff_alloc k a bs = Some (c, bs') \<Longrightarrow> bs \<noteq> [] \<and> bs' \<noteq> [] \<and> (snd (hd bs') \<longrightarrow> snd (hd bs))"
  by (cases "(k, a, bs)" rule: ff_alloc.cases) (auto simp: split_block_def split: if_splits)

lemma ff_alloc_wf:
  assumes "ff_alloc k a bs = Some (c, bs')" and "wf_blocks a bs" and "0 < k" and "8 dvd k"
  shows "wf_blocks a bs'"
  using assms
proof (induction k a bs arbitrary: bs' rule: ff_alloc.induct)
  case (2 k a n f bs)
  show ?case
  proof (cases "f \<and> k \<le> n")
    case True
    have "8 dvd a + 24 + k" if "8 dvd a" using that \<open>8 dvd k\<close> by (intro dvd_add) auto
    moreover have "a + 24 + k + 24 + (n - k - 24) = a + 24 + n" if "24 < n - k" using that by simp
    ultimately show ?thesis using 2 True
      by (cases bs) (auto simp: wf_blocks_def sizes_pos_def aligned8_def split_block_def
          no_adj_free_Cons ac_simps)
  next
    case False
    with "2.prems" obtain bs1 where bs1: "ff_alloc k (a + 24 + n) bs = Some (c, bs1)"
      and bs': "bs' = (n, f) # bs1" by auto
    from "2.prems" have "wf_blocks (a + 24 + n) bs"
      by (auto simp: wf_blocks_def sizes_pos_def aligned8_def no_adj_free_Cons)
    with 2 False bs1 have "wf_blocks (a + 24 + n) bs1" by auto
    with ff_alloc_hd [OF bs1] "2.prems" show ?thesis
      by (auto simp: bs' wf_blocks_def sizes_pos_def aligned8_def no_adj_free_Cons)
  qed
qed simp

lemma starts_ge: "c \<in> set (starts a bs) \<Longrightarrow> a \<le> c"
  by (induction a bs rule: starts.induct) auto

lemma live_ge: "(p, n) \<in> set (live a bs) \<Longrightarrow> a + 24 \<le> p"
  by (induction a bs rule: live.induct) (auto split: if_splits)

lemma live_starts: "(p, n) \<in> set (live a bs) \<Longrightarrow> \<exists>c \<in> set (starts a bs). p = c + 24"
  by (induction a bs rule: live.induct) (auto split: if_splits)

lemma live_in_arena: "chain m a bs e \<Longrightarrow> (p, n) \<in> set (live a bs) \<Longrightarrow> p + n \<le> e"
  by (induction m a bs e rule: chain.induct) (auto split: if_splits dest: chain_le)

lemma live_pos: "sizes_pos bs \<Longrightarrow> (p, n) \<in> set (live a bs) \<Longrightarrow> 0 < n"
  by (induction a bs rule: live.induct) (auto simp: sizes_pos_def split: if_splits)

lemma live_disjoint:
  "(p, n) \<in> set (live a bs) \<Longrightarrow> (q, m) \<in> set (live a bs) \<Longrightarrow> (p, n) \<noteq> (q, m)
   \<Longrightarrow> p + n + 24 \<le> q \<or> q + m + 24 \<le> p"
  by (induction a bs rule: live.induct) (auto split: if_splits dest: live_ge)

text \<open>First fit adds exactly one live block, of at least the size asked for.\<close>

lemma ff_alloc_live:
  assumes "ff_alloc k a bs = Some (c, bs')"
  shows "\<exists>n. k \<le> n \<and> n \<le> k + 24 \<and> set (live a bs') = insert (c + 24, n) (set (live a bs))
           \<and> c + 24 \<notin> fst ` set (live a bs) \<and> a \<le> c"
  using assms
proof (induction k a bs arbitrary: bs' rule: ff_alloc.induct)
  case (2 k a n f bs)
  show ?case
  proof (cases "f \<and> k \<le> n")
    case True
    have "a + 24 \<notin> fst ` set (live (a + 24 + n) bs)" by (auto dest: live_ge)
    moreover have "a + 24 + k + 24 + (n - k - 24) = a + 24 + n" if "24 < n - k" using that by simp
    ultimately show ?thesis using 2 True
      by (intro exI [of _ "if 24 < n - k then k else n"]) (auto simp: split_block_def ac_simps)
  next
    case False
    with "2.prems" obtain bs1 where bs1: "ff_alloc k (a + 24 + n) bs = Some (c, bs1)"
      and bs': "bs' = (n, f) # bs1" by auto
    with "2.IH" [OF False bs1] obtain n' where "k \<le> n'" "n' \<le> k + 24"
      "set (live (a + 24 + n) bs1) = insert (c + 24, n') (set (live (a + 24 + n) bs))"
      "c + 24 \<notin> fst ` set (live (a + 24 + n) bs)" "a + 24 + n \<le> c" by auto
    then show ?thesis by (auto simp: bs' intro!: exI [of _ n'])
  qed
qed simp

text \<open>First fit fails only when no free block is large enough, and takes the lowest that is.\<close>

lemma ff_alloc_None: "ff_alloc k a bs = None \<longleftrightarrow> (\<forall>(n, f) \<in> set bs. f \<longrightarrow> n < k)"
  by (induction k a bs rule: ff_alloc.induct) auto

lemma starts_mark_free: "starts a (mark_free c a bs) = starts a bs"
  by (induction c a bs rule: mark_free.induct) auto

lemma starts_merge_pass: "set (starts a (merge_pass c a bs)) \<subseteq> set (starts a bs)"
proof (induction c a bs rule: merge_pass.induct)
  case (1 c a n f m g bs)
  then show ?case by (cases "c < a"; cases "f \<and> g") (auto simp: add.assoc)
qed auto

lemma live_mark_free:
  "set (live a (mark_free c a bs)) = {(p, n) \<in> set (live a bs). p \<noteq> c + 24}"
  by (induction c a bs rule: mark_free.induct) (auto dest: live_ge)

lemma live_merge_pass: "live a (merge_pass c a bs) = live a bs"
proof (induction c a bs rule: merge_pass.induct)
  case (1 c a n f m g bs)
  then show ?case by (cases "c < a"; cases "f \<and> g") (auto simp: add.assoc)
qed auto

lemma merge_pass_sizes: "sizes_pos bs \<Longrightarrow> sizes_pos (merge_pass c a bs)"
proof (induction c a bs rule: merge_pass.induct)
  case (1 c a n f m g bs)
  then show ?case by (cases "c < a"; cases "f \<and> g") (auto simp: sizes_pos_def)
qed auto

lemma mark_free_sizes: "sizes_pos bs \<Longrightarrow> sizes_pos (mark_free c a bs)"
  by (induction c a bs rule: mark_free.induct) (auto simp: sizes_pos_def)

text \<open>Adjacent free blocks only start at or below \<open>c\<close>: what the merging pass needs.\<close>

fun adj_upto :: "nat \<Rightarrow> nat \<Rightarrow> ablock list \<Rightarrow> bool" where
  "adj_upto c a ((n, f) # (m, g) # bs) =
     ((f \<and> g \<longrightarrow> a \<le> c) \<and> adj_upto c (a + 24 + n) ((m, g) # bs))"
| "adj_upto c a bs = True"

lemma adj_upto_no_adj: "adj_upto c a bs \<Longrightarrow> c < a \<Longrightarrow> no_adj_free bs"
  by (induction c a bs rule: adj_upto.induct) auto

lemma no_adj_adj_upto: "no_adj_free bs \<Longrightarrow> adj_upto c a bs"
  by (induction c a bs rule: adj_upto.induct) auto

lemma mark_free_adj: "no_adj_free bs \<Longrightarrow> adj_upto c a (mark_free c a bs)"
proof (induction c a bs rule: adj_upto.induct)
  case (1 c a n f m g bs)
  then show ?case
    by (cases "a = c"; cases "a + 24 + n = c") (auto simp: no_adj_adj_upto no_adj_free_Cons)
qed auto

lemma merge_pass_hd: "merge_pass c a ((m, g) # bs) = (fst (hd (merge_pass c a ((m, g) # bs))), g)
     # tl (merge_pass c a ((m, g) # bs))"
proof (induction c a "(m, g) # bs" arbitrary: m g bs rule: merge_pass.induct)
  case (1 c a n f m g bs)
  then show ?case by (cases "c < a"; cases "f \<and> g") auto
qed auto

lemma merge_pass_no_adj: "adj_upto c a bs \<Longrightarrow> no_adj_free (merge_pass c a bs)"
proof (induction c a bs rule: merge_pass.induct)
  case (1 c a n f m g bs)
  show ?case
  proof (cases "c < a")
    case True
    with 1 show ?thesis by (auto dest: adj_upto_no_adj)
  next
    case False
    show ?thesis
    proof (cases "f \<and> g")
      case True
      have "adj_upto c a ((n + (24 + m), True) # bs)"
        using "1.prems" False by (cases bs) (auto simp: add.assoc)
      with 1 False True show ?thesis by simp
    next
      case F: False
      then show ?thesis
        using 1 False merge_pass_hd [of c "a + 24 + n" m g bs]
        by (auto simp: no_adj_free_Cons) (metis list.sel(1) snd_conv)+
    qed
  qed
qed auto

lemma release_wf:
  assumes "wf_blocks a bs"
  shows "wf_blocks a (merge_pass c a (mark_free c a bs))"
  using assms starts_merge_pass [of a c "mark_free c a bs"]
  by (auto simp: wf_blocks_def aligned8_def starts_mark_free list_all_iff
      intro: merge_pass_sizes mark_free_sizes merge_pass_no_adj mark_free_adj)

section \<open>The allocator interface\<close>

text \<open>
  What every caller of \<open>kmalloc\<close>/\<open>kfree\<close> relies on. \<open>inv h L\<close>: the allocator is
  consistent and \<open>L\<close> are the live blocks (address, size). \<open>ok h n\<close>: a request of
  \<open>n\<close> bytes cannot wrap the address space.
\<close>

inductive served :: "(u64 \<Rightarrow> 'h \<Rightarrow> (u64 \<times> 'h) option) \<Rightarrow> (u64 \<Rightarrow> 'h \<Rightarrow> 'h option)
    \<Rightarrow> ('h \<Rightarrow> u64 \<Rightarrow> bool) \<Rightarrow> 'h \<Rightarrow> 'h \<Rightarrow> (u64 \<times> u64) set \<Rightarrow> bool"
  for alloc free ok h0 where
  served_start: "served alloc free ok h0 h0 {}"
| served_alloc: "served alloc free ok h0 h P \<Longrightarrow> ok h n \<Longrightarrow> alloc n h = Some (p, h')
    \<Longrightarrow> served alloc free ok h0 h' (if p = 0 then P else insert (p, n) P)"
| served_free: "served alloc free ok h0 h P \<Longrightarrow> (p, n) \<in> P \<Longrightarrow> free p h = Some h'
    \<Longrightarrow> served alloc free ok h0 h' (P - {(p, n)})"

locale object_allocator =
  fixes inv :: "'h \<Rightarrow> (nat \<times> nat) set \<Rightarrow> bool"
    and alloc :: "u64 \<Rightarrow> 'h \<Rightarrow> (u64 \<times> 'h) option"
    and free :: "u64 \<Rightarrow> 'h \<Rightarrow> 'h option"
    and ok :: "'h \<Rightarrow> u64 \<Rightarrow> bool"
  assumes alloc_law: "inv h L \<Longrightarrow> ok h n \<Longrightarrow> \<exists>p h'. alloc n h = Some (p, h')
      \<and> (if p = 0 then h' = h
         else \<exists>m. unat n \<le> m \<and> unat p \<notin> fst ` L \<and> inv h' (insert (unat p, m) L))"
    and free_law: "inv h L \<Longrightarrow> (unat p, m) \<in> L
      \<Longrightarrow> \<exists>h'. free p h = Some h' \<and> inv h' (L - {(unat p, m)})"
    and apart_law: "inv h L \<Longrightarrow> (i, k) \<in> L \<Longrightarrow> (j, l) \<in> L \<Longrightarrow> (i, k) \<noteq> (j, l)
      \<Longrightarrow> 0 < k \<and> 0 < l \<and> (i + k \<le> j \<or> j + l \<le> i)"
begin

definition owns :: "(u64 \<times> u64) set \<Rightarrow> (nat \<times> nat) set \<Rightarrow> bool" where
  "owns P L \<longleftrightarrow> inj_on fst P \<and> fst ` L = unat ` fst ` P
     \<and> (\<forall>p n. (p, n) \<in> P \<longrightarrow> (\<exists>m \<ge> unat n. (unat p, m) \<in> L))"

lemma one_size: "inv h L \<Longrightarrow> (p, n) \<in> L \<Longrightarrow> (p, m) \<in> L \<Longrightarrow> n = m"
  using apart_law [of h L p n p m] by auto

lemma owns_block: "owns P L \<Longrightarrow> (p, n) \<in> P \<Longrightarrow> \<exists>m \<ge> unat n. (unat p, m) \<in> L"
  unfolding owns_def by blast

lemma owns_one: "owns P L \<Longrightarrow> (p, n) \<in> P \<Longrightarrow> (p, m) \<in> P \<Longrightarrow> n = m"
  using inj_onD [of fst P "(p, n)" "(p, m)"] by (auto simp: owns_def)

lemma served_owns:
  assumes "served alloc free ok h0 h P" and "inv h0 {}"
  shows "\<exists>L. inv h L \<and> owns P L"
  using assms
proof (induction rule: served.induct)
  case served_start
  then show ?case by (auto simp: owns_def)
next
  case (served_alloc h P n p h')
  then obtain L where L: "inv h L" "owns P L" by blast
  from alloc_law [OF L(1) served_alloc.hyps(2)] served_alloc.hyps(3)
  have r: "if p = 0 then h' = h
         else \<exists>m. unat n \<le> m \<and> unat p \<notin> fst ` L \<and> inv h' (insert (unat p, m) L)" by auto
  show ?case
  proof (cases "p = 0")
    case True
    with r L show ?thesis by auto
  next
    case False
    with r obtain m where m: "unat n \<le> m" "unat p \<notin> fst ` L" "inv h' (insert (unat p, m) L)"
      by auto
    with L(2) have "p \<notin> fst ` P" by (auto simp: owns_def)
    then have "inj_on fst (insert (p, n) P)" using L(2) by (auto simp: owns_def)
    moreover have "\<exists>m' \<ge> unat k. (unat q, m') \<in> insert (unat p, m) L"
      if "(q, k) \<in> insert (p, n) P" for q k
      using that L(2) m(1) unfolding owns_def by blast
    moreover have "fst ` insert (unat p, m) L = unat ` fst ` insert (p, n) P"
      using L(2) unfolding owns_def by simp
    ultimately have "owns (insert (p, n) P) (insert (unat p, m) L)"
      unfolding owns_def by blast
    with m False show ?thesis by auto
  qed
next
  case (served_free h P p n h')
  then obtain L where L: "inv h L" "owns P L" by blast
  with served_free.hyps(2) obtain m where m: "(unat p, m) \<in> L"
    unfolding owns_def by blast
  from free_law [OF L(1) m] served_free.hyps(3) have inv': "inv h' (L - {(unat p, m)})" by auto
  have other: "q \<noteq> p" if "(q, k) \<in> P - {(p, n)}" for q k
    using that served_free.hyps(2) owns_one [OF L(2)] by auto
  have "fst ` (L - {(unat p, m)}) = fst ` L - {unat p}"
  proof -
    have "x \<noteq> unat p" if "(x, k) \<in> L - {(unat p, m)}" for x k
      using one_size [OF L(1) m, of k] that by blast
    then have "L - {(unat p, m)} = {x \<in> L. fst x \<noteq> unat p}" by fastforce
    then show ?thesis by auto
  qed
  moreover have "unat ` fst ` (P - {(p, n)}) = unat ` fst ` P - {unat p}"
  proof -
    have "P - {(p, n)} = {x \<in> P. fst x \<noteq> p}" using other by fastforce
    then show ?thesis by (auto simp: word_unat_eq_iff)
  qed
  moreover have "\<exists>m' \<ge> unat k. (unat q, m') \<in> L - {(unat p, m)}" if "(q, k) \<in> P - {(p, n)}" for q k
  proof -
    have "unat q \<noteq> unat p" using other [OF that] by (simp add: word_unat_eq_iff)
    then show ?thesis using that L(2) unfolding owns_def by blast
  qed
  moreover have "inj_on fst (P - {(p, n)})" using L(2) by (auto simp: owns_def intro: inj_on_subset)
  ultimately have "owns (P - {(p, n)}) (L - {(unat p, m)})"
    using L(2) unfolding owns_def by simp
  with inv' show ?case by blast
qed

lemma served_apart:
  assumes "served alloc free ok h0 h P" and "inv h0 {}"
    and "(p, n) \<in> P" and "(q, m) \<in> P" and "(p, n) \<noteq> (q, m)"
  shows "unat p + unat n \<le> unat q \<or> unat q + unat m \<le> unat p"
proof -
  from served_owns [OF assms(1,2)] obtain L where L: "inv h L" "owns P L" by blast
  obtain n' where "unat n \<le> n'" "(unat p, n') \<in> L"
    using owns_block [OF L(2) assms(3)] by blast
  moreover obtain m' where "unat m \<le> m'" "(unat q, m') \<in> L"
    using owns_block [OF L(2) assms(4)] by blast
  moreover have "p \<noteq> q" using assms(3-5) owns_one [OF L(2), of p n m] by blast
  ultimately show ?thesis using apart_law [OF L(1), of "unat p" n' "unat q" m']
    by (auto simp: word_unat_eq_iff)
qed

lemma served_progress:
  assumes "served alloc free ok h0 h P" and "inv h0 {}"
  shows "ok h n \<longrightarrow> (\<exists>p h'. alloc n h = Some (p, h'))"
    and "(p, m) \<in> P \<longrightarrow> (\<exists>h'. free p h = Some h')"
proof -
  from served_owns [OF assms] obtain L where L: "inv h L" "owns P L" by blast
  show "ok h n \<longrightarrow> (\<exists>p h'. alloc n h = Some (p, h'))" using alloc_law [OF L(1)] by blast
  show "(p, m) \<in> P \<longrightarrow> (\<exists>h'. free p h = Some h')"
  proof
    assume "(p, m) \<in> P"
    then obtain k where "(unat p, k) \<in> L" using owns_block [OF L(2)] by blast
    then show "\<exists>h'. free p h = Some h'" using free_law [OF L(1)] by blast
  qed
qed

end

section \<open>kmalloc and kfree implement the interface\<close>

definition heap_inv :: "heap \<Rightarrow> (nat \<times> nat) set \<Rightarrow> bool" where
  "heap_inv h L \<longleftrightarrow> (\<exists>bs. heap_abs h bs \<and> wf_blocks (unat (heap_start h)) bs
     \<and> L = set (live (unat (heap_start h)) bs))"

definition kmalloc_ok :: "heap \<Rightarrow> u64 \<Rightarrow> bool" where
  "kmalloc_ok h n \<longleftrightarrow> unat (heap_end h) + unat n + 32 < 2 ^ 64"

lemma ff_alloc_ptr:
  assumes ff: "ff_alloc k (unat (heap_start h)) bs = Some (c, bs')" and "heap_abs h bs'"
  shows "unat (of_nat (c + 24) :: u64) = c + 24 \<and> (of_nat (c + 24) :: u64) \<noteq> 0"
proof -
  let ?a = "unat (heap_start h)"
  obtain m where "(c + 24, m) \<in> set (live ?a bs')" using ff_alloc_live [OF ff] by auto
  moreover have "chain (hdr h) ?a bs' (unat (heap_end h))" using assms(2) by (simp add: heap_abs_def)
  ultimately have "c + 24 + m \<le> unat (heap_end h)" using live_in_arena by blast
  then have u: "unat (of_nat (c + 24) :: u64) = c + 24"
    by (intro unat_of_nat_le [of _ "heap_end h"]) simp
  then show ?thesis by (metis add_is_0 unat_0 zero_neq_numeral)
qed

lemma heap_inv_kmalloc:
  assumes inv: "heap_inv h L" and ok: "kmalloc_ok h n"
  shows "\<exists>p h'. kmalloc n h = Some (p, h') \<and> heap_start h' = heap_start h
      \<and> heap_end h' = heap_end h \<and> payload h' = payload h
      \<and> (if p = 0 then h' = h
         else \<exists>m. unat n \<le> m \<and> unat p \<notin> fst ` L \<and> heap_inv h' (insert (unat p, m) L))"
proof -
  let ?a = "unat (heap_start h)" and ?k = "rnd8 (unat n)"
  from inv obtain bs where bs: "heap_abs h bs" "wf_blocks ?a bs" "L = set (live ?a bs)"
    by (auto simp: heap_inv_def)
  note ref = kmalloc_refines [OF bs(1) ok [unfolded kmalloc_ok_def]]
  show ?thesis
  proof (cases "ff_alloc ?k ?a bs")
    case None
    with ref show ?thesis by simp
  next
    case (Some r)
    obtain c bs' where r: "r = (c, bs')" by (cases r)
    with Some ref obtain h' where h': "kmalloc n h = Some (of_nat (c + 24), h')" "heap_abs h' bs'"
      "heap_start h' = heap_start h" "heap_end h' = heap_end h" "payload h' = payload h" by auto
    note ff = Some [unfolded r]
    obtain m where m: "?k \<le> m" "set (live ?a bs') = insert (c + 24, m) (set (live ?a bs))"
      "c + 24 \<notin> fst ` set (live ?a bs)" using ff_alloc_live [OF ff] by blast
    have wf: "wf_blocks ?a bs'" by (rule ff_alloc_wf [OF ff bs(2) rnd8_pos rnd8_dvd])
    have u: "unat (of_nat (c + 24) :: u64) = c + 24" and "(of_nat (c + 24) :: u64) \<noteq> 0"
      using ff_alloc_ptr [of ?k h' bs c bs'] ff h'(2,3) by auto
    moreover have "heap_inv h' (insert (unat (of_nat (c + 24) :: u64), m) L)"
      using h' wf m u bs(3) unfolding heap_inv_def by (auto simp: u)
    moreover have "unat n \<le> m" using m(1) rnd8_ge [of "unat n"] by simp
    ultimately show ?thesis using h' m(3) bs(3) u
      by (intro exI [of _ "of_nat (c + 24)"] exI [of _ h'] conjI) auto
  qed
qed

text \<open>No free block holds \<open>k\<close> bytes.\<close>

definition no_room :: "heap \<Rightarrow> nat \<Rightarrow> bool" where
  "no_room h k \<longleftrightarrow> (\<forall>bs. heap_abs h bs \<longrightarrow> (\<forall>(n, f) \<in> set bs. f \<longrightarrow> n < k))"

lemma kmalloc_null:
  assumes inv: "heap_inv h L" and ok: "kmalloc_ok h n" and k: "kmalloc n h = Some (p, h')"
  shows "p = 0 \<longleftrightarrow> no_room h (rnd8 (unat n))"
proof -
  let ?a = "unat (heap_start h)" and ?k = "rnd8 (unat n)"
  have iff: "p = 0 \<longleftrightarrow> (\<forall>(n, f) \<in> set bs. f \<longrightarrow> n < ?k)" if bs: "heap_abs h bs" for bs
  proof (cases "ff_alloc ?k ?a bs")
    case None
    then show ?thesis using kmalloc_refines [OF bs ok [unfolded kmalloc_ok_def]] k iffD1 [OF ff_alloc_None None] by simp
  next
    case (Some r)
    obtain c bs' where r: "r = (c, bs')" by (cases r)
    obtain h1 where "kmalloc n h = Some (of_nat (c + 24), h1)" "heap_abs h1 bs'" "heap_start h1 = heap_start h"
      using kmalloc_refines [OF bs ok [unfolded kmalloc_ok_def]] Some r by auto
    then have "p \<noteq> 0" using ff_alloc_ptr [of ?k h1 bs c bs'] Some r k by auto
    moreover have "\<not> (\<forall>(n, f) \<in> set bs. f \<longrightarrow> n < ?k)" using Some ff_alloc_None by (metis option.distinct(1))
    ultimately show ?thesis by blast
  qed
  obtain bs where "heap_abs h bs" using inv by (auto simp: heap_inv_def)
  then show ?thesis using iff unfolding no_room_def by blast
qed

lemma heap_inv_kfree:
  assumes inv: "heap_inv h L" and p: "(unat p, m) \<in> L"
  shows "\<exists>h'. kfree p h = Some h' \<and> heap_start h' = heap_start h \<and> heap_end h' = heap_end h
      \<and> payload h' = payload h \<and> heap_inv h' (L - {(unat p, m)})"
proof -
  let ?a = "unat (heap_start h)"
  from inv obtain bs where bs: "heap_abs h bs" "wf_blocks ?a bs" "L = set (live ?a bs)"
    by (auto simp: heap_inv_def)
  then obtain c where c: "c \<in> set (starts ?a bs)" "unat p = c + 24" using p live_starts by blast
  have "c + 24 + m \<le> unat (heap_end h)" "0 < m"
    using bs p c live_in_arena live_pos by (auto simp: heap_abs_def wf_blocks_def)
  then have "c + 24 < unat (heap_end h)" by simp
  from kfree_refines [OF bs(1) c(1) this] obtain h' where h': "kfree (of_nat (c + 24)) h = Some h'"
    "heap_abs h' (merge_pass c ?a (mark_free c ?a bs))"
    "heap_start h' = heap_start h" "heap_end h' = heap_end h" "payload h' = payload h" by blast
  have pc: "of_nat (c + 24) = p" using c(2) by (metis of_nat_unat_id)
  have pm: "(c + 24, m) \<in> set (live ?a bs)" using p bs(3) c(2) by simp
  have "n = m" if "(c + 24, n) \<in> set (live ?a bs)" for n
    using live_disjoint [OF that pm] by (cases "n = m") simp_all
  then have "set (live ?a (mark_free c ?a bs)) = L - {(unat p, m)}"
    using bs(3) c(2) by (auto simp: live_mark_free)
  then have "heap_inv h' (L - {(unat p, m)})"
    using h'(2) release_wf [OF bs(2), of c] unfolding heap_inv_def h'(3)
    by (intro exI [of _ "merge_pass c ?a (mark_free c ?a bs)"]) (simp add: live_merge_pass)
  with h' pc show ?thesis by auto
qed

lemma heap_inv_apart:
  "heap_inv h L \<Longrightarrow> (p, n) \<in> L \<Longrightarrow> (q, m) \<in> L \<Longrightarrow> (p, n) \<noteq> (q, m)
   \<Longrightarrow> 0 < n \<and> 0 < m \<and> (p + n \<le> q \<or> q + m \<le> p)"
proof -
  assume inv: "heap_inv h L" and pq: "(p, n) \<in> L" "(q, m) \<in> L" and ne: "(p, n) \<noteq> (q, m)"
  then obtain bs where bs: "sizes_pos bs" "L = set (live (unat (heap_start h)) bs)"
    by (auto simp: heap_inv_def wf_blocks_def)
  show ?thesis
    using live_disjoint [OF pq [unfolded bs(2)] ne] live_pos [OF bs(1)] pq [unfolded bs(2)] by auto
qed

interpretation kheap: object_allocator heap_inv kmalloc kfree kmalloc_ok
proof
  show "\<exists>p h'. kmalloc n h = Some (p, h')
      \<and> (if p = 0 then h' = h
         else \<exists>m. unat n \<le> m \<and> unat p \<notin> fst ` L \<and> heap_inv h' (insert (unat p, m) L))"
    if "heap_inv h L" "kmalloc_ok h n" for h L n
    using heap_inv_kmalloc [OF that] by blast
  show "\<exists>h'. kfree p h = Some h' \<and> heap_inv h' (L - {(unat p, m)})"
    if "heap_inv h L" "(unat p, m) \<in> L" for h L p m
    using heap_inv_kfree [OF that] by blast
qed (use heap_inv_apart in blast)+

section \<open>The walks over a consistent heap\<close>

lemma verify_loop_chain:
  assumes "chain (hdr h) a bs (unat (heap_end h))" and "unat (heap_start h) \<le> a"
    and "unat prev < a" and "bs \<noteq> []"
  shows "verify_loop h (of_nat a) prev = Some 0"
  using assms
proof (induction a bs arbitrary: prev rule: starts.induct)
  case (2 a n f bs)
  let ?x = "a + 24 + n"
  have le: "?x \<le> unat (heap_end h)" by (rule chain_le_next [OF "2.prems"(1)])
  have un: "unat (of_nat a :: u64) = a" using le by (intro unat_of_nat_le [of _ "heap_end h"]) simp
  have ux: "unat (of_nat ?x :: u64) = ?x" using le by (intro unat_of_nat_le [of _ "heap_end h"])
  have guards: "(of_nat a :: u64) \<noteq> 0" "heap_start h \<le> of_nat a" "of_nat a < heap_end h"
    "prev < of_nat a"
    using un le "2.prems" by (auto simp: word_le_nat_alt word_less_nat_alt unat_gt_0)
  note unf = verify_loop.simps [of h "of_nat a" prev]
  show ?case
  proof (cases "bs = []")
    case True
    with guards "2.prems" show ?thesis
      by (subst unf) (auto simp: verify_loop.simps [of h 0] not_less [symmetric])
  next
    case False
    have "verify_loop h (of_nat a) prev = verify_loop h (of_nat ?x) (of_nat a)"
      using guards "2.prems" False by (subst unf) (auto simp: not_less [symmetric])
    also have "\<dots> = Some 0" using "2.prems" False un by (intro "2.IH") auto
    finally show ?thesis .
  qed
qed simp

lemma heap_abs_verify: "heap_abs h bs \<Longrightarrow> heap_verify h = Some 0"
  using verify_loop_chain [of h "unat (heap_start h)" bs 0]
  by (auto simp: heap_abs_def heap_verify_def unat_gt_0)

text \<open>The statistics count exactly the free blocks of the list.\<close>

definition free_sizes :: "ablock list \<Rightarrow> nat list" where
  "free_sizes bs = [n. (n, f) \<leftarrow> bs, f]"

lemma free_sizes_Cons [simp]:
  "free_sizes [] = []" "free_sizes ((n, f) # bs) = (if f then n # free_sizes bs else free_sizes bs)"
  by (simp_all add: free_sizes_def)

lemma sum_free_le: "chain m a bs e \<Longrightarrow> a + sum_list (free_sizes bs) + 24 * length bs \<le> e"
  by (induction m a bs e rule: chain.induct) auto

lemma free_bytes_chain:
  assumes "chain (hdr h) a bs e" and "e < 2 ^ 64" and "0 < a" and "bs \<noteq> []"
  shows "free_bytes_loop h (of_nat a) tot = Some (tot + of_nat (sum_list (free_sizes bs)))"
  using assms
proof (induction a bs arbitrary: tot rule: starts.induct)
  case (2 a n f bs)
  have "a < 2 ^ 64" using "2.prems"(2) chain_le [OF "2.prems"(1)] by simp
  then have nz: "(of_nat a :: u64) \<noteq> 0" using "2.prems"(3) of_nat_u64_0 by simp
  note unf = free_bytes_loop.simps [of h "of_nat a" tot]
  show ?case
  proof (cases "bs = []")
    case True
    with nz "2.prems" show ?thesis by (subst unf) (simp add: free_bytes_loop.simps [of h 0])
  next
    case False
    with nz "2.prems" have "free_bytes_loop h (of_nat a) tot =
       free_bytes_loop h (of_nat (a + 24 + n)) (if f then tot + of_nat n else tot)"
      by (subst unf) simp
    also have "\<dots> = Some ((if f then tot + of_nat n else tot) + of_nat (sum_list (free_sizes bs)))"
      using "2.prems" False by (intro "2.IH") auto
    finally show ?thesis by simp
  qed
qed simp

lemma fold_max_le_sum: "fold max ns (m :: nat) \<le> m + sum_list ns"
proof (induction ns arbitrary: m)
  case (Cons n ns)
  have "fold max ns (max n m) \<le> max n m + sum_list ns" by (rule Cons)
  then show ?case by simp
qed simp

definition stats_add :: "nat list \<Rightarrow> heap_stats \<Rightarrow> heap_stats" where
  "stats_add ns out = out\<lparr>free_bytes := free_bytes out + of_nat (sum_list ns),
     free_blocks := free_blocks out + of_nat (length ns),
     largest_free := of_nat (fold max ns (unat (largest_free out)))\<rparr>"

lemma stats_loop_chain:
  assumes "chain (hdr h) a bs e" and "e < 2 ^ 64" and "0 < a" and "bs \<noteq> []"
  shows "stats_loop h (of_nat a) out = Some (stats_add (free_sizes bs) out)"
  using assms
proof (induction a bs arbitrary: out rule: starts.induct)
  case (2 a n f bs)
  let ?out = "if f then stats_add [n] out else out"
  have le: "a + 24 + n \<le> e" by (rule chain_le_next [OF "2.prems"(1)])
  then have nz: "(of_nat a :: u64) \<noteq> 0" using "2.prems"(2,3) by (subst of_nat_u64_0) auto
  have un: "unat (of_nat n :: u64) = n" using le "2.prems"(2) by (intro unat_of_nat_small) simp
  have big: "max n (unat (largest_free out)) = (if largest_free out < of_nat n then n
      else unat (largest_free out))"
    by (auto simp: word_less_nat_alt un max_def)
  note unf = stats_loop.simps [of h "of_nat a" out]
  have comp: "stats_add (free_sizes bs) ?out = stats_add (free_sizes ((n, f) # bs)) out"
    using un unat_of_nat_le [of "max n (unat (largest_free out))" "largest_free out"]
    by (auto simp: stats_add_def max_def)
  show ?case
  proof (cases "bs = []")
    case True
    with nz "2.prems" big show ?thesis
      by (subst unf) (auto simp: stats_loop.simps [of h 0] stats_add_def)
  next
    case False
    with nz "2.prems" big have "stats_loop h (of_nat a) out = stats_loop h (of_nat (a + 24 + n)) ?out"
      by (subst unf) (simp add: stats_add_def)
    also have "\<dots> = Some (stats_add (free_sizes bs) ?out)"
      using "2.prems" False by (intro "2.IH") auto
    finally show ?thesis using comp by simp
  qed
qed simp

section \<open>Payload copies\<close>

lemma mem_set_spec:
  "mem_set p v n m x = (if \<exists>i<n. x = p + of_nat i then v else m x)"
  by (induction n) (auto simp: mem_set_def less_Suc_eq)

lemma mem_copy_spec:
  assumes "\<And>i j. i < n \<Longrightarrow> j < n \<Longrightarrow> d + of_nat i \<noteq> s + of_nat j"
    and "n \<le> 2 ^ 64"
  shows "(\<forall>i<n. mem_copy d s n m (d + of_nat i) = m (s + of_nat i))
     \<and> (\<forall>x. (\<forall>i<n. x \<noteq> d + of_nat i) \<longrightarrow> mem_copy d s n m x = m x)"
  using assms
proof (induction n)
  case 0
  then show ?case by (simp add: mem_copy_def)
next
  case (Suc n)
  then have IH: "(\<forall>i<n. mem_copy d s n m (d + of_nat i) = m (s + of_nat i))
     \<and> (\<forall>x. (\<forall>i<n. x \<noteq> d + of_nat i) \<longrightarrow> mem_copy d s n m x = m x)" by simp
  have step: "mem_copy d s (Suc n) m = (mem_copy d s n m)(d + of_nat n := mem_copy d s n m (s + of_nat n))"
    by (simp add: mem_copy_def)
  have src: "mem_copy d s n m (s + of_nat n) = m (s + of_nat n)"
    using IH Suc.prems(1) by (metis less_Suc_eq)
  have "(of_nat i :: u64) \<noteq> of_nat n" if "i < n" for i
    using that Suc.prems(2) by (subst of_nat_u64_inj) auto
  with IH src show ?case unfolding step by (auto simp: less_Suc_eq)
qed

lemma live_hdr:
  "chain m a bs e \<Longrightarrow> (p, n) \<in> set (live a bs) \<Longrightarrow> hb_size (m (of_nat (p - 24))) = of_nat n"
  by (induction m a bs e rule: chain.induct) (auto split: if_splits)

lemma heap_inv_block:
  assumes "heap_inv h L" and "(p, n) \<in> L"
  shows "unat (heap_start h) + 24 \<le> p \<and> p + n \<le> unat (heap_end h) \<and> 0 < n \<and> 8 dvd p
       \<and> hb_size (hdr h (of_nat p - HDR)) = of_nat n"
proof -
  let ?a = "unat (heap_start h)"
  from assms obtain bs where bs: "heap_abs h bs" "wf_blocks ?a bs" "(p, n) \<in> set (live ?a bs)"
    by (auto simp: heap_inv_def)
  then have ch: "chain (hdr h) ?a bs (unat (heap_end h))" by (simp add: heap_abs_def)
  obtain c where c: "c \<in> set (starts ?a bs)" "p = c + 24" using live_starts [OF bs(3)] by blast
  have "8 dvd c" using bs(2) c(1) by (auto simp: wf_blocks_def aligned8_def list_all_iff)
  then have "8 dvd p" using c(2) by (simp add: dvd_add)
  moreover have "hb_size (hdr h (of_nat p - HDR)) = of_nat n"
    using live_hdr [OF ch bs(3)] c(2) by simp
  moreover have "sizes_pos bs" using bs(2) by (simp add: wf_blocks_def)
  ultimately show ?thesis
    using live_in_arena [OF ch bs(3)] live_pos [OF _ bs(3)] live_ge [OF bs(3)] by simp
qed

lemma heap_inv_payload [simp]: "heap_inv (h\<lparr>payload := q\<rparr>) L = heap_inv h L"
  by (simp add: heap_inv_def heap_abs_def)

lemma kheap_frame:
  assumes "served kmalloc kfree kmalloc_ok h0 h P" and "heap_inv h0 {}"
  shows "heap_start h = heap_start h0 \<and> heap_end h = heap_end h0 \<and> payload h = payload h0"
  using assms
proof (induction rule: served.induct)
  case (served_alloc h P n p h')
  obtain L where "heap_inv h L" using kheap.served_owns [OF served_alloc.hyps(1) assms(2)] by blast
  from heap_inv_kmalloc [OF this served_alloc.hyps(2)] served_alloc show ?case by auto
next
  case (served_free h P p n h')
  obtain L where L: "heap_inv h L" "kheap.owns P L"
    using kheap.served_owns [OF served_free.hyps(1) assms(2)] by blast
  obtain m where "(unat p, m) \<in> L" using kheap.owns_block [OF L(2) served_free.hyps(2)] by blast
  from heap_inv_kfree [OF L(1) this] served_free show ?case by auto
qed simp

lemma mark_free_free:
  "c \<in> set (starts a bs) \<Longrightarrow> c + 24 \<notin> fst ` set (live a bs) \<Longrightarrow> mark_free c a bs = bs"
  by (induction c a bs rule: mark_free.induct) (auto dest: starts_ge split: if_splits)

lemma merge_pass_id: "no_adj_free bs \<Longrightarrow> merge_pass c a bs = bs"
  by (induction c a bs rule: merge_pass.induct) auto

lemma block_apart:
  assumes "p + n \<le> q \<or> q + m \<le> p" and "p + n \<le> unat (e :: u64)" and "q + m \<le> unat e"
    and "i < n" and "j < m"
  shows "(of_nat (p + i) :: u64) \<noteq> of_nat (q + j)"
proof -
  have "unat (of_nat (p + i) :: u64) = p + i" "unat (of_nat (q + j) :: u64) = q + j"
    using assms by (auto intro!: unat_of_nat_le [of _ e] simp del: of_nat_add)
  with assms show ?thesis by (metis add_less_cancel_left less_le_trans not_less_iff_gr_or_eq
      trans_le_add1 linorder_not_le)
qed

lemma heap_inv_bytes_apart:
  assumes "heap_inv h L" and "(p, n) \<in> L" and "(q, m) \<in> L" and "(p, n) \<noteq> (q, m)"
    and "i < n" and "j < m"
  shows "(of_nat (p + i) :: u64) \<noteq> of_nat (q + j)"
  using heap_inv_apart [OF assms(1-4)] heap_inv_block [OF assms(1,2)] heap_inv_block [OF assms(1,3)]
    assms(5,6) by (intro block_apart [of p n q m "heap_end h"]) auto

lemma of_nat_unat_add: "of_nat (unat p + i) = p + of_nat i" for p :: u64
  by simp

text \<open>The moving branch of \<open>krealloc\<close>: allocate, copy, release.\<close>

lemma krealloc_move:
  assumes inv: "heap_inv h L" and blk: "(unat ptr, m) \<in> L" and k: "kmalloc sz h = Some (q, h1)"
    and q: "q \<noteq> 0" "unat q \<notin> fst ` L" and inv1: "heap_inv h1 (insert (unat q, m') L)"
    and pay: "payload h1 = payload h" and big: "m < unat sz" "unat sz \<le> m'" and sz: "ptr \<noteq> 0"
  shows "\<exists>h'. krealloc ptr sz h = Some (q, h')
      \<and> heap_inv h' (insert (unat q, m') (L - {(unat ptr, m)}))
      \<and> (\<forall>i<m. payload h' (q + of_nat i) = payload h (ptr + of_nat i))
      \<and> (\<forall>r k i. (r, k) \<in> L \<longrightarrow> i < k \<longrightarrow> payload h' (of_nat (r + i)) = payload h (of_nat (r + i)))"
proof -
  let ?m = "mem_copy q ptr m (payload h)" and ?h2 = "h1\<lparr>payload := mem_copy q ptr m (payload h)\<rparr>"
  have b: "unat ptr + m \<le> unat (heap_end h)" "hb_size (hdr h (ptr - HDR)) = of_nat m"
    using heap_inv_block [OF inv blk] by simp_all
  have b1: "hb_size (hdr h1 (ptr - HDR)) = of_nat m"
    using heap_inv_block [OF inv1, of "unat ptr" m] blk by simp
  have um: "unat (of_nat m :: u64) = m" using b(1) by (intro unat_of_nat_le [of _ "heap_end h"]) simp
  have small: "of_nat m < sz" using big(1) um by (simp add: word_less_nat_alt)
  have ptrq: "(unat q, m') \<noteq> (r, k)" if "(r, k) \<in> L" for r k using that q(2) by force
  have apart: "q + of_nat i \<noteq> of_nat (r + j)" if "i < m" "j < k" "(r, k) \<in> L" for i j r k
    using heap_inv_bytes_apart [OF inv1, of "unat q" m' r k i j] that ptrq [OF that(3)] big
    by (simp add: of_nat_unat_add)
  have copy: "(\<forall>i<m. ?m (q + of_nat i) = payload h (ptr + of_nat i))
     \<and> (\<forall>x. (\<forall>i<m. x \<noteq> q + of_nat i) \<longrightarrow> ?m x = payload h x)"
  proof (rule mem_copy_spec)
    show "m \<le> 2 ^ 64" using unsigned_less [of "of_nat m :: u64", where ?'a = nat] um by simp
  qed (use apart [OF _ _ blk] in \<open>simp add: of_nat_unat_add\<close>)
  have other: "?m (of_nat (r + i)) = payload h (of_nat (r + i))" if "(r, k) \<in> L" "i < k" for r k i
  proof -
    have "\<forall>j<m. of_nat (r + i) \<noteq> q + of_nat j" using apart [OF _ that(2,1)] by metis
    with copy show ?thesis by blast
  qed
  obtain h' where h': "kfree ptr ?h2 = Some h'" "payload h' = ?m"
    "heap_inv h' (insert (unat q, m') L - {(unat ptr, m)})"
    using heap_inv_kfree [of ?h2 "insert (unat q, m') L" ptr m] inv1 blk by auto
  moreover have "insert (unat q, m') L - {(unat ptr, m)} = insert (unat q, m') (L - {(unat ptr, m)})"
    using ptrq [OF blk] by auto
  moreover have "krealloc ptr sz h = Some (q, h')"
    using k h'(1) q(1) small sz b b1 pay um by (auto simp: krealloc_def Let_def)
  ultimately show ?thesis using copy other by (auto simp del: of_nat_add)
qed

lemma largest_region_in:
  assumes "largest_region hb mm acc = (sz, st)"
  shows "(sz, st) = acc \<or> (\<exists>e \<in> set mm. mm_type e = 1 \<and> hb \<le> st
     \<and> st = join64 (base_addr_high e) (base_addr_low e)
     \<and> sz = join64 (length_high e) (length_low e))"
  using assms
proof (induction hb mm acc rule: largest_region.induct)
  case (2 hb e es lsize lstart)
  from "2.IH" "2.prems" show ?case by (auto simp: Let_def split: if_splits)
qed auto

text \<open>The memory map as the firmware is expected to deliver it: areas do not wrap, and start aligned.\<close>

definition map_sane :: "memory_map_t list \<Rightarrow> bool" where
  "map_sane mm = list_all (\<lambda>e. mm_type e = 1 \<longrightarrow>
     unat (join64 (base_addr_high e) (base_addr_low e))
       + unat (join64 (length_high e) (length_low e)) + 4096 < 2 ^ 64
     \<and> 8 dvd unat (join64 (base_addr_high e) (base_addr_low e))) mm"

lemma heap_range_ok:
  assumes kend: "unat kend + 0x2003000 < 2 ^ 64" and mm: "map_sane mm"
    and r: "heap_range kend mm = (hs, he)"
  shows "unat kend \<le> unat hs \<and> 0x200000 \<le> unat hs \<and> 8 dvd unat hs
     \<and> unat hs + 0x100000 < unat he \<and> unat he \<le> unat hs + 0x2000000 \<and> unat he + 4096 < 2 ^ 64"
proof -
  let ?r = "(kend + 0xFFF) AND NOT 0xFFF"
  define hb where "hb = (if ?r < 0x200000 then 0x200000 else ?r)"
  obtain ls lst where l: "largest_region hb mm (0, hb) = (ls, lst)" by fastforce
  have m12: "(0xFFF :: u64) = mask 12" by (simp add: mask_eq_exp_minus_1)
  have "unat ?r = unat (kend + 0xFFF) div 2 ^ 12 * 2 ^ 12"
    unfolding m12 by (rule unat_and_not_mask)
  then have "unat ?r = unat (kend + 0xFFF) div 4096 * 4096" by simp
  also have "unat (kend + 0xFFF) = unat kend + 0xFFF"
    using kend unat_add_small [of kend "0xFFF"] by simp
  finally have r0: "unat ?r = (unat kend + 0xFFF) div 4096 * 4096" .
  have "unat kend \<le> unat ?r" "unat ?r \<le> unat kend + 0xFFF"
    using div_mult_mod_eq [of "unat kend + 0xFFF" 4096] mod_less_divisor [of 4096 "unat kend + 0xFFF"]
    unfolding r0 by linarith+
  moreover have "8 dvd unat ?r" unfolding r0 by (rule dvd_mult) simp
  ultimately have hb: "unat kend \<le> unat hb" "0x200000 \<le> unat hb" "8 dvd unat hb"
    "unat hb + 0x2001000 < 2 ^ 64"
    using kend by (auto simp: hb_def word_less_nat_alt)
  have rng: "(hs, he) = (if mm \<noteq> [] \<and> ls > 0x100000
         then (lst, lst + (if ls > 0x2000000 then 0x2000000 else ls))
         else (hb, hb + 0x2000000))"
    using r l unfolding heap_range_def Let_def hb_def by simp
  show ?thesis
  proof (cases "mm \<noteq> [] \<and> ls > 0x100000")
    case True
    then have big: "0x100000 < unat ls" by (simp add: word_less_nat_alt)
    let ?n = "if ls > 0x2000000 then 0x2000000 else ls"
    from True have "(ls, lst) \<noteq> (0, hb)" by auto
    with largest_region_in [OF l] mm have e: "hb \<le> lst" "unat lst + unat ls + 4096 < 2 ^ 64"
      "8 dvd unat lst" by (auto simp: map_sane_def list_all_iff)
    have n: "unat ?n = min (unat ls) 0x2000000" by (auto simp: word_less_nat_alt)
    have "unat (lst + ?n) = unat lst + unat ?n" using e n by (intro unat_add_small) auto
    with rng True e n big hb show ?thesis by (auto simp: word_le_nat_alt)
  next
    case False
    have "unat (hb + 0x2000000) = unat hb + 0x2000000"
      using hb(4) unat_add_small [of hb "0x2000000"] by simp
    with rng False hb show ?thesis by auto
  qed
qed

lemma region_pages_cover:
  assumes "unat b + unat l + 4096 < 2 ^ 64" and "q < PMM_MAX_PAGES"
    and "q * 4096 < unat b + unat l" and "unat b < (q + 1) * 4096"
  shows "q \<in> region_pages b l"
proof -
  have "unat (b + l) = unat b + unat l" using assms(1) by (intro unat_add_small) simp
  then have "unat ((b + l) + 4095) = unat b + unat l + 4095"
    using assms(1) unat_add_small [of "b + l" 4095] by simp
  moreover have "b + l + 4096 - 1 = (b + l) + 4095" by simp
  ultimately have "unat (b + l + 4096 - 1) = unat b + unat l + 4095" by (simp only:)
  moreover have "q < (unat b + unat l + 4095) div 4096"
    using assms(3) by (simp add: less_eq_div_iff_mult_less_eq Suc_le_eq [symmetric])
  moreover have "unat b div 4096 < q + 1" using assms(4) by (simp add: less_mult_imp_div_less)
  ultimately show ?thesis using assms(2) by (simp add: region_pages_def unat_div)
qed

lemma kcalloc_product:
  fixes nmemb sz :: u64
  assumes "\<not> (nmemb \<noteq> 0 \<and> sz > (- 1) div nmemb)"
  shows "unat nmemb * unat sz < 2 ^ 64"
proof (cases "nmemb = 0")
  case nz: False
  have "unat (- 1 :: u64) = 2 ^ 64 - 1" by (simp add: unsigned_minus_1_eq_mask mask_eq_exp_minus_1)
  with nz assms have "unat sz \<le> (2 ^ 64 - 1) div unat nmemb"
    by (auto simp: word_less_nat_alt unat_div_distrib)
  then have "unat sz * unat nmemb \<le> 2 ^ 64 - 1"
    using nz by (meson div_times_less_eq_dividend le_trans mult_le_mono1)
  then show ?thesis by (simp add: mult.commute)
qed simp

lemma kcalloc_overflow:
  fixes nmemb sz :: u64
  assumes "nmemb \<noteq> 0 \<and> sz > (- 1) div nmemb"
  shows "2 ^ 64 \<le> unat nmemb * unat sz"
proof -
  have n: "0 < unat nmemb" using assms by (simp add: unat_gt_0)
  have "unat (- 1 :: u64) = 2 ^ 64 - 1" by (simp add: unsigned_minus_1_eq_mask mask_eq_exp_minus_1)
  then have "(2 ^ 64 - 1) div unat nmemb < unat sz"
    using assms by (simp add: word_less_nat_alt unat_div_distrib)
  then have "2 ^ 64 - 1 < unat sz * unat nmemb" using n by (simp add: div_less_iff_less_mult)
  then show ?thesis by (simp add: mult.commute)
qed

text \<open>
  The append path of \<open>kmalloc\<close>: a request that no free block holds and that wraps the address space
  behind the end of the arena is answered with an address outside the arena.
\<close>

lemma kmalloc_append_wraps:
  assumes abs: "heap_abs h bs" and none: "\<forall>(n, f) \<in> set bs. f \<longrightarrow> n < unat (round8 sz)"
    and wrap: "2 ^ 64 \<le> unat (heap_end h) + 24 + unat (round8 sz)" "unat (round8 sz) + 24 \<le> 2 ^ 64"
  shows "\<exists>h'. kmalloc sz h = Some (heap_end h + 24, h')"
proof -
  let ?a = "unat (heap_start h)" and ?e = "unat (heap_end h)" and ?k = "unat (round8 sz)"
  from abs have ch: "chain (hdr h) ?a bs ?e" and ne: "bs \<noteq> []" and a0: "0 < ?a" and hl: "heap_list h = of_nat ?a"
    by (auto simp: heap_abs_def unat_gt_0)
  have ff: "ff_alloc ?k ?a bs = None" using none by (simp add: ff_alloc_None)
  have "kmalloc_find h (of_nat ?k) (of_nat ?a) 0 = Some (Inr (of_nat (last_start ?a bs)))"
    using kmalloc_find_chain [OF ch _ a0 ne, of ?k 0] ff by simp
  then have find: "kmalloc_find h (round8 sz) (heap_list h) 0 = Some (Inr (of_nat (last_start ?a bs)))" by (simp add: hl)
  obtain n f where last: "hdr h (of_nat (last_start ?a bs)) = \<lparr>hb_size = of_nat n, hb_next = 0, hb_free = f,
      hb_magic = HEAP_MAGIC\<rparr>" "last_start ?a bs + 24 + n = ?e" "?a \<le> last_start ?a bs"
    using last_start_chain [OF ch ne] by auto
  have lt: "?e < 2 ^ 64" using unsigned_less [of "heap_end h", where ?'a = nat] by simp
  have nz: "(of_nat (last_start ?a bs) :: u64) \<noteq> 0"
    using last(2,3) a0 lt by (subst of_nat_u64_0) linarith+
  have new: "of_nat (last_start ?a bs) + HDR + of_nat n = heap_end h"
    using last(2) by (metis of_nat_add of_nat_numeral of_nat_unat_id)
  have "unat (heap_end h + HDR + round8 sz) \<le> ?e"
  proof -
    have "unat (heap_end h + HDR + round8 sz) = (?e + 24 + ?k) mod 2 ^ 64"
      by (simp add: unat_word_ariths mod_simps)
    also have "\<dots> = (?e + 24 + ?k - 2 ^ 64) mod 2 ^ 64" using wrap(1) by (rule le_mod_geq)
    also have "\<dots> \<le> ?e + 24 + ?k - 2 ^ 64" by (rule mod_less_eq_dividend)
    also have "\<dots> \<le> ?e" using wrap(2) by simp
    finally show ?thesis .
  qed
  then have "heap_end h + HDR + round8 sz \<le> heap_end h" by (simp add: word_le_nat_alt)
  then have "fst (kmalloc_append (round8 sz) (of_nat (last_start ?a bs)) h) = heap_end h + 24"
    using nz new by (simp add: kmalloc_append_def Let_def last(1))
  then show ?thesis using find by (simp add: kmalloc_def Let_def prod_eq_iff)
qed

section \<open>Properties\<close>

text \<open>
  C4. For a request that stays 32 bytes clear of the end of the address space when it is added
  to the end of the arena, \<open>kmalloc\<close> returns on every consistent heap, and it implements
  first fit: it takes the lowest free block that holds the rounded size, splits off the rest
  when the rest can hold a header of its own, and answers \<open>NULL\<close>, without touching the heap,
  exactly when no free block is large enough. Larger requests wrap, in the rounding
  (\<open>kmalloc_size_wraps\<close>) or in the append path (\<open>kmalloc_append_wraps\<close>).
\<close>

theorem kmalloc_first_fit:
  assumes "heap_abs h bs" and "unat (heap_end h) + unat sz + 32 < 2 ^ 64"
  shows "\<exists>p h'. kmalloc sz h = Some (p, h') \<and> payload h' = payload h \<and>
     (case ff_alloc (rnd8 (unat sz)) (unat (heap_start h)) bs of
        None \<Rightarrow> p = 0 \<and> h' = h \<and> (\<forall>(n, f) \<in> set bs. f \<longrightarrow> n < rnd8 (unat sz))
      | Some (c, bs') \<Rightarrow> p = of_nat (c + 24) \<and> p \<noteq> 0 \<and> heap_abs h' bs')"
proof (cases "ff_alloc (rnd8 (unat sz)) (unat (heap_start h)) bs")
  case None
  with kmalloc_refines [OF assms] iffD1 [OF ff_alloc_None None] show ?thesis by simp
next
  case (Some r)
  obtain c bs' where r: "r = (c, bs')" by (cases r)
  with Some kmalloc_refines [OF assms] obtain h' where h':
    "kmalloc sz h = Some (of_nat (c + 24), h')" "heap_abs h' bs'" "heap_start h' = heap_start h"
    "payload h' = payload h" by auto
  then have "(of_nat (c + 24) :: u64) \<noteq> 0"
    using ff_alloc_ptr [of "rnd8 (unat sz)" h' bs c bs'] Some r by simp
  with h' show ?thesis unfolding Some r by simp
qed

text \<open>
  C5. \<open>kfree\<close> of a block of the heap returns, frees that block and no other, leaves no two
  adjacent free blocks behind, and freeing a block that is already free changes nothing.
\<close>

theorem kfree_releases:
  assumes "heap_abs h bs" and "wf_blocks (unat (heap_start h)) bs"
    and "c \<in> set (starts (unat (heap_start h)) bs)" and "c + 24 < unat (heap_end h)"
  shows "\<exists>h' bs'. kfree (of_nat (c + 24)) h = Some h' \<and> heap_abs h' bs'
     \<and> wf_blocks (unat (heap_start h)) bs' \<and> payload h' = payload h
     \<and> set (live (unat (heap_start h)) bs')
         = {(p, n) \<in> set (live (unat (heap_start h)) bs). p \<noteq> c + 24}
     \<and> (c + 24 \<notin> fst ` set (live (unat (heap_start h)) bs) \<longrightarrow> bs' = bs)"
proof -
  let ?a = "unat (heap_start h)"
  let ?bs = "merge_pass c ?a (mark_free c ?a bs)"
  have "wf_blocks ?a ?bs" by (rule release_wf [OF assms(2)])
  moreover have "set (live ?a ?bs) = {(p, n) \<in> set (live ?a bs). p \<noteq> c + 24}"
    by (simp add: live_merge_pass live_mark_free)
  moreover have "?bs = bs" if "c + 24 \<notin> fst ` set (live ?a bs)"
    using mark_free_free [OF assms(3) that] merge_pass_id assms(2) by (simp add: wf_blocks_def)
  ultimately show ?thesis using kfree_refines [OF assms(1,3,4)] by blast
qed

text \<open>
  C2. However \<open>kmalloc\<close> and \<open>kfree\<close> calls are interleaved from a consistent heap without live blocks
  on, as long as no request comes within 32 bytes of the end of the address space when it is added
  to the end of the arena (\<open>kmalloc_ok\<close>) and only outstanding allocations are released: the bytes
  of two outstanding allocations never overlap, every allocation is 8-aligned and inside the
  arena, the walk of \<open>heap_verify\<close> ends with 0, and no such call hangs.
\<close>

theorem kheap_safe:
  assumes "served kmalloc kfree kmalloc_ok h0 h P" and "heap_inv h0 {}"
  shows "(\<forall>p n q m. (p, n) \<in> P \<longrightarrow> (q, m) \<in> P \<longrightarrow> (p, n) \<noteq> (q, m)
            \<longrightarrow> unat p + unat n \<le> unat q \<or> unat q + unat m \<le> unat p)
     \<and> (\<forall>p n. (p, n) \<in> P \<longrightarrow> 8 dvd unat p \<and> unat (heap_start h0) + 24 \<le> unat p
            \<and> unat p + unat n \<le> unat (heap_end h0) \<and> (\<exists>h'. kfree p h = Some h'))
     \<and> (\<forall>n. kmalloc_ok h n \<longrightarrow> (\<exists>r. kmalloc n h = Some r))
     \<and> heap_verify h = Some 0"
proof -
  obtain L where L: "heap_inv h L" "kheap.owns P L" using kheap.served_owns [OF assms] by blast
  then have "heap_verify h = Some 0" using heap_abs_verify by (auto simp: heap_inv_def)
  moreover have "8 dvd unat p \<and> unat (heap_start h0) + 24 \<le> unat p
      \<and> unat p + unat n \<le> unat (heap_end h0)" if pn: "(p, n) \<in> P" for p n
  proof -
    obtain m where m: "unat n \<le> m" "(unat p, m) \<in> L" using kheap.owns_block [OF L(2) pn] by blast
    from heap_inv_block [OF L(1) m(2)] m(1) kheap_frame [OF assms] show ?thesis by simp
  qed
  ultimately show ?thesis
    using kheap.served_apart [OF assms] kheap.served_progress [OF assms] by blast
qed

text \<open>
  C37. \<open>heap_get_stats\<close> and \<open>heap_free_bytes\<close> end and report what the block list holds:
  the bytes, the number and the largest of the free blocks, and the rest of the arena as used.
\<close>

theorem heap_get_stats_exact:
  assumes "heap_abs h bs"
  shows "\<exists>st. heap_get_stats h = Some st
     \<and> unat (free_bytes st) = sum_list (free_sizes bs)
     \<and> unat (free_blocks st) = length (free_sizes bs)
     \<and> unat (largest_free st) = fold max (free_sizes bs) 0
     \<and> unat (used_bytes st) = (unat (heap_end h) - unat (heap_start h)) - sum_list (free_sizes bs)
     \<and> heap_free_bytes h = Some (free_bytes st)"
proof -
  let ?a = "unat (heap_start h)" and ?e = "unat (heap_end h)" and ?fs = "free_sizes bs"
  from assms have ch: "chain (hdr h) ?a bs ?e" and ne: "bs \<noteq> []" and a0: "0 < ?a"
    and hl: "heap_list h = of_nat ?a"
    by (auto simp: heap_abs_def unat_gt_0)
  let ?st0 = "\<lparr>arena = heap_end h - heap_start h, used_bytes = 0, free_bytes = 0,
           largest_free = 0, free_blocks = 0\<rparr>"
  have loops: "stats_loop h (of_nat ?a) ?st0 = Some (stats_add ?fs ?st0)"
    "free_bytes_loop h (of_nat ?a) 0 = Some (0 + of_nat (sum_list ?fs))"
    using stats_loop_chain [OF ch _ a0 ne] free_bytes_chain [OF ch _ a0 ne] by simp_all
  have len: "length ?fs \<le> length bs" by (induction bs) auto
  have mx: "fold max ?fs 0 \<le> sum_list ?fs" using fold_max_le_sum [of ?fs 0] by simp
  have sums: "?a + sum_list ?fs + 24 * length bs \<le> ?e" by (rule sum_free_le [OF ch])
  have un: "unat (of_nat n :: u64) = n" if "n \<le> ?e" for n
    using that by (rule unat_of_nat_le)
  have "unat (heap_end h - heap_start h) = ?e - ?a"
    using sums by (intro unat_sub_le) (simp add: word_le_nat_alt)
  moreover have "unat (heap_end h - heap_start h - of_nat (sum_list ?fs)) =
      unat (heap_end h - heap_start h) - unat (of_nat (sum_list ?fs) :: u64)"
    using sums un [of "sum_list ?fs"] calculation by (intro unat_sub_le) (simp add: word_le_nat_alt)
  ultimately show ?thesis
    using loops un [of "sum_list ?fs"] un [of "length ?fs"] un [of "fold max ?fs 0"] sums len mx
    by (simp add: heap_get_stats_def heap_free_bytes_def hl stats_add_def)
qed

text \<open>
  C11. \<open>krealloc\<close> of a live block to a size other than 0 that cannot wrap the address space
  (\<open>kmalloc_ok\<close>) returns. It fails exactly when the block is too small for the new size and no
  free block is large enough, and then the heap is unchanged and the old block is still live.
  Otherwise the new block has the size asked for, holds the bytes of the old block and takes its
  place among the live blocks. No byte of any other live block changes either way.
\<close>

theorem krealloc_keeps_bytes:
  assumes inv: "heap_inv h L" and blk: "(unat ptr, m) \<in> L" and ok: "kmalloc_ok h sz"
    and sz: "sz \<noteq> 0"
  shows "\<exists>q h'. krealloc ptr sz h = Some (q, h') \<and> (q = 0 \<longleftrightarrow> m < unat sz \<and> no_room h (rnd8 (unat sz))) \<and>
      (if q = 0 then h' = h
       else \<exists>m'. unat sz \<le> m' \<and> heap_inv h' (insert (unat q, m') (L - {(unat ptr, m)}))
          \<and> (\<forall>i < m. payload h' (q + of_nat i) = payload h (ptr + of_nat i))
          \<and> (\<forall>r k i. (r, k) \<in> L \<longrightarrow> i < k
               \<longrightarrow> payload h' (of_nat (r + i)) = payload h (of_nat (r + i))))"
proof -
  have b: "unat (heap_start h) + 24 \<le> unat ptr" "unat ptr + m \<le> unat (heap_end h)"
    "hb_size (hdr h (ptr - HDR)) = of_nat m"
    using heap_inv_block [OF inv blk] by simp_all
  have ptr: "ptr \<noteq> 0" using b(1) by auto
  have um: "unat (of_nat m :: u64) = m" using b(2) by (intro unat_of_nat_le [of _ "heap_end h"]) simp
  show ?thesis
  proof (cases "unat sz \<le> m")
    case True
    then have "krealloc ptr sz h = Some (ptr, h)"
      using ptr sz b um by (simp add: krealloc_def word_le_nat_alt)
    moreover have "insert (unat ptr, m) (L - {(unat ptr, m)}) = L" using blk by auto
    ultimately show ?thesis using True inv ptr by auto
  next
    case False
    obtain q h1 where k: "kmalloc sz h = Some (q, h1)" "payload h1 = payload h"
      "if q = 0 then h1 = h
       else \<exists>m'. unat sz \<le> m' \<and> unat q \<notin> fst ` L \<and> heap_inv h1 (insert (unat q, m') L)"
      using heap_inv_kmalloc [OF inv ok] by blast
    note nr = kmalloc_null [OF inv ok k(1)]
    show ?thesis
    proof (cases "q = 0")
      case True
      with k False ptr sz b um have "krealloc ptr sz h = Some (0, h)"
        by (auto simp: krealloc_def word_le_nat_alt)
      then show ?thesis using nr True False by simp
    next
      case q: False
      with k(3) obtain m' where m': "unat sz \<le> m'" "unat q \<notin> fst ` L"
        "heap_inv h1 (insert (unat q, m') L)" by auto
      from False have "m < unat sz" by simp
      from krealloc_move [OF inv blk k(1) q m'(2,3) k(2) this m'(1) ptr] q m'(1) nr show ?thesis
        by auto
    qed
  qed
qed

text \<open>
  C12. \<open>kcalloc\<close> returns. It answers \<open>NULL\<close>, leaving the heap alone, exactly when the product does
  not fit in 64 bits or no free block holds it; otherwise it returns a fresh block of at least that
  size whose first bytes are zero, and every other live block keeps its bytes. A product that does
  fit in 64 bits has to stay clear of the end of the address space (\<open>kmalloc_ok\<close>).
\<close>

theorem kcalloc_zeroed:
  assumes inv: "heap_inv h L" and ok: "unat nmemb * unat sz < 2 ^ 64 \<longrightarrow> kmalloc_ok h (nmemb * sz)"
  shows "\<exists>p h'. kcalloc nmemb sz h = Some (p, h') \<and>
      (p = 0 \<longleftrightarrow> 2 ^ 64 \<le> unat nmemb * unat sz \<or> no_room h (rnd8 (unat nmemb * unat sz))) \<and>
      (if p = 0 then h' = h
       else \<exists>m. unat nmemb * unat sz \<le> m \<and> heap_inv h' (insert (unat p, m) L) \<and> unat p \<notin> fst ` L
          \<and> (\<forall>i < unat nmemb * unat sz. payload h' (p + of_nat i) = 0)
          \<and> (\<forall>r k i. (r, k) \<in> L \<longrightarrow> i < k
               \<longrightarrow> payload h' (of_nat (r + i)) = payload h (of_nat (r + i))))"
proof (cases "nmemb \<noteq> 0 \<and> sz > (- 1) div nmemb")
  case True
  then have "2 ^ 64 \<le> unat nmemb * unat sz" by (rule kcalloc_overflow)
  with True show ?thesis by (simp add: kcalloc_def)
next
  case False
  then have prod: "unat nmemb * unat sz < 2 ^ 64" by (rule kcalloc_product)
  then have tot: "unat (nmemb * sz) = unat nmemb * unat sz"
    by (simp add: unat_word_ariths)
  obtain p h1 where k: "kmalloc (nmemb * sz) h = Some (p, h1)" "payload h1 = payload h"
      "if p = 0 then h1 = h
       else \<exists>m. unat (nmemb * sz) \<le> m \<and> unat p \<notin> fst ` L \<and> heap_inv h1 (insert (unat p, m) L)"
    using heap_inv_kmalloc [OF inv ok [rule_format, OF prod]] by blast
  note nr = kmalloc_null [OF inv ok [rule_format, OF prod] k(1), unfolded tot]
  show ?thesis
  proof (cases "p = 0")
    case True
    with k False nr show ?thesis by (auto simp: kcalloc_def Let_def)
  next
    case p: False
    with k(3) tot obtain m where m: "unat nmemb * unat sz \<le> m" "unat p \<notin> fst ` L"
      "heap_inv h1 (insert (unat p, m) L)" by auto
    let ?m = "mem_set p 0 (unat nmemb * unat sz) (payload h)"
    have "?m (of_nat (r + i)) = payload h (of_nat (r + i))" if "(r, l) \<in> L" "i < l" for r l i
    proof -
      have "(unat p, m) \<noteq> (r, l)" using that m(2) by force
      then have "p + of_nat j \<noteq> of_nat (r + i)" if "j < unat nmemb * unat sz" for j
        using heap_inv_bytes_apart [OF m(3), of "unat p" m r l j i] that \<open>(r, l) \<in> L\<close> \<open>i < l\<close> m(1)
        by (simp add: of_nat_unat_add)
      then show ?thesis by (metis mem_set_spec)
    qed
    moreover have "kcalloc nmemb sz h = Some (p, h1\<lparr>payload := ?m\<rparr>)"
      using False k p tot by (auto simp: kcalloc_def Let_def)
    moreover have "\<forall>i < unat nmemb * unat sz. ?m (p + of_nat i) = 0"
      by (auto simp: mem_set_spec)
    ultimately show ?thesis using p m prod nr
      by (intro exI [of _ p] exI [of _ "h1\<lparr>payload := ?m\<rparr>"]) (auto simp del: of_nat_add)
  qed
qed

text \<open>
  C38. The size rounding of \<open>kmalloc\<close> wraps: a request of more than \<open>2 ^ 64 - 8\<close> bytes is
  rounded to 0, and whenever the heap has any free block the call succeeds with a block of at
  most 24 bytes.
\<close>

theorem kmalloc_size_wraps:
  assumes "heap_abs h bs" and "(n, True) \<in> set bs" and "2 ^ 64 - 8 < unat sz"
    and "unat (heap_end h) + 24 < 2 ^ 64"
  shows "\<exists>p h' m. kmalloc sz h = Some (p, h') \<and> p \<noteq> 0 \<and> m \<le> 24
     \<and> hb_size (hdr h' (p - HDR)) = of_nat m"
proof -
  have "sz \<noteq> 0" using assms(3) by auto
  have lt: "unat sz < 2 ^ 64" using unsigned_less [of sz, where ?'a = nat] by simp
  have "unat (sz + 7) = (unat sz + 7) mod 2 ^ 64" by (simp add: unat_word_ariths)
  also have "\<dots> = (unat sz + 7 - 2 ^ 64) mod 2 ^ 64" using assms(3) by (intro le_mod_geq) simp
  also have "\<dots> \<le> unat sz + 7 - 2 ^ 64" by (rule mod_less_eq_dividend)
  finally have "unat (sz + 7) < 8" using lt by linarith
  then have "unat ((sz + 7) AND NOT (mask 3)) = 0" by (simp add: unat_and_not_mask)
  moreover have "(7 :: u64) = mask 3" by (simp add: mask_eq_exp_minus_1)
  ultimately have r: "round8 sz = of_nat 0"
    using \<open>sz \<noteq> 0\<close> unfolding round8_def by (simp add: unat_eq_zero)
  have "ff_alloc 0 (unat (heap_start h)) bs \<noteq> None"
    using assms(2) by (auto simp: ff_alloc_None)
  then obtain c bs' where ff: "ff_alloc 0 (unat (heap_start h)) bs = Some (c, bs')" by auto
  with kmalloc_refines_size [OF assms(1) r] assms(4) obtain h' where h':
    "kmalloc sz h = Some (of_nat (c + 24), h')" "heap_abs h' bs'" "heap_start h' = heap_start h"
    by auto
  have nz: "(of_nat (c + 24) :: u64) \<noteq> 0" using ff_alloc_ptr [of 0 h' bs c bs'] ff h' by simp
  obtain m where m: "m \<le> 24" "(c + 24, m) \<in> set (live (unat (heap_start h)) bs')"
    using ff_alloc_live [OF ff] by auto
  then have "hb_size (hdr h' (of_nat (c + 24) - HDR)) = of_nat m"
    using live_hdr [of "hdr h'" _ bs' _ "c + 24" m] h' by (auto simp: heap_abs_def)
  with m(1) h'(1) nz show ?thesis by blast
qed

text \<open>
  C13. \<open>memory_init\<close> places the arena above the kernel image and above 2 MiB, between 1 MiB
  and 32 MiB large, builds a consistent heap with no live block, and reserves in the page
  allocator every page that overlaps the arena, without releasing any other.
\<close>

theorem memory_init_reserves:
  assumes "unat kend + 0x2003000 < 2 ^ 64" and "map_sane mm" and "memory_init kend mm h p = (h', p')"
  shows "heap_inv h' {} \<and> unat kend \<le> unat (heap_start h') \<and> 0x200000 \<le> unat (heap_start h')
     \<and> unat (heap_start h') + 0x100000 < unat (heap_end h')
     \<and> unat (heap_end h') \<le> unat (heap_start h') + 0x2000000
     \<and> pmm_used_set p \<subseteq> pmm_used_set p'
     \<and> (\<forall>q < PMM_MAX_PAGES. q * 4096 < unat (heap_end h') \<longrightarrow> unat (heap_start h') < (q + 1) * 4096
          \<longrightarrow> q \<in> pmm_used_set p')
     \<and> (pmm_inv p \<longrightarrow> pmm_inv p')"
proof -
  obtain hs he where r: "heap_range kend mm = (hs, he)" by fastforce
  note ok = heap_range_ok [OF assms(1,2) r]
  let ?B = "\<lparr>hb_size = he - hs - HDR, hb_next = 0, hb_free = True, hb_magic = HEAP_MAGIC\<rparr>"
  have h': "heap_start h' = hs" "heap_end h' = he" "heap_list h' = hs" "hdr h' = (hdr h)(hs := ?B)"
    and p': "p' = pmm_mark_region hs (he - hs) True p"
    using assms(3) r by (auto simp: memory_init_def put_hdr_def)
  let ?n = "unat he - unat hs - 24"
  have len: "unat (he - hs) = unat he - unat hs" using ok by (intro unat_sub_le) (simp add: word_le_nat_alt)
  then have "unat (he - hs - HDR) = ?n"
    using ok unat_sub_le [of HDR "he - hs"] by (auto simp: word_le_nat_alt)
  then have "he - hs - HDR = of_nat ?n" by (metis of_nat_unat_id)
  then have "heap_abs h' [(?n, True)]"
    using ok h' by (auto simp: heap_abs_def)
  moreover have "wf_blocks (unat hs) [(?n, True)]"
    using ok by (simp add: wf_blocks_def sizes_pos_def aligned8_def)
  ultimately have "heap_inv h' {}" unfolding heap_inv_def by (intro exI [of _ "[(?n, True)]"]) (simp add: h')
  moreover have "q \<in> pmm_used_set p'" if "q < PMM_MAX_PAGES" "q * 4096 < unat he"
    "unat hs < (q + 1) * 4096" for q
    using that ok len region_pages_cover [of hs "he - hs" q]
    by (simp add: p' pmm_used_set_def pmm_mark_region_test)
  moreover have "pmm_used_set p \<subseteq> pmm_used_set p'"
    by (auto simp: p' pmm_used_set_def pmm_mark_region_test)
  moreover have "pmm_inv p \<longrightarrow> pmm_inv p'"
    by (auto simp: p' pmm_inv_def pmm_mark_region_test intro: kinv)
  ultimately show ?thesis using ok h' by simp
qed

section \<open>Witnesses\<close>

text \<open>A 256-byte arena at 3 MiB: one free block, and the same arena with 16 bytes taken.\<close>

definition demo_heap :: heap where
  "demo_heap = \<lparr>heap_start = 0x300000, heap_end = 0x300100, heap_list = 0x300000,
     hdr = (\<lambda>_. \<lparr>hb_size = 232, hb_next = 0, hb_free = True, hb_magic = HEAP_MAGIC\<rparr>),
     payload = (\<lambda>_. 7)\<rparr>"

lemma demo_heap_abs: "heap_abs demo_heap [(232, True)]"
  by (simp add: heap_abs_def demo_heap_def)

lemma demo_heap_wf: "wf_blocks (unat (heap_start demo_heap)) [(232, True)]"
  by (simp add: wf_blocks_def sizes_pos_def aligned8_def demo_heap_def)

lemma demo_heap_inv: "heap_inv demo_heap {}"
  unfolding heap_inv_def using demo_heap_abs demo_heap_wf
  by (intro exI [of _ "[(232, True)]"]) simp

lemma demo_heap_bounds [simp]:
  "unat (heap_start demo_heap) = 0x300000" "unat (heap_end demo_heap) = 0x300100"
  by (simp_all add: demo_heap_def)

lemma demo_ok [simp]: "kmalloc_ok demo_heap 16" "kmalloc_ok demo_heap 12"
  by (simp_all add: kmalloc_ok_def)

lemma demo_alloc:
  "\<exists>h'. kmalloc 16 demo_heap = Some (0x300018, h') \<and> heap_abs h' [(16, False), (192, True)]
      \<and> heap_start h' = 0x300000 \<and> heap_end h' = 0x300100"
  using kmalloc_refines [OF demo_heap_abs, of 16]
  by (simp add: rnd8_def split_block_def) (auto simp: demo_heap_def)

definition demo_heap1 :: heap where
  "demo_heap1 = snd (the (kmalloc 16 demo_heap))"

lemma demo1_alloc: "kmalloc 16 demo_heap = Some (0x300018, demo_heap1)"
  using demo_alloc by (auto simp: demo_heap1_def)

lemma demo1_abs: "heap_abs demo_heap1 [(16, False), (192, True)]"
  "heap_start demo_heap1 = 0x300000" "heap_end demo_heap1 = 0x300100"
  using demo_alloc demo1_alloc by auto

lemma demo1_wf: "wf_blocks (unat (heap_start demo_heap1)) [(16, False), (192, True)]"
  by (simp add: wf_blocks_def sizes_pos_def aligned8_def demo1_abs)

lemma demo1_inv: "heap_inv demo_heap1 {(0x300018, 16)}"
  unfolding heap_inv_def using demo1_abs demo1_wf
  by (intro exI [of _ "[(16, False), (192, True)]"]) simp

lemma kmalloc_append_wraps_example: "\<exists>h'. kmalloc 0xFFFFFFFFFFFFFFE8 demo_heap = Some (0x300118, h')"
  using kmalloc_append_wraps [OF demo_heap_abs, of "0xFFFFFFFFFFFFFFE8"] by (simp add: round8_def demo_heap_def)

theorem kmalloc_first_fit_witness:
  "\<exists>p h'. kmalloc 20 demo_heap1 = Some (p, h') \<and> p = 0x300040 \<and>
     heap_abs h' [(16, False), (24, False), (144, True)]"
  using kmalloc_first_fit [OF demo1_abs(1), of 20]
  by (auto simp: rnd8_def split_block_def demo1_abs)

theorem kfree_releases_witness:
  "\<exists>h' bs'. kfree 0x300018 demo_heap1 = Some h' \<and> heap_abs h' bs' \<and> set (live 0x300000 bs') = {}"
proof -
  have "0x300000 \<in> set (starts (unat (heap_start demo_heap1)) [(16, False), (192, True)])"
    and "0x300000 + 24 < unat (heap_end demo_heap1)" by (simp_all add: demo1_abs)
  from kfree_releases [OF demo1_abs(1) demo1_wf this] obtain h' bs' where
    "kfree (of_nat (0x300000 + 24)) demo_heap1 = Some h'" "heap_abs h' bs'"
    "set (live (unat (heap_start demo_heap1)) bs') =
       {(p, n) \<in> set (live (unat (heap_start demo_heap1)) [(16, False), (192, True)]). p \<noteq> 0x300000 + 24}"
    by (elim exE conjE)
  moreover have "\<dots> = {}" by (auto simp: demo1_abs)
  ultimately show ?thesis by (intro exI [of _ h'] exI [of _ bs']) (simp add: demo1_abs)
qed

theorem kheap_safe_witness:
  "served kmalloc kfree kmalloc_ok demo_heap demo_heap1 {(0x300018, 16)}
     \<and> heap_verify demo_heap1 = Some 0 \<and> (\<exists>h'. kfree 0x300018 demo_heap1 = Some h')"
proof -
  have "served kmalloc kfree kmalloc_ok demo_heap demo_heap1
      (if (0x300018 :: u64) = 0 then {} else insert (0x300018, 16) {})"
    by (rule served_alloc) (rule served_start, rule demo_ok(1), rule demo1_alloc)
  then have "served kmalloc kfree kmalloc_ok demo_heap demo_heap1 {(0x300018, 16)}" by simp
  with kheap_safe [OF this demo_heap_inv] show ?thesis by simp
qed

theorem heap_get_stats_exact_witness:
  "\<exists>st. heap_get_stats demo_heap1 = Some st \<and> unat (free_bytes st) = 192
     \<and> unat (free_blocks st) = 1 \<and> unat (used_bytes st) = 64"
  using heap_get_stats_exact [OF demo1_abs(1)] by (auto simp: demo1_abs)

theorem krealloc_keeps_bytes_witness:
  "\<exists>q h'. krealloc 0x300018 32 demo_heap1 = Some (q, h') \<and> q \<noteq> 0 \<and>
      (\<forall>i<16. payload h' (q + of_nat i) = payload demo_heap1 (0x300018 + of_nat i))"
proof -
  have "kmalloc_ok demo_heap1 32" by (simp add: kmalloc_ok_def demo1_abs)
  moreover have "\<not> no_room demo_heap1 (rnd8 32)" using demo1_abs(1) by (fastforce simp: no_room_def rnd8_def)
  ultimately show ?thesis using krealloc_keeps_bytes [OF demo1_inv, of "0x300018" 16 32] by auto
qed

theorem kcalloc_zeroed_witness:
  "(\<exists>p h'. kcalloc 3 4 demo_heap = Some (p, h') \<and> p \<noteq> 0 \<and> (\<forall>i<12. payload h' (p + of_nat i) = 0))
     \<and> (\<exists>h'. kcalloc 0x8000000000000000 2 demo_heap = Some (0, h'))"
proof -
  have "\<not> no_room demo_heap (rnd8 12)" using demo_heap_abs by (fastforce simp: no_room_def rnd8_def)
  then show ?thesis
    using kcalloc_zeroed [OF demo_heap_inv, of 3 4] kcalloc_zeroed [OF demo_heap_inv, of "0x8000000000000000" 2] by auto
qed

theorem kmalloc_size_wraps_witness:
  "\<exists>p h' m. kmalloc 0xFFFFFFFFFFFFFFFF demo_heap = Some (p, h') \<and> p \<noteq> 0 \<and> m \<le> 24
     \<and> hb_size (hdr h' (p - HDR)) = of_nat m"
  using kmalloc_size_wraps [OF demo_heap_abs, of 232 "0xFFFFFFFFFFFFFFFF"] by simp

theorem memory_init_reserves_witness:
  "heap_inv (fst (memory_init 0x345678 [] demo_heap pmm_two_free)) {}"
  using memory_init_reserves [of "0x345678" "[]" demo_heap pmm_two_free
      "fst (memory_init 0x345678 [] demo_heap pmm_two_free)"
      "snd (memory_init 0x345678 [] demo_heap pmm_two_free)"]
  by (simp add: map_sane_def)

end
