(* ===== verification/Vmm.thy ===== *)
theory Vmm
  imports Pmm
begin

unbundle bit_operations_syntax

text \<open>
  The virtual memory manager of \<open>src/kernel/mm/memory.c\<close> (section VMM): 4-level page
  tables (wrapped in a PML5 shell when the firmware left LA57 on), mapping, unmapping,
  translation, and private address spaces. Page-table memory maps a page base and an entry
  number to the 64-bit entry, because the code reads and writes tables only as
  \<open>base[index]\<close> with a page-aligned base and an index below 512. The control registers are
  fields of the state and the TLB operations are logged. \<open>None\<close> is a kernel panic.
\<close>

section \<open>State\<close>

definition VMM_PRESENT :: u64 where "VMM_PRESENT = 0x001"
definition VMM_WRITABLE :: u64 where "VMM_WRITABLE = 0x002"
definition VMM_USER :: u64 where "VMM_USER = 0x004"
definition VMM_HUGE :: u64 where "VMM_HUGE = 0x080"
definition VMM_NX :: u64 where "VMM_NX = 0x8000000000000000"

text \<open>The table or frame address of an entry: everything above the 12 attribute bits.\<close>

definition addr :: "u64 \<Rightarrow> u64" where
  "addr e = e AND NOT 0xFFF"

datatype tlb_op = Reload_Cr3 | Invlpg u64

record vmm =
  ptm :: "u64 \<Rightarrow> nat \<Rightarrow> u64"
  vmm_pml4 :: u64
  vmm_la57 :: bool
  vmm_active_root :: u64
  vmm_boot_root :: u64
  vmm_boot_pml4 :: u64
  switch_active :: u64
  cr3 :: u64
  cr4 :: u64
  efer :: u64
  tlb :: "tlb_op list"
  pmm :: pmm_state

definition set_ent :: "u64 \<Rightarrow> nat \<Rightarrow> u64 \<Rightarrow> vmm \<Rightarrow> vmm" where
  "set_ent b i v s = s\<lparr>ptm := (ptm s)(b := (ptm s b)(i := v))\<rparr>"

definition zero_page :: "u64 \<Rightarrow> vmm \<Rightarrow> vmm" where
  "zero_page b s = s\<lparr>ptm := (ptm s)(b := (\<lambda>_. 0))\<rparr>"

definition vmm_alloc :: "vmm \<Rightarrow> u64 \<times> vmm" where
  "vmm_alloc s = (let (a, p) = pmm_alloc_page (pmm s) in (a, s\<lparr>pmm := p\<rparr>))"

definition vmm_free :: "u64 \<Rightarrow> vmm \<Rightarrow> vmm" where
  "vmm_free a s = s\<lparr>pmm := pmm_free_page a (pmm s)\<rparr>"

section \<open>Roots and TLB\<close>

definition mm_root_to_pml4 :: "vmm \<Rightarrow> u64 \<Rightarrow> u64" where
  "mm_root_to_pml4 s root =
     (let page = addr root in if vmm_la57 s then addr (ptm s page 0) else page)"

definition vmm_reload_cr3 :: "vmm \<Rightarrow> vmm" where
  "vmm_reload_cr3 s = s\<lparr>tlb := tlb s @ [Reload_Cr3]\<rparr>"

definition vmm_invlpg :: "u64 \<Rightarrow> vmm \<Rightarrow> vmm" where
  "vmm_invlpg virt s = s\<lparr>tlb := tlb s @ [Invlpg virt]\<rparr>"

definition vmm_init :: "vmm \<Rightarrow> vmm" where
  "vmm_init s =
     (let s = s\<lparr>vmm_la57 := (drop_bit 12 (cr4 s) AND 1 = 1)\<rparr>;
          s = s\<lparr>vmm_boot_root := addr (cr3 s)\<rparr>;
          s = s\<lparr>vmm_active_root := vmm_boot_root s\<rparr>;
          s = s\<lparr>vmm_pml4 := mm_root_to_pml4 s (vmm_boot_root s)\<rparr>;
          s = s\<lparr>vmm_boot_pml4 := vmm_pml4 s\<rparr>
      in if efer s AND push_bit 11 1 = 0
         then vmm_reload_cr3 (s\<lparr>efer := efer s OR push_bit 11 1\<rparr>) else s)"

definition vmm_make_entry :: "u64 \<Rightarrow> u64 \<Rightarrow> u64" where
  "vmm_make_entry phys flags =
     addr phys OR (flags AND 0xFFF) OR (flags AND VMM_NX) OR VMM_PRESENT"

definition vmm_editing_active_root :: "vmm \<Rightarrow> bool" where
  "vmm_editing_active_root s \<longleftrightarrow> mm_root_to_pml4 s (addr (cr3 s)) = vmm_pml4 s"

section \<open>Mapping\<close>

definition pml4_ix :: "u64 \<Rightarrow> nat" where "pml4_ix virt = unat (drop_bit 39 virt AND 0x1FF)"
definition pdpt_ix :: "u64 \<Rightarrow> nat" where "pdpt_ix virt = unat (drop_bit 30 virt AND 0x1FF)"
definition pd_ix :: "u64 \<Rightarrow> nat" where "pd_ix virt = unat (drop_bit 21 virt AND 0x1FF)"
definition pt_ix :: "u64 \<Rightarrow> nat" where "pt_ix virt = unat (drop_bit 12 virt AND 0x1FF)"

text \<open>
  The step the code repeats on each level: when entry \<open>i\<close> of table \<open>b\<close> is absent, allocate
  a page, link it and clear it. The flag says whether a level was created.
\<close>

definition vmm_ensure_table :: "u64 \<Rightarrow> nat \<Rightarrow> u64 \<Rightarrow> vmm \<Rightarrow> (bool \<times> vmm) option" where
  "vmm_ensure_table b i flags s =
     (if ptm s b i AND VMM_PRESENT = 0 then
        (let (new, s) = vmm_alloc s in
         if new = 0 then None
         else Some (True, zero_page new (set_ent b i (vmm_make_entry new flags) s)))
      else Some (False, s))"

definition vmm_user_bits :: "u64 \<Rightarrow> nat \<Rightarrow> u64 \<Rightarrow> nat \<Rightarrow> u64 \<Rightarrow> vmm \<Rightarrow> vmm" where
  "vmm_user_bits pml4 i4 pdpt i3 flags s =
     (if flags AND VMM_USER \<noteq> 0 then
        (let s = set_ent pml4 i4 (ptm s pml4 i4 OR VMM_USER) s
         in set_ent pdpt i3 (ptm s pdpt i3 OR VMM_USER) s)
      else s)"

definition vmm_fill_split :: "u64 \<Rightarrow> u64 \<Rightarrow> vmm \<Rightarrow> vmm" where
  "vmm_fill_split new_pt huge_phys s =
     fold (\<lambda>i s. set_ent new_pt i
             (vmm_make_entry (huge_phys + of_nat i * 4096) (VMM_PRESENT OR VMM_WRITABLE)) s)
       [0..<512] s"

text \<open>
  The page-directory level: \<open>Inl\<close> is the early return for a huge page that already covers a
  kernel mapping, \<open>Inr\<close> carries on with the page table.
\<close>

definition vmm_pd_level :: "u64 \<Rightarrow> nat \<Rightarrow> u64 \<Rightarrow> vmm \<Rightarrow> (vmm + bool \<times> vmm) option" where
  "vmm_pd_level pd i2 flags s =
     (if ptm s pd i2 AND VMM_PRESENT \<noteq> 0 then
        (if ptm s pd i2 AND VMM_HUGE \<noteq> 0 then
           (if flags AND VMM_USER \<noteq> 0 then
              (let huge_phys = ptm s pd i2 AND NOT 0x1FFFFF;
                   (new_pt, s) = vmm_alloc s
               in if new_pt = 0 then None
                  else (let s = vmm_fill_split new_pt huge_phys s
                        in Some (Inr (True, set_ent pd i2
                             (vmm_make_entry new_pt (VMM_PRESENT OR VMM_WRITABLE OR VMM_USER)) s))))
            else Some (Inl s))
         else Some (Inr (False, s)))
      else map_option Inr (vmm_ensure_table pd i2 (VMM_PRESENT OR VMM_WRITABLE OR VMM_USER) s))"

definition vmm_flush :: "bool \<Rightarrow> u64 \<Rightarrow> vmm \<Rightarrow> vmm" where
  "vmm_flush new_levels virt s =
     (if vmm_editing_active_root s
      then (if new_levels then vmm_reload_cr3 s else vmm_invlpg virt s) else s)"

definition vmm_map_page :: "u64 \<Rightarrow> u64 \<Rightarrow> u64 \<Rightarrow> vmm \<Rightarrow> vmm option" where
  "vmm_map_page virt phys flags s0 =
     (let s = (if vmm_pml4 s0 = 0 then vmm_init s0 else s0); pml4 = vmm_pml4 s in
      case vmm_ensure_table pml4 (pml4_ix virt) VMM_WRITABLE s of
        None \<Rightarrow> None
      | Some (new1, s) \<Rightarrow>
          (let pdpt = addr (ptm s pml4 (pml4_ix virt));
               s = vmm_user_bits pml4 (pml4_ix virt) pdpt (pdpt_ix virt) flags s in
           case vmm_ensure_table pdpt (pdpt_ix virt) VMM_WRITABLE s of
             None \<Rightarrow> None
           | Some (new2, s) \<Rightarrow>
               (let pd = addr (ptm s pdpt (pdpt_ix virt)) in
                case vmm_pd_level pd (pd_ix virt) flags s of
                  None \<Rightarrow> None
                | Some (Inl s) \<Rightarrow> Some s
                | Some (Inr (new3, s)) \<Rightarrow>
                    (let pt = addr (ptm s pd (pd_ix virt)) in
                     Some (vmm_flush (new1 \<or> new2 \<or> new3) virt
                             (set_ent pt (pt_ix virt) (vmm_make_entry phys flags) s))))))"

definition vmm_unmap_page :: "u64 \<Rightarrow> vmm \<Rightarrow> vmm" where
  "vmm_unmap_page virt s =
     (if vmm_pml4 s = 0 then s
      else if ptm s (vmm_pml4 s) (pml4_ix virt) AND VMM_PRESENT = 0 then s
      else
        (let pdpt = addr (ptm s (vmm_pml4 s) (pml4_ix virt)) in
         if ptm s pdpt (pdpt_ix virt) AND VMM_PRESENT = 0 then s
         else
           (let pd = addr (ptm s pdpt (pdpt_ix virt)) in
            if ptm s pd (pd_ix virt) AND VMM_PRESENT = 0 then s
            else if ptm s pd (pd_ix virt) AND VMM_HUGE \<noteq> 0 then
              vmm_flush True virt (set_ent pd (pd_ix virt) 0 s)
            else
              (let pt = addr (ptm s pd (pd_ix virt)) in
               vmm_flush False virt (set_ent pt (pt_ix virt) 0 s)))))"

definition vmm_get_pte :: "vmm \<Rightarrow> u64 \<Rightarrow> u64" where
  "vmm_get_pte s virt =
     (if vmm_pml4 s = 0 then 0
      else if ptm s (vmm_pml4 s) (pml4_ix virt) AND VMM_PRESENT = 0 then 0
      else
        (let pdpt = addr (ptm s (vmm_pml4 s) (pml4_ix virt)) in
         if ptm s pdpt (pdpt_ix virt) AND VMM_PRESENT = 0 then 0
         else
           (let pd = addr (ptm s pdpt (pdpt_ix virt)) in
            if ptm s pd (pd_ix virt) AND VMM_PRESENT = 0 then 0
            else if ptm s pd (pd_ix virt) AND VMM_HUGE \<noteq> 0 then ptm s pd (pd_ix virt)
            else ptm s (addr (ptm s pd (pd_ix virt))) (pt_ix virt))))"

definition vmm_get_phys :: "vmm \<Rightarrow> u64 \<Rightarrow> u64" where
  "vmm_get_phys s virt =
     (if vmm_pml4 s = 0 then 0
      else if ptm s (vmm_pml4 s) (pml4_ix virt) AND VMM_PRESENT = 0 then 0
      else
        (let pdpt = ptm s (vmm_pml4 s) (pml4_ix virt) AND 0x000FFFFFFFFFF000 in
         if ptm s pdpt (pdpt_ix virt) AND VMM_PRESENT = 0 then 0
         else
           (let pd = ptm s pdpt (pdpt_ix virt) AND 0x000FFFFFFFFFF000 in
            if ptm s pd (pd_ix virt) AND VMM_PRESENT = 0 then 0
            else if ptm s pd (pd_ix virt) AND VMM_HUGE \<noteq> 0 then
              (ptm s pd (pd_ix virt) AND 0x000FFFFFFFFFF00000) OR (virt AND 0x1FFFFF)
            else
              (let pt = addr (ptm s pd (pd_ix virt)) in
               if ptm s pt (pt_ix virt) AND VMM_PRESENT = 0 then 0
               else (ptm s pt (pt_ix virt) AND 0x000FFFFFFFFFF000) OR (virt AND 0xFFF)))))"

section \<open>Address spaces\<close>

definition vmm_current_root :: "vmm \<Rightarrow> u64" where
  "vmm_current_root s = vmm_active_root s"

definition vmm_set_root_ptr :: "u64 \<Rightarrow> vmm \<Rightarrow> vmm" where
  "vmm_set_root_ptr phys s =
     (let s = s\<lparr>vmm_active_root := addr phys\<rparr>
      in s\<lparr>vmm_pml4 := mm_root_to_pml4 s phys\<rparr>)"

definition vmm_switch_cr3 :: "u64 \<Rightarrow> vmm \<Rightarrow> vmm" where
  "vmm_switch_cr3 phys0 s =
     (let phys = addr phys0;
          s = s\<lparr>vmm_active_root := phys\<rparr>;
          s = s\<lparr>vmm_pml4 := mm_root_to_pml4 s phys\<rparr>
      in if switch_active s \<noteq> phys
         then s\<lparr>switch_active := phys, cr3 := phys, tlb := tlb s @ [Reload_Cr3]\<rparr> else s)"

definition as_copy_pd :: "u64 \<Rightarrow> vmm \<Rightarrow> u64 \<times> vmm" where
  "as_copy_pd boot_pd s =
     (let (pd_phys, s) = vmm_alloc s in
      if pd_phys = 0 then (0, s)
      else (let src = addr boot_pd in
            (pd_phys, fold (\<lambda>i s. set_ent pd_phys i
               (if ptm s src i AND VMM_PRESENT \<noteq> 0 \<and> ptm s src i AND VMM_HUGE \<noteq> 0
                then ptm s src i else 0) s) [0..<512] s)))"

definition copy_table :: "u64 \<Rightarrow> u64 \<Rightarrow> vmm \<Rightarrow> vmm" where
  "copy_table dst src s = fold (\<lambda>i s. set_ent dst i (ptm s src i) s) [0..<512] s"

text \<open>The loop over the four identity PDs; \<open>Inl\<close> is its failure exit.\<close>

fun as_copy_pds :: "u64 \<Rightarrow> u64 \<Rightarrow> nat list \<Rightarrow> vmm \<Rightarrow> vmm + vmm" where
  "as_copy_pds pml4 pdpt [] s = Inr s"
| "as_copy_pds pml4 pdpt (i # is) s =
     (let (npd, s) = as_copy_pd (ptm s pdpt i) s in
      if npd = 0 then
        (let s = fold (\<lambda>j s. vmm_free (addr (ptm s pdpt j)) s) [0..<i] s
         in Inl (vmm_free pml4 (vmm_free pdpt s)))
      else as_copy_pds pml4 pdpt is (set_ent pdpt i (npd OR (ptm s pdpt i AND 0xFFF)) s))"

definition vmm_create_address_space :: "vmm \<Rightarrow> u64 \<times> vmm" where
  "vmm_create_address_space s0 =
     (let s = (if vmm_boot_root s0 = 0 then s0\<lparr>vmm_boot_root := addr (cr3 s0)\<rparr> else s0);
          (pml4, s) = vmm_alloc s in
      if pml4 = 0 then (0, s)
      else
        (let s = copy_table pml4 (vmm_boot_pml4 s) (zero_page pml4 s) in
         if ptm s (vmm_boot_pml4 s) 0 AND VMM_PRESENT = 0 then (0, vmm_free pml4 s)
         else
           (let boot_pdpt = addr (ptm s (vmm_boot_pml4 s) 0); (pdpt, s) = vmm_alloc s in
            if pdpt = 0 then (0, vmm_free pml4 s)
            else
              (let s = copy_table pdpt boot_pdpt (zero_page pdpt s) in
               case as_copy_pds pml4 pdpt [0..<4] s of
                 Inl s \<Rightarrow> (0, s)
               | Inr s \<Rightarrow>
                   (let s = set_ent pml4 0 (pdpt OR VMM_PRESENT OR VMM_WRITABLE) s in
                    if vmm_la57 s then
                      (let (pml5, s) = vmm_alloc s in
                       if pml5 = 0 then (0, vmm_free pml4 (vmm_free pdpt s))
                       else (pml5, set_ent pml5 0
                              (pml4 OR VMM_PRESENT OR VMM_WRITABLE OR VMM_USER) (zero_page pml5 s)))
                    else (pml4, s))))))"

definition as_free_pd :: "u64 \<Rightarrow> nat \<Rightarrow> vmm \<Rightarrow> vmm" where
  "as_free_pd pdpt i s =
     (if ptm s pdpt i AND VMM_PRESENT = 0 then s
      else
        (let pd = addr (ptm s pdpt i);
             s = fold (\<lambda>j s. if ptm s pd j AND VMM_PRESENT \<noteq> 0 \<and> ptm s pd j AND VMM_HUGE = 0
                              then vmm_free (addr (ptm s pd j)) s else s) [0..<512] s
         in vmm_free (addr (ptm s pdpt i)) s))"

definition vmm_destroy_address_space :: "u64 \<Rightarrow> vmm \<Rightarrow> vmm" where
  "vmm_destroy_address_space root s =
     (if root = 0 \<or> addr root = vmm_boot_root s then s
      else
        (let pml4 = mm_root_to_pml4 s root; old = vmm_current_root s in
         if ptm s pml4 0 AND VMM_PRESENT = 0 then s
         else
           (let pdpt = addr (ptm s pml4 0);
                s = fold (as_free_pd pdpt) [0..<4] s;
                s = vmm_free (addr (ptm s pml4 0)) s;
                s = vmm_free (addr pml4) s;
                s = (if vmm_la57 s then vmm_free (addr root) s else s);
                s = vmm_set_root_ptr old s
            in if old = root then vmm_set_root_ptr (vmm_boot_root s) s else s)))"

section \<open>Bits of an entry\<close>

lemma flag_tests [simp]:
  "(e AND VMM_PRESENT = 0) \<longleftrightarrow> \<not> bit e 0"
  "(e AND VMM_USER = 0) \<longleftrightarrow> \<not> bit e 2"
  "(e AND VMM_HUGE = 0) \<longleftrightarrow> \<not> bit e 7"
  using and_exp_eq_0_iff_not_bit [of e 0] and_exp_eq_0_iff_not_bit [of e 2]
    and_exp_eq_0_iff_not_bit [of e 7]
  by (simp_all add: VMM_PRESENT_def VMM_USER_def VMM_HUGE_def)

lemma low12: "(0xFFF :: u64) = mask 12"
  by (simp add: mask_eq_exp_minus_1)

lemma low21: "(0x1FFFFF :: u64) = mask 21"
  by (simp add: mask_eq_exp_minus_1)

lemma phys_mask: "(0x000FFFFFFFFFF000 :: u64) = mask 52 AND NOT (mask 12)"
  by (simp add: mask_eq_exp_minus_1)

lemma phys_mask_huge: "(0x000FFFFFFFFFF00000 :: u64) = mask 60 AND NOT (mask 20)"
  by (simp add: mask_eq_exp_minus_1)

lemma bit_flags:
  "bit VMM_PRESENT n \<longleftrightarrow> n = 0" "bit VMM_WRITABLE n \<longleftrightarrow> n = 1"
  "bit VMM_USER n \<longleftrightarrow> n = 2" "bit VMM_HUGE n \<longleftrightarrow> n = 7" "bit VMM_NX n \<longleftrightarrow> n = 63"
proof -
  have eqs: "VMM_PRESENT = 2 ^ 0" "VMM_WRITABLE = 2 ^ 1" "VMM_USER = 2 ^ 2" "VMM_HUGE = 2 ^ 7"
    "VMM_NX = 2 ^ 63"
    by (simp_all add: VMM_PRESENT_def VMM_WRITABLE_def VMM_USER_def VMM_HUGE_def VMM_NX_def)
  have *: "k < 64 \<Longrightarrow> bit ((2 :: u64) ^ k) n \<longleftrightarrow> n = k" for k
    by (auto simp: bit_exp_iff)
  show "bit VMM_PRESENT n \<longleftrightarrow> n = 0" unfolding eqs by (rule *) simp
  show "bit VMM_WRITABLE n \<longleftrightarrow> n = 1" unfolding eqs by (rule *) simp
  show "bit VMM_USER n \<longleftrightarrow> n = 2" unfolding eqs by (rule *) simp
  show "bit VMM_HUGE n \<longleftrightarrow> n = 7" unfolding eqs by (rule *) simp
  show "bit VMM_NX n \<longleftrightarrow> n = 63" unfolding eqs by (rule *) simp
qed

lemmas entry_bits = bit_and_iff bit_or_iff bit_not_iff bit_mask_iff bit_flags low12 low21
  phys_mask phys_mask_huge vmm_make_entry_def addr_def

lemma bit_page_addr: "p < PMM_MAX_PAGES \<Longrightarrow> bit (page_addr p) n \<Longrightarrow> 12 \<le> n \<and> n < 32"
proof -
  assume p: "p < PMM_MAX_PAGES" and b: "bit (page_addr p) n"
  have "page_addr p = push_bit 12 (of_nat p)"
    by (simp add: page_addr_def PAGE_SIZE_def push_bit_eq_mult)
  with b have n: "12 \<le> n" "bit p (n - 12)" by (auto simp: bit_push_bit_iff bit_of_nat_iff)
  have "n - 12 < 20"
  proof (rule ccontr)
    assume "\<not> n - 12 < 20"
    then have "(2 :: nat) ^ 20 \<le> 2 ^ (n - 12)" by (intro power_increasing) auto
    with p have "p div 2 ^ (n - 12) = 0" by (simp add: PMM_MAX_PAGES_def)
    with n(2) show False by (simp add: bit_iff_odd)
  qed
  with n(1) show ?thesis by simp
qed

lemma addr_page_addr:
  assumes "p < PMM_MAX_PAGES"
  shows "addr (page_addr p) = page_addr p" and "page_addr p AND 0x000FFFFFFFFFF000 = page_addr p"
  using bit_page_addr [OF assms] by (fastforce intro!: bit_eqI simp: entry_bits)+

lemma make_entry_table:
  assumes "p < PMM_MAX_PAGES" and "\<And>n. bit fl n \<Longrightarrow> n < 12 \<and> n \<noteq> 7"
  shows "bit (vmm_make_entry (page_addr p) fl) 0"
    and "\<not> bit (vmm_make_entry (page_addr p) fl) 7"
    and "addr (vmm_make_entry (page_addr p) fl) = page_addr p"
proof -
  show "bit (vmm_make_entry (page_addr p) fl) 0" by (simp add: entry_bits)
  show "\<not> bit (vmm_make_entry (page_addr p) fl) 7"
    using assms(2) [of 7] by (auto simp: entry_bits)
  show "addr (vmm_make_entry (page_addr p) fl) = page_addr p"
    using bit_page_addr [OF assms(1)] assms(2) by (fastforce intro!: bit_eqI simp: entry_bits)
qed

lemma or_user_bits [simp]:
  "bit (e OR VMM_USER) 0 = bit e 0" "bit (e OR VMM_USER) 7 = bit e 7"
  "addr (e OR VMM_USER) = addr e"
  by (auto simp: entry_bits intro!: bit_eqI)

lemma or_user_phys [simp]:
  "(e OR VMM_USER) AND 0x000FFFFFFFFFF000 = e AND 0x000FFFFFFFFFF000"
  by (auto simp: entry_bits intro!: bit_eqI)

lemma make_entry_leaf:
  "bit (vmm_make_entry phys flags) 0"
  "vmm_make_entry phys flags AND 0x000FFFFFFFFFF000 = phys AND 0x000FFFFFFFFFF000"
  by (auto simp: entry_bits intro!: bit_eqI)

text \<open>The four indices and the offset determine the address up to bit 47.\<close>

lemma index_less [simp]: "pml4_ix v < 512" "pdpt_ix v < 512" "pd_ix v < 512" "pt_ix v < 512"
proof -
  have "unat (w AND 0x1FF :: u64) < 512" for w
  proof -
    have "(0x1FF :: u64) = mask 9" by (simp add: mask_eq_exp_minus_1)
    then have "w AND 0x1FF = take_bit 9 w" by (simp add: take_bit_eq_mask)
    then show ?thesis by (simp add: unat_mod_distrib take_bit_eq_mod)
  qed
  then show "pml4_ix v < 512" "pdpt_ix v < 512" "pd_ix v < 512" "pt_ix v < 512"
    by (simp_all add: pml4_ix_def pdpt_ix_def pd_ix_def pt_ix_def)
qed

section \<open>The tree of tables\<close>

text \<open>
  A table is named by the entry numbers that lead to it: \<open>[]\<close> is the PML4, \<open>[i]\<close> a PDPT,
  \<open>[i, j]\<close> a page directory, \<open>[i, j, k]\<close> a page table. A huge entry of a directory leads to
  no table.
\<close>

definition leads :: "nat \<Rightarrow> u64 \<Rightarrow> bool" where
  "leads d e \<longleftrightarrow> bit e 0 \<and> (d = 2 \<longrightarrow> \<not> bit e 7)"

fun node :: "(u64 \<Rightarrow> nat \<Rightarrow> u64) \<Rightarrow> nat \<Rightarrow> u64 \<Rightarrow> nat list \<Rightarrow> u64 option" where
  "node m d b [] = Some b"
| "node m d b (i # is) = (if leads d (m b i) then node m (Suc d) (addr (m b i)) is else None)"

definition tbl :: "vmm \<Rightarrow> nat list \<Rightarrow> u64 option" where
  "tbl s p = node (ptm s) 0 (vmm_pml4 s) p"

definition is_path :: "nat list \<Rightarrow> bool" where
  "is_path p \<longleftrightarrow> length p \<le> 3 \<and> list_all (\<lambda>i. i < 512) p"

definition held :: "vmm \<Rightarrow> u64 \<Rightarrow> bool" where
  "held s b \<longleftrightarrow> (\<exists>n \<in> pmm_used_set (pmm s). n \<noteq> 0 \<and> b = page_addr n)"

text \<open>
  The invariant: no page serves as two tables, every table is a page the allocator counts as
  in use, and huge entries hold a 2 MiB-aligned physical address.
\<close>

definition huge_ok :: "u64 \<Rightarrow> bool" where
  "huge_ok e \<longleftrightarrow> e AND 0x7FF00000001FF000 = 0"

definition vmm_inv :: "vmm \<Rightarrow> bool" where
  "vmm_inv s \<longleftrightarrow> pmm_inv (pmm s) \<and> vmm_pml4 s \<noteq> 0
     \<and> (\<forall>p q b. is_path p \<longrightarrow> is_path q \<longrightarrow> tbl s p = Some b \<longrightarrow> tbl s q = Some b \<longrightarrow> p = q)
     \<and> (\<forall>p b. is_path p \<longrightarrow> tbl s p = Some b \<longrightarrow> held s b)
     \<and> (\<forall>i j k b. is_path [i, j, k] \<longrightarrow> tbl s [i, j] = Some b \<longrightarrow> bit (ptm s b k) 0
          \<longrightarrow> bit (ptm s b k) 7 \<longrightarrow> huge_ok (ptm s b k))"

lemma node_snoc:
  "node m d b (p @ [i]) = (case node m d b p of None \<Rightarrow> None
     | Some c \<Rightarrow> if leads (d + length p) (m c i) then Some (addr (m c i)) else None)"
proof (induction p arbitrary: d b)
  case (Cons a p)
  have "Suc d + length p = d + length (a # p)" by simp
  with Cons show ?case by (simp only: append_Cons node.simps split: if_splits) simp
qed simp

lemma tbl_Nil [simp]: "tbl s [] = Some (vmm_pml4 s)"
  by (simp add: tbl_def)

lemma tbl_snoc:
  "tbl s (p @ [i]) = (case tbl s p of None \<Rightarrow> None
     | Some c \<Rightarrow> if leads (length p) (ptm s c i) then Some (addr (ptm s c i)) else None)"
  by (simp only: tbl_def node_snoc add_0)

lemma tbl_1: "tbl s [i] = (if bit (ptm s (vmm_pml4 s) i) 0
     then Some (addr (ptm s (vmm_pml4 s) i)) else None)"
  using tbl_snoc [of s "[]" i] by (simp add: leads_def)

lemma tbl_2: "tbl s [i] = Some c \<Longrightarrow> tbl s [i, j] = (if bit (ptm s c j) 0
     then Some (addr (ptm s c j)) else None)"
  using tbl_snoc [of s "[i]" j] by (simp add: leads_def)

lemma tbl_3: "tbl s [i, j] = Some c \<Longrightarrow> tbl s [i, j, k] = (if bit (ptm s c k) 0 \<and> \<not> bit (ptm s c k) 7
     then Some (addr (ptm s c k)) else None)"
  using tbl_snoc [of s "[i, j]" k] by (simp add: leads_def)

lemma tbl_None: "tbl s p = None \<Longrightarrow> tbl s (p @ q) = None"
proof (induction q rule: rev_induct)
  case (snoc i q)
  then show ?case using tbl_snoc [of s "p @ q" i] by simp
qed simp

lemma is_path_snoc [simp]: "is_path (p @ [i]) \<longleftrightarrow> is_path p \<and> length p < 3 \<and> i < 512"
  by (auto simp: is_path_def)

lemma is_path_simps [simp]:
  "is_path []" "is_path [i] \<longleftrightarrow> i < 512" "is_path [i, j] \<longleftrightarrow> i < 512 \<and> j < 512"
  "is_path [i, j, k] \<longleftrightarrow> i < 512 \<and> j < 512 \<and> k < 512"
  by (auto simp: is_path_def)

lemma vmm_inv_inj: "vmm_inv s \<Longrightarrow> is_path p \<Longrightarrow> is_path q \<Longrightarrow> tbl s p = Some b \<Longrightarrow> tbl s q = Some b \<Longrightarrow> p = q"
  by (auto simp: vmm_inv_def)

lemma vmm_inv_held: "vmm_inv s \<Longrightarrow> is_path p \<Longrightarrow> tbl s p = Some b \<Longrightarrow> held s b"
  by (auto simp: vmm_inv_def)

lemma held_page: "held s b \<Longrightarrow> \<exists>n < PMM_MAX_PAGES. n \<noteq> 0 \<and> b = page_addr n"
  by (auto simp: held_def pmm_used_set_def)

text \<open>
  Writes to one entry of a table: every path that does not go through that entry leads where
  it led before.
\<close>

lemma tbl_write_other:
  assumes inv: "vmm_inv s" and c: "is_path p" "tbl s p = Some c"
    and m: "\<And>b j. held s b \<Longrightarrow> (b, j) \<noteq> (c, i) \<Longrightarrow> ptm s' b j = ptm s b j"
    and root: "vmm_pml4 s' = vmm_pml4 s"
    and q: "is_path q" "take (Suc (length p)) q \<noteq> p @ [i]"
  shows "tbl s' q = tbl s q"
  using q
proof (induction q rule: rev_induct)
  case Nil
  then show ?case by (simp add: root)
next
  case (snoc j q)
  have IH: "tbl s' q = tbl s q"
  proof (rule snoc.IH)
    show "is_path q" using snoc.prems(1) by simp
    show "take (Suc (length p)) q \<noteq> p @ [i]"
    proof
      assume *: "take (Suc (length p)) q = p @ [i]"
      then have "Suc (length p) \<le> length q" by (metis length_append_singleton length_take
            min.absorb_iff1 min.commute le_refl min.cobounded2)
      with * snoc.prems(2) show False by simp
    qed
  qed
  show ?case
  proof (cases "tbl s q")
    case None
    with IH show ?thesis by (simp add: tbl_snoc)
  next
    case (Some d)
    have "(d, j) \<noteq> (c, i)"
    proof
      assume "(d, j) = (c, i)"
      with Some c inv snoc.prems(1) have "q = p" using vmm_inv_inj by (metis is_path_snoc prod.inject)
      with \<open>(d, j) = (c, i)\<close> snoc.prems(2) show False by simp
    qed
    moreover have "held s d" using vmm_inv_held [OF inv _ Some] snoc.prems(1) by simp
    ultimately have "ptm s' d j = ptm s d j" using m by blast
    with IH Some show ?thesis by (simp add: tbl_snoc)
  qed
qed

text \<open>Changing the attribute bits of an entry moves no table.\<close>

lemma tbl_retag:
  assumes m: "\<And>b j. ptm s' b j = ptm s b j \<or> (bit (ptm s' b j) 0 = bit (ptm s b j) 0
       \<and> bit (ptm s' b j) 7 = bit (ptm s b j) 7 \<and> addr (ptm s' b j) = addr (ptm s b j))"
    and root: "vmm_pml4 s' = vmm_pml4 s"
  shows "tbl s' q = tbl s q"
proof (induction q rule: rev_induct)
  case (snoc j q)
  then show ?case
  proof (cases "tbl s q")
    case (Some d)
    from m [of d j] have "leads (length q) (ptm s' d j) = leads (length q) (ptm s d j)
        \<and> addr (ptm s' d j) = addr (ptm s d j)" by (auto simp: leads_def)
    with Some snoc show ?thesis by (simp add: tbl_snoc)
  qed (simp add: tbl_snoc)
qed (simp add: root)

lemma vmm_invI:
  assumes "pmm_inv (pmm s)" and "vmm_pml4 s \<noteq> 0"
    and "\<And>p q b. is_path p \<Longrightarrow> is_path q \<Longrightarrow> tbl s p = Some b \<Longrightarrow> tbl s q = Some b \<Longrightarrow> p = q"
    and "\<And>p b. is_path p \<Longrightarrow> tbl s p = Some b \<Longrightarrow> held s b"
    and "\<And>i j k b. is_path [i, j, k] \<Longrightarrow> tbl s [i, j] = Some b \<Longrightarrow> bit (ptm s b k) 0
          \<Longrightarrow> bit (ptm s b k) 7 \<Longrightarrow> huge_ok (ptm s b k)"
  shows "vmm_inv s"
  using assms unfolding vmm_inv_def by blast

lemma vmm_inv_huge:
  "vmm_inv s \<Longrightarrow> is_path [i, j, k] \<Longrightarrow> tbl s [i, j] = Some b \<Longrightarrow> bit (ptm s b k) 0
     \<Longrightarrow> bit (ptm s b k) 7 \<Longrightarrow> huge_ok (ptm s b k)"
  unfolding vmm_inv_def by blast

lemma vmm_inv_same_tbl:
  assumes inv: "vmm_inv s" and tbl: "\<And>q. is_path q \<Longrightarrow> tbl s' q = tbl s q"
    and pmm: "pmm s' = pmm s" and root: "vmm_pml4 s' = vmm_pml4 s"
    and huge: "\<And>i j k b. is_path [i, j, k] \<Longrightarrow> tbl s [i, j] = Some b \<Longrightarrow>
       bit (ptm s' b k) 0 \<Longrightarrow> bit (ptm s' b k) 7 \<Longrightarrow> huge_ok (ptm s' b k)"
  shows "vmm_inv s'"
proof (rule vmm_invI)
  show "pmm_inv (pmm s')" "vmm_pml4 s' \<noteq> 0" using inv by (simp_all add: vmm_inv_def pmm root)
next
  fix p q b assume "is_path p" "is_path q" "tbl s' p = Some b" "tbl s' q = Some b"
  then show "p = q" using vmm_inv_inj [OF inv, of p q b] tbl by simp
next
  fix p b assume "is_path p" "tbl s' p = Some b"
  then show "held s' b" using vmm_inv_held [OF inv, of p b] tbl by (simp add: held_def pmm)
next
  fix i j k b assume "is_path [i, j, k]" "tbl s' [i, j] = Some b" "bit (ptm s' b k) 0" "bit (ptm s' b k) 7"
  then show "huge_ok (ptm s' b k)" using huge [of i j k b] tbl [of "[i, j]"] by simp
qed

text \<open>Hanging a fresh table below an entry that led nowhere.\<close>

lemma attach_tbl:
  assumes inv: "vmm_inv s" and c: "is_path (p @ [i])" "tbl s p = Some c"
    and dead: "\<not> leads (length p) (ptm s c i)"
    and n: "n < PMM_MAX_PAGES" "n \<noteq> 0" "n \<notin> pmm_used_set (pmm s)"
    and pmm: "pmm_inv (pmm s')" "pmm_used_set (pmm s') = insert n (pmm_used_set (pmm s))"
    and root: "vmm_pml4 s' = vmm_pml4 s"
    and link: "leads (length p) (ptm s' c i)" "addr (ptm s' c i) = page_addr n"
    and m: "\<And>b j. held s b \<Longrightarrow> (b, j) \<noteq> (c, i) \<Longrightarrow> ptm s' b j = ptm s b j"
    and new: "\<And>j. length p < 2 \<Longrightarrow> j < 512 \<Longrightarrow> \<not> bit (ptm s' (page_addr n) j) 0"
  shows "is_path q \<Longrightarrow> tbl s' q = (if q = p @ [i] then Some (page_addr n) else tbl s q)"
    and "vmm_inv s'"
proof -
  have p: "is_path p" "length p < 3" "i < 512" using c(1) by simp_all
  have self: "tbl s' p = Some c"
    using tbl_write_other [OF inv p(1) c(2) m root p(1)] c(2) by simp
  have here: "tbl s' (p @ [i]) = Some (page_addr n)" using self link by (simp add: tbl_snoc)
  have old: "tbl s (p @ [i] @ r) = None" for r
    using tbl_None [of s "p @ [i]" r] c(2) dead by (simp add: tbl_snoc)
  have below: "tbl s' (p @ [i] @ r) = None" if "r \<noteq> []" "is_path (p @ [i] @ r)" for r
  proof -
    obtain j r' where r: "r = j # r'" using \<open>r \<noteq> []\<close> by (cases r) auto
    have j: "length p < 2" "j < 512" using that r by (auto simp: is_path_def)
    have "tbl s' ((p @ [i]) @ [j]) = None"
      using here new [OF j] by (simp only: tbl_snoc option.case leads_def simp_thms if_False)
    from tbl_None [OF this, of r'] show ?thesis by (simp add: r)
  qed
  show tbl: "tbl s' q = (if q = p @ [i] then Some (page_addr n) else tbl s q)" if q: "is_path q" for q
  proof (cases "take (Suc (length p)) q = p @ [i]")
    case True
    then obtain r where r: "q = p @ [i] @ r" by (metis append_take_drop_id append_assoc)
    then show ?thesis using here below [of r] old [of r] q by (cases "r = []") auto
  next
    case False
    then have "q \<noteq> p @ [i]" by auto
    then show ?thesis using tbl_write_other [OF inv p(1) c(2) m root q False] by simp
  qed
  have fresh: "tbl s q \<noteq> Some (page_addr n)" if "is_path q" for q
  proof
    assume "tbl s q = Some (page_addr n)"
    with inv that have "held s (page_addr n)" by (rule vmm_inv_held)
    with n show False by (auto simp: held_def page_addr_inj pmm_used_set_def)
  qed
  show "vmm_inv s'"
  proof (rule vmm_invI)
    show "pmm_inv (pmm s')" "vmm_pml4 s' \<noteq> 0" using inv pmm by (simp_all add: vmm_inv_def root)
  next
    fix q r b assume "is_path q" "is_path r" "tbl s' q = Some b" "tbl s' r = Some b"
    then show "q = r" using tbl [of q] tbl [of r] vmm_inv_inj [OF inv] fresh by (auto split: if_splits)
  next
    fix q b assume "is_path q" "tbl s' q = Some b"
    then show "held s' b"
      using tbl [of q] vmm_inv_held [OF inv, of q b] n pmm(2) by (auto simp: held_def split: if_splits)
  next
    fix x y k b assume xyk: "is_path [x, y, k]" "tbl s' [x, y] = Some b" "bit (ptm s' b k) 0"
      "bit (ptm s' b k) 7"
    show "huge_ok (ptm s' b k)"
    proof (cases "[x, y] = p @ [i]")
      case True
      then have "length p = 1" by (metis length_append_singleton length_Cons list.size(3) One_nat_def
            nat.inject)
      with True tbl [of "[x, y]"] xyk new [of k] show ?thesis by auto
    next
      case False
      with tbl [of "[x, y]"] xyk have b: "tbl s [x, y] = Some b" by simp
      have "held s b" using vmm_inv_held [OF inv _ b] xyk by simp
      moreover have "(b, k) \<noteq> (c, i)"
      proof
        assume eq: "(b, k) = (c, i)"
        then have "[x, y] = p" using vmm_inv_inj [OF inv _ p(1) b] c(2) xyk by simp
        then have "length p = 2" by auto
        with link(1) eq xyk(4) show False by (simp add: leads_def)
      qed
      ultimately have "ptm s' b k = ptm s b k" using m by blast
      with vmm_inv_huge [OF inv xyk(1) b] xyk show ?thesis by simp
    qed
  qed
qed

section \<open>Translation\<close>

abbreviation pd_path :: "u64 \<Rightarrow> nat list" where
  "pd_path v \<equiv> [pml4_ix v, pdpt_ix v]"

abbreviation pt_path :: "u64 \<Rightarrow> nat list" where
  "pt_path v \<equiv> [pml4_ix v, pdpt_ix v, pd_ix v]"

definition leaf_phys :: "u64 \<Rightarrow> u64 \<Rightarrow> u64" where
  "leaf_phys e v = (if bit e 0 then (e AND 0x000FFFFFFFFFF000) OR (v AND 0xFFF) else 0)"

definition huge_phys_of :: "u64 \<Rightarrow> u64 \<Rightarrow> u64" where
  "huge_phys_of e v = (if bit e 0 then (e AND 0x000FFFFFFFFFF00000) OR (v AND 0x1FFFFF) else 0)"

text \<open>What \<open>vmm_get_phys\<close> computes, said with the tree of tables.\<close>

definition xlate :: "vmm \<Rightarrow> u64 \<Rightarrow> u64" where
  "xlate s v = (case tbl s (pt_path v) of
       Some pt \<Rightarrow> leaf_phys (ptm s pt (pt_ix v)) v
     | None \<Rightarrow> (case tbl s (pd_path v) of
           Some pd \<Rightarrow> huge_phys_of (ptm s pd (pd_ix v)) v
         | None \<Rightarrow> 0))"

definition huge_at :: "vmm \<Rightarrow> u64 \<Rightarrow> bool" where
  "huge_at s v = (case tbl s (pd_path v) of
       Some pd \<Rightarrow> bit (ptm s pd (pd_ix v)) 0 \<and> bit (ptm s pd (pd_ix v)) 7
     | None \<Rightarrow> False)"

lemma held_phys_mask:
  assumes "held s (addr e)"
  shows "e AND 0x000FFFFFFFFFF000 = addr e"
proof -
  from held_page [OF assms] obtain n where n: "n < PMM_MAX_PAGES" "addr e = page_addr n" by auto
  have "k < 32" if "bit e k" "12 \<le> k" for k
  proof -
    have "k < 64" using that(1) bit_imp_le_length by fastforce
    with that have "bit (addr e) k" by (simp add: entry_bits)
    with bit_page_addr [OF n(1)] n(2) show ?thesis by simp
  qed
  then show ?thesis by (fastforce intro!: bit_eqI simp: entry_bits)
qed

lemma vmm_get_phys_xlate:
  assumes "vmm_inv s"
  shows "vmm_get_phys s v = xlate s v"
proof -
  let ?e4 = "ptm s (vmm_pml4 s) (pml4_ix v)"
  have root: "vmm_pml4 s \<noteq> 0" using assms by (simp add: vmm_inv_def)
  show ?thesis
  proof (cases "tbl s [pml4_ix v]")
    case None
    then have "\<not> bit ?e4 0" by (auto simp: tbl_1 split: if_splits)
    moreover have "tbl s (pd_path v) = None" "tbl s (pt_path v) = None"
      using tbl_None [OF None, of "[pdpt_ix v]"] tbl_None [OF None, of "[pdpt_ix v, pd_ix v]"] by simp_all
    ultimately show ?thesis by (simp add: vmm_get_phys_def root xlate_def)
  next
    case (Some c)
    then have e4: "bit ?e4 0" "addr ?e4 = c" by (auto simp: tbl_1 split: if_splits)
    have "held s c" using vmm_inv_held [OF assms _ Some] by simp
    then have c: "?e4 AND 0x000FFFFFFFFFF000 = c" using held_phys_mask [of s ?e4] e4 by simp
    let ?e3 = "ptm s c (pdpt_ix v)"
    show ?thesis
    proof (cases "tbl s (pd_path v)")
      case None
      then have "\<not> bit ?e3 0" using tbl_2 [OF Some, of "pdpt_ix v"] by (auto split: if_splits)
      moreover have "tbl s (pt_path v) = None" using tbl_None [OF None, of "[pd_ix v]"] by simp
      ultimately show ?thesis using None by (simp add: vmm_get_phys_def root xlate_def e4 c Let_def)
    next
      case d: (Some d)
      then have e3: "bit ?e3 0" "addr ?e3 = d" using tbl_2 [OF Some] by (auto split: if_splits)
      have "held s d" using vmm_inv_held [OF assms _ d] by simp
      then have d': "?e3 AND 0x000FFFFFFFFFF000 = d" using held_phys_mask [of s ?e3] e3 by simp
      show ?thesis
        using tbl_3 [OF d, of "pd_ix v"]
        by (auto simp: vmm_get_phys_def root xlate_def e4 c e3 d' d Let_def leaf_phys_def
            huge_phys_of_def split: if_splits)
    qed
  qed
qed

section \<open>Steps that keep every translation\<close>

definition grows :: "vmm \<Rightarrow> vmm \<Rightarrow> bool" where
  "grows s s' \<longleftrightarrow> vmm_inv s' \<and> vmm_pml4 s' = vmm_pml4 s
     \<and> (\<forall>q b. is_path q \<longrightarrow> tbl s q = Some b \<longrightarrow> tbl s' q = Some b)
     \<and> (\<forall>v. xlate s' v = xlate s v) \<and> (\<forall>v. huge_at s' v \<longrightarrow> huge_at s v)"

lemma grows_refl: "vmm_inv s \<Longrightarrow> grows s s"
  by (simp add: grows_def)

lemma grows_trans: "grows s s' \<Longrightarrow> grows s' s'' \<Longrightarrow> grows s s''"
  by (simp add: grows_def)

lemma grows_retag:
  assumes inv: "vmm_inv s" and m: "\<And>b j. ptm s' b j = ptm s b j \<or> (bit (ptm s' b j) 0 = bit (ptm s b j) 0
       \<and> bit (ptm s' b j) 7 = bit (ptm s b j) 7 \<and> addr (ptm s' b j) = addr (ptm s b j))"
    and root: "vmm_pml4 s' = vmm_pml4 s" and pmm: "pmm s' = pmm s"
    and low: "\<And>q b. is_path q \<Longrightarrow> 2 \<le> length q \<Longrightarrow> tbl s q = Some b \<Longrightarrow> ptm s' b = ptm s b"
  shows "grows s s'"
proof -
  note t = tbl_retag [OF m root]
  have "vmm_inv s'"
  proof (rule vmm_inv_same_tbl [OF inv t pmm root])
    fix i j k b assume *: "is_path [i, j, k]" "tbl s [i, j] = Some b" "bit (ptm s' b k) 0" "bit (ptm s' b k) 7"
    moreover have "ptm s' b = ptm s b" using low [of "[i, j]" b] * by simp
    ultimately show "huge_ok (ptm s' b k)" using vmm_inv_huge [OF inv, of i j k b] by simp
  qed
  moreover have "xlate s' v = xlate s v" for v
    using low [of "pt_path v"] low [of "pd_path v"] by (auto simp: xlate_def t split: option.splits)
  moreover have "huge_at s' v \<longrightarrow> huge_at s v" for v
    using low [of "pd_path v"] by (auto simp: huge_at_def t split: option.splits)
  ultimately show ?thesis by (simp add: grows_def t root)
qed

lemma grows_attach:
  assumes inv: "vmm_inv s" and c: "is_path (p @ [i])" "tbl s p = Some c"
    and dead: "\<not> bit (ptm s c i) 0"
    and n: "n < PMM_MAX_PAGES" "n \<noteq> 0" "n \<notin> pmm_used_set (pmm s)"
    and pmm: "pmm_inv (pmm s')" "pmm_used_set (pmm s') = insert n (pmm_used_set (pmm s))"
    and root: "vmm_pml4 s' = vmm_pml4 s"
    and link: "bit (ptm s' c i) 0" "\<not> bit (ptm s' c i) 7" "addr (ptm s' c i) = page_addr n"
    and m: "\<And>b j. held s b \<Longrightarrow> (b, j) \<noteq> (c, i) \<Longrightarrow> ptm s' b j = ptm s b j"
    and new: "\<And>j. \<not> bit (ptm s' (page_addr n) j) 0"
  shows "grows s s' \<and> tbl s' (p @ [i]) = Some (page_addr n)"
proof -
  have dead': "\<not> leads (length p) (ptm s c i)" and link': "leads (length p) (ptm s' c i)"
    using dead link by (simp_all add: leads_def)
  have t: "tbl s' q = (if q = p @ [i] then Some (page_addr n) else tbl s q)" if "is_path q" for q
    by (rule attach_tbl(1) [OF inv c dead' n pmm root link' link(3) _ _ that]) (use m new in auto)
  have inv': "vmm_inv s'"
    by (rule attach_tbl(2) [OF inv c dead' n pmm root link' link(3)]) (use m new in auto)
  have none: "tbl s (p @ [i]) = None" using c(2) dead' by (simp add: tbl_snoc)
  have here: "tbl s' (p @ [i]) = Some (page_addr n)" using t [OF c(1)] by simp
  have p: "is_path p" "length p < 3" using c(1) by auto
  have same: "ptm s' b j = ptm s b j" if "is_path q" "tbl s q = Some b" "q @ [j] \<noteq> p @ [i]" for q b j
  proof -
    have "held s b" using that vmm_inv_held [OF inv] by blast
    moreover have "(b, j) \<noteq> (c, i)" using that c(2) p(1) vmm_inv_inj [OF inv, of q p b] by auto
    ultimately show ?thesis using m by blast
  qed
  have "xlate s' v = xlate s v" for v
  proof (cases "tbl s (pt_path v)")
    case (Some b)
    then have "pt_path v \<noteq> p @ [i]" using none by auto
    then have "tbl s' (pt_path v) = Some b" using t [of "pt_path v"] Some by auto
    moreover have "ptm s' b (pt_ix v) = ptm s b (pt_ix v)"
      using Some p(2) by (intro same [of "pt_path v"]) (auto simp: append_eq_Cons_conv)
    ultimately show ?thesis using Some by (simp add: xlate_def)
  next
    case None
    show ?thesis
    proof (cases "pt_path v = p @ [i]")
      case True
      then have pi: "p = pd_path v" "i = pd_ix v"
        by (metis append1_eq_conv append_Cons append_Nil)+
      then have "xlate s v = 0" using c(2) dead None by (simp add: xlate_def huge_phys_of_def)
      moreover have "tbl s' (pt_path v) = Some (page_addr n)" using here True by metis
      ultimately show ?thesis using new by (simp add: xlate_def leaf_phys_def)
    next
      case False
      then have pt: "tbl s' (pt_path v) = None" using t [of "pt_path v"] None by auto
      show ?thesis
      proof (cases "pd_path v = p @ [i]")
        case True
        then have "tbl s' (pd_path v) = Some (page_addr n)" "tbl s (pd_path v) = None"
          using here none by metis+
        then show ?thesis using pt None new by (simp add: xlate_def huge_phys_of_def)
      next
        case pd: False
        have "ptm s' b (pd_ix v) = ptm s b (pd_ix v)" if "tbl s (pd_path v) = Some b" for b
          using that False by (intro same [of "pd_path v"]) auto
        moreover have "tbl s' (pd_path v) = tbl s (pd_path v)" using t [of "pd_path v"] pd by auto
        ultimately show ?thesis using pt None by (simp add: xlate_def split: option.split)
      qed
    qed
  qed
  moreover have "tbl s' q = Some b" if "is_path q" "tbl s q = Some b" for q b
    using that t [of q] none by auto
  moreover have "huge_at s v" if h: "huge_at s' v" for v
  proof -
    obtain d where d: "tbl s' (pd_path v) = Some d" "bit (ptm s' d (pd_ix v)) 0" "bit (ptm s' d (pd_ix v)) 7"
      using h by (auto simp: huge_at_def split: option.splits)
    have "pd_path v \<noteq> p @ [i]" using d here new by (metis option.inject)
    then have e: "tbl s (pd_path v) = Some d" using t [of "pd_path v"] d by auto
    have "(d, pd_ix v) \<noteq> (c, i)" using d(3) link(2) by auto
    moreover have "held s d" using vmm_inv_held [OF inv _ e] by simp
    ultimately have "ptm s' d (pd_ix v) = ptm s d (pd_ix v)" using m by blast
    with d e show ?thesis by (simp add: huge_at_def)
  qed
  ultimately show ?thesis using inv' here root by (simp add: grows_def)
qed

section \<open>The steps of vmm_map_page\<close>

lemma vmm_alloc_fresh:
  assumes "pmm_inv (pmm s)" and "vmm_alloc s = (a, s1)" and "a \<noteq> 0"
  shows "\<exists>n. a = page_addr n \<and> n < PMM_MAX_PAGES \<and> n \<noteq> 0 \<and> n \<notin> pmm_used_set (pmm s)
     \<and> pmm_inv (pmm s1) \<and> pmm_used_set (pmm s1) = insert n (pmm_used_set (pmm s))
     \<and> s1 = s\<lparr>pmm := pmm s1\<rparr>"
proof -
  obtain p' where al: "pmm_alloc_page (pmm s) = (a, p')" and s1: "s1 = s\<lparr>pmm := p'\<rparr>"
    using assms(2) by (auto simp: vmm_alloc_def split: prod.splits)
  from pmm.alloc_fresh [OF assms(1) al assms(3)] pmm.alloc_inv [OF assms(1) al] show ?thesis
    by (auto simp: s1)
qed

lemma table_flags:
  "bit (VMM_PRESENT OR VMM_WRITABLE OR VMM_USER) m \<Longrightarrow> m < 12 \<and> m \<noteq> 7"
  "bit VMM_WRITABLE m \<Longrightarrow> m < 12 \<and> m \<noteq> 7"
  by (auto simp: entry_bits)

lemma vmm_ensure_grows:
  assumes inv: "vmm_inv s" and c: "is_path (p @ [i])" "tbl s p = Some c"
    and fl: "\<And>n. bit fl n \<Longrightarrow> n < 12 \<and> n \<noteq> 7"
    and pd: "length p = 2 \<longrightarrow> \<not> bit (ptm s c i) 0"
    and run: "vmm_ensure_table c i fl s = Some (nw, s')"
  shows "grows s s' \<and> tbl s' (p @ [i]) = Some (addr (ptm s' c i))"
proof (cases "bit (ptm s c i) 0")
  case True
  then have "s' = s" using run by (simp add: vmm_ensure_table_def)
  moreover have "leads (length p) (ptm s c i)" using True pd by (auto simp: leads_def)
  ultimately show ?thesis using inv c by (simp add: grows_refl tbl_snoc)
next
  case False
  obtain a s1 where al: "vmm_alloc s = (a, s1)" by fastforce
  with run False have a: "a \<noteq> 0" and s': "s' = zero_page a (set_ent c i (vmm_make_entry a fl) s1)"
    by (auto simp: vmm_ensure_table_def split: if_splits)
  have "pmm_inv (pmm s)" using inv by (simp add: vmm_inv_def)
  from vmm_alloc_fresh [OF this al a] obtain n where n: "a = page_addr n" "n < PMM_MAX_PAGES"
    "n \<noteq> 0" "n \<notin> pmm_used_set (pmm s)" and p1: "pmm_inv (pmm s1)"
    "pmm_used_set (pmm s1) = insert n (pmm_used_set (pmm s))" and s1: "s1 = s\<lparr>pmm := pmm s1\<rparr>" by auto
  have ne: "b \<noteq> a" if "held s b" for b
    using that n by (auto simp: held_def page_addr_inj pmm_used_set_def)
  have "held s c" using vmm_inv_held [OF inv _ c(2)] c(1) by simp
  with ne have ca: "c \<noteq> a" by blast
  have s1f: "ptm s1 = ptm s" "vmm_pml4 s1 = vmm_pml4 s"
    by (subst s1, simp)+
  have mem: "ptm s' b j = (if b = a then 0 else if b = c \<and> j = i then vmm_make_entry a fl
      else ptm s b j)" for b j
    by (simp add: s' zero_page_def set_ent_def s1f)
  note en = make_entry_table [OF n(2) fl, folded n(1)]
  have "grows s s' \<and> tbl s' (p @ [i]) = Some (page_addr n)"
  proof (rule grows_attach [OF inv c False n(2-4)])
    show "pmm_inv (pmm s')" "pmm_used_set (pmm s') = insert n (pmm_used_set (pmm s))"
      "vmm_pml4 s' = vmm_pml4 s"
      using p1 by (simp_all add: s' zero_page_def set_ent_def s1f)
    show "bit (ptm s' c i) 0" "\<not> bit (ptm s' c i) 7" "addr (ptm s' c i) = page_addr n"
      using en ca by (simp_all add: mem flip: n(1))
    show "ptm s' b j = ptm s b j" if "held s b" "(b, j) \<noteq> (c, i)" for b j
      using that ne by (auto simp: mem)
    show "\<not> bit (ptm s' (page_addr n) j) 0" for j by (simp add: mem flip: n(1))
  qed
  moreover have "addr (ptm s' c i) = page_addr n" using en ca by (simp add: mem flip: n(1))
  ultimately show ?thesis by simp
qed

lemma vmm_user_bits_grows:
  assumes inv: "vmm_inv s" and c: "tbl s [i4] = Some pdpt" "i4 < 512"
  shows "grows s (vmm_user_bits (vmm_pml4 s) i4 pdpt i3 flags s)"
proof (rule grows_retag [OF inv])
  let ?s = "vmm_user_bits (vmm_pml4 s) i4 pdpt i3 flags s"
  show "ptm ?s b j = ptm s b j \<or> (bit (ptm ?s b j) 0 = bit (ptm s b j) 0
       \<and> bit (ptm ?s b j) 7 = bit (ptm s b j) 7 \<and> addr (ptm ?s b j) = addr (ptm s b j))" for b j
    by (auto simp: vmm_user_bits_def set_ent_def Let_def)
  show "vmm_pml4 ?s = vmm_pml4 s" "pmm ?s = pmm s"
    by (simp_all add: vmm_user_bits_def set_ent_def Let_def)
  show "ptm ?s b = ptm s b" if q: "is_path q" "2 \<le> length q" "tbl s q = Some b" for q b
  proof -
    have "b \<noteq> vmm_pml4 s" using vmm_inv_inj [OF inv q(1), of "[]" b] q by auto
    moreover have "b \<noteq> pdpt" using vmm_inv_inj [OF inv q(1), of "[i4]" b] q c by auto
    ultimately show ?thesis by (simp add: vmm_user_bits_def set_ent_def Let_def)
  qed
qed

text \<open>Splitting a huge page keeps the translation of all 512 pages in it.\<close>

lemma huge_ok_bits: "huge_ok e \<Longrightarrow> bit e k \<Longrightarrow> \<not> (12 \<le> k \<and> k \<le> 20) \<and> \<not> (52 \<le> k \<and> k \<le> 62)"
proof -
  have m: "(0x7FF00000001FF000 :: u64) =
      (mask 63 AND NOT (mask 52)) OR (mask 21 AND NOT (mask 12))"
    by (simp add: mask_eq_exp_minus_1)
  assume "huge_ok e" and "bit e k"
  then have "\<not> bit (0x7FF00000001FF000 :: u64) k" and "k < 64"
    unfolding huge_ok_def by (metis bit_and_iff bit_0_eq bot_apply bot_bool_def)
      (use \<open>bit e k\<close> bit_imp_le_length in fastforce)
  then show ?thesis unfolding m by (auto simp: entry_bits)
qed

lemma split_same_phys:
  assumes "huge_ok e" and "bit e 0"
  shows "leaf_phys (vmm_make_entry ((e AND NOT 0x1FFFFF) + of_nat (pt_ix v) * 4096)
       (VMM_PRESENT OR VMM_WRITABLE)) v = huge_phys_of e v"
proof -
  define w where "w = push_bit 12 (drop_bit 12 v AND mask 9 :: u64)"
  have "(0x1FF :: u64) = mask 9" by (simp add: mask_eq_exp_minus_1)
  then have ix: "of_nat (pt_ix v) * 4096 = w"
    by (simp add: pt_ix_def push_bit_eq_mult w_def)
  have bits: "bit w k \<longleftrightarrow> 12 \<le> k \<and> k < 21 \<and> bit v k" for k
    unfolding w_def bit_push_bit_iff using bit_imp_le_length [of v k]
    by (auto simp: bit_drop_bit_eq entry_bits)
  have sum: "(e AND NOT 0x1FFFFF) + of_nat (pt_ix v) * 4096 = (e AND NOT (mask 21)) OR w"
    unfolding ix low21 by (rule disjunctive_add) (auto simp: bits entry_bits)
  have "bit (leaf_phys (vmm_make_entry ((e AND NOT (mask 21)) OR w)
       (VMM_PRESENT OR VMM_WRITABLE)) v) k = bit (huge_phys_of e v) k" if "k < 64" for k
  proof -
    have "bit e k \<Longrightarrow> \<not> (12 \<le> k \<and> k \<le> 20) \<and> \<not> (52 \<le> k \<and> k \<le> 62)" by (rule huge_ok_bits [OF assms(1)])
    then show ?thesis using that assms(2)
      by (auto simp: leaf_phys_def huge_phys_of_def entry_bits bits)
  qed
  then show ?thesis unfolding sum by (intro bit_word_eqI) simp
qed

lemma fold_set_ent:
  "fold (\<lambda>i s. set_ent b i (f i) s) [0..<n] s =
     s\<lparr>ptm := (ptm s)(b := (\<lambda>j. if j < n then f j else ptm s b j))\<rparr>"
proof (induction n)
  case (Suc n)
  have "(\<lambda>j. if j < n then f j else ptm s b j)(n := f n) =
      (\<lambda>j. if j < Suc n then f j else ptm s b j)" by (auto simp: less_Suc_eq)
  with Suc show ?case by (simp add: set_ent_def fun_upd_same del: fun_upd_apply)
qed simp

lemma grows_split:
  assumes inv: "vmm_inv s" and pd: "tbl s [i4, i3] = Some pd" "is_path [i4, i3, i2]"
    and huge: "bit (ptm s pd i2) 0" "bit (ptm s pd i2) 7"
    and al: "vmm_alloc s = (a, s1)" "a \<noteq> 0"
    and s': "s' = set_ent pd i2 (vmm_make_entry a (VMM_PRESENT OR VMM_WRITABLE OR VMM_USER))
        (vmm_fill_split a (ptm s pd i2 AND NOT 0x1FFFFF) s1)"
  shows "grows s s' \<and> tbl s' [i4, i3, i2] = Some (addr (ptm s' pd i2))"
proof -
  let ?e = "ptm s pd i2" and ?fl = "VMM_PRESENT OR VMM_WRITABLE OR VMM_USER"
  have hok: "huge_ok ?e" using vmm_inv_huge [OF inv pd(2,1)] huge by simp
  have "pmm_inv (pmm s)" using inv by (simp add: vmm_inv_def)
  from vmm_alloc_fresh [OF this al] obtain n where n: "a = page_addr n" "n < PMM_MAX_PAGES"
    "n \<noteq> 0" "n \<notin> pmm_used_set (pmm s)" and p1: "pmm_inv (pmm s1)"
    "pmm_used_set (pmm s1) = insert n (pmm_used_set (pmm s))" and s1: "s1 = s\<lparr>pmm := pmm s1\<rparr>" by auto
  have ne: "b \<noteq> a" if "held s b" for b
    using that n by (auto simp: held_def page_addr_inj pmm_used_set_def)
  have "held s pd" using vmm_inv_held [OF inv _ pd(1)] pd(2) by simp
  with ne have ca: "pd \<noteq> a" by blast
  have s1f: "ptm s1 = ptm s" "vmm_pml4 s1 = vmm_pml4 s" by (subst s1, simp)+
  define cont where "cont = (\<lambda>j. vmm_make_entry ((?e AND NOT 0x1FFFFF) + of_nat j * 4096)
      (VMM_PRESENT OR VMM_WRITABLE))"
  have mem: "ptm s' b j = (if b = a \<and> j < 512 then cont j
      else if b = pd \<and> j = i2 then vmm_make_entry a ?fl else ptm s b j)" for b j
    using ca unfolding s' vmm_fill_split_def fold_set_ent cont_def by (simp add: set_ent_def s1f)
  have fl: "m < 12 \<and> m \<noteq> 7" if "bit ?fl m" for m using that by (auto simp: entry_bits)
  note en = make_entry_table [OF n(2) fl, folded n(1)]
  have link: "bit (ptm s' pd i2) 0" "\<not> bit (ptm s' pd i2) 7" "addr (ptm s' pd i2) = page_addr n"
    using en ca by (simp_all add: mem flip: n(1))
  have other: "ptm s' b j = ptm s b j" if "held s b" "(b, j) \<noteq> (pd, i2)" for b j
    using that ne by (auto simp: mem)
  have pmm': "pmm_inv (pmm s')" "pmm_used_set (pmm s') = insert n (pmm_used_set (pmm s))"
    "vmm_pml4 s' = vmm_pml4 s"
    using p1 unfolding s' vmm_fill_split_def fold_set_ent by (simp_all add: set_ent_def s1f)
  have path: "is_path ([i4, i3] @ [i2])" using pd(2) by simp
  have dead: "\<not> leads (length [i4, i3]) ?e" and lead: "leads (length [i4, i3]) (ptm s' pd i2)"
    using huge link by (simp_all add: leads_def)
  have t: "tbl s' q = (if q = [i4, i3] @ [i2] then Some (page_addr n) else tbl s q)" if "is_path q" for q
    by (rule attach_tbl(1) [OF inv path pd(1) dead n(2-4) pmm' lead link(3) _ _ that])
       (use other in auto)
  have inv': "vmm_inv s'"
    by (rule attach_tbl(2) [OF inv path pd(1) dead n(2-4) pmm' lead link(3)]) (use other in auto)
  have none: "tbl s [i4, i3, i2] = None" using tbl_3 [OF pd(1), of i2] huge by simp
  have same: "ptm s' b j = ptm s b j" if "is_path q" "tbl s q = Some b" "(q, j) \<noteq> ([i4, i3], i2)" for q b j
  proof -
    have "held s b" using that vmm_inv_held [OF inv] by blast
    moreover have "(b, j) \<noteq> (pd, i2)"
      using that pd vmm_inv_inj [OF inv, of q "[i4, i3]" b] by auto
    ultimately show ?thesis using other by blast
  qed
  have "xlate s' v = xlate s v" for v
  proof (cases "pt_path v = [i4, i3, i2]")
    case True
    then have "tbl s' (pt_path v) = Some a" using t [OF path] n(1) by simp
    moreover have "ptm s' a (pt_ix v) = cont (pt_ix v)" by (simp add: mem)
    moreover have "xlate s v = huge_phys_of ?e v" using True none pd(1) by (simp add: xlate_def)
    ultimately show ?thesis using split_same_phys [OF hok huge(1), of v] by (simp add: xlate_def cont_def)
  next
    case False
    have "tbl s' (pt_path v) = tbl s (pt_path v)" using t [of "pt_path v"] False by auto
    moreover have "tbl s' (pd_path v) = tbl s (pd_path v)" using t [of "pd_path v"] by auto
    ultimately show ?thesis using same [of "pt_path v" _ "pt_ix v"] same [of "pd_path v" _ "pd_ix v"] False
      by (auto simp: xlate_def split: option.split)
  qed
  moreover have "tbl s' q = Some b" if "is_path q" "tbl s q = Some b" for q b
    using that t [of q] none by auto
  moreover have "huge_at s v" if h: "huge_at s' v" for v
  proof -
    obtain d where d: "tbl s' (pd_path v) = Some d" "bit (ptm s' d (pd_ix v)) 0" "bit (ptm s' d (pd_ix v)) 7"
      using h by (auto simp: huge_at_def split: option.splits)
    have e: "tbl s (pd_path v) = Some d" using t [of "pd_path v"] d by auto
    have "(d, pd_ix v) \<noteq> (pd, i2)" using d(3) link(2) by auto
    moreover have "held s d" using vmm_inv_held [OF inv _ e] by simp
    ultimately have "ptm s' d (pd_ix v) = ptm s d (pd_ix v)" using other by blast
    with d e show ?thesis by (simp add: huge_at_def)
  qed
  ultimately show ?thesis using inv' t [OF path] link(3) pmm'(3) by (simp add: grows_def)
qed

lemma vmm_pd_level_grows:
  assumes inv: "vmm_inv s" and pd: "tbl s [i4, i3] = Some pd" "is_path [i4, i3, i2]"
    and run: "vmm_pd_level pd i2 flags s = Some (Inr (nw, s'))"
  shows "grows s s' \<and> tbl s' [i4, i3, i2] = Some (addr (ptm s' pd i2))"
proof -
  let ?e = "ptm s pd i2"
  consider (huge) "bit ?e 0" "bit ?e 7" | (table) "bit ?e 0" "\<not> bit ?e 7" | (none) "\<not> bit ?e 0" by blast
  then show ?thesis
  proof cases
    case huge
    obtain a s1 where al: "vmm_alloc s = (a, s1)" by fastforce
    with run huge show ?thesis
      by (intro grows_split [OF inv pd huge al]) (auto simp: vmm_pd_level_def Let_def split: if_splits)
  next
    case table
    then have "s' = s" using run by (simp add: vmm_pd_level_def)
    then show ?thesis using table inv tbl_3 [OF pd(1), of i2] by (simp add: grows_refl)
  next
    case none
    then have "vmm_ensure_table pd i2 (VMM_PRESENT OR VMM_WRITABLE OR VMM_USER) s = Some (nw, s')"
      using run by (auto simp: vmm_pd_level_def)
    from vmm_ensure_grows [OF inv _ _ table_flags(1) _ this, of "[i4, i3]"] pd none show ?thesis
      by simp
  qed
qed

lemma grows_tbl: "grows s s' \<Longrightarrow> is_path q \<Longrightarrow> tbl s q = Some b \<Longrightarrow> tbl s' q = Some b"
  by (simp add: grows_def)

lemma grows_inv: "grows s s' \<Longrightarrow> vmm_inv s'"
  by (simp add: grows_def)

lemma vmm_flush_same [simp]:
  "ptm (vmm_flush nl v s) = ptm s" "vmm_pml4 (vmm_flush nl v s) = vmm_pml4 s"
  "pmm (vmm_flush nl v s) = pmm s"
  by (simp_all add: vmm_flush_def vmm_reload_cr3_def vmm_invlpg_def)

lemma same_store:
  assumes "ptm s' = ptm s" and "vmm_pml4 s' = vmm_pml4 s" and "pmm s' = pmm s"
  shows "tbl s' q = tbl s q" and "xlate s' v = xlate s v" and "vmm_inv s' = vmm_inv s"
proof -
  have t: "tbl s' q = tbl s q" for q by (simp add: tbl_def assms)
  then show "tbl s' q = tbl s q" .
  show "xlate s' v = xlate s v" by (simp only: xlate_def t assms)
  show "vmm_inv s' = vmm_inv s" by (simp add: vmm_inv_def t assms held_def)
qed

text \<open>Writing one entry of a page table changes the translation of that page only.\<close>

lemma leaf_write:
  assumes inv: "vmm_inv s" and pt: "tbl s (pt_path virt) = Some pt"
    and s': "s' = set_ent pt (pt_ix virt) e s"
  shows "vmm_inv s'" and "tbl s' (pt_path virt) = Some pt" and "xlate s' virt = leaf_phys e virt"
    and "(pt_path v, pt_ix v) \<noteq> (pt_path virt, pt_ix virt) \<Longrightarrow> xlate s' v = xlate s v"
proof -
  have mem: "ptm s' b j = (if b = pt \<and> j = pt_ix virt then e else ptm s b j)" for b j
    by (simp add: s' set_ent_def)
  have fr: "vmm_pml4 s' = vmm_pml4 s" "pmm s' = pmm s" by (simp_all add: s' set_ent_def)
  have t: "tbl s' q = tbl s q" if "is_path q" for q
  proof (rule tbl_write_other [OF inv _ pt _ fr(1) that])
    show "is_path (pt_path virt)" by simp
    show "ptm s' b j = ptm s b j" if "(b, j) \<noteq> (pt, pt_ix virt)" for b j using that by (auto simp: mem)
    have "length q \<le> 3" using that by (simp add: is_path_def)
    then show "take (Suc (length (pt_path virt))) q \<noteq> pt_path virt @ [pt_ix virt]"
      by (auto dest!: arg_cong [of _ _ length])
  qed
  have short: "b \<noteq> pt" if "is_path q" "length q < 3" "tbl s q = Some b" for q b
    using that vmm_inv_inj [OF inv, of q "pt_path virt" b] pt by auto
  show "vmm_inv s'"
  proof (rule vmm_inv_same_tbl [OF inv t fr(2,1)])
    fix i j k b assume *: "is_path [i, j, k]" "tbl s [i, j] = Some b" "bit (ptm s' b k) 0" "bit (ptm s' b k) 7"
    then have "b \<noteq> pt" using short [of "[i, j]" b] by simp
    with * vmm_inv_huge [OF inv, of i j k b] show "huge_ok (ptm s' b k)" by (simp add: mem)
  qed
  show "tbl s' (pt_path virt) = Some pt" using t pt by simp
  then show "xlate s' virt = leaf_phys e virt" by (simp add: xlate_def mem)
  show "xlate s' v = xlate s v" if ne: "(pt_path v, pt_ix v) \<noteq> (pt_path virt, pt_ix virt)"
  proof (cases "tbl s (pt_path v)")
    case (Some b)
    have "\<not> (b = pt \<and> pt_ix v = pt_ix virt)"
      using Some pt ne vmm_inv_inj [OF inv, of "pt_path v" "pt_path virt" b] by auto
    with Some show ?thesis using t [of "pt_path v"] by (auto simp: xlate_def mem)
  next
    case None
    have "ptm s' b = ptm s b" if "tbl s (pd_path v) = Some b" for b
      using short [OF _ _ that] by (simp add: s' set_ent_def)
    with None show ?thesis using t [of "pt_path v"] t [of "pd_path v"]
      by (simp add: xlate_def split: option.split)
  qed
qed

lemma vmm_get_pte_tbl:
  assumes "vmm_inv s" and "tbl s (pt_path v) = Some pt"
  shows "vmm_get_pte s v = ptm s pt (pt_ix v)"
proof -
  obtain c d where c: "tbl s [pml4_ix v] = Some c" and d: "tbl s (pd_path v) = Some d"
    using assms(2) tbl_None [of s "[pml4_ix v]" "[pdpt_ix v, pd_ix v]"]
      tbl_None [of s "pd_path v" "[pd_ix v]"] by fastforce
  have e4: "bit (ptm s (vmm_pml4 s) (pml4_ix v)) 0" "addr (ptm s (vmm_pml4 s) (pml4_ix v)) = c"
    using c by (auto simp: tbl_1 split: if_splits)
  have e3: "bit (ptm s c (pdpt_ix v)) 0" "addr (ptm s c (pdpt_ix v)) = d"
    using d tbl_2 [OF c] by (auto split: if_splits)
  have e2: "bit (ptm s d (pd_ix v)) 0" "\<not> bit (ptm s d (pd_ix v)) 7" "addr (ptm s d (pd_ix v)) = pt"
    using assms(2) tbl_3 [OF d] by (auto split: if_splits)
  have "vmm_pml4 s \<noteq> 0" using assms(1) by (simp add: vmm_inv_def)
  then show ?thesis by (simp add: vmm_get_pte_def e4 e3 e2 Let_def)
qed

text \<open>The first two levels of \<open>vmm_map_page\<close>.\<close>

lemma vmm_map_upper:
  assumes inv: "vmm_inv s" and e1: "vmm_ensure_table (vmm_pml4 s) (pml4_ix virt) VMM_WRITABLE s = Some (n1, s1)"
    and pdpt: "pdpt = addr (ptm s1 (vmm_pml4 s) (pml4_ix virt))"
    and e2: "vmm_ensure_table pdpt (pdpt_ix virt) VMM_WRITABLE
       (vmm_user_bits (vmm_pml4 s) (pml4_ix virt) pdpt (pdpt_ix virt) flags s1) = Some (n2, s2)"
  shows "grows s s2 \<and> tbl s2 (pd_path virt) = Some (addr (ptm s2 pdpt (pdpt_ix virt)))"
proof -
  have g1: "grows s s1" "tbl s1 [pml4_ix virt] = Some pdpt"
    using vmm_ensure_grows [OF inv _ _ table_flags(2) _ e1, of "[]"] pdpt by simp_all
  let ?u = "vmm_user_bits (vmm_pml4 s) (pml4_ix virt) pdpt (pdpt_ix virt) flags s1"
  have root: "vmm_pml4 s1 = vmm_pml4 s" using g1(1) by (simp add: grows_def)
  have g2: "grows s1 ?u"
    using vmm_user_bits_grows [OF grows_inv [OF g1(1)] g1(2)] by (simp add: root)
  have u: "tbl ?u [pml4_ix virt] = Some pdpt" by (rule grows_tbl [OF g2 _ g1(2)]) simp
  from vmm_ensure_grows [OF grows_inv [OF g2] _ _ table_flags(2) _ e2, of "[pml4_ix virt]"] u
  have "grows ?u s2 \<and> tbl s2 (pd_path virt) = Some (addr (ptm s2 pdpt (pdpt_ix virt)))" by simp
  then show ?thesis using grows_trans [OF g1(1) grows_trans [OF g2]] by blast
qed

text \<open>Two addresses with the same four indices lie in the same page.\<close>

lemma index_page:
  assumes "pt_path v = pt_path w" and "pt_ix v = pt_ix w"
  shows "take_bit 36 (drop_bit 12 v) = take_bit 36 (drop_bit 12 w)"
proof -
  have m: "(0x1FF :: u64) = mask 9" by (simp add: mask_eq_exp_minus_1)
  have field: "bit v (d + k) = bit w (d + k)"
    if "unat (drop_bit d v AND 0x1FF) = unat (drop_bit d w AND 0x1FF)" "k < 9" for d k
  proof -
    from that(1) have "drop_bit d v AND mask 9 = drop_bit d w AND mask 9"
      by (simp only: m word_unat_eq_iff)
    then have "bit (drop_bit d v AND mask 9) k = bit (drop_bit d w AND mask 9) k" by simp
    with that(2) show ?thesis by (simp add: bit_drop_bit_eq entry_bits)
  qed
  have "bit v (12 + k) = bit w (12 + k)" if k36: "k < 36" for k
  proof -
    consider "k < 9" | "9 \<le> k" "k < 18" | "18 \<le> k" "k < 27" | "27 \<le> k" "k < 36" using k36 by linarith
    then show ?thesis
    proof cases
      case 1
      then show ?thesis using field [of 12 k] assms by (simp add: pt_ix_def)
    next
      case 2
      then show ?thesis using field [of 21 "k - 9"] assms by (simp add: pd_ix_def)
    next
      case 3
      then show ?thesis using field [of 30 "k - 18"] assms by (simp add: pdpt_ix_def)
    next
      case 4
      then show ?thesis using field [of 39 "k - 27"] assms by (simp add: pml4_ix_def)
    qed
  qed
  then show ?thesis by (intro bit_eqI) (auto simp: bit_take_bit_iff bit_drop_bit_eq)
qed

lemma vmm_alloc_fail:
  assumes "pmm_inv (pmm s)" and "vmm_alloc s = (0, s')"
  shows "pmm_used_set (pmm s) = {..<PMM_MAX_PAGES}"
  using assms pmm_alloc_page_fail [of "pmm s"] by (auto simp: vmm_alloc_def split: prod.splits)

text \<open>Only the entry itself and the fresh page change in the store.\<close>

lemma fresh_ne_held:
  "n \<notin> pmm_used_set (pmm s) \<Longrightarrow> n < PMM_MAX_PAGES \<Longrightarrow> held s b \<Longrightarrow> b \<noteq> page_addr n"
  by (auto simp: held_def page_addr_inj pmm_used_set_def)

lemma vmm_ensure_effect:
  assumes "pmm_inv (pmm s)" and "vmm_ensure_table c i fl s = Some (nw, s')"
  shows "(\<forall>b j. held s b \<longrightarrow> (b, j) \<noteq> (c, i) \<longrightarrow> ptm s' b j = ptm s b j)
     \<and> (held s c \<longrightarrow> \<not> bit (ptm s c i) 0 \<longrightarrow> (\<exists>a. a \<noteq> 0 \<and> ptm s' c i = vmm_make_entry a fl))
     \<and> (\<forall>b. held s b \<longrightarrow> held s' b)
     \<and> card (pmm_used_set (pmm s')) \<le> card (pmm_used_set (pmm s)) + 1 \<and> pmm_inv (pmm s')"
proof (cases "bit (ptm s c i) 0")
  case True
  then show ?thesis using assms by (simp add: vmm_ensure_table_def)
next
  case False
  obtain a s1 where al: "vmm_alloc s = (a, s1)" by fastforce
  with assms(2) False have a: "a \<noteq> 0" and s': "s' = zero_page a (set_ent c i (vmm_make_entry a fl) s1)"
    by (auto simp: vmm_ensure_table_def split: if_splits)
  from vmm_alloc_fresh [OF assms(1) al a] obtain n where n: "a = page_addr n" "n < PMM_MAX_PAGES"
    "n \<notin> pmm_used_set (pmm s)" and p1: "pmm_inv (pmm s1)"
    "pmm_used_set (pmm s1) = insert n (pmm_used_set (pmm s))" and s1: "s1 = s\<lparr>pmm := pmm s1\<rparr>" by auto
  have s1f: "ptm s1 = ptm s" by (subst s1, simp)
  have "pmm s' = pmm s1" by (simp add: s' zero_page_def set_ent_def)
  with p1 have "pmm_inv (pmm s')" "card (pmm_used_set (pmm s')) \<le> card (pmm_used_set (pmm s)) + 1"
    "\<forall>b. held s b \<longrightarrow> held s' b"
    by (auto simp: held_def card_insert_if)
  then show ?thesis using fresh_ne_held [OF n(3,2)] a
    by (auto simp: s' zero_page_def set_ent_def s1f simp flip: n(1))
qed

lemma vmm_ensure_None:
  "pmm_inv (pmm s) \<Longrightarrow> vmm_ensure_table c i fl s = None \<Longrightarrow> pmm_used_set (pmm s) = {..<PMM_MAX_PAGES}"
  using vmm_alloc_fail by (auto simp: vmm_ensure_table_def split: if_splits prod.splits)

lemma vmm_pd_level_None:
  "pmm_inv (pmm s) \<Longrightarrow> vmm_pd_level pd i fl s = None \<Longrightarrow> pmm_used_set (pmm s) = {..<PMM_MAX_PAGES}"
  using vmm_alloc_fail vmm_ensure_None
  by (auto simp: vmm_pd_level_def Let_def split: if_splits prod.splits)

lemma vmm_ensure_room:
  assumes "pmm_inv (pmm s)" and "card (pmm_used_set (pmm s)) < PMM_MAX_PAGES"
  shows "\<exists>nw s'. vmm_ensure_table c i fl s = Some (nw, s')"
  using vmm_ensure_None [OF assms(1), of c i fl] assms(2)
  by (cases "vmm_ensure_table c i fl s") auto

lemma vmm_pd_level_room:
  assumes "pmm_inv (pmm s)" and "card (pmm_used_set (pmm s)) < PMM_MAX_PAGES"
  shows "\<exists>r. vmm_pd_level pd i fl s = Some r"
  using vmm_pd_level_None [OF assms(1), of pd i fl] assms(2)
  by (cases "vmm_pd_level pd i fl s") auto

lemma vmm_user_bits_pmm [simp]: "pmm (vmm_user_bits a b c d e s) = pmm s"
  by (simp add: vmm_user_bits_def set_ent_def Let_def)

text \<open>Removing a huge entry.\<close>

lemma drop_huge:
  assumes inv: "vmm_inv s" and pd: "tbl s (pd_path virt) = Some pd" and none: "tbl s (pt_path virt) = None"
    and s': "s' = set_ent pd (pd_ix virt) 0 s"
  shows "vmm_inv s'" and "xlate s' virt = 0" and "pt_path v \<noteq> pt_path virt \<Longrightarrow> xlate s' v = xlate s v"
proof -
  have mem: "ptm s' b j = (if b = pd \<and> j = pd_ix virt then 0 else ptm s b j)" for b j
    by (simp add: s' set_ent_def)
  have fr: "vmm_pml4 s' = vmm_pml4 s" "pmm s' = pmm s" by (simp_all add: s' set_ent_def)
  have other: "tbl s' q = tbl s q" if "is_path q" "q \<noteq> pt_path virt" for q
  proof (rule tbl_write_other [OF inv _ pd _ fr(1) that(1)])
    show "is_path (pd_path virt)" by simp
    show "ptm s' b j = ptm s b j" if "(b, j) \<noteq> (pd, pd_ix virt)" for b j using that by (auto simp: mem)
    have "length q \<le> 3" using that(1) by (simp add: is_path_def)
    then show "take (Suc (length (pd_path virt))) q \<noteq> pd_path virt @ [pd_ix virt]" using that(2) by auto
  qed
  have "tbl s' (pd_path virt) = Some pd" using other [of "pd_path virt"] pd by simp
  then have here: "tbl s' (pt_path virt) = None" using tbl_3 [of s' _ _ pd "pd_ix virt"] by (simp add: mem)
  then have t: "tbl s' q = tbl s q" if "is_path q" for q
    using that other none by (cases "q = pt_path virt") auto
  show "vmm_inv s'"
  proof (rule vmm_inv_same_tbl [OF inv t fr(2,1)])
    fix i j k b assume "is_path [i, j, k]" "tbl s [i, j] = Some b" "bit (ptm s' b k) 0" "bit (ptm s' b k) 7"
    with vmm_inv_huge [OF inv, of i j k b] show "huge_ok (ptm s' b k)" by (auto simp: mem split: if_splits)
  qed
  show "xlate s' virt = 0" using here t [of "pd_path virt"] pd by (simp add: xlate_def mem huge_phys_of_def)
  assume ne: "pt_path v \<noteq> pt_path virt"
  show "xlate s' v = xlate s v"
  proof (cases "tbl s (pt_path v)")
    case (Some b)
    then have "b \<noteq> pd" using vmm_inv_inj [OF inv, of "pt_path v" "pd_path virt" b] pd by auto
    with Some show ?thesis using t [of "pt_path v"] by (simp add: xlate_def mem)
  next
    case None
    have "ptm s' b (pd_ix v) = ptm s b (pd_ix v)" if "tbl s (pd_path v) = Some b" for b
      using that ne pd vmm_inv_inj [OF inv, of "pd_path v" "pd_path virt" b] by (auto simp: mem)
    with None show ?thesis using t [of "pt_path v"] t [of "pd_path v"]
      by (simp add: xlate_def split: option.split)
  qed
qed

lemma vmm_unmap_tbl:
  assumes "vmm_inv s"
  shows "vmm_unmap_page virt s = (case tbl s (pt_path virt) of
       Some pt \<Rightarrow> vmm_flush False virt (set_ent pt (pt_ix virt) 0 s)
     | None \<Rightarrow> (case tbl s (pd_path virt) of
           Some pd \<Rightarrow> if huge_at s virt then vmm_flush True virt (set_ent pd (pd_ix virt) 0 s) else s
         | None \<Rightarrow> s))"
proof -
  have root: "vmm_pml4 s \<noteq> 0" using assms by (simp add: vmm_inv_def)
  show ?thesis
  proof (cases "tbl s [pml4_ix virt]")
    case None
    with tbl_None [OF None, of "[pdpt_ix virt]"] tbl_None [OF None, of "[pdpt_ix virt, pd_ix virt]"]
    show ?thesis by (auto simp: vmm_unmap_page_def root tbl_1 split: if_splits)
  next
    case (Some c)
    then have e4: "bit (ptm s (vmm_pml4 s) (pml4_ix virt)) 0" "addr (ptm s (vmm_pml4 s) (pml4_ix virt)) = c"
      by (auto simp: tbl_1 split: if_splits)
    show ?thesis
    proof (cases "tbl s (pd_path virt)")
      case None
      with tbl_None [OF None, of "[pd_ix virt]"] tbl_2 [OF Some, of "pdpt_ix virt"] show ?thesis
        by (auto simp: vmm_unmap_page_def root e4 Let_def split: if_splits)
    next
      case d: (Some d)
      then have e3: "bit (ptm s c (pdpt_ix virt)) 0" "addr (ptm s c (pdpt_ix virt)) = d"
        using tbl_2 [OF Some] by (auto split: if_splits)
      show ?thesis using d tbl_3 [OF d, of "pd_ix virt"]
        by (auto simp: vmm_unmap_page_def root e4 e3 Let_def huge_at_def split: if_splits)
    qed
  qed
qed

lemma vmm_map_page_steps:
  assumes "vmm_inv s" and run: "vmm_map_page virt phys flags s = Some s'"
  shows "\<exists>n1 s1 n2 s2 pdpt pd r.
      vmm_ensure_table (vmm_pml4 s) (pml4_ix virt) VMM_WRITABLE s = Some (n1, s1)
    \<and> pdpt = addr (ptm s1 (vmm_pml4 s) (pml4_ix virt))
    \<and> vmm_ensure_table pdpt (pdpt_ix virt) VMM_WRITABLE
       (vmm_user_bits (vmm_pml4 s) (pml4_ix virt) pdpt (pdpt_ix virt) flags s1) = Some (n2, s2)
    \<and> pd = addr (ptm s2 pdpt (pdpt_ix virt))
    \<and> vmm_pd_level pd (pd_ix virt) flags s2 = Some r
    \<and> s' = (case r of Inl s3 \<Rightarrow> s3 | Inr (n3, s3) \<Rightarrow> vmm_flush (n1 \<or> n2 \<or> n3) virt
        (set_ent (addr (ptm s3 pd (pd_ix virt))) (pt_ix virt) (vmm_make_entry phys flags) s3))"
proof -
  have root: "vmm_pml4 s \<noteq> 0" using assms(1) by (simp add: vmm_inv_def)
  from run root obtain n1 s1 where
    e1: "vmm_ensure_table (vmm_pml4 s) (pml4_ix virt) VMM_WRITABLE s = Some (n1, s1)"
    by (auto simp: vmm_map_page_def Let_def split: option.splits)
  define pdpt where "pdpt = addr (ptm s1 (vmm_pml4 s) (pml4_ix virt))"
  from run root e1 obtain n2 s2 where e2: "vmm_ensure_table pdpt (pdpt_ix virt) VMM_WRITABLE
       (vmm_user_bits (vmm_pml4 s) (pml4_ix virt) pdpt (pdpt_ix virt) flags s1) = Some (n2, s2)"
    by (auto simp: vmm_map_page_def pdpt_def Let_def split: option.splits)
  define pd where "pd = addr (ptm s2 pdpt (pdpt_ix virt))"
  from run root e1 e2 obtain r where "vmm_pd_level pd (pd_ix virt) flags s2 = Some r"
    and "s' = (case r of Inl s3 \<Rightarrow> s3 | Inr (n3, s3) \<Rightarrow> vmm_flush (n1 \<or> n2 \<or> n3) virt
        (set_ent (addr (ptm s3 pd (pd_ix virt))) (pt_ix virt) (vmm_make_entry phys flags) s3))"
    by (auto simp: vmm_map_page_def pdpt_def [symmetric] pd_def [symmetric] Let_def
        split: option.splits sum.splits prod.splits)
  with e1 e2 pdpt_def pd_def show ?thesis by blast
qed

lemma vmm_pd_level_frame:
  assumes inv: "pmm_inv (pmm s)" and run: "vmm_pd_level pd i flags s = Some (Inr (nw, s'))"
    and b: "held s b" "(b, j) \<noteq> (pd, i)"
  shows "ptm s' b j = ptm s b j"
proof (cases "bit (ptm s pd i) 0 \<and> bit (ptm s pd i) 7")
  case True
  obtain a s1 where al: "vmm_alloc s = (a, s1)" by fastforce
  with run True have a: "a \<noteq> 0" and s': "s' = set_ent pd i
      (vmm_make_entry a (VMM_PRESENT OR VMM_WRITABLE OR VMM_USER))
      (vmm_fill_split a (ptm s pd i AND NOT 0x1FFFFF) s1)"
    by (auto simp: vmm_pd_level_def Let_def split: if_splits)
  from vmm_alloc_fresh [OF inv al a] obtain n where n: "a = page_addr n" "n < PMM_MAX_PAGES"
    "n \<notin> pmm_used_set (pmm s)" and s1: "s1 = s\<lparr>pmm := pmm s1\<rparr>" by auto
  have "ptm s1 = ptm s" by (subst s1, simp)
  moreover have "b \<noteq> a" using fresh_ne_held [OF n(3,2) b(1)] n(1) by simp
  ultimately show ?thesis using b(2) unfolding s' vmm_fill_split_def fold_set_ent
    by (auto simp: set_ent_def)
next
  case False
  show ?thesis
  proof (cases "bit (ptm s pd i) 0")
    case True
    with False run show ?thesis by (auto simp: vmm_pd_level_def)
  next
    case no: False
    with run have "vmm_ensure_table pd i (VMM_PRESENT OR VMM_WRITABLE OR VMM_USER) s = Some (nw, s')"
      by (auto simp: vmm_pd_level_def)
    from vmm_ensure_effect [OF inv this] b show ?thesis by blast
  qed
qed

section \<open>Pages of an address space\<close>

lemma used_less: "x \<in> pmm_used_set p \<Longrightarrow> x < PMM_MAX_PAGES"
  by (simp add: pmm_used_set_def)

lemma fold_set_ent_read:
  "fold (\<lambda>i s. set_ent b i (g (ptm s src i)) s) [0..<n] s =
     s\<lparr>ptm := (ptm s)(b := (\<lambda>j. if j < n then g (ptm s src j) else ptm s b j))\<rparr>"
proof (induction n)
  case (Suc n)
  let ?t = "s\<lparr>ptm := (ptm s)(b := (\<lambda>j. if j < n then g (ptm s src j) else ptm s b j))\<rparr>"
  have "ptm ?t src n = ptm s src n" by simp
  moreover have "(\<lambda>j. if j < n then g (ptm s src j) else ptm s b j)(n := g (ptm s src n)) =
      (\<lambda>j. if j < Suc n then g (ptm s src j) else ptm s b j)" by (auto simp: less_Suc_eq)
  ultimately have "set_ent b n (g (ptm ?t src n)) ?t =
      s\<lparr>ptm := (ptm s)(b := (\<lambda>j. if j < Suc n then g (ptm s src j) else ptm s b j))\<rparr>"
    by (simp add: set_ent_def fun_upd_same del: fun_upd_apply)
  with Suc show ?case by (simp del: fun_upd_apply)
qed simp

text \<open>\<open>good n\<close>: a page number the allocator may hand out.\<close>

definition good :: "nat \<Rightarrow> bool" where
  "good n \<longleftrightarrow> n < PMM_MAX_PAGES \<and> n \<noteq> 0"

definition huge_only :: "(nat \<Rightarrow> u64) \<Rightarrow> bool" where
  "huge_only t \<longleftrightarrow> (\<forall>j < 512. bit (t j) 0 \<longrightarrow> bit (t j) 7)"

lemma as_copy_pd_ok:
  assumes "pmm_inv (pmm s)" and "as_copy_pd bpd s = (a, s')" and "a \<noteq> 0"
  shows "\<exists>n t. a = page_addr n \<and> good n \<and> n \<notin> pmm_used_set (pmm s)
     \<and> pmm_inv (pmm s') \<and> pmm_used_set (pmm s') = insert n (pmm_used_set (pmm s))
     \<and> s' = s\<lparr>pmm := pmm s', ptm := (ptm s)(a := t)\<rparr> \<and> huge_only t"
proof -
  obtain a' s1 where al: "vmm_alloc s = (a', s1)" by fastforce
  with assms(2,3) have a': "a' = a" "a' \<noteq> 0" by (auto simp: as_copy_pd_def Let_def split: if_splits)
  from vmm_alloc_fresh [OF assms(1) al a'(2)] obtain n where n: "a = page_addr n" "good n"
    "n \<notin> pmm_used_set (pmm s)" "pmm_inv (pmm s1)"
    "pmm_used_set (pmm s1) = insert n (pmm_used_set (pmm s))" and s1: "s1 = s\<lparr>pmm := pmm s1\<rparr>"
    by (auto simp: good_def a')
  let ?g = "\<lambda>e. if e AND VMM_PRESENT \<noteq> 0 \<and> e AND VMM_HUGE \<noteq> 0 then e else 0"
  let ?t = "\<lambda>j. if j < 512 then ?g (ptm s1 (addr bpd) j) else ptm s1 a j"
  have "s' = fold (\<lambda>i s. set_ent a i (?g (ptm s (addr bpd) i)) s) [0..<512] s1"
    using assms(2) al a' by (auto simp: as_copy_pd_def Let_def)
  then have s': "s' = s1\<lparr>ptm := (ptm s1)(a := ?t)\<rparr>"
    by (rule trans [OF _ fold_set_ent_read [of a ?g "addr bpd" 512 s1]])
  have "pmm s' = pmm s1" unfolding s' by simp
  moreover have "ptm s1 = ptm s" by (subst s1, simp)
  moreover have "s' = s\<lparr>pmm := pmm s1, ptm := (ptm s1)(a := ?t)\<rparr>"
    unfolding s' by (subst s1) simp
  moreover have "huge_only ?t" by (auto simp: huge_only_def)
  ultimately show ?thesis using n by (intro exI [of _ n] exI [of _ ?t]) (simp del: fun_upd_apply)
qed

lemma vmm_free_page:
  assumes "pmm_inv (pmm s)" and "good n"
  shows "pmm_inv (pmm (vmm_free (page_addr n) s))
     \<and> pmm_used_set (pmm (vmm_free (page_addr n) s)) = pmm_used_set (pmm s) - {n}"
  using assms pmm.release_inv [of "pmm s" n] pmm.release_inuse [of n "pmm s"]
  by (simp add: vmm_free_def good_def)

lemma vmm_free_ptm [simp]: "ptm (vmm_free a s) = ptm s"
  by (simp add: vmm_free_def)

lemma fold_free:
  assumes "pmm_inv (pmm s)" and "\<forall>j < i. addr (ptm s t j) = page_addr (f j) \<and> good (f j)"
  shows "ptm (fold (\<lambda>j s. vmm_free (addr (ptm s t j)) s) [0..<i] s) = ptm s
    \<and> pmm_inv (pmm (fold (\<lambda>j s. vmm_free (addr (ptm s t j)) s) [0..<i] s))
    \<and> pmm_used_set (pmm (fold (\<lambda>j s. vmm_free (addr (ptm s t j)) s) [0..<i] s))
        = pmm_used_set (pmm s) - f ` {..<i}"
  using assms
proof (induction i)
  case (Suc i)
  then show ?case
    using vmm_free_page [of "fold (\<lambda>j s. vmm_free (addr (ptm s t j)) s) [0..<i] s" "f i"]
    by (auto simp: lessThan_Suc)
qed simp

text \<open>
  The state of the PD loop before round \<open>i\<close>: the first \<open>i\<close> entries of the new PDPT point to
  fresh copies \<open>f 0 .. f (i - 1)\<close> that hold huge entries only.
\<close>

definition pds_state :: "nat set \<Rightarrow> nat \<Rightarrow> (nat \<Rightarrow> nat) \<Rightarrow> nat \<Rightarrow> vmm \<Rightarrow> bool" where
  "pds_state U d f i s \<longleftrightarrow> pmm_inv (pmm s) \<and> pmm_used_set (pmm s) = U \<union> f ` {..<i}
     \<and> inj_on f {..<i} \<and> f ` {..<i} \<inter> U = {} \<and> d \<in> U \<and> good d
     \<and> (\<forall>j < i. good (f j) \<and> addr (ptm s (page_addr d) j) = page_addr (f j)
            \<and> huge_only (ptm s (page_addr (f j))))"

lemma or_low_bits:
  assumes "p < PMM_MAX_PAGES"
  shows "addr (page_addr p OR (e AND 0xFFF)) = page_addr p" "bit (page_addr p OR (e AND 0xFFF)) 0 = bit e 0"
  using bit_page_addr [OF assms] by (fastforce intro!: bit_eqI simp: entry_bits)+

lemma pds_step:
  assumes st: "pds_state U d f i s"
    and run: "as_copy_pd (ptm s (page_addr d) i) s = (a, s1)" "a \<noteq> 0"
    and s2: "s2 = set_ent (page_addr d) i (a OR (ptm s1 (page_addr d) i AND 0xFFF)) s1"
  shows "\<exists>n. pds_state U d (f(i := n)) (Suc i) s2
     \<and> (bit (ptm s2 (page_addr d) i) 0 = bit (ptm s (page_addr d) i) 0)
     \<and> (\<forall>b j. b \<in> page_addr ` U \<longrightarrow> (b, j) \<noteq> (page_addr d, i) \<longrightarrow> ptm s2 b j = ptm s b j)
     \<and> s2 = s\<lparr>pmm := pmm s2, ptm := ptm s2\<rparr>"
proof -
  have inv: "pmm_inv (pmm s)" and used: "pmm_used_set (pmm s) = U \<union> f ` {..<i}"
    using st by (simp_all add: pds_state_def)
  from as_copy_pd_ok [OF inv run] obtain n t where n: "a = page_addr n" "good n"
    "n \<notin> pmm_used_set (pmm s)" "pmm_inv (pmm s1)"
    "pmm_used_set (pmm s1) = insert n (pmm_used_set (pmm s))" "huge_only t"
    and s1: "s1 = s\<lparr>pmm := pmm s1, ptm := (ptm s)(a := t)\<rparr>" by blast
  have p1: "ptm s1 = (ptm s)(a := t)" by (subst s1, simp)
  have ne: "page_addr x \<noteq> a" if "x \<in> U \<union> f ` {..<i}" for x
  proof -
    have x: "x \<in> pmm_used_set (pmm s)" using that unfolding used .
    then have "x \<noteq> n" "x < PMM_MAX_PAGES" using n(3) used_less by blast+
    then show ?thesis using n(1,2) by (simp add: page_addr_inj good_def)
  qed
  have d: "d \<in> U" "good d" using st by (simp_all add: pds_state_def)
  have mem: "ptm s2 b j = (if b = page_addr d \<and> j = i then a OR (ptm s (page_addr d) i AND 0xFFF)
      else if b = a then t j else ptm s b j)" for b j
    using ne [of d] d by (auto simp: s2 set_ent_def p1)
  have fj: "page_addr (f j) \<noteq> page_addr d" if "j < i" for j
    using that st by (auto simp: pds_state_def good_def page_addr_inj)
  have ad: "addr (ptm s2 (page_addr d) i) = a" "bit (ptm s2 (page_addr d) i) 0 = bit (ptm s (page_addr d) i) 0"
    using or_low_bits [of n] n by (simp_all add: mem good_def)
  have pm: "pmm s2 = pmm s1" by (simp add: s2 set_ent_def)
  have "pds_state U d (f(i := n)) (Suc i) s2"
    unfolding pds_state_def
  proof (intro conjI)
    show "pmm_inv (pmm s2)" using n by (simp add: pm)
    show "pmm_used_set (pmm s2) = U \<union> (f(i := n)) ` {..<Suc i}"
      using n(5) used by (auto simp: pm lessThan_Suc)
    show "inj_on (f(i := n)) {..<Suc i}" using st n(3) used by (auto simp: pds_state_def inj_on_def less_Suc_eq)
    show "(f(i := n)) ` {..<Suc i} \<inter> U = {}" using st n(3) used by (auto simp: pds_state_def lessThan_Suc)
    show "d \<in> U" "good d" by (fact d)+
    show "\<forall>j < Suc i. good ((f(i := n)) j) \<and> addr (ptm s2 (page_addr d) j) = page_addr ((f(i := n)) j)
            \<and> huge_only (ptm s2 (page_addr ((f(i := n)) j)))"
    proof (intro allI impI)
      fix j assume "j < Suc i"
      then consider "j = i" | "j < i" by linarith
      then show "good ((f(i := n)) j) \<and> addr (ptm s2 (page_addr d) j) = page_addr ((f(i := n)) j)
            \<and> huge_only (ptm s2 (page_addr ((f(i := n)) j)))"
      proof cases
        case 1
        have "ptm s2 a = t" using ne [of d] d by (auto simp: mem)
        with 1 n ad show ?thesis by simp
      next
        case 2
        then have "ptm s2 (page_addr (f j)) = ptm s (page_addr (f j))"
          using fj [OF 2] ne [of "f j"] by (auto simp: mem)
        with 2 st ne [of d] d show ?thesis by (simp add: pds_state_def mem)
      qed
    qed
  qed
  moreover have "ptm s2 b j = ptm s b j" if "b \<in> page_addr ` U" "(b, j) \<noteq> (page_addr d, i)" for b j
    using that ne by (auto simp: mem)
  moreover have "s2 = s\<lparr>pmm := pmm s2, ptm := ptm s2\<rparr>"
    by (simp add: s2 set_ent_def) (subst s1, simp)
  ultimately show ?thesis using ad by blast
qed

lemma as_copy_pd_fail:
  assumes "pmm_inv (pmm s)" and "as_copy_pd bpd s = (0, s')"
  shows "pmm_used_set (pmm s) = {..<PMM_MAX_PAGES} \<and> s' = s"
proof -
  obtain a s1 where al: "vmm_alloc s = (a, s1)" by fastforce
  with assms(2) have "a = 0" "s' = s1" by (auto simp: as_copy_pd_def Let_def split: if_splits)
  with al have al': "pmm_alloc_page (pmm s) = (0, pmm s1)" "s1 = s\<lparr>pmm := pmm s1\<rparr>"
    by (auto simp: vmm_alloc_def split: prod.splits)
  with pmm_alloc_page_fail [OF assms(1) al'(1)] \<open>s' = s1\<close> show ?thesis by simp
qed

lemma pds_loop:
  assumes "pds_state U d f i s" and "i \<le> 4" and m: "m \<in> U" "good m" "m \<noteq> d"
  shows "case as_copy_pds (page_addr m) (page_addr d) [i..<4] s of
     Inl s' \<Rightarrow> pmm_inv (pmm s') \<and> pmm_used_set (pmm s') = U - {d, m} \<and> PMM_MAX_PAGES \<le> card U + 3
   | Inr s' \<Rightarrow> (\<exists>g. pds_state U d g 4 s')
       \<and> (\<forall>j. bit (ptm s' (page_addr d) j) 0 = bit (ptm s (page_addr d) j) 0)
       \<and> (\<forall>b j. b \<in> page_addr ` U \<longrightarrow> b \<noteq> page_addr d \<longrightarrow> ptm s' b j = ptm s b j)
       \<and> s' = s\<lparr>pmm := pmm s', ptm := ptm s'\<rparr>"
  using assms(1,2)
proof (induction "4 - i" arbitrary: i f s)
  case 0
  then show ?case by auto
next
  case (Suc k)
  then have i: "i < 4" by simp
  then have list: "[i..<4] = i # [Suc i..<4]" by (simp add: upt_conv_Cons)
  obtain a s1 where run: "as_copy_pd (ptm s (page_addr d) i) s = (a, s1)" by fastforce
  have st: "pmm_inv (pmm s)" "pmm_used_set (pmm s) = U \<union> f ` {..<i}" "f ` {..<i} \<inter> U = {}"
    "d \<in> U" "good d" "\<forall>j < i. addr (ptm s (page_addr d) j) = page_addr (f j) \<and> good (f j)"
    using Suc.prems(1) by (simp_all add: pds_state_def)
  show ?case
  proof (cases "a = 0")
    case True
    note fl = as_copy_pd_fail [OF st(1) run [unfolded True]]
    let ?s = "fold (\<lambda>j s. vmm_free (addr (ptm s (page_addr d) j)) s) [0..<i] s"
    have f1: "pmm_inv (pmm ?s)" "pmm_used_set (pmm ?s) = U"
      using fold_free [OF st(1,6)] st(2,3) by auto
    have f2: "pmm_inv (pmm (vmm_free (page_addr d) ?s))"
      "pmm_used_set (pmm (vmm_free (page_addr d) ?s)) = U - {d}"
      using vmm_free_page [OF f1(1) st(5)] f1(2) by auto
    have "PMM_MAX_PAGES = card (U \<union> f ` {..<i})" using fl st(2) by simp
    also have "\<dots> \<le> card U + card (f ` {..<i})" by (rule card_Un_le)
    also have "\<dots> \<le> card U + i" using card_image_le [of "{..<i}" f] by simp
    finally have "PMM_MAX_PAGES \<le> card U + 3" using i by simp
    moreover have "as_copy_pds (page_addr m) (page_addr d) [i..<4] s =
        Inl (vmm_free (page_addr m) (vmm_free (page_addr d) ?s))"
      using run True fl by (simp add: list)
    ultimately show ?thesis using vmm_free_page [OF f2(1) m(2)] f2(2) by auto
  next
    case False
    define s2 where "s2 = set_ent (page_addr d) i (a OR (ptm s1 (page_addr d) i AND 0xFFF)) s1"
    from pds_step [OF Suc.prems(1) run False s2_def] obtain n where
      st2: "pds_state U d (f(i := n)) (Suc i) s2"
      and b2: "bit (ptm s2 (page_addr d) i) 0 = bit (ptm s (page_addr d) i) 0"
      and fr2: "\<forall>b j. b \<in> page_addr ` U \<longrightarrow> (b, j) \<noteq> (page_addr d, i) \<longrightarrow> ptm s2 b j = ptm s b j"
      and eq2: "s2 = s\<lparr>pmm := pmm s2, ptm := ptm s2\<rparr>" by blast
    have rec: "as_copy_pds (page_addr m) (page_addr d) [i..<4] s =
        as_copy_pds (page_addr m) (page_addr d) [Suc i..<4] s2"
      using run False by (simp add: list s2_def)
    have bits: "bit (ptm s2 (page_addr d) j) 0 = bit (ptm s (page_addr d) j) 0" for j
      using b2 fr2 st(4) by (cases "j = i") auto
    have IH: "case as_copy_pds (page_addr m) (page_addr d) [Suc i..<4] s2 of
     Inl s' \<Rightarrow> pmm_inv (pmm s') \<and> pmm_used_set (pmm s') = U - {d, m} \<and> PMM_MAX_PAGES \<le> card U + 3
   | Inr s' \<Rightarrow> (\<exists>g. pds_state U d g 4 s')
       \<and> (\<forall>j. bit (ptm s' (page_addr d) j) 0 = bit (ptm s2 (page_addr d) j) 0)
       \<and> (\<forall>b j. b \<in> page_addr ` U \<longrightarrow> b \<noteq> page_addr d \<longrightarrow> ptm s' b j = ptm s2 b j)
       \<and> s' = s2\<lparr>pmm := pmm s', ptm := ptm s'\<rparr>"
      using Suc.hyps i by (intro Suc.hyps(1) [OF _ st2]) auto
    show ?thesis
    proof (cases "as_copy_pds (page_addr m) (page_addr d) [Suc i..<4] s2")
      case (Inl s')
      with IH rec show ?thesis by simp
    next
      case (Inr s')
      have "s2\<lparr>pmm := pmm s', ptm := ptm s'\<rparr> = s\<lparr>pmm := pmm s', ptm := ptm s'\<rparr>"
        by (subst eq2) simp
      with Inr IH rec bits fr2 show ?thesis by auto
    qed
  qed
qed

lemma copy_table_eq:
  "copy_table dst src s =
     s\<lparr>ptm := (ptm s)(dst := (\<lambda>j. if j < 512 then ptm s src j else ptm s dst j))\<rparr>"
  unfolding copy_table_def by (rule fold_set_ent_read [of dst "\<lambda>e. e"])

lemma zero_page_same [simp]:
  "pmm (zero_page a s) = pmm s" "vmm_la57 (zero_page a s) = vmm_la57 s"
  "vmm_boot_pml4 (zero_page a s) = vmm_boot_pml4 s" "vmm_boot_root (zero_page a s) = vmm_boot_root s"
  "vmm_active_root (zero_page a s) = vmm_active_root s" "vmm_pml4 (zero_page a s) = vmm_pml4 s"
  "ptm (zero_page a s) = (ptm s)(a := (\<lambda>_. 0))"
  by (simp_all add: zero_page_def)

text \<open>The boot tables that a new address space is copied from.\<close>

definition boot_pdpt :: "vmm \<Rightarrow> u64" where
  "boot_pdpt s = addr (ptm s (vmm_boot_pml4 s) 0)"

definition boot_tables :: "vmm \<Rightarrow> bool" where
  "boot_tables s \<longleftrightarrow> pmm_inv (pmm s) \<and> held s (vmm_boot_pml4 s) \<and> held s (boot_pdpt s)
     \<and> bit (ptm s (vmm_boot_pml4 s) 0) 0 \<and> (\<forall>j < 4. bit (ptm s (boot_pdpt s) j) 0)"

text \<open>What remains of \<open>vmm_create_address_space\<close> once the four PDs are copied.\<close>

definition create_finish :: "u64 \<Rightarrow> u64 \<Rightarrow> vmm \<Rightarrow> u64 \<times> vmm" where
  "create_finish pml4 pdpt s =
     (let s = set_ent pml4 0 (pdpt OR VMM_PRESENT OR VMM_WRITABLE) s in
      if vmm_la57 s then
        (let (pml5, s) = vmm_alloc s in
         if pml5 = 0 then (0, vmm_free pml4 (vmm_free pdpt s))
         else (pml5, set_ent pml5 0
                (pml4 OR VMM_PRESENT OR VMM_WRITABLE OR VMM_USER) (zero_page pml5 s)))
      else (pml4, s))"

lemma vmm_alloc_fail_same:
  assumes "pmm_inv (pmm s)" and "vmm_alloc s = (0, s')"
  shows "s' = s"
proof -
  obtain p where p: "pmm_alloc_page (pmm s) = (0, p)" "s' = s\<lparr>pmm := p\<rparr>"
    using assms(2) by (auto simp: vmm_alloc_def split: prod.splits)
  with pmm.alloc_fail [OF assms(1) p(1)] show ?thesis by simp
qed

lemma create_cases:
  assumes bt: "boot_tables s" and run: "vmm_create_address_space s = (root, s')"
  shows "(root = 0 \<and> pmm_inv (pmm s') \<and> pmm_used_set (pmm s') = pmm_used_set (pmm s)
          \<and> PMM_MAX_PAGES \<le> card (pmm_used_set (pmm s)) + 5)
     \<or> (\<exists>m d g s3. good m \<and> good d \<and> m \<noteq> d \<and> m \<notin> pmm_used_set (pmm s) \<and> d \<notin> pmm_used_set (pmm s)
          \<and> pds_state (insert d (insert m (pmm_used_set (pmm s)))) d g 4 s3
          \<and> (\<forall>j < 4. bit (ptm s3 (page_addr d) j) 0)
          \<and> vmm_la57 s3 = vmm_la57 s \<and> vmm_active_root s3 = vmm_active_root s
          \<and> vmm_boot_root s3 = (if vmm_boot_root s = 0 then addr (cr3 s) else vmm_boot_root s)
          \<and> (root, s') = create_finish (page_addr m) (page_addr d) s3)"
proof -
  let ?U = "pmm_used_set (pmm s)" and ?boot = "vmm_boot_pml4 s"
  have inv: "pmm_inv (pmm s)" and hb: "held s ?boot" "held s (boot_pdpt s)"
    and bp: "bit (ptm s ?boot 0) 0" "\<forall>j < 4. bit (ptm s (boot_pdpt s) j) 0"
    using bt by (simp_all add: boot_tables_def)
  define s0 where "s0 = (if vmm_boot_root s = 0 then s\<lparr>vmm_boot_root := addr (cr3 s)\<rparr> else s)"
  have s0: "pmm s0 = pmm s" "ptm s0 = ptm s" "vmm_boot_pml4 s0 = ?boot" "vmm_la57 s0 = vmm_la57 s"
    "vmm_active_root s0 = vmm_active_root s"
    "vmm_boot_root s0 = (if vmm_boot_root s = 0 then addr (cr3 s) else vmm_boot_root s)"
    by (simp_all add: s0_def)
  obtain a1 s1 where al1: "vmm_alloc s0 = (a1, s1)" by fastforce
  have inv0: "pmm_inv (pmm s0)" using inv s0 by simp
  show ?thesis
  proof (cases "a1 = 0")
    case True
    have "s1 = s0" using vmm_alloc_fail_same [OF inv0] al1 True by simp
    moreover have "?U = {..<PMM_MAX_PAGES}" using vmm_alloc_fail [OF inv0] al1 True s0 by simp
    moreover have "root = 0" "s' = s1"
      using run al1 True by (auto simp: vmm_create_address_space_def s0_def [symmetric])
    ultimately show ?thesis using inv s0 by simp
  next
    case False
    from vmm_alloc_fresh [OF inv0 al1 False] obtain m where m: "a1 = page_addr m" "good m" "m \<notin> ?U"
      "pmm_inv (pmm s1)" "pmm_used_set (pmm s1) = insert m ?U" and s1: "s1 = s0\<lparr>pmm := pmm s1\<rparr>"
      by (auto simp: good_def s0)
    have s1f: "ptm s1 = ptm s" "vmm_boot_pml4 s1 = ?boot" "vmm_la57 s1 = vmm_la57 s"
      "vmm_active_root s1 = vmm_active_root s" "vmm_boot_root s1 = vmm_boot_root s0"
      by (subst s1, simp add: s0)+
    define t1 where "t1 = copy_table a1 ?boot (zero_page a1 s1)"
    have b1: "?boot \<noteq> a1" "boot_pdpt s \<noteq> a1"
      using fresh_ne_held [OF m(3)] m(1,2) hb by (auto simp: good_def)
    have t1: "pmm t1 = pmm s1" "vmm_boot_pml4 t1 = ?boot" "vmm_la57 t1 = vmm_la57 s"
      "vmm_active_root t1 = vmm_active_root s" "vmm_boot_root t1 = vmm_boot_root s0"
      "\<And>b. b \<noteq> a1 \<Longrightarrow> ptm t1 b = ptm s b"
      by (simp_all add: t1_def copy_table_eq s1f)
    obtain a2 s2 where al2: "vmm_alloc t1 = (a2, s2)" by fastforce
    have inv1: "pmm_inv (pmm t1)" using m t1 by simp
    have rest: "vmm_create_address_space s =
        (if a2 = 0 then (0, vmm_free a1 s2)
         else (case as_copy_pds a1 a2 [0..<4] (copy_table a2 (boot_pdpt s) (zero_page a2 s2)) of
              Inl s \<Rightarrow> (0, s) | Inr s \<Rightarrow> create_finish a1 a2 s))"
      using al1 al2 False bp b1 t1(6) [of ?boot]
      unfolding vmm_create_address_space_def s0_def [symmetric] create_finish_def
      by (simp add: s1f t1_def [symmetric] t1(2) boot_pdpt_def Let_def cong: if_cong)
    show ?thesis
    proof (cases "a2 = 0")
      case True
      have "s2 = t1" using vmm_alloc_fail_same [OF inv1] al2 True by simp
      moreover have "insert m ?U = {..<PMM_MAX_PAGES}" using vmm_alloc_fail [OF inv1] al2 True m t1 by simp
      then have "card ?U + 1 = PMM_MAX_PAGES" using m(3) by (metis card_insert_disjoint
            card_lessThan finite_pmm_used_set Suc_eq_plus1)
      ultimately show ?thesis using run rest True vmm_free_page [OF inv1 m(2)] m t1 by auto
    next
      case no2: False
      from vmm_alloc_fresh [OF inv1 al2 no2] obtain d where d: "a2 = page_addr d" "good d"
        "d \<notin> insert m ?U" "pmm_inv (pmm s2)" "pmm_used_set (pmm s2) = insert d (insert m ?U)"
        and s2: "s2 = t1\<lparr>pmm := pmm s2\<rparr>" by (auto simp: good_def m t1)
      have s2f: "ptm s2 = ptm t1" "vmm_la57 s2 = vmm_la57 s" "vmm_active_root s2 = vmm_active_root s"
        "vmm_boot_root s2 = vmm_boot_root s0"
        by (subst s2, simp add: t1)+
      define t2 where "t2 = copy_table a2 (boot_pdpt s) (zero_page a2 s2)"
      have b2: "boot_pdpt s \<noteq> a2"
        using fresh_ne_held [of d s] d hb by (auto simp: good_def)
      have t2: "pmm t2 = pmm s2" "vmm_la57 t2 = vmm_la57 s" "vmm_active_root t2 = vmm_active_root s"
        "vmm_boot_root t2 = vmm_boot_root s0" "\<And>j. j < 512 \<Longrightarrow> ptm t2 a2 j = ptm s (boot_pdpt s) j"
        using b1 b2 t1(6) by (simp_all add: t2_def copy_table_eq s2f)
      let ?V = "insert d (insert m ?U)"
      have "pds_state ?V d (\<lambda>_. 0) 0 t2" using d by (simp add: pds_state_def t2)
      from pds_loop [OF this, of m] d m have loop: "case as_copy_pds a1 a2 [0..<4] t2 of
         Inl s' \<Rightarrow> pmm_inv (pmm s') \<and> pmm_used_set (pmm s') = ?V - {d, m} \<and> PMM_MAX_PAGES \<le> card ?V + 3
       | Inr s' \<Rightarrow> (\<exists>g. pds_state ?V d g 4 s')
           \<and> (\<forall>j. bit (ptm s' a2 j) 0 = bit (ptm t2 a2 j) 0)
           \<and> (\<forall>b j. b \<in> page_addr ` ?V \<longrightarrow> b \<noteq> a2 \<longrightarrow> ptm s' b j = ptm t2 b j)
           \<and> s' = t2\<lparr>pmm := pmm s', ptm := ptm s'\<rparr>" by auto
      show ?thesis
      proof (cases "as_copy_pds a1 a2 [0..<4] t2")
        case (Inl x)
        moreover have "?V - {d, m} = ?U" "card ?V = card ?U + 2" using d(3) m(3) by auto
        ultimately show ?thesis using loop run rest no2 by (simp add: t2_def)
      next
        case (Inr s3)
        with loop obtain g where g: "pds_state ?V d g 4 s3"
          "\<forall>j. bit (ptm s3 a2 j) 0 = bit (ptm t2 a2 j) 0" "s3 = t2\<lparr>pmm := pmm s3, ptm := ptm s3\<rparr>" by auto
        have "vmm_la57 s3 = vmm_la57 s" "vmm_active_root s3 = vmm_active_root s"
          "vmm_boot_root s3 = (if vmm_boot_root s = 0 then addr (cr3 s) else vmm_boot_root s)"
          by (subst g(3), simp add: t2 s0(6))+
        moreover have "\<forall>j < 4. bit (ptm s3 (page_addr d) j) 0" using g(2) t2(5) bp(2) d(1) by simp
        moreover have "(root, s') = create_finish (page_addr m) (page_addr d) s3"
          using run rest no2 Inr d(1) m(1) by (simp add: t2_def)
        moreover have "m \<noteq> d" "d \<notin> ?U" using d(3) by simp_all
        moreover note g(1) d(2) m(2,3)
        ultimately show ?thesis
          by (intro disjI2 exI [of _ m] exI [of _ d] exI [of _ g] exI [of _ s3] conjI) assumption+
      qed
    qed
  qed
qed

lemma pds_card:
  assumes "pds_state (insert d (insert m U)) d g 4 s" and "finite U" and "m \<notin> U" "d \<notin> U" "m \<noteq> d"
  shows "card (pmm_used_set (pmm s)) = card U + 6"
proof -
  have st: "pmm_used_set (pmm s) = insert d (insert m U) \<union> g ` {..<4}" "inj_on g {..<4}"
    "g ` {..<4} \<inter> insert d (insert m U) = {}"
    using assms(1) by (simp_all add: pds_state_def)
  have "card (insert d (insert m U) \<union> g ` {..<4}) = card (insert d (insert m U)) + card (g ` {..<4})"
    using st(3) assms(2) by (intro card_Un_disjoint) auto
  then show ?thesis using st assms(2-5) by (simp add: card_image)
qed

lemma used_full: "card (pmm_used_set p) = PMM_MAX_PAGES \<Longrightarrow> pmm_used_set p = {..<PMM_MAX_PAGES}"
  using used_less by (intro card_subset_eq) auto

lemma table_entry_or:
  assumes "good n"
  shows "addr (page_addr n OR VMM_PRESENT OR VMM_WRITABLE) = page_addr n"
    "bit (page_addr n OR VMM_PRESENT OR VMM_WRITABLE) 0"
    "addr (page_addr n OR VMM_PRESENT OR VMM_WRITABLE OR VMM_USER) = page_addr n"
proof -
  have n: "n < PMM_MAX_PAGES" using assms by (simp add: good_def)
  show "bit (page_addr n OR VMM_PRESENT OR VMM_WRITABLE) 0" by (simp add: entry_bits)
  show "addr (page_addr n OR VMM_PRESENT OR VMM_WRITABLE) = page_addr n"
    "addr (page_addr n OR VMM_PRESENT OR VMM_WRITABLE OR VMM_USER) = page_addr n"
    using bit_page_addr [OF n] by (fastforce intro!: bit_eqI simp: entry_bits)+
qed

lemma page_addr_nonzero: "good n \<Longrightarrow> page_addr n \<noteq> 0"
  by (simp add: good_def)

lemma huge_only_no_free:
  assumes "huge_only (ptm s pd)" and "n \<le> 512"
  shows "fold (\<lambda>j s. if ptm s pd j AND VMM_PRESENT \<noteq> 0 \<and> ptm s pd j AND VMM_HUGE = 0
                then vmm_free (addr (ptm s pd j)) s else s) [0..<n] s = s"
  using assms by (induction n) (auto simp: huge_only_def)

lemma as_free_pds:
  assumes "pmm_inv (pmm s)" and "i \<le> 4" and "\<forall>j < i. bit (ptm s t j) 0 \<and> addr (ptm s t j) = page_addr (g j)
      \<and> good (g j) \<and> huge_only (ptm s (page_addr (g j)))"
  shows "\<exists>p. fold (as_free_pd t) [0..<i] s = s\<lparr>pmm := p\<rparr> \<and> pmm_inv p
      \<and> pmm_used_set p = pmm_used_set (pmm s) - g ` {..<i}"
  using assms
proof (induction i)
  case 0
  then show ?case by (intro exI [of _ "pmm s"]) simp
next
  case (Suc i)
  then obtain p where p: "fold (as_free_pd t) [0..<i] s = s\<lparr>pmm := p\<rparr>" "pmm_inv p"
    "pmm_used_set p = pmm_used_set (pmm s) - g ` {..<i}" by auto
  let ?s = "s\<lparr>pmm := p\<rparr>"
  have i: "bit (ptm s t i) 0" "addr (ptm s t i) = page_addr (g i)" "good (g i)"
    "huge_only (ptm ?s (page_addr (g i)))" using Suc.prems by auto
  have "as_free_pd t i ?s = vmm_free (page_addr (g i)) ?s"
    using i huge_only_no_free [OF i(4), of 512] by (simp add: as_free_pd_def Let_def)
  then have step: "fold (as_free_pd t) [0..<Suc i] s = vmm_free (page_addr (g i)) ?s" using p by simp
  let ?p = "pmm_free_page (page_addr (g i)) p"
  have "pmm_inv ?p \<and> pmm_used_set ?p = pmm_used_set p - {g i}"
    using vmm_free_page [of ?s "g i"] p i by (simp add: vmm_free_def)
  then show ?case unfolding step using p(3)
    by (intro exI [of _ ?p]) (auto simp: vmm_free_def lessThan_Suc)
qed

text \<open>What a finished address space consists of, enough to take it apart again.\<close>

definition space_pages :: "vmm \<Rightarrow> u64 \<Rightarrow> nat \<Rightarrow> nat \<Rightarrow> (nat \<Rightarrow> nat) \<Rightarrow> bool" where
  "space_pages s root m d g \<longleftrightarrow> good m \<and> good d \<and> mm_root_to_pml4 s root = page_addr m
     \<and> bit (ptm s (page_addr m) 0) 0 \<and> addr (ptm s (page_addr m) 0) = page_addr d
     \<and> (\<forall>j < 4. bit (ptm s (page_addr d) j) 0 \<and> addr (ptm s (page_addr d) j) = page_addr (g j)
            \<and> good (g j) \<and> huge_only (ptm s (page_addr (g j))))"

lemma give_back:
  assumes "G \<inter> insert d (insert m U) = {}" and "m \<notin> U" and "d \<notin> U"
  shows "insert d (insert m U) \<union> G - G - {d, m} = U"
    and "k \<notin> insert d (insert m U) \<union> G \<Longrightarrow> insert k (insert d (insert m U) \<union> G) - G - {d, m, k} = U"
  using assms by blast+

lemma set_root_pmm [simp]: "pmm (vmm_set_root_ptr r s) = pmm s"
  by (simp add: vmm_set_root_ptr_def Let_def)

lemma destroy_frees:
  assumes inv: "pmm_inv (pmm s)" and sp: "space_pages s root m d g"
    and r: "root = page_addr k" "good k" "root \<noteq> vmm_boot_root s" "\<not> vmm_la57 s \<longrightarrow> k = m"
  shows "pmm_used_set (pmm (vmm_destroy_address_space root s)) =
     pmm_used_set (pmm s) - g ` {..<4} - {d, m, k}"
proof -
  have k: "addr root = root" "root \<noteq> 0" using r addr_page_addr [of k] page_addr_nonzero by (auto simp: good_def)
  from sp have m: "good m" "mm_root_to_pml4 s root = page_addr m" "bit (ptm s (page_addr m) 0) 0"
    "addr (ptm s (page_addr m) 0) = page_addr d" "good d"
    and pds: "\<forall>j < 4. bit (ptm s (page_addr d) j) 0 \<and> addr (ptm s (page_addr d) j) = page_addr (g j)
            \<and> good (g j) \<and> huge_only (ptm s (page_addr (g j)))" by (simp_all add: space_pages_def)
  obtain p where p: "fold (as_free_pd (page_addr d)) [0..<4] s = s\<lparr>pmm := p\<rparr>" "pmm_inv p"
    "pmm_used_set p = pmm_used_set (pmm s) - g ` {..<4}" using as_free_pds [OF inv _ pds] by auto
  let ?s1 = "vmm_free (page_addr d) (s\<lparr>pmm := p\<rparr>)" and ?s2 = "vmm_free (page_addr m) (vmm_free (page_addr d) (s\<lparr>pmm := p\<rparr>))"
  have f1: "pmm_inv (pmm ?s1)" "pmm_used_set (pmm ?s1) = pmm_used_set p - {d}"
    using vmm_free_page [of "s\<lparr>pmm := p\<rparr>" d] p m by auto
  have f2: "pmm_inv (pmm ?s2)" "pmm_used_set (pmm ?s2) = pmm_used_set p - {d} - {m}"
    using vmm_free_page [OF f1(1) m(1)] f1(2) by auto
  have am: "addr (page_addr m) = page_addr m" using addr_page_addr m(1) by (simp add: good_def)
  have "pmm (vmm_destroy_address_space root s) = pmm (if vmm_la57 s then vmm_free root ?s2 else ?s2)"
    using k r(3) m p(1) am by (simp add: vmm_destroy_address_space_def Let_def vmm_free_def)
  moreover have "pmm_used_set (pmm (vmm_free root ?s2)) = pmm_used_set p - {d} - {m} - {k}"
    using vmm_free_page [OF f2(1) r(2)] f2(2) r(1) by simp
  ultimately show ?thesis using f2(2) p(3) r(4) by auto
qed

lemma vmm_map_page_room:
  assumes inv: "vmm_inv s" and room: "card (pmm_used_set (pmm s)) + 3 \<le> PMM_MAX_PAGES"
  shows "\<exists>s'. vmm_map_page virt phys flags s = Some s'"
proof -
  have root: "vmm_pml4 s \<noteq> 0" and p0: "pmm_inv (pmm s)" using inv by (simp_all add: vmm_inv_def)
  obtain n1 s1 where e1: "vmm_ensure_table (vmm_pml4 s) (pml4_ix virt) VMM_WRITABLE s = Some (n1, s1)"
    using vmm_ensure_room [OF p0] room by fastforce
  note f1 = vmm_ensure_effect [OF p0 e1]
  define pdpt where "pdpt = addr (ptm s1 (vmm_pml4 s) (pml4_ix virt))"
  let ?u = "vmm_user_bits (vmm_pml4 s) (pml4_ix virt) pdpt (pdpt_ix virt) flags s1"
  have pu: "pmm_inv (pmm ?u)" using f1 by simp
  obtain n2 s2 where e2: "vmm_ensure_table pdpt (pdpt_ix virt) VMM_WRITABLE ?u = Some (n2, s2)"
    using vmm_ensure_room [OF pu, of pdpt "pdpt_ix virt" VMM_WRITABLE] f1 room by auto
  note f2 = vmm_ensure_effect [OF pu e2]
  define pd where "pd = addr (ptm s2 pdpt (pdpt_ix virt))"
  have p2: "pmm_inv (pmm s2)" using f2 by simp
  obtain r where e3: "vmm_pd_level pd (pd_ix virt) flags s2 = Some r"
    using vmm_pd_level_room [OF p2, of pd "pd_ix virt" flags] f1 f2 room by auto
  show ?thesis
    using root e1 e2 e3 by (cases r) (auto simp: vmm_map_page_def Let_def pdpt_def pd_def)
qed

lemma create_succeeds:
  assumes "boot_tables s" and "\<not> vmm_la57 s" and "card (pmm_used_set (pmm s)) + 6 \<le> PMM_MAX_PAGES"
    and "vmm_create_address_space s = (root, s')"
  shows "root \<noteq> 0"
  using create_cases [OF assms(1,4)]
proof (elim disjE exE conjE)
  assume "PMM_MAX_PAGES \<le> card (pmm_used_set (pmm s)) + 5"
  then show ?thesis using assms(3) by simp
next
  fix m d g s3
  assume "good m" "vmm_la57 s3 = vmm_la57 s" "(root, s') = create_finish (page_addr m) (page_addr d) s3"
  then show ?thesis using assms(2) page_addr_nonzero by (simp add: create_finish_def Let_def set_ent_def)
qed

section \<open>Properties\<close>

text \<open>
  C3. A successful \<open>vmm_map_page\<close> keeps the page tables well formed and changes the
  translation of no page but the one it maps, even when it creates tables or splits a huge
  page on the way. The page itself translates to the frame asked for, and its entry in the last
  level carries the flags asked for, unless a request without the user flag hits an existing huge
  page, where the code returns without mapping anything. The flags of the upper levels are not
  part of the claim (\<open>vmm_user_bit_lost\<close>).
\<close>

theorem vmm_map_page_correct:
  assumes inv: "vmm_inv s" and run: "vmm_map_page virt phys flags s = Some s'"
  shows "vmm_inv s'
     \<and> (\<forall>v. take_bit 36 (drop_bit 12 v) \<noteq> take_bit 36 (drop_bit 12 virt)
           \<longrightarrow> vmm_get_phys s' v = vmm_get_phys s v)
     \<and> (flags AND VMM_USER \<noteq> 0 \<or> \<not> huge_at s virt \<longrightarrow>
           vmm_get_pte s' virt = vmm_make_entry phys flags
         \<and> vmm_get_phys s' virt = (phys AND 0x000FFFFFFFFFF000) OR (virt AND 0xFFF))"
proof -
  from vmm_map_page_steps [OF inv run] obtain n1 s1 n2 s2 pdpt pd r where
    e1: "vmm_ensure_table (vmm_pml4 s) (pml4_ix virt) VMM_WRITABLE s = Some (n1, s1)"
    and pdpt_def: "pdpt = addr (ptm s1 (vmm_pml4 s) (pml4_ix virt))"
    and e2: "vmm_ensure_table pdpt (pdpt_ix virt) VMM_WRITABLE
       (vmm_user_bits (vmm_pml4 s) (pml4_ix virt) pdpt (pdpt_ix virt) flags s1) = Some (n2, s2)"
    and pd_def: "pd = addr (ptm s2 pdpt (pdpt_ix virt))"
    and e3: "vmm_pd_level pd (pd_ix virt) flags s2 = Some r"
    and res: "s' = (case r of Inl s3 \<Rightarrow> s3 | Inr (n3, s3) \<Rightarrow> vmm_flush (n1 \<or> n2 \<or> n3) virt
        (set_ent (addr (ptm s3 pd (pd_ix virt))) (pt_ix virt) (vmm_make_entry phys flags) s3))"
    by blast
  have up: "grows s s2" "tbl s2 (pd_path virt) = Some pd"
    using vmm_map_upper [OF inv e1 pdpt_def e2] pd_def by simp_all
  show ?thesis
  proof (cases r)
    case (Inl s3)
    then have "s' = s2" and "huge_at s2 virt" and "\<not> bit flags 2"
      using e3 res up(2) by (auto simp: vmm_pd_level_def huge_at_def Let_def split: if_splits prod.splits)
    with up(1) inv show ?thesis by (simp add: grows_def vmm_get_phys_xlate)
  next
    case (Inr q)
    then obtain n3 s3 where q: "r = Inr (n3, s3)" by (cases q) auto
    define pt where "pt = addr (ptm s3 pd (pd_ix virt))"
    have low: "grows s2 s3" "tbl s3 (pt_path virt) = Some pt"
      using vmm_pd_level_grows [OF grows_inv [OF up(1)] up(2) _ e3 [unfolded q]] pt_def by simp_all
    have g: "grows s s3" by (rule grows_trans [OF up(1) low(1)])
    define s4 where "s4 = set_ent pt (pt_ix virt) (vmm_make_entry phys flags) s3"
    have s': "s' = vmm_flush (n1 \<or> n2 \<or> n3) virt s4" using res q by (simp add: s4_def pt_def)
    note st = same_store [of s' s4, unfolded s', OF vmm_flush_same]
    note lw = leaf_write [OF grows_inv [OF g] low(2) s4_def]
    have inv': "vmm_inv s'" using st(3) lw(1) by (simp add: s')
    have "vmm_get_phys s' v = vmm_get_phys s v"
      if "take_bit 36 (drop_bit 12 v) \<noteq> take_bit 36 (drop_bit 12 virt)" for v
    proof -
      have "(pt_path v, pt_ix v) \<noteq> (pt_path virt, pt_ix virt)" using index_page [of v virt] that by auto
      then show ?thesis using lw(4) g inv inv' st(2) by (simp add: vmm_get_phys_xlate grows_def s')
    qed
    moreover have "vmm_get_phys s' virt = (phys AND 0x000FFFFFFFFFF000) OR (virt AND 0xFFF)"
      using lw(3) inv' st(2) make_entry_leaf by (simp add: vmm_get_phys_xlate s' leaf_phys_def)
    moreover have "vmm_get_pte s' virt = vmm_make_entry phys flags"
      using vmm_get_pte_tbl [OF inv', of virt pt] lw(2) st(1) by (simp add: s' s4_def set_ent_def)
    ultimately show ?thesis using inv' by blast
  qed
qed

text \<open>
  C25. \<open>vmm_map_page\<close> does not panic while three pages are free: it needs at most one page
  for each level it may have to create.
\<close>

theorem vmm_map_page_no_panic:
  assumes inv: "vmm_inv s" and room: "card (pmm_used_set (pmm s)) + 3 \<le> PMM_MAX_PAGES"
  shows "\<exists>s'. vmm_map_page virt phys flags s = Some s'"
  by (rule vmm_map_page_room [OF assms])

text \<open>
  C19. After \<open>vmm_unmap_page\<close> the page translates to nothing and the tables are still well
  formed; no page outside the mapping that was removed (the 4 KiB page, or the 2 MiB page
  when the address was covered by a huge entry) changes its translation.
\<close>

theorem vmm_unmap_page_correct:
  assumes inv: "vmm_inv s"
  shows "vmm_inv (vmm_unmap_page virt s) \<and> vmm_get_phys (vmm_unmap_page virt s) virt = 0
     \<and> (\<forall>v. (if huge_at s virt then pt_path v \<noteq> pt_path virt
             else take_bit 36 (drop_bit 12 v) \<noteq> take_bit 36 (drop_bit 12 virt))
         \<longrightarrow> vmm_get_phys (vmm_unmap_page virt s) v = vmm_get_phys s v)"
proof (cases "tbl s (pt_path virt)")
  case (Some pt)
  let ?s = "set_ent pt (pt_ix virt) 0 s"
  have un: "vmm_unmap_page virt s = vmm_flush False virt ?s" using Some by (simp add: vmm_unmap_tbl [OF inv])
  note st = same_store [OF vmm_flush_same, of False virt ?s]
  note lw = leaf_write [OF inv Some refl, where e = 0]
  have inv': "vmm_inv (vmm_flush False virt ?s)" using st(3) lw(1) by simp
  have "\<not> huge_at s virt"
    using Some tbl_None [of s "pd_path virt" "[pd_ix virt]"] tbl_3 [of s "pml4_ix virt" "pdpt_ix virt"]
    by (auto simp: huge_at_def split: option.splits if_splits)
  moreover have "xlate ?s v = xlate s v" if "take_bit 36 (drop_bit 12 v) \<noteq> take_bit 36 (drop_bit 12 virt)" for v
    using index_page [of v virt] that lw(4) [of v] by auto
  ultimately show ?thesis unfolding un using inv inv' lw(3) st(2)
    by (simp add: vmm_get_phys_xlate leaf_phys_def)
next
  case None
  show ?thesis
  proof (cases "huge_at s virt")
    case True
    then obtain pd where pd: "tbl s (pd_path virt) = Some pd" by (auto simp: huge_at_def split: option.splits)
    let ?s = "set_ent pd (pd_ix virt) 0 s"
    have un: "vmm_unmap_page virt s = vmm_flush True virt ?s"
      using None pd True by (simp add: vmm_unmap_tbl [OF inv])
    note st = same_store [OF vmm_flush_same, of True virt ?s]
    note dh = drop_huge [OF inv pd None refl]
    have inv': "vmm_inv (vmm_flush True virt ?s)" using st(3) dh(1) by simp
    show ?thesis unfolding un using inv inv' dh(2,3) st(2) True by (simp add: vmm_get_phys_xlate)
  next
    case False
    then have "vmm_unmap_page virt s = s" using None by (simp add: vmm_unmap_tbl [OF inv] split: option.split)
    moreover have "xlate s virt = 0"
      using None False tbl_3 [of s "pml4_ix virt" "pdpt_ix virt" _ "pd_ix virt"]
      by (auto simp: xlate_def huge_at_def huge_phys_of_def split: option.splits if_splits)
    ultimately show ?thesis using inv by (simp add: vmm_get_phys_xlate)
  qed
qed

text \<open>
  C39. The user bit is lost on a new PDPT entry. When a user mapping has to create the page
  directory, the entry written for it carries no user bit: the bit set a few lines earlier is
  overwritten. The page-table entry has the user bit, yet ring 3 cannot use the mapping.
\<close>

theorem vmm_user_bit_lost:
  assumes inv: "vmm_inv s" and c: "tbl s [pml4_ix virt] = Some c"
    and absent: "ptm s c (pdpt_ix virt) AND VMM_PRESENT = 0"
    and user: "flags AND VMM_USER \<noteq> 0" and run: "vmm_map_page virt phys flags s = Some s'"
  shows "ptm s' c (pdpt_ix virt) AND VMM_USER = 0 \<and> vmm_make_entry phys flags AND VMM_USER \<noteq> 0"
proof -
  from vmm_map_page_steps [OF inv run] obtain n1 s1 n2 s2 pdpt pd r where
    e1: "vmm_ensure_table (vmm_pml4 s) (pml4_ix virt) VMM_WRITABLE s = Some (n1, s1)"
    and pdpt: "pdpt = addr (ptm s1 (vmm_pml4 s) (pml4_ix virt))"
    and e2: "vmm_ensure_table pdpt (pdpt_ix virt) VMM_WRITABLE
       (vmm_user_bits (vmm_pml4 s) (pml4_ix virt) pdpt (pdpt_ix virt) flags s1) = Some (n2, s2)"
    and pd: "pd = addr (ptm s2 pdpt (pdpt_ix virt))"
    and e3: "vmm_pd_level pd (pd_ix virt) flags s2 = Some r"
    and res: "s' = (case r of Inl s3 \<Rightarrow> s3 | Inr (n3, s3) \<Rightarrow> vmm_flush (n1 \<or> n2 \<or> n3) virt
        (set_ent (addr (ptm s3 pd (pd_ix virt))) (pt_ix virt) (vmm_make_entry phys flags) s3))"
    by blast
  let ?i = "pdpt_ix virt"
  have "s1 = s" and pc: "pdpt = c"
    using c e1 pdpt by (auto simp: tbl_1 vmm_ensure_table_def split: if_splits)
  let ?u = "vmm_user_bits (vmm_pml4 s) (pml4_ix virt) pdpt ?i flags s1"
  have gu: "grows s ?u" using vmm_user_bits_grows [OF inv c] \<open>s1 = s\<close> pc by simp
  have cu: "tbl ?u [pml4_ix virt] = Some c" by (rule grows_tbl [OF gu _ c]) simp
  have "c \<noteq> vmm_pml4 s" using vmm_inv_inj [OF inv, of "[pml4_ix virt]" "[]" c] c by auto
  then have "\<not> bit (ptm ?u c ?i) 0"
    using absent \<open>s1 = s\<close> pc by (simp add: vmm_user_bits_def set_ent_def Let_def)
  moreover have "held ?u c" using vmm_inv_held [OF grows_inv [OF gu] _ cu] by simp
  moreover have "pmm_inv (pmm ?u)" using grows_inv [OF gu] by (simp add: vmm_inv_def)
  ultimately obtain a where a: "ptm s2 c ?i = vmm_make_entry a VMM_WRITABLE"
    using vmm_ensure_effect [OF _ e2] pc by auto
  have up: "grows s s2" "tbl s2 (pd_path virt) = Some pd"
    using vmm_map_upper [OF inv e1 pdpt e2] pd by simp_all
  have inv2: "vmm_inv s2" by (rule grows_inv [OF up(1)])
  have c2: "tbl s2 [pml4_ix virt] = Some c" by (rule grows_tbl [OF up(1) _ c]) simp
  have "ptm s' c ?i = ptm s2 c ?i"
  proof (cases r)
    case (Inl s3)
    then show ?thesis using e3 res by (auto simp: vmm_pd_level_def Let_def split: if_splits prod.splits)
  next
    case (Inr q)
    then obtain n3 s3 where q: "r = Inr (n3, s3)" by (cases q) auto
    have cpd: "c \<noteq> pd" using vmm_inv_inj [OF inv2, of "[pml4_ix virt]" "pd_path virt" c] c2 up(2) by auto
    have held2: "held s2 c" using vmm_inv_held [OF inv2 _ c2] by simp
    have "ptm s3 c ?i = ptm s2 c ?i"
      using vmm_pd_level_frame [OF _ e3 [unfolded q] held2, of ?i] cpd inv2 by (simp add: vmm_inv_def)
    moreover have low: "grows s2 s3" "tbl s3 (pt_path virt) = Some (addr (ptm s3 pd (pd_ix virt)))"
      using vmm_pd_level_grows [OF inv2 up(2) _ e3 [unfolded q]] by simp_all
    moreover have "tbl s3 [pml4_ix virt] = Some c" by (rule grows_tbl [OF low(1) _ c2]) simp
    then have "c \<noteq> addr (ptm s3 pd (pd_ix virt))"
      using vmm_inv_inj [OF grows_inv [OF low(1)], of "[pml4_ix virt]" "pt_path virt" c] low(2) by auto
    ultimately show ?thesis using res q by (simp add: set_ent_def)
  qed
  with a user show ?thesis by (simp add: entry_bits)
qed

text \<open>
  C21. With 4-level paging \<open>vmm_create_address_space\<close> either takes exactly six pages that were
  free, the root among them, or fails with every page given back; it fails only when fewer
  than six pages are free.
\<close>

theorem vmm_create_accounting:
  assumes bt: "boot_tables s" and la57: "\<not> vmm_la57 s"
    and run: "vmm_create_address_space s = (root, s')"
  shows "pmm_inv (pmm s') \<and>
     (if root = 0 then pmm_used_set (pmm s') = pmm_used_set (pmm s)
                     \<and> PMM_MAX_PAGES < card (pmm_used_set (pmm s)) + 6
      else pmm_used_set (pmm s) \<subseteq> pmm_used_set (pmm s')
         \<and> card (pmm_used_set (pmm s')) = card (pmm_used_set (pmm s)) + 6
         \<and> (\<exists>n. root = page_addr n \<and> n \<notin> pmm_used_set (pmm s)))"
  using create_cases [OF bt run]
proof (elim disjE exE conjE)
  assume "root = 0" "pmm_inv (pmm s')" "pmm_used_set (pmm s') = pmm_used_set (pmm s)"
    "PMM_MAX_PAGES \<le> card (pmm_used_set (pmm s)) + 5"
  then show ?thesis by simp
next
  fix m d g s3
  assume m: "good m" "m \<noteq> d" "m \<notin> pmm_used_set (pmm s)" "d \<notin> pmm_used_set (pmm s)"
    and st: "pds_state (insert d (insert m (pmm_used_set (pmm s)))) d g 4 s3"
    and l: "vmm_la57 s3 = vmm_la57 s" and fin: "(root, s') = create_finish (page_addr m) (page_addr d) s3"
  have "root = page_addr m" "pmm s' = pmm s3"
    using fin l la57 by (auto simp: create_finish_def Let_def set_ent_def)
  then show ?thesis using st pds_card [OF st _ m(3,4,2)] page_addr_nonzero [OF m(1)] m(3)
    by (auto simp: pds_state_def)
qed

text \<open>
  C40. With 5-level paging the failure exit leaks. When exactly six pages are free, the PML5
  shell cannot be allocated; the call fails, and the four page-directory copies stay
  allocated.
\<close>

theorem vmm_create_la57_leak:
  assumes bt: "boot_tables s" and la57: "vmm_la57 s"
    and six: "card (pmm_used_set (pmm s)) + 6 = PMM_MAX_PAGES"
    and run: "vmm_create_address_space s = (root, s')"
  shows "root = 0 \<and> card (pmm_used_set (pmm s')) = card (pmm_used_set (pmm s)) + 4"
  using create_cases [OF bt run]
proof (elim disjE exE conjE)
  assume "PMM_MAX_PAGES \<le> card (pmm_used_set (pmm s)) + 5"
  then show ?thesis using six by simp
next
  fix m d g s3
  assume m: "good m" "good d" "m \<noteq> d" "m \<notin> pmm_used_set (pmm s)" "d \<notin> pmm_used_set (pmm s)"
    and st: "pds_state (insert d (insert m (pmm_used_set (pmm s)))) d g 4 s3"
    and l: "vmm_la57 s3 = vmm_la57 s" and fin: "(root, s') = create_finish (page_addr m) (page_addr d) s3"
  define s4 where "s4 = set_ent (page_addr m) 0 (page_addr d OR VMM_PRESENT OR VMM_WRITABLE) s3"
  have p4: "pmm s4 = pmm s3" "vmm_la57 s4" using l la57 by (simp_all add: s4_def set_ent_def)
  have inv: "pmm_inv (pmm s4)" using st p4 by (simp add: pds_state_def)
  have c: "card (pmm_used_set (pmm s3)) = PMM_MAX_PAGES" using pds_card [OF st _ m(4,5,3)] six by simp
  obtain a s5 where al: "vmm_alloc s4 = (a, s5)" by fastforce
  have "a = 0"
  proof (rule ccontr)
    assume "a \<noteq> 0"
    from vmm_alloc_fresh [OF inv al this] used_full [OF c] p4 show False by auto
  qed
  then have "s5 = s4" using vmm_alloc_fail_same [OF inv] al by simp
  then have r: "root = 0" "s' = vmm_free (page_addr m) (vmm_free (page_addr d) s4)"
    using fin al \<open>a = 0\<close> p4 by (auto simp: create_finish_def s4_def [symmetric])
  note f1 = vmm_free_page [OF inv m(2)]
  have u: "pmm_used_set (pmm s') = pmm_used_set (pmm s3) - {d} - {m}"
    using vmm_free_page [OF conjunct1 [OF f1] m(1)] f1 r(2) p4 by simp
  have "d \<in> pmm_used_set (pmm s3)" "m \<in> pmm_used_set (pmm s3)" using st by (auto simp: pds_state_def)
  then have "card (pmm_used_set (pmm s')) = PMM_MAX_PAGES - 2"
    using u c m(3) by (simp add: card_Diff_singleton_if)
  then show ?thesis using r(1) six by simp
qed

text \<open>
  C16. Destroying a fresh address space gives back exactly the pages its creation took, with
  4-level and with 5-level paging.
\<close>

theorem vmm_create_destroy:
  assumes bt: "boot_tables s" and br: "held s (vmm_boot_root s)"
    and run: "vmm_create_address_space s = (root, s')" and ok: "root \<noteq> 0"
  shows "pmm_used_set (pmm (vmm_destroy_address_space root s')) = pmm_used_set (pmm s)"
  using create_cases [OF bt run]
proof (elim disjE exE conjE)
  assume "root = 0"
  with ok show ?thesis by simp
next
  fix m d g s3
  let ?U = "pmm_used_set (pmm s)" and ?V = "insert d (insert m (pmm_used_set (pmm s)))"
  assume m: "good m" "good d" "m \<noteq> d" "m \<notin> ?U" "d \<notin> ?U" and st: "pds_state ?V d g 4 s3"
    and pres: "\<forall>j < 4. bit (ptm s3 (page_addr d) j) 0" and l: "vmm_la57 s3 = vmm_la57 s"
    and b3: "vmm_boot_root s3 = (if vmm_boot_root s = 0 then addr (cr3 s) else vmm_boot_root s)"
    and fin: "(root, s') = create_finish (page_addr m) (page_addr d) s3"
  obtain b where b: "b \<in> ?U" "b \<noteq> 0" "vmm_boot_root s = page_addr b" using br by (auto simp: held_def)
  have boot: "vmm_boot_root s3 = page_addr b"
    using b b3 used_less [OF b(1)] by auto
  define s4 where "s4 = set_ent (page_addr m) 0 (page_addr d OR VMM_PRESENT OR VMM_WRITABLE) s3"
  have p4: "pmm s4 = pmm s3" "vmm_la57 s4 = vmm_la57 s" "vmm_boot_root s4 = page_addr b"
    using l boot by (simp_all add: s4_def set_ent_def)
  have st4: "pmm_inv (pmm s4)" "pmm_used_set (pmm s4) = ?V \<union> g ` {..<4}" "g ` {..<4} \<inter> ?V = {}"
    "\<forall>j < 4. good (g j)" using st p4 by (simp_all add: pds_state_def)
  have ne: "page_addr x \<noteq> page_addr y" if "good x" "good y" "x \<noteq> y" for x y
    using that by (simp add: good_def page_addr_inj)
  have gm: "g j \<noteq> m" "g j \<noteq> d" if "j < 4" for j using st4(3) that by auto
  have sp: "space_pages t r m d g" if t: "\<And>x. x \<in> pmm_used_set (pmm s4) \<Longrightarrow> ptm t (page_addr x) = ptm s4 (page_addr x)"
    and r: "mm_root_to_pml4 t r = page_addr m" for t r
  proof -
    have e: "ptm t (page_addr m) 0 = page_addr d OR VMM_PRESENT OR VMM_WRITABLE"
      using t [of m] st4(2) by (simp add: s4_def set_ent_def)
    have "ptm t (page_addr d) = ptm s3 (page_addr d)" "\<And>j. j < 4 \<Longrightarrow> ptm t (page_addr (g j)) = ptm s3 (page_addr (g j))"
      using t st4(2,4) ne m gm by (simp_all add: s4_def set_ent_def)
    then show ?thesis using e table_entry_or [OF m(2)] m r st pres by (simp add: space_pages_def pds_state_def)
  qed
  show ?thesis
  proof (cases "vmm_la57 s")
    case False
    then have r: "root = page_addr m" "s' = s4"
      using fin p4 by (auto simp: create_finish_def s4_def [symmetric])
    have "mm_root_to_pml4 s4 root = page_addr m"
      using False p4 r addr_page_addr [of m] m(1) by (simp add: mm_root_to_pml4_def good_def)
    then have "space_pages s' root m d g" using sp r by blast
    moreover have "root \<noteq> vmm_boot_root s'" using r p4 b m(1,4) used_less [OF b(1)] ne [of m b] by (auto simp: good_def)
    ultimately have "pmm_used_set (pmm (vmm_destroy_address_space root s')) =
       pmm_used_set (pmm s') - g ` {..<4} - {d, m, m}"
      using destroy_frees [of s' root m d g m] r st4(1) m(1) by simp
    then show ?thesis unfolding r(2) st4(2) using give_back(1) [OF st4(3) m(4,5)] by simp
  next
    case True
    obtain a s5 where al: "vmm_alloc s4 = (a, s5)" by fastforce
    with fin ok True p4 have a: "a \<noteq> 0" by (auto simp: create_finish_def s4_def [symmetric])
    from vmm_alloc_fresh [OF st4(1) al a] obtain k where k: "a = page_addr k" "good k"
      "k \<notin> pmm_used_set (pmm s4)" "pmm_inv (pmm s5)" "pmm_used_set (pmm s5) = insert k (pmm_used_set (pmm s4))"
      and s5: "s5 = s4\<lparr>pmm := pmm s5\<rparr>" by (auto simp: good_def)
    have s5f: "ptm s5 = ptm s4" "vmm_la57 s5" "vmm_boot_root s5 = page_addr b"
      by (subst s5, simp add: p4 True)+
    have r: "root = a" "s' = set_ent a 0 (page_addr m OR VMM_PRESENT OR VMM_WRITABLE OR VMM_USER) (zero_page a s5)"
      using fin al a True p4 by (auto simp: create_finish_def s4_def [symmetric])
    have s': "pmm s' = pmm s5" "vmm_la57 s'" "vmm_boot_root s' = page_addr b"
      by (simp_all add: r(2) set_ent_def s5f)
    have "ptm s' (page_addr x) = ptm s4 (page_addr x)" if "x \<in> pmm_used_set (pmm s4)" for x
    proof -
      have "page_addr x \<noteq> a" using that k used_less [OF that] by (auto simp: page_addr_inj good_def)
      then show ?thesis by (simp add: r(2) set_ent_def s5f)
    qed
    moreover have "mm_root_to_pml4 s' root = page_addr m"
      using s' r k addr_page_addr [of k] table_entry_or(3) [OF m(1)]
      by (simp add: mm_root_to_pml4_def good_def set_ent_def)
    ultimately have "space_pages s' root m d g" by (rule sp)
    moreover have "root \<noteq> vmm_boot_root s'"
      using r(1) s'(3) k b(1) st4(2) used_less [OF b(1)] by (auto simp: page_addr_inj good_def)
    ultimately have "pmm_used_set (pmm (vmm_destroy_address_space root s')) =
       pmm_used_set (pmm s') - g ` {..<4} - {d, m, k}"
      using destroy_frees [of s' root m d g k] r(1) s' k by simp
    then show ?thesis unfolding s'(1) k(5) st4(2)
      using give_back(2) [OF st4(3) m(4,5)] k(3) [unfolded st4(2)] by simp
  qed
qed

section \<open>Witnesses\<close>

text \<open>
  Six free pages (600 to 605); a PML4 in page 5 whose first entry leads to an empty PDPT in
  page 7; and the same with the first four PDPT entries present.
\<close>

definition pmm_six_free :: pmm_state where
  "pmm_six_free = (fold bitmap_clear [600..<606] pmm_full)\<lparr>pmm_last_page := 600\<rparr>"

definition demo_vmm :: vmm where
  "demo_vmm = \<lparr>ptm = (\<lambda>b i. if b = page_addr 5 \<and> i = 0 then page_addr 7 OR VMM_PRESENT OR VMM_WRITABLE else 0),
     vmm_pml4 = page_addr 5, vmm_la57 = False, vmm_active_root = page_addr 5,
     vmm_boot_root = page_addr 5, vmm_boot_pml4 = page_addr 5, switch_active = 0,
     cr3 = page_addr 5, cr4 = 0, efer = 0, tlb = [], pmm = pmm_six_free\<rparr>"

definition demo_boot :: vmm where
  "demo_boot = demo_vmm\<lparr>ptm := (\<lambda>b i. if b = page_addr 5 \<and> i = 0
     then page_addr 7 OR VMM_PRESENT OR VMM_WRITABLE
     else if b = page_addr 7 \<and> i < 4 then 1 else 0)\<rparr>"

lemma six_free_used: "pmm_used_set pmm_six_free = {..<PMM_MAX_PAGES} - {600..<606}"
proof -
  have "bitmap_test pmm_six_free p \<longleftrightarrow> \<not> (600 \<le> p \<and> p < 606)" for p
    unfolding pmm_six_free_def bitmap_test_updates fold_bitmap_clear
    by (simp add: pmm_full_test del: upt_Suc) (auto simp: PMM_MAX_PAGES_def)
  note test = this
  show ?thesis unfolding pmm_used_set_def test by auto
qed

lemma six_free_card: "card (pmm_used_set pmm_six_free) + 6 = PMM_MAX_PAGES"
proof -
  have "{600..<606} \<subseteq> {..<PMM_MAX_PAGES}" by (auto simp: PMM_MAX_PAGES_def)
  then have "card (pmm_used_set pmm_six_free) = PMM_MAX_PAGES - 6"
    unfolding six_free_used by (subst card_Diff_subset) auto
  then show ?thesis by (simp add: PMM_MAX_PAGES_def)
qed

lemma six_free_inv: "pmm_inv pmm_six_free"
proof -
  have "pmm_count_ok pmm_full"
    using pmm_all_set_boot_ok unfolding pmm_full_def boot_ok_def by blast
  then have "pmm_count_ok (fold bitmap_clear [600..<606] pmm_full)"
    by (intro fold_count bitmap_clear_count)
  then have "pmm_count_ok pmm_six_free" by (simp add: pmm_six_free_def)
  moreover have "0 \<in> pmm_used_set pmm_six_free" by (simp add: six_free_used PMM_MAX_PAGES_def)
  ultimately show ?thesis by (simp add: pmm_inv_def pmm_used_set_def pmm_six_free_def PMM_MAX_PAGES_def)
qed

lemma six_free_held: "n < 600 \<Longrightarrow> n \<noteq> 0 \<Longrightarrow> pmm s = pmm_six_free \<Longrightarrow> held s (page_addr n)"
  by (auto simp: held_def six_free_used PMM_MAX_PAGES_def intro!: bexI [of _ n])

lemma demo_pages: "good 5" "good 7" "page_addr 5 \<noteq> page_addr 7"
  by (simp_all add: good_def PMM_MAX_PAGES_def page_addr_inj)

lemma demo_tbl: "tbl demo_vmm p = (case p of [] \<Rightarrow> Some (page_addr 5)
    | [i] \<Rightarrow> if i = 0 then Some (page_addr 7) else None | _ \<Rightarrow> None)"
proof -
  have zero: "node (ptm demo_vmm) d (page_addr 7) (j # q) = None" for d j q
    using demo_pages by (simp add: demo_vmm_def leads_def)
  show ?thesis
    using table_entry_or [OF demo_pages(2)] zero demo_pages(3)
    by (cases p; cases "tl p") (auto simp: tbl_def leads_def demo_vmm_def table_entry_or bit_or_iff bit_flags)
qed

lemma demo_vmm_inv: "vmm_inv demo_vmm"
proof (rule vmm_invI)
  show "pmm_inv (pmm demo_vmm)" by (simp add: demo_vmm_def six_free_inv)
  show "vmm_pml4 demo_vmm \<noteq> 0" using page_addr_nonzero [OF demo_pages(1)] by (simp add: demo_vmm_def)
next
  fix p q b assume "tbl demo_vmm p = Some b" "tbl demo_vmm q = Some b"
  then show "p = q" using demo_pages by (auto simp: demo_tbl split: list.splits if_splits)
next
  fix p b assume "tbl demo_vmm p = Some b"
  moreover have "pmm demo_vmm = pmm_six_free" by (simp add: demo_vmm_def)
  ultimately show "held demo_vmm b" using six_free_held [of 5 demo_vmm] six_free_held [of 7 demo_vmm]
    by (auto simp: demo_tbl split: list.splits if_splits)
next
  fix i j k b assume "tbl demo_vmm [i, j] = Some b"
  then show "huge_ok (ptm demo_vmm b k)" by (simp add: demo_tbl)
qed

lemma demo_boot_tables: "boot_tables demo_boot" "held demo_boot (vmm_boot_root demo_boot)"
  using table_entry_or [OF demo_pages(2)] demo_pages(3) six_free_inv six_free_held [of _ demo_boot]
  by (simp_all add: boot_tables_def boot_pdpt_def demo_boot_def demo_vmm_def)

lemma demo_room: "card (pmm_used_set (pmm demo_vmm)) + 6 = PMM_MAX_PAGES"
  "card (pmm_used_set (pmm demo_boot)) + 6 = PMM_MAX_PAGES"
  by (simp_all add: demo_boot_def demo_vmm_def six_free_card)

theorem vmm_map_page_correct_witness:
  "\<exists>s'. vmm_map_page 0x10000000 0x5000 VMM_USER demo_vmm = Some s'
     \<and> vmm_get_phys s' 0x10000000 = 0x5000"
proof -
  obtain s' where s': "vmm_map_page 0x10000000 0x5000 VMM_USER demo_vmm = Some s'"
    using vmm_map_page_room [OF demo_vmm_inv, of "0x10000000" "0x5000" VMM_USER] demo_room by auto
  have "VMM_USER AND VMM_USER \<noteq> (0 :: u64)" by (simp add: VMM_USER_def)
  with vmm_map_page_correct [OF demo_vmm_inv s'] s' show ?thesis by simp
qed

theorem vmm_map_page_no_panic_witness:
  "\<exists>s'. vmm_map_page 0x10000000 0x5000 VMM_USER demo_vmm = Some s'"
  using vmm_map_page_no_panic [OF demo_vmm_inv] demo_room by simp

theorem vmm_unmap_page_correct_witness:
  "vmm_get_phys (vmm_unmap_page 0x10000000 demo_vmm) 0x10000000 = 0"
  using vmm_unmap_page_correct [OF demo_vmm_inv] by blast

theorem vmm_user_bit_lost_witness:
  "\<exists>s'. vmm_map_page 0x10000000 0x5000 VMM_USER demo_vmm = Some s'
     \<and> ptm s' (page_addr 7) 0 AND VMM_USER = 0"
proof -
  obtain s' where s': "vmm_map_page 0x10000000 0x5000 VMM_USER demo_vmm = Some s'"
    using vmm_map_page_room [OF demo_vmm_inv, of "0x10000000" "0x5000" VMM_USER] demo_room by auto
  have ix: "pml4_ix 0x10000000 = 0" "pdpt_ix 0x10000000 = 0"
    by (simp_all add: pml4_ix_def pdpt_ix_def drop_bit_eq_div)
  have "tbl demo_vmm [pml4_ix 0x10000000] = Some (page_addr 7)" by (simp add: ix demo_tbl)
  moreover have "ptm demo_vmm (page_addr 7) (pdpt_ix 0x10000000) AND VMM_PRESENT = 0"
    using demo_pages(3) by (simp add: demo_vmm_def)
  moreover have "VMM_USER AND VMM_USER \<noteq> (0 :: u64)" by (simp add: VMM_USER_def)
  ultimately show ?thesis using vmm_user_bit_lost [OF demo_vmm_inv _ _ _ s', of "page_addr 7"] s' ix by auto
qed

theorem vmm_create_accounting_witness:
  "fst (vmm_create_address_space demo_boot) \<noteq> 0 \<and> card (pmm_used_set (pmm demo_boot)) + 6 = PMM_MAX_PAGES
     \<and> card (pmm_used_set (pmm (snd (vmm_create_address_space demo_boot)))) = PMM_MAX_PAGES"
proof -
  have "\<not> vmm_la57 demo_boot" by (simp add: demo_boot_def demo_vmm_def)
  from vmm_create_accounting [OF demo_boot_tables(1) this, of "fst (vmm_create_address_space demo_boot)"
      "snd (vmm_create_address_space demo_boot)"] demo_room(2) show ?thesis by (simp split: if_splits)
qed

theorem vmm_create_la57_leak_witness:
  "fst (vmm_create_address_space (demo_boot\<lparr>vmm_la57 := True\<rparr>)) = 0"
proof -
  let ?s = "demo_boot\<lparr>vmm_la57 := True\<rparr>"
  have "boot_tables ?s" using demo_boot_tables(1) by (simp add: boot_tables_def boot_pdpt_def held_def)
  with vmm_create_la57_leak [of ?s "fst (vmm_create_address_space ?s)" "snd (vmm_create_address_space ?s)"]
    demo_room(2) show ?thesis by simp
qed

theorem vmm_create_destroy_witness:
  "pmm_used_set (pmm (vmm_destroy_address_space (fst (vmm_create_address_space demo_boot))
     (snd (vmm_create_address_space demo_boot)))) = pmm_used_set pmm_six_free"
proof -
  let ?r = "vmm_create_address_space demo_boot"
  have "fst ?r \<noteq> 0"
    using create_succeeds [OF demo_boot_tables(1), of "fst ?r" "snd ?r"] demo_room(2)
    by (simp add: demo_boot_def demo_vmm_def)
  with vmm_create_destroy [OF demo_boot_tables, of "fst ?r" "snd ?r"] show ?thesis
    by (simp add: demo_boot_def demo_vmm_def)
qed

end
