(* ===== verification/Klib.thy ===== *)
theory Klib
  imports Kernel_Prelude "HOL-Library.Signed_Division" "HOL-Library.Sublist"
begin

unbundle bit_operations_syntax

text \<open>
  The kernel's C library: \<open>src/kernel/lib/string.c\<close> and \<open>src/kernel/lib/stdlib.c\<close>. Memory is a
  function from addresses to bytes, pointers are addresses (0 is \<open>NULL\<close>), an object does not
  wrap around the address space. A loop that runs until a terminator is
  \<open>partial_function (option)\<close>: \<open>None\<close> is a loop that does not end. \<open>char\<close> is signed, as on
  x86-64.
\<close>

section \<open>Strings: string.c\<close>

type_synonym mem = "nat \<Rightarrow> u8"

definition schar :: "u8 \<Rightarrow> int" where
  "schar b = sint b"

partial_function (option) strlen_loop :: "mem \<Rightarrow> nat \<Rightarrow> nat \<Rightarrow> nat option" where
  "strlen_loop m str len = (if m (str + len) \<noteq> 0 then strlen_loop m str (len + 1) else Some len)"

definition strlen :: "mem \<Rightarrow> nat \<Rightarrow> nat option" where
  "strlen m str = strlen_loop m str 0"

partial_function (option) strcpy_loop :: "mem \<Rightarrow> nat \<Rightarrow> nat \<Rightarrow> mem option" where
  "strcpy_loop m d s =
     (let c = m s; m = m(d := c) in if c \<noteq> 0 then strcpy_loop m (d + 1) (s + 1) else Some m)"

definition strcpy :: "nat \<Rightarrow> nat \<Rightarrow> mem \<Rightarrow> mem option" where
  "strcpy dest src m = strcpy_loop m dest src"

definition strcat :: "nat \<Rightarrow> nat \<Rightarrow> mem \<Rightarrow> mem option" where
  "strcat dest src m =
     (case strlen m dest of None \<Rightarrow> None | Some n \<Rightarrow> strcpy_loop m (dest + n) src)"

partial_function (option) strcmp :: "mem \<Rightarrow> nat \<Rightarrow> nat \<Rightarrow> int option" where
  "strcmp m str1 str2 =
     (if m str1 \<noteq> 0 \<and> m str2 \<noteq> 0 \<and> m str1 = m str2 then strcmp m (str1 + 1) (str2 + 1)
      else Some (schar (m str1) - schar (m str2)))"

partial_function (option) strchr :: "mem \<Rightarrow> nat \<Rightarrow> int \<Rightarrow> nat option" where
  "strchr m str c =
     (if m str \<noteq> 0 \<and> schar (m str) \<noteq> c then strchr m (str + 1) c
      else Some (if schar (m str) = c then str else 0))"

text \<open>Whether a byte occurs in the delimiter string.\<close>

partial_function (option) strtok_match :: "mem \<Rightarrow> nat \<Rightarrow> u8 \<Rightarrow> bool option" where
  "strtok_match m d c =
     (if m d \<noteq> 0 then (if c = m d then Some True else strtok_match m (d + 1) c) else Some False)"

partial_function (option) strtok_skip :: "mem \<Rightarrow> nat \<Rightarrow> nat \<Rightarrow> nat option" where
  "strtok_skip m delim str =
     (if m str \<noteq> 0 then
        (case strtok_match m delim (m str) of
           None \<Rightarrow> None
         | Some match \<Rightarrow> if \<not> match then Some str else strtok_skip m delim (str + 1))
      else Some str)"

text \<open>The token loop: memory and saved position when it ends.\<close>

partial_function (option) strtok_scan :: "mem \<Rightarrow> nat \<Rightarrow> nat \<Rightarrow> (mem \<times> nat) option" where
  "strtok_scan m delim str =
     (if m str \<noteq> 0 then
        (case strtok_match m delim (m str) of
           None \<Rightarrow> None
         | Some match \<Rightarrow>
             if match then Some (m(str := 0), str + 1) else strtok_scan m delim (str + 1))
      else Some (m, 0))"

text \<open>\<open>strtok str delim\<close> with the static \<open>strtok_state\<close>: token, memory, new state.\<close>

definition strtok :: "nat \<Rightarrow> nat \<Rightarrow> mem \<times> nat \<Rightarrow> (nat \<times> mem \<times> nat) option" where
  "strtok str0 delim = (\<lambda>(m, strtok_state).
     let str = (if str0 = 0 then strtok_state else str0) in
     if str = 0 then Some (0, m, strtok_state)
     else (case strtok_skip m delim str of
             None \<Rightarrow> None
           | Some start \<Rightarrow>
               if m start = 0 then Some (0, m, strtok_state)
               else (case strtok_scan m delim start of
                       None \<Rightarrow> None
                     | Some (m', st) \<Rightarrow> Some (start, m', st))))"

fun memset :: "nat \<Rightarrow> u8 \<Rightarrow> nat \<Rightarrow> mem \<Rightarrow> mem" where
  "memset p v 0 m = m"
| "memset p v (Suc num) m = memset (p + 1) v num (m(p := v))"

fun memcpy :: "nat \<Rightarrow> nat \<Rightarrow> nat \<Rightarrow> mem \<Rightarrow> mem" where
  "memcpy d s 0 m = m"
| "memcpy d s (Suc num) m = memcpy (d + 1) (s + 1) num (m(d := m s))"

fun strncmp :: "mem \<Rightarrow> nat \<Rightarrow> nat \<Rightarrow> nat \<Rightarrow> int" where
  "strncmp m str1 str2 0 = 0"
| "strncmp m str1 str2 (Suc num) =
     (if m str1 \<noteq> 0 \<and> m str2 \<noteq> 0 \<and> m str1 = m str2 then strncmp m (str1 + 1) (str2 + 1) num
      else schar (m str1) - schar (m str2))"

fun strncpy :: "nat \<Rightarrow> nat \<Rightarrow> nat \<Rightarrow> mem \<Rightarrow> mem" where
  "strncpy d s 0 m = m"
| "strncpy d s (Suc num) m =
     (if m s \<noteq> 0 then strncpy (d + 1) (s + 1) num (m(d := m s)) else memset d 0 (Suc num) m)"

partial_function (option) strrchr_loop :: "mem \<Rightarrow> nat \<Rightarrow> int \<Rightarrow> nat \<Rightarrow> nat option" where
  "strrchr_loop m str c prev =
     (if m str \<noteq> 0 then strrchr_loop m (str + 1) c (if schar (m str) = c then str else prev)
      else Some prev)"

definition strrchr :: "mem \<Rightarrow> nat \<Rightarrow> int \<Rightarrow> nat option" where
  "strrchr m str c = strrchr_loop m str c 0"

text \<open>The inner loop of \<open>strstr\<close>: where the needle pointer stops.\<close>

partial_function (option) strstr_match :: "mem \<Rightarrow> nat \<Rightarrow> nat \<Rightarrow> nat option" where
  "strstr_match m h n =
     (if m h \<noteq> 0 \<and> m n \<noteq> 0 \<and> m h = m n then strstr_match m (h + 1) (n + 1) else Some n)"

partial_function (option) strstr_loop :: "mem \<Rightarrow> nat \<Rightarrow> nat \<Rightarrow> nat option" where
  "strstr_loop m haystack needle =
     (if m haystack \<noteq> 0 then
        (case strstr_match m haystack needle of
           None \<Rightarrow> None
         | Some n \<Rightarrow> if m n = 0 then Some haystack else strstr_loop m (haystack + 1) needle)
      else Some 0)"

definition strstr :: "mem \<Rightarrow> nat \<Rightarrow> nat \<Rightarrow> nat option" where
  "strstr m haystack needle =
     (if m needle = 0 then Some haystack else strstr_loop m haystack needle)"

fun memmove_down :: "nat \<Rightarrow> nat \<Rightarrow> nat \<Rightarrow> mem \<Rightarrow> mem" where
  "memmove_down d s 0 m = m"
| "memmove_down d s (Suc num) m = memmove_down d s num (m(d + num := m (s + num)))"

definition memmove :: "nat \<Rightarrow> nat \<Rightarrow> nat \<Rightarrow> mem \<Rightarrow> mem" where
  "memmove dest src num m = (if dest < src then memcpy dest src num m else memmove_down dest src num m)"

fun memcmp :: "mem \<Rightarrow> nat \<Rightarrow> nat \<Rightarrow> nat \<Rightarrow> int" where
  "memcmp m p1 p2 0 = 0"
| "memcmp m p1 p2 (Suc num) =
     (if m p1 \<noteq> m p2 then uint (m p1) - uint (m p2) else memcmp m (p1 + 1) (p2 + 1) num)"

section \<open>Numbers and formatting: stdlib.c\<close>

text \<open>The linear congruential generator; the state is \<open>rand_seed\<close>.\<close>

definition srand :: "u32 \<Rightarrow> u32" where
  "srand seed = seed"

definition rand :: "u32 \<Rightarrow> u32 \<times> u32" where
  "rand rand_seed =
     (let s = rand_seed * 1103515245 + 12345 in (drop_bit 16 s AND 0x7FFF, s))"

text \<open>\<open>int\<close> arithmetic, wrapped to 32 bits.\<close>

definition int32 :: "int \<Rightarrow> int" where
  "int32 x = sint (word_of_int x :: u32)"

definition is_digit :: "u8 \<Rightarrow> bool" where
  "is_digit c \<longleftrightarrow> 0x30 \<le> c \<and> c \<le> 0x39"

partial_function (option) atoi_loop :: "mem \<Rightarrow> nat \<Rightarrow> int \<Rightarrow> int option" where
  "atoi_loop m str result =
     (if is_digit (m str) then atoi_loop m (str + 1) (int32 (result * 10 + (schar (m str) - 48)))
      else Some result)"

definition atoi :: "mem \<Rightarrow> nat \<Rightarrow> int option" where
  "atoi m str =
     (let neg = (m str = 0x2D) in
      map_option (\<lambda>r. int32 (r * (if neg then - 1 else 1))) (atoi_loop m (if neg then str + 1 else str) 0))"

text \<open>\<open>strtoul\<close>: value and end pointer.\<close>

partial_function (option) strtoul_loop :: "mem \<Rightarrow> nat \<Rightarrow> u32 \<Rightarrow> u32 \<Rightarrow> (u32 \<times> nat) option" where
  "strtoul_loop m str base result =
     (if is_digit (m str)
      then strtoul_loop m (str + 1) base (result * base + (ucast (m str) - 48))
      else Some (result, str))"

definition strtoul :: "mem \<Rightarrow> nat \<Rightarrow> u32 \<Rightarrow> (u32 \<times> nat) option" where
  "strtoul m str base = strtoul_loop m str base 0"

text \<open>
  The digit loop of \<open>itoa\<close>: truncating division, at most \<open>room\<close> digits, least significant
  first. A negative remainder gives the character below \<open>'0'\<close> that the C code writes.
\<close>

definition itoa_digit :: "int \<Rightarrow> u8" where
  "itoa_digit r = word_of_int (if r < 10 then r + 48 else r + 65 - 10)"

fun itoa_digits :: "nat \<Rightarrow> int \<Rightarrow> int \<Rightarrow> nat \<Rightarrow> mem \<Rightarrow> nat \<times> mem" where
  "itoa_digits 0 n base ptr m = (ptr, m)"
| "itoa_digits (Suc room) n base ptr m =
     (if n = 0 then (ptr, m)
      else itoa_digits room (n sdiv base) base (ptr + 1) (m(ptr := itoa_digit (n smod base))))"

text \<open>The reversal in place between \<open>low\<close> and \<open>ptr\<close>.\<close>

function reverse_loop :: "nat \<Rightarrow> nat \<Rightarrow> mem \<Rightarrow> mem" where
  "reverse_loop low ptr m =
     (if low < ptr then reverse_loop (low + 1) (ptr - 1) (m(low := m ptr, ptr := m low)) else m)"
  by pat_completeness auto
termination
  by (relation "measure (\<lambda>(low, ptr, m). ptr - low)") auto

declare reverse_loop.simps [simp del]

definition itoa :: "int \<Rightarrow> nat \<Rightarrow> int \<Rightarrow> int \<Rightarrow> mem \<Rightarrow> mem" where
  "itoa num str base max_size m =
     (if max_size < 2 then m(str := 0)
      else if num = 0 then m(str := 0x30, str + 1 := 0)
      else
        (let neg = (num < 0 \<and> base = 10);
             m = (if neg then m(str := 0x2D) else m);
             n = (if neg then int32 (- num) else num);
             low = (if neg then str + 1 else str);
             (ptr, m) = itoa_digits (nat (max_size - 1) - (low - str)) n base low m;
             m = m(ptr := 0)
         in reverse_loop low (ptr - 1) m))"

text \<open>\<open>utoa\<close>: the same on \<open>uint32_t\<close>; the division is unsigned.\<close>

fun utoa_digits :: "nat \<Rightarrow> u32 \<Rightarrow> u32 \<Rightarrow> nat \<Rightarrow> mem \<Rightarrow> nat \<times> mem" where
  "utoa_digits 0 n base ptr m = (ptr, m)"
| "utoa_digits (Suc room) n base ptr m =
     (if n = 0 then (ptr, m)
      else utoa_digits room (n div base) base (ptr + 1) (m(ptr := itoa_digit (sint (n mod base)))))"

definition utoa :: "u32 \<Rightarrow> nat \<Rightarrow> u32 \<Rightarrow> int \<Rightarrow> mem \<Rightarrow> mem" where
  "utoa num str base max_size m =
     (if max_size < 2 then m(str := 0)
      else if num = 0 then m(str := 0x30, str + 1 := 0)
      else
        (let (ptr, m) = utoa_digits (nat (max_size - 1)) num base str m;
             m = m(ptr := 0)
         in reverse_loop str (ptr - 1) m))"

text \<open>
  \<open>kvsnprintf\<close>. \<open>out\<close> is what \<open>buf[0..off)\<close> holds; the variable arguments are their 64-bit
  slots, and reading a slot that was not passed is \<open>None\<close>, as is a \<open>width\<close> that overflows
  its \<open>int\<close> and a loop that never ends. \<open>KSP_EMIT\<close> evaluates its argument
  only when there is room: in \<open>KSP_EMIT(*s++)\<close> and \<open>KSP_EMIT(digits[--li])\<close> the step is
  taken only then.
\<close>

definition KSP_EMIT :: "nat \<Rightarrow> u8 \<Rightarrow> u8 list \<Rightarrow> u8 list" where
  "KSP_EMIT bsize c out = (if length out + 1 < bsize then out @ [c] else out)"

partial_function (option) kvs_str :: "mem \<Rightarrow> nat \<Rightarrow> nat \<Rightarrow> u8 list \<Rightarrow> u8 list option" where
  "kvs_str m bsize s out =
     (if m s \<noteq> 0 then
        (if length out + 1 < bsize then kvs_str m bsize (s + 1) (out @ [m s]) else kvs_str m bsize s out)
      else Some out)"

partial_function (option) kvs_digits :: "nat \<Rightarrow> u8 list \<Rightarrow> u8 list \<Rightarrow> u8 list option" where
  "kvs_digits bsize ds out =
     (case ds of
        [] \<Rightarrow> Some out
      | d # ds' \<Rightarrow>
          (if length out + 1 < bsize then kvs_digits bsize ds' (out @ [d]) else kvs_digits bsize ds out))"

partial_function (option) kvs_width :: "mem \<Rightarrow> nat \<Rightarrow> nat \<Rightarrow> (nat \<times> nat) option" where
  "kvs_width m p width =
     (if is_digit (m p) then
        (let width = width * 10 + (unat (m p) - 48) in
         if width < 2 ^ 31 then kvs_width m (p + 1) width else None)
      else Some (p, width))"

partial_function (option) kvs_longs :: "mem \<Rightarrow> nat \<Rightarrow> nat \<Rightarrow> (nat \<times> nat) option" where
  "kvs_longs m p longs = (if m p = 0x6C then kvs_longs m (p + 1) (longs + 1) else Some (p, longs))"

definition kvs_hx :: "nat \<Rightarrow> u8" where
  "kvs_hx d = of_nat (if d < 10 then 48 + d else 97 + d - 10)"

text \<open>The digits the conversion loop leaves in \<open>num\<close>, least significant first.\<close>

function kvs_num :: "nat \<Rightarrow> nat \<Rightarrow> u8 list" where
  "kvs_num base uv = (if uv = 0 \<or> base < 2 then [] else kvs_hx (uv mod base) # kvs_num base (uv div base))"
  by pat_completeness auto
termination
  by (relation "measure snd") auto

declare kvs_num.simps [simp del]

definition kvs_mac :: "mem \<Rightarrow> nat \<Rightarrow> nat \<Rightarrow> u8 list \<Rightarrow> u8 list" where
  "kvs_mac m bsize mac out =
     fold (\<lambda>i out.
       KSP_EMIT bsize (kvs_hx (unat (m (mac + i)) mod 16))
         (KSP_EMIT bsize (kvs_hx (unat (m (mac + i)) div 16))
           (if i \<noteq> 0 then KSP_EMIT bsize 0x3A out else out))) [0..<6] out"

text \<open>The numeric conversions \<open>d\<close>, \<open>u\<close> and \<open>x\<close>.\<close>

definition kvs_number ::
  "nat \<Rightarrow> u8 \<Rightarrow> bool \<Rightarrow> bool \<Rightarrow> nat \<Rightarrow> bool \<Rightarrow> u64 \<Rightarrow> u8 list \<Rightarrow> u8 list option" where
  "kvs_number bsize spec zeropad alt width longs arg out =
     (let sv = (if longs then sint arg else sint (ucast arg :: u32));
          neg = (spec = 0x64 \<and> sv < 0);
          uv = (if spec = 0x64 then nat (\<bar>sv\<bar>) else if longs then unat arg else unat (ucast arg :: u32));
          base = (if spec = 0x78 then 16 else 10);
          num = (if uv = 0 then [0x30] else kvs_num base uv);
          prefix = (if alt \<and> spec = 0x78 then 2 else 0 :: nat);
          out = (if neg then KSP_EMIT bsize 0x2D out else out);
          out = (if prefix \<noteq> 0 then KSP_EMIT bsize 0x78 (KSP_EMIT bsize 0x30 out) else out);
          pad = width - ((if neg then 1 else 0) + prefix + length num);
          out = (KSP_EMIT bsize (if zeropad then 0x30 else 0x20) ^^ pad) out
      in kvs_digits bsize (rev num) out)"

text \<open>One conversion, from the character after the percent sign: next position, remaining
  arguments, output.\<close>

definition kvs_conv ::
  "mem \<Rightarrow> nat \<Rightarrow> nat \<Rightarrow> u64 list \<Rightarrow> u8 list \<Rightarrow> (nat \<times> u64 list \<times> u8 list) option" where
  "kvs_conv m bsize p args out =
     (if m p = 0x25 then Some (p + 1, args, KSP_EMIT bsize 0x25 out)
      else if m p = 0x73 then
        (case args of
           [] \<Rightarrow> None
         | s # args \<Rightarrow>
             map_option (\<lambda>out. (p + 1, args, out))
               (if s = 0 then kvs_digits bsize [0x28, 0x6E, 0x75, 0x6C, 0x6C, 0x29] out
                else kvs_str m bsize (unat s) out))
      else
        (let wstart = p;
             zeropad = (m p = 0x30);
             p = (if zeropad then p + 1 else p);
             alt = (m p = 0x23);
             p = (if alt then p + 1 else p)
         in
         case kvs_width m p 0 of
           None \<Rightarrow> None
         | Some (p, width) \<Rightarrow>
             (case kvs_longs m p 0 of
                None \<Rightarrow> None
              | Some (p, longs) \<Rightarrow>
                  (let spec = m p in
                   if spec = 0x70 then
                     (case args of
                        [] \<Rightarrow> None
                      | ptr # args \<Rightarrow>
                          if m (p + 1) = 0x4D then Some (p + 2, args, kvs_mac m bsize (unat ptr) out)
                          else map_option (\<lambda>out. (p + 1, args, out))
                                 (kvs_digits bsize (if ptr = 0 then [0x30] else rev (kvs_num 16 (unat ptr)))
                                   (KSP_EMIT bsize 0x78 (KSP_EMIT bsize 0x30 out))))
                   else if spec = 0x64 \<or> spec = 0x75 \<or> spec = 0x78 then
                     (case args of
                        [] \<Rightarrow> None
                      | a # args \<Rightarrow>
                          map_option (\<lambda>out. (p + 1, args, out))
                            (kvs_number bsize spec zeropad alt width (longs \<noteq> 0) a out))
                   else if spec = 0x63 then
                     (case args of
                        [] \<Rightarrow> None
                      | c # args \<Rightarrow> Some (p + 1, args, KSP_EMIT bsize (ucast c) out))
                   else Some (p + 1, args,
                          fold (KSP_EMIT bsize) (map m [wstart..<p + 1]) (KSP_EMIT bsize 0x25 out))))))"

partial_function (option) kvs_loop ::
  "mem \<Rightarrow> nat \<Rightarrow> nat \<Rightarrow> u64 list \<Rightarrow> u8 list \<Rightarrow> u8 list option" where
  "kvs_loop m bsize p args out =
     (if m p = 0 then Some out
      else if m p \<noteq> 0x25 then kvs_loop m bsize (p + 1) args (KSP_EMIT bsize (m p) out)
      else
        (case kvs_conv m bsize (p + 1) args out of
           None \<Rightarrow> None
         | Some (p, args, out) \<Rightarrow> kvs_loop m bsize p args out))"

text \<open>The bytes \<open>kvsnprintf\<close> writes from \<open>buf\<close> on.\<close>

definition kvsnprintf :: "mem \<Rightarrow> nat \<Rightarrow> nat \<Rightarrow> u64 list \<Rightarrow> u8 list option" where
  "kvsnprintf m bsize fmt ap =
     (if bsize = 0 then Some [] else map_option (\<lambda>out. out @ [0]) (kvs_loop m bsize fmt ap []))"

definition ksprintf :: "mem \<Rightarrow> nat \<Rightarrow> nat \<Rightarrow> u64 list \<Rightarrow> u8 list option" where
  "ksprintf m bsize fmt ap = kvsnprintf m bsize fmt ap"

section \<open>Block operations\<close>

lemma memset_at: "memset p v n m x = (if p \<le> x \<and> x < p + n then v else m x)"
  by (induction n arbitrary: p m) auto

lemma memcpy_forward:
  "d \<le> s \<or> s + n \<le> d \<Longrightarrow> memcpy d s n m x = (if d \<le> x \<and> x < d + n then m (s + (x - d)) else m x)"
proof (induction n arbitrary: d s m)
  case (Suc n)
  have "d + 1 \<le> s + 1 \<or> s + 1 + n \<le> d + 1"
    using Suc.prems by auto
  note step = Suc.IH [OF this, of "m(d := m s)"]
  show ?case
    unfolding memcpy.simps step using Suc.prems by (auto simp: Suc_diff_Suc)
qed auto

lemma memmove_down_at:
  "s \<le> d \<Longrightarrow> memmove_down d s n m x = (if d \<le> x \<and> x < d + n then m (s + (x - d)) else m x)"
  by (induction n arbitrary: m) (auto simp: less_Suc_eq)

lemma memmove_block:
  "memmove d s n m x = (if d \<le> x \<and> x < d + n then m (s + (x - d)) else m x)"
  unfolding memmove_def by (auto simp: memcpy_forward memmove_down_at)

lemma memcmp_zero_iff: "memcmp m p q n = 0 \<longleftrightarrow> (\<forall>i<n. m (p + i) = m (q + i))"
proof (induction n arbitrary: p q)
  case (Suc n)
  then show ?case
    by (auto simp: less_Suc_eq_0_disj word_uint_eq_iff)
qed simp

section \<open>Strings in memory\<close>

fun cstr :: "mem \<Rightarrow> nat \<Rightarrow> u8 list \<Rightarrow> bool" where
  "cstr m p [] \<longleftrightarrow> m p = 0"
| "cstr m p (c # cs) \<longleftrightarrow> m p = c \<and> c \<noteq> 0 \<and> cstr m (p + 1) cs"

lemma cstr_iff:
  "cstr m p cs \<longleftrightarrow> (\<forall>i<length cs. m (p + i) = cs ! i \<and> cs ! i \<noteq> 0) \<and> m (p + length cs) = 0"
  by (induction cs arbitrary: p) (auto simp: less_Suc_eq_0_disj)

lemma cstr_cong:
  "cstr m p cs \<Longrightarrow> (\<And>i. i \<le> length cs \<Longrightarrow> m' (p + i) = m (p + i)) \<Longrightarrow> cstr m' p cs"
  by (auto simp: cstr_iff)

lemma cstr_drop: "cstr m p cs \<Longrightarrow> i \<le> length cs \<Longrightarrow> cstr m (p + i) (drop i cs)"
  by (auto simp: cstr_iff add.assoc)

lemma strlen_cstr: "cstr m str cs \<Longrightarrow> strlen m str = Some (length cs)"
proof -
  have "cstr m (str + len) cs \<Longrightarrow> strlen_loop m str len = Some (len + length cs)" for len
    by (induction cs arbitrary: len) (subst strlen_loop.simps; simp)+
  from this [of 0] show "cstr m str cs \<Longrightarrow> ?thesis"
    by (simp add: strlen_def)
qed

lemma strcpy_loop_cstr:
  assumes "cstr m s cs" and "d + length cs < s \<or> s + length cs < d"
  shows "\<exists>m'. strcpy_loop m d s = Some m' \<and> cstr m' d cs
    \<and> (\<forall>x. x < d \<or> d + length cs < x \<longrightarrow> m' x = m x)"
  using assms
proof (induction cs arbitrary: m d s)
  case Nil
  then show ?case
    by (subst strcpy_loop.simps) (auto simp: Let_def)
next
  case (Cons c cs)
  let ?m = "m(d := c)"
  have rest: "cstr ?m (s + 1) cs"
    by (rule cstr_cong [of m]) (use Cons.prems in auto)
  have "d + 1 + length cs < s + 1 \<or> s + 1 + length cs < d + 1"
    using Cons.prems(2) by auto
  from Cons.IH [OF rest this] obtain m' where m':
    "strcpy_loop ?m (d + 1) (s + 1) = Some m'" "cstr m' (d + 1) cs"
    "\<forall>x. x < d + 1 \<or> d + 1 + length cs < x \<longrightarrow> m' x = ?m x"
    by blast
  have "strcpy_loop m d s = Some m'"
    using m'(1) Cons.prems(1) by (subst strcpy_loop.simps) (auto simp: Let_def)
  moreover have "m' d = c"
    using m'(3) by simp
  ultimately show ?case
    using m'(2,3) Cons.prems(1) by auto
qed

text \<open>The lexicographic order on signed characters that \<open>strcmp\<close> computes.\<close>

fun strcmp_ref :: "u8 list \<Rightarrow> u8 list \<Rightarrow> int" where
  "strcmp_ref [] [] = 0"
| "strcmp_ref [] (y # ys) = - schar y"
| "strcmp_ref (x # xs) [] = schar x"
| "strcmp_ref (x # xs) (y # ys) = (if x = y then strcmp_ref xs ys else schar x - schar y)"

lemma schar_0 [simp]: "schar 0 = 0"
  by (simp add: schar_def)

lemma schar_eq_iff [simp]: "schar x = schar y \<longleftrightarrow> x = y"
  by (auto simp: schar_def dest: signed_word_eqI)

lemma strcmp_cstr:
  "cstr m p xs \<Longrightarrow> cstr m q ys \<Longrightarrow> strcmp m p q = Some (strcmp_ref xs ys)"
  by (induction xs ys arbitrary: p q rule: strcmp_ref.induct) (subst strcmp.simps; auto)+

lemma strcmp_ref_zero: "0 \<notin> set xs \<Longrightarrow> 0 \<notin> set ys \<Longrightarrow> strcmp_ref xs ys = 0 \<longleftrightarrow> xs = ys"
  using schar_eq_iff [of _ 0]
  by (induction xs ys rule: strcmp_ref.induct) (auto simp del: schar_eq_iff simp: schar_eq_iff [symmetric])

lemma cstr_nonzero: "cstr m p cs \<Longrightarrow> 0 \<notin> set cs"
  by (auto simp: cstr_iff in_set_conv_nth)

lemma strstr_match_cstr:
  assumes "cstr m h xs" and "cstr m n ys"
  shows "\<exists>r. strstr_match m h n = Some r \<and> (m r = 0 \<longleftrightarrow> prefix ys xs)"
  using assms
proof (induction xs arbitrary: h n ys)
  case Nil
  then show ?case
    by (subst strstr_match.simps) (cases ys; auto)
next
  case (Cons x xs)
  then show ?case
  proof (cases ys)
    case Nil
    then show ?thesis
      using Cons.prems by (subst strstr_match.simps) auto
  next
    case (Cons y zs)
    then show ?thesis
      using Cons.prems Cons.IH [of "h + 1" "n + 1" zs] by (subst strstr_match.simps) auto
  qed
qed

lemma strstr_loop_cstr:
  assumes "cstr m h xs" and "cstr m n ys" and "ys \<noteq> []"
  shows "(\<exists>i<length xs. strstr_loop m h n = Some (h + i) \<and> prefix ys (drop i xs)
            \<and> (\<forall>j<i. \<not> prefix ys (drop j xs)))
         \<or> (strstr_loop m h n = Some 0 \<and> (\<forall>j<length xs. \<not> prefix ys (drop j xs)))"
  using assms(1)
proof (induction xs arbitrary: h)
  case Nil
  then show ?case
    by (subst strstr_loop.simps) auto
next
  case (Cons x xs)
  obtain r where r: "strstr_match m h n = Some r" "m r = 0 \<longleftrightarrow> prefix ys (x # xs)"
    using strstr_match_cstr [OF Cons.prems assms(2)] by blast
  have h: "m h \<noteq> 0"
    using Cons.prems by auto
  show ?case
  proof (cases "prefix ys (x # xs)")
    case True
    then have "strstr_loop m h n = Some (h + 0)"
      using r h by (subst strstr_loop.simps) auto
    then show ?thesis
      using True by (intro disjI1 exI [of _ 0]) auto
  next
    case False
    then have step: "strstr_loop m h n = strstr_loop m (h + 1) n"
      using r h by (subst strstr_loop.simps) auto
    have "cstr m (h + 1) xs"
      using Cons.prems by simp
    from Cons.IH [OF this] show ?thesis
    proof (elim disjE exE conjE)
      fix i
      assume "i < length xs" "strstr_loop m (h + 1) n = Some (h + 1 + i)" "prefix ys (drop i xs)"
        "\<forall>j<i. \<not> prefix ys (drop j xs)"
      then show ?thesis
        using False step by (intro disjI1 exI [of _ "Suc i"]) (auto simp: less_Suc_eq_0_disj)
    next
      assume "strstr_loop m (h + 1) n = Some 0" "\<forall>j<length xs. \<not> prefix ys (drop j xs)"
      then show ?thesis
        using False step by (intro disjI2) (auto simp: less_Suc_eq_0_disj)
    qed
  qed
qed

section \<open>Numbers\<close>

lemma reverse_loop_at:
  "reverse_loop low ptr m x = (if low \<le> x \<and> x \<le> ptr then m (low + ptr - x) else m x)"
proof (induction low ptr m rule: reverse_loop.induct)
  case (1 low ptr m)
  show ?case
  proof (cases "low < ptr")
    case True
    note step = 1 [OF True]
    have "reverse_loop low ptr m x = reverse_loop (low + 1) (ptr - 1) (m(low := m ptr, ptr := m low)) x"
      using True by (subst reverse_loop.simps) simp
    also have "\<dots> = (if low \<le> x \<and> x \<le> ptr then m (low + ptr - x) else m x)"
      unfolding step using True by (cases "x = low \<or> x = ptr") auto
    finally show ?thesis .
  next
    case False
    then show ?thesis
      by (subst reverse_loop.simps) (cases "low = ptr"; auto)
  qed
qed

lemma reverse_loop_list:
  assumes "\<And>i. i < length ds \<Longrightarrow> m (low + i) = ds ! i" and "i < length ds"
  shows "reverse_loop low (low + length ds - 1) m (low + i) = rev ds ! i"
proof -
  have "low + (low + length ds - 1) - (low + i) = low + (length ds - Suc i)"
    using assms(2) by auto
  moreover have "low + i \<le> low + length ds - 1"
    using assms(2) by simp
  ultimately show ?thesis
    using assms(2) assms(1) [of "length ds - Suc i"] by (simp only: reverse_loop_at rev_nth) simp
qed

lemma itoa_digit_hx: "d < 10 \<Longrightarrow> itoa_digit (int d) = kvs_hx d"
  unfolding itoa_digit_def kvs_hx_def by (simp add: add.commute)

lemma itoa_digits_spec:
  "length (kvs_num 10 n) \<le> room \<Longrightarrow>
     \<exists>m'. itoa_digits room (int n) 10 ptr m = (ptr + length (kvs_num 10 n), m')
       \<and> (\<forall>i<length (kvs_num 10 n). m' (ptr + i) = kvs_num 10 n ! i)
       \<and> (\<forall>x. x < ptr \<or> ptr + length (kvs_num 10 n) \<le> x \<longrightarrow> m' x = m x)"
proof (induction room arbitrary: n ptr m)
  case 0
  then show ?case
    by simp
next
  case (Suc room)
  show ?case
  proof (cases "n = 0")
    case True
    then show ?thesis
      by (simp add: kvs_num.simps)
  next
    case False
    then have num: "kvs_num 10 n = kvs_hx (n mod 10) # kvs_num 10 (n div 10)"
      by (subst kvs_num.simps) simp
    let ?m = "m(ptr := kvs_hx (n mod 10))"
    have "length (kvs_num 10 (n div 10)) \<le> room"
      using Suc.prems num by simp
    from Suc.IH [OF this, of "ptr + 1" ?m] obtain m' where m':
      "itoa_digits room (int (n div 10)) 10 (ptr + 1) ?m = (ptr + 1 + length (kvs_num 10 (n div 10)), m')"
      "\<forall>i<length (kvs_num 10 (n div 10)). m' (ptr + 1 + i) = kvs_num 10 (n div 10) ! i"
      "\<forall>x. x < ptr + 1 \<or> ptr + 1 + length (kvs_num 10 (n div 10)) \<le> x \<longrightarrow> m' x = ?m x"
      by blast
    have "int n sdiv 10 = int (n div 10)" "int n smod 10 = int (n mod 10)"
      by (simp_all add: signed_divide_int_def signed_modulo_int_def sgn_if zdiv_int zmod_int minus_div_mult_eq_mod)
    then have "itoa_digits (Suc room) (int n) 10 ptr m = (ptr + length (kvs_num 10 n), m')"
      using m'(1) False num itoa_digit_hx [of "n mod 10"] by simp
    moreover have "m' ptr = kvs_hx (n mod 10)"
      using m'(3) by simp
    moreover have "m' (ptr + i) = kvs_num 10 n ! i" if "i < length (kvs_num 10 n)" for i
      using m'(2,3) num that by (cases i) auto
    moreover have "m' x = m x" if "x < ptr \<or> ptr + length (kvs_num 10 n) \<le> x" for x
      using m'(3) num that by auto
    ultimately show ?thesis
      by blast
  qed
qed

lemma kvs_num_length: "n < 10 ^ k \<Longrightarrow> length (kvs_num 10 n) \<le> k"
proof (induction k arbitrary: n)
  case (Suc k)
  then have "length (kvs_num 10 (n div 10)) \<le> k"
    by simp
  then show ?case
    by (subst kvs_num.simps) simp
qed (simp add: kvs_num.simps)

lemma kvs_hx_digit:
  assumes "d < 10"
  shows "is_digit (kvs_hx d)" "schar (kvs_hx d) = int d + 48" "kvs_hx d \<noteq> 0"
proof -
  have "d \<in> {0, 1, 2, 3, 4, 5, 6, 7, 8, 9}"
    using assms by auto
  then show "is_digit (kvs_hx d)" "schar (kvs_hx d) = int d + 48" "kvs_hx d \<noteq> 0"
    by (auto simp: is_digit_def kvs_hx_def schar_def)
qed

lemma kvs_num_digits: "d \<in> set (kvs_num 10 n) \<Longrightarrow> is_digit d \<and> d \<noteq> 0"
proof (induction "10 :: nat" n rule: kvs_num.induct)
  case (1 n)
  then show ?case
    by (subst (asm) (2) kvs_num.simps) (auto simp: kvs_hx_digit split: if_splits)
qed

lemma sint_word_of_int_small:
  "- (2 ^ 31) \<le> x \<Longrightarrow> x < 2 ^ 31 \<Longrightarrow> sint (word_of_int x :: u32) = x"
  by (subst sint_sbintrunc') (simp add: signed_take_bit_int_eq_self)

lemma int32_small: "- (2 ^ 31) \<le> x \<Longrightarrow> x < 2 ^ 31 \<Longrightarrow> int32 x = x"
  unfolding int32_def by (simp add: sint_word_of_int_small)

lemma atoi_loop_digits:
  "(\<And>i. i < length ds \<Longrightarrow> m (p + i) = ds ! i) \<Longrightarrow> (\<And>d. d \<in> set ds \<Longrightarrow> is_digit d) \<Longrightarrow>
   \<not> is_digit (m (p + length ds)) \<Longrightarrow>
   atoi_loop m p r = Some (foldl (\<lambda>r d. int32 (r * 10 + (schar d - 48))) r ds)"
proof (induction ds arbitrary: p r)
  case Nil
  then show ?case
    by (subst atoi_loop.simps) simp
next
  case (Cons d ds)
  have "m p = d"
    using Cons.prems(1) [of 0] by simp
  moreover have "atoi_loop m (p + 1) r' = Some (foldl (\<lambda>r d. int32 (r * 10 + (schar d - 48))) r' ds)" for r'
    using Cons.IH [of "p + 1" r'] Cons.prems(1) [of "Suc _"] Cons.prems(2,3) by simp
  ultimately show ?case
    using Cons.prems(2) by (subst atoi_loop.simps) simp
qed

lemma atoi_digits_value:
  "n < 2 ^ 31 \<Longrightarrow>
     foldl (\<lambda>r d. int32 (r * 10 + (schar d - 48))) 0 (rev (kvs_num 10 n)) = int n"
proof (induction "10 :: nat" n rule: kvs_num.induct)
  case (1 n)
  show ?case
  proof (cases "n = 0")
    case True
    then show ?thesis
      by (simp add: kvs_num.simps)
  next
    case False
    then have num: "kvs_num 10 n = kvs_hx (n mod 10) # kvs_num 10 (n div 10)"
      by (subst kvs_num.simps) simp
    have "foldl (\<lambda>r d. int32 (r * 10 + (schar d - 48))) 0 (rev (kvs_num 10 (n div 10))) = int (n div 10)"
      using 1 False by simp
    moreover have "int (n div 10) * 10 + int (n mod 10) = int n"
      by (metis div_mult_mod_eq of_nat_add of_nat_mult of_nat_numeral)
    ultimately show ?thesis
      using 1(2) by (simp add: num kvs_hx_digit int32_small)
  qed
qed

lemma itoa_decimal:
  assumes num: "- (2 ^ 31) < num" "num < 2 ^ 31" and sz: "12 \<le> max_size"
  shows "cstr (itoa num str 10 max_size m) str
    (if num = 0 then [0x30] else (if num < 0 then [0x2D] else []) @ rev (kvs_num 10 (nat \<bar>num\<bar>)))"
proof (cases "num = 0")
  case True
  then show ?thesis
    using sz by (simp add: itoa_def)
next
  case False
  let ?n = "nat \<bar>num\<bar>" and ?k = "if num < 0 then 1 else 0 :: nat"
  let ?ds = "kvs_num 10 ?n" and ?low = "str + ?k"
  let ?m = "if num < 0 then m(str := 0x2D) else m"
  have len: "length ?ds \<le> 10"
    by (rule kvs_num_length) (use num in auto)
  have ne: "?ds \<noteq> []"
    using False by (simp add: kvs_num.simps)
  have "length ?ds \<le> nat (max_size - 1) - ?k"
    using len sz by auto
  from itoa_digits_spec [OF this, of ?low ?m] obtain m' where m':
    "itoa_digits (nat (max_size - 1) - ?k) (int ?n) 10 ?low ?m = (?low + length ?ds, m')"
    "\<forall>i<length ?ds. m' (?low + i) = ?ds ! i"
    "\<forall>x. x < ?low \<or> ?low + length ?ds \<le> x \<longrightarrow> m' x = ?m x"
    by blast
  let ?r = "reverse_loop ?low (?low + length ?ds - 1) (m'(?low + length ?ds := 0))"
  have neg: "int32 (- num) = - num"
    by (rule int32_small) (use num in auto)
  have r: "itoa num str 10 max_size m = ?r"
    using m'(1) False sz neg by (cases "num < 0") (simp_all add: itoa_def Let_def)
  have dig: "?r (?low + i) = rev ?ds ! i" if "i < length ?ds" for i
    by (rule reverse_loop_list) (use m'(2) that in auto)
  have fin: "?r (?low + length ?ds) = 0"
    using ne by (cases "kvs_num 10 ?n") (simp_all add: reverse_loop_at)
  have sign: "num < 0 \<Longrightarrow> ?r str = 0x2D"
    using m'(3) ne by (simp add: reverse_loop_at)
  have "cstr ?r ?low (rev ?ds)"
    unfolding cstr_iff using dig fin kvs_num_digits [of _ ?n] nth_mem [of _ "rev ?ds"] by auto
  then show ?thesis
    unfolding r using sign False by (cases "num < 0") auto
qed

lemma atoi_cstr_digits:
  assumes "cstr m p cs" and "\<And>d. d \<in> set cs \<Longrightarrow> is_digit d"
  shows "atoi_loop m p r = Some (foldl (\<lambda>r d. int32 (r * 10 + (schar d - 48))) r cs)"
  by (rule atoi_loop_digits) (use assms in \<open>auto simp: cstr_iff is_digit_def\<close>)

section \<open>The formatter\<close>

lemma KSP_EMIT_bound [kinv]: "length out < n \<Longrightarrow> length (KSP_EMIT n c out) < n"
  by (simp add: KSP_EMIT_def)

lemma KSP_EMIT_pow_bound: "length out < n \<Longrightarrow> length ((KSP_EMIT n c ^^ k) out) < n"
  by (induction k) (auto intro: KSP_EMIT_bound)

lemma KSP_EMIT_fold_bound: "length out < n \<Longrightarrow> length (fold (KSP_EMIT n) cs out) < n"
  by (induction cs arbitrary: out) (auto intro: KSP_EMIT_bound)

lemma kvs_mac_bound: "length out < n \<Longrightarrow> length (kvs_mac m n mac out) < n"
  unfolding kvs_mac_def
  by (rule fold_invariant [where Q = "\<lambda>_. True"]) (auto intro!: KSP_EMIT_bound)

lemma kvs_digits_exact:
  "kvs_digits n ds out = (if ds = [] \<or> length out + length ds < n then Some (out @ ds) else None)"
proof -
  have stuck: "kvs_digits n ds out = Some r \<Longrightarrow> ds = [] \<or> length out + length ds < n" for n ds out r
    by (erule kvs_digits.raw_induct [rotated, where P = "\<lambda>n ds out r. ds = [] \<or> length out + length ds < n"])
      (fastforce split: list.splits if_splits)
  have "ds = [] \<or> length out + length ds < n \<Longrightarrow> kvs_digits n ds out = Some (out @ ds)"
    by (induction ds arbitrary: out) (subst kvs_digits.simps; auto)+
  then show ?thesis
    using stuck [of n ds out] by (cases "kvs_digits n ds out") auto
qed

lemma kvs_str_exact:
  assumes "cstr m s cs"
  shows "kvs_str m n s out = (if cs = [] \<or> length out + length cs < n then Some (out @ cs) else None)"
proof -
  have stuck: "kvs_str m n s out = Some r \<Longrightarrow> \<forall>cs. cstr m s cs \<longrightarrow> cs = [] \<or> length out + length cs < n"
    for m n s out r
  proof (erule kvs_str.raw_induct [rotated, where P = "\<lambda>m n s out r.
      \<forall>cs. cstr m s cs \<longrightarrow> cs = [] \<or> length out + length cs < n"], intro allI impI)
    fix f :: "mem \<Rightarrow> nat \<Rightarrow> nat \<Rightarrow> u8 list \<Rightarrow> u8 list option" and m n s out r cs
    assume ih: "\<And>m n s out r. f m n s out = Some r \<Longrightarrow>
        \<forall>cs. cstr m s cs \<longrightarrow> cs = [] \<or> length out + length cs < n"
      and ret: "(if m s \<noteq> 0 then if length out + 1 < n then f m n (s + 1) (out @ [m s]) else f m n s out
                else Some out) = Some r"
      and cs: "cstr m s cs"
    show "cs = [] \<or> length out + length cs < n"
    proof (cases cs)
      case (Cons c ds)
      then have "m s \<noteq> 0" "cstr m (s + 1) ds"
        using cs by auto
      then show ?thesis
        using ret ih [of m n "s + 1" "out @ [m s]" r, rule_format, of ds]
          ih [of m n s out r, rule_format, of cs] cs Cons
        by (cases "length out + 1 < n") auto
    qed simp
  qed
  have "cs = [] \<or> length out + length cs < n \<Longrightarrow> kvs_str m n s out = Some (out @ cs)"
    using assms by (induction cs arbitrary: s out) (subst kvs_str.simps; auto)+
  then show ?thesis
    using stuck [of m n s out] assms by (cases "kvs_str m n s out") auto
qed

lemma kvs_str_bound: "kvs_str m n s out = Some r \<Longrightarrow> length out < n \<Longrightarrow> length r < n"
  by (erule kvs_str.raw_induct [rotated, where P = "\<lambda>m n s out r. length out < n \<longrightarrow> length r < n",
        THEN mp]) (auto split: if_splits)

lemma kvs_digits_bound: "kvs_digits n ds out = Some r \<Longrightarrow> length out < n \<Longrightarrow> length r < n"
  by (auto simp: kvs_digits_exact split: if_splits)

lemma kvs_number_bound:
  "kvs_number n spec zp alt w l a out = Some r \<Longrightarrow> length out < n \<Longrightarrow> length r < n"
  unfolding kvs_number_def Let_def
  by (erule kvs_digits_bound) (auto intro!: KSP_EMIT_pow_bound KSP_EMIT_bound)

lemmas kvs_bounds = KSP_EMIT_bound KSP_EMIT_fold_bound kvs_mac_bound

lemma kvs_conv_bound:
  "kvs_conv m n p args out = Some (p', args', r) \<Longrightarrow> length out < n \<Longrightarrow> length r < n"
  unfolding kvs_conv_def Let_def
  by (auto split: if_splits list.splits option.splits prod.splits
      intro!: kvs_bounds
      intro: kvs_digits_bound [OF _ KSP_EMIT_bound [OF KSP_EMIT_bound]] kvs_digits_bound kvs_str_bound
        kvs_number_bound)

lemma kvs_loop_bound: "kvs_loop m n p args out = Some r \<Longrightarrow> length out < n \<Longrightarrow> length r < n"
  by (erule kvs_loop.raw_induct [rotated, where P = "\<lambda>m n p args out r. length out < n \<longrightarrow> length r < n",
        THEN mp])
    (auto split: if_splits option.splits prod.splits dest: kvs_conv_bound KSP_EMIT_bound [of _ _ "_ :: u8"],
      use KSP_EMIT_bound in blast)

lemma kvsnprintf_plain:
  assumes "cstr m fmt cs" and "0x25 \<notin> set cs" and "0 < n"
  shows "kvsnprintf m n fmt ap = Some (take (n - 1) cs @ [0])"
proof -
  have "kvs_loop m n p ap out = Some (out @ take (n - 1 - length out) cs)"
    if "cstr m p cs" "0x25 \<notin> set cs" for p out
    using that
  proof (induction cs arbitrary: p out)
    case Nil
    then show ?case
      by (subst kvs_loop.simps) simp
  next
    case (Cons c cs)
    then have "kvs_loop m n p ap out = kvs_loop m n (p + 1) ap (KSP_EMIT n c out)"
      by (subst kvs_loop.simps) auto
    also have "\<dots> = Some (KSP_EMIT n c out @ take (n - 1 - length (KSP_EMIT n c out)) cs)"
      using Cons by simp
    also have "KSP_EMIT n c out @ take (n - 1 - length (KSP_EMIT n c out)) cs
        = out @ take (n - 1 - length out) (c # cs)"
      by (simp add: KSP_EMIT_def take_Cons' diff_Suc_eq_diff_pred [symmetric])
    finally show ?case .
  qed
  from this [of fmt "[]"] show ?thesis
    using assms by (simp add: kvsnprintf_def)
qed

text \<open>A memory that holds the given bytes from an address on and zero elsewhere.\<close>

definition mem_of :: "nat \<Rightarrow> u8 list \<Rightarrow> mem" where
  "mem_of p cs = (\<lambda>x. if p \<le> x \<and> x < p + length cs then cs ! (x - p) else 0)"

text \<open>
  A format string that ends in a percent sign: the loop steps over the terminator and goes on
  with the bytes behind the string.
\<close>

lemma kvsnprintf_trailing_percent:
  "kvsnprintf (mem_of 16 [0x25, 0, 0x41, 0x42]) 8 16 [] = Some [0x25, 0, 0x41, 0x42, 0]"
  by (simp add: kvsnprintf_def mem_of_def kvs_loop.simps kvs_conv_def kvs_width.simps kvs_longs.simps
      is_digit_def Let_def KSP_EMIT_def)

text \<open>A negative number in a base other than ten: the remainder is negative, the character is not
  a digit.\<close>

lemma itoa_negative_hex: "cstr (itoa (- 1) 16 16 3 m) 16 [0x2F]"
proof -
  have "itoa_digits (Suc 1) (- 1) 16 16 m = (17, m(16 := 0x2F))"
    by (simp add: itoa_digit_def signed_divide_int_def signed_modulo_int_def)
  then have "itoa (- 1) 16 16 3 m = m(16 := 0x2F, 17 := 0)"
    by (simp add: itoa_def reverse_loop.simps Let_def numeral_2_eq_2)
  then show ?thesis
    by simp
qed

section \<open>Properties\<close>

text \<open>C26. \<open>memmove\<close> copies as if through a temporary: for any two ranges, however they overlap,
  every destination byte becomes the byte its source held before the call, and nothing else
  changes.\<close>

theorem memmove_correct:
  "memmove dest src num m =
     (\<lambda>x. if dest \<le> x \<and> x < dest + num then m (src + (x - dest)) else m x)"
  by (rule ext) (rule memmove_block)

text \<open>\<open>strstr\<close> on two strings returns, and returns the first position at which the needle is a
  prefix of the rest of the haystack, or \<open>NULL\<close> when there is none.\<close>

lemma strstr_first:
  assumes "cstr m haystack xs" and "cstr m needle ys"
  shows "(\<exists>i\<le>length xs. strstr m haystack needle = Some (haystack + i) \<and> prefix ys (drop i xs)
            \<and> (\<forall>j<i. \<not> prefix ys (drop j xs)))
         \<or> (strstr m haystack needle = Some 0 \<and> (\<forall>j\<le>length xs. \<not> prefix ys (drop j xs)))"
proof (cases "ys = []")
  case True
  then have "strstr m haystack needle = Some (haystack + 0)"
    using assms by (simp add: strstr_def)
  then show ?thesis
    using True by auto
next
  case False
  then have eq: "strstr m haystack needle = strstr_loop m haystack needle"
    using assms(2) by (cases ys) (auto simp: strstr_def)
  have last: "\<not> prefix ys (drop (length xs) xs)"
    using False by simp
  show ?thesis
    unfolding eq using strstr_loop_cstr [OF assms False] last le_less by (metis less_or_eq_imp_le)
qed

lemma strstr_first_example:
  "strstr (mem_of 8 [0x61, 0x62, 0x62, 0x63, 0, 0x62, 0x63, 0]) 8 13 = Some 10"
  using strstr_first [of "mem_of 8 [0x61, 0x62, 0x62, 0x63, 0, 0x62, 0x63, 0]" 8
      "[0x61, 0x62, 0x62, 0x63]" 13 "[0x62, 0x63]"]
  by (simp add: mem_of_def strstr_def strstr_loop.simps strstr_match.simps)

text \<open>C27. Printing and reading a number back: for every \<open>int\<close> but the smallest and any buffer of at
  least twelve bytes, \<open>atoi\<close> of what \<open>itoa\<close> wrote in base ten is the number.\<close>

theorem itoa_atoi:
  assumes "- (2 ^ 31) < num" and "num < 2 ^ 31" and "12 \<le> max_size"
  shows "atoi (itoa num str 10 max_size m) str = Some num"
proof -
  let ?m = "itoa num str 10 max_size m" and ?ds = "rev (kvs_num 10 (nat \<bar>num\<bar>))"
  note s = itoa_decimal [OF assms, of str m]
  have val: "foldl (\<lambda>r d. int32 (r * 10 + (schar d - 48))) 0 ?ds = \<bar>num\<bar>"
    using atoi_digits_value [of "nat \<bar>num\<bar>"] assms by simp
  consider "num = 0" | "num < 0" | "0 < num"
    by linarith
  then show ?thesis
  proof cases
    case 1
    then show ?thesis
      using s atoi_cstr_digits [of ?m str "[0x30]" 0]
      by (simp add: atoi_def is_digit_def schar_def int32_def)
  next
    case 2
    then have "cstr ?m (str + 1) ?ds" "?m str = 0x2D"
      using s by simp_all
    then show ?thesis
      using atoi_cstr_digits [of ?m "str + 1" ?ds 0] val 2 assms kvs_num_digits
      by (simp add: atoi_def int32_small)
  next
    case 3
    then have d: "cstr ?m str ?ds"
      using s by simp
    have "?m str \<noteq> 0x2D"
      using d kvs_num_digits [of "hd ?ds" "nat \<bar>num\<bar>"] by (cases ?ds) (auto simp: is_digit_def)
    then show ?thesis
      using atoi_cstr_digits [OF d, of 0] val 3 assms kvs_num_digits
      by (simp add: atoi_def int32_small)
  qed
qed

lemma itoa_atoi_witness: "atoi (itoa (- 1047) 100 10 12 (\<lambda>_. 7)) 100 = Some (- 1047)"
  by (rule itoa_atoi) simp_all

text \<open>C28. Whatever the format and the arguments, when \<open>kvsnprintf\<close> returns it has written at most
  \<open>size\<close> bytes, and the last of them is the terminator.\<close>

theorem kvsnprintf_bounded:
  assumes "kvsnprintf m n fmt ap = Some bytes" and "0 < n"
  shows "bytes \<noteq> [] \<and> length bytes \<le> n \<and> last bytes = 0"
  using assms kvs_loop_bound [of m n fmt ap "[]"] by (fastforce simp: kvsnprintf_def)

lemma kvsnprintf_bounded_witness:
  "kvsnprintf (mem_of 16 [0x61, 0x25, 0x78, 0]) 8 16 [0x2F] = Some [0x61, 0x32, 0x66, 0]
   \<and> length [0x61, 0x32, 0x66, 0 :: u8] \<le> 8"
proof -
  have run: "kvsnprintf (mem_of 16 [0x61, 0x25, 0x78, 0]) 8 16 [0x2F] = Some [0x61, 0x32, 0x66, 0]"
    by (simp add: kvsnprintf_def mem_of_def kvs_loop.simps kvs_conv_def kvs_width.simps kvs_longs.simps
        is_digit_def Let_def KSP_EMIT_def kvs_number_def kvs_num.simps kvs_hx_def kvs_digits.simps)
  then show ?thesis
    using kvsnprintf_bounded [OF run] by simp
qed

text \<open>C29. The format \<open>%s\<close> copies the string when it fits. When it does not, the call never returns:
  \<open>KSP_EMIT(*s++)\<close> advances the string only while there is room, so the loop over the string
  spins as soon as the buffer is full.\<close>

theorem kvsnprintf_str_no_room:
  assumes "cstr m fmt [0x25, 0x73]" and "cstr m (unat s) cs" and "s \<noteq> 0" and "0 < n"
  shows "kvsnprintf m n fmt [s] = (if length cs < n then Some (cs @ [0]) else None)"
proof -
  have fmt: "m fmt = 0x25" "m (Suc fmt) = 0x73" "m (Suc (Suc fmt)) = 0"
    using assms(1) by auto
  have "kvs_conv m n (fmt + 1) [s] [] =
      map_option (\<lambda>out. (fmt + 2, [], out)) (kvs_str m n (unat s) [])"
    using fmt assms(3) by (simp add: kvs_conv_def)
  moreover have "kvs_loop m n (fmt + 2) [] out = Some out" for out
    using fmt by (subst kvs_loop.simps) simp
  ultimately have "kvs_loop m n fmt [s] [] = kvs_str m n (unat s) []"
    using fmt by (subst kvs_loop.simps) (auto split: option.splits)
  then show ?thesis
    using kvs_str_exact [OF assms(2), of n "[]"] assms(4) by (simp add: kvsnprintf_def)
qed

lemma kvsnprintf_str_no_room_witness:
  "kvsnprintf (mem_of 16 [0x25, 0x73, 0, 0x61, 0x62, 0x63, 0x64, 0]) 4 16 [19] = None"
  by (subst kvsnprintf_str_no_room [where cs = "[0x61, 0x62, 0x63, 0x64]"]) (simp_all add: mem_of_def)

end
