(* ===== verification/Sched.thy ===== *)
theory Sched
  imports Kernel_Prelude
begin

unbundle bit_operations_syntax

text \<open>
  Scheduling: wait queues and wake timers (\<open>src/kernel/sched/wait.c\<close>), kernel tasks and the timer
  tick (\<open>src/kernel/sched/scheduler.c\<close>) and the part of the process table they work on
  (\<open>src/kernel/core/process.c\<close>). A process pointer is its index in \<open>processes\<close>, a wait queue
  pointer the number of the queue. Kernel memory that holds saved frames is a store of 64-bit
  words by address. Code that gives up the CPU ends in a \<open>control\<close> value: which frame is resumed,
  or that it raised the software timer interrupt.
\<close>

section \<open>State\<close>

definition MAX_PROCESSES :: nat where "MAX_PROCESSES = 128"
definition MAX_TASKS :: nat where "MAX_TASKS = 16"
definition WAIT_TIMERS :: nat where "WAIT_TIMERS = 64"
definition TASK_STACK_SIZE :: u64 where "TASK_STACK_SIZE = 32768"

datatype process_state =
  PROCESS_STATE_UNUSED | PROCESS_STATE_READY | PROCESS_STATE_RUNNING | PROCESS_STATE_BLOCKED
  | PROCESS_STATE_ZOMBIE

datatype wait_kind = WAIT_RESTART | WAIT_COMPLETE

datatype task_status = TASK_DEAD | TASK_READY | TASK_RUNNING

text \<open>\<open>p_mm\<close> is \<open>None\<close> without a memory group, otherwise its \<open>cr3\<close>; \<open>p_parked_frame\<close> is the address
  of the frame array inside the control block.\<close>

record process =
  p_pid :: u32
  p_tid :: u32
  p_is_thread :: bool
  p_state :: process_state
  p_mm :: "u64 option"
  p_kernel_stack :: u64
  p_fs_base :: u64
  p_parked_rsp :: u64
  p_parent_pid :: int
  p_wait_pid :: int
  p_wait_status_ptr :: u64
  p_wait_next :: "nat option"
  p_parked_frame :: u64
  p_fpu :: "u64 list"

record wait_queue =
  wq_head :: "nat option"
  wq_tail :: "nat option"

record wait_timer =
  tm_used :: bool
  tm_deadline_us :: u64
  tm_wq :: nat
  tm_kind :: wait_kind
  tm_ret :: u64

record task =
  tk_rsp :: u64
  tk_status :: task_status
  tk_name :: string
  tk_stack :: u64
  tk_background :: bool

record cpu =
  cpu_fpu :: "u64 list"
  cpu_fs_base :: u64
  cpu_rsp0 :: u64
  cpu_syscall_rsp :: u64
  cpu_cr3 :: u64

record kernel =
  processes :: "nat \<Rightarrow> process"
  current_process :: "nat option"
  queues :: "nat \<Rightarrow> wait_queue"
  timers :: "wait_timer list"
  tasks :: "task list"
  task_count :: int
  current_task_idx :: nat
  user_frame :: u64
  user_frame_valid :: bool
  main_switch_requested :: bool
  cpu_busy_ticks :: u64
  cpu_idle_ticks :: u64
  kernel_heartbeat :: u64
  the_cpu :: cpu
  kmem :: "u64 \<Rightarrow> u64"

datatype control = Return | Resume u64 | SoftTick

definition upd_proc :: "nat \<Rightarrow> (process \<Rightarrow> process) \<Rightarrow> kernel \<Rightarrow> kernel" where
  "upd_proc p f k = k\<lparr>processes := (processes k)(p := f (processes k p))\<rparr>"

definition upd_queue :: "nat \<Rightarrow> (wait_queue \<Rightarrow> wait_queue) \<Rightarrow> kernel \<Rightarrow> kernel" where
  "upd_queue q f k = k\<lparr>queues := (queues k)(q := f (queues k q))\<rparr>"

definition upd_task :: "nat \<Rightarrow> (task \<Rightarrow> task) \<Rightarrow> kernel \<Rightarrow> kernel" where
  "upd_task i f k = k\<lparr>tasks := (tasks k)[i := f (tasks k ! i)]\<rparr>"

definition upd_cpu :: "(cpu \<Rightarrow> cpu) \<Rightarrow> kernel \<Rightarrow> kernel" where
  "upd_cpu f k = k\<lparr>the_cpu := f (the_cpu k)\<rparr>"

section \<open>The process table: process.c\<close>

definition pstate :: "kernel \<Rightarrow> nat \<Rightarrow> process_state" where
  "pstate k p = p_state (processes k p)"

definition set_state :: "nat \<Rightarrow> process_state \<Rightarrow> kernel \<Rightarrow> kernel" where
  "set_state p s = upd_proc p (\<lambda>x. x\<lparr>p_state := s\<rparr>)"

definition find_proc :: "(nat \<Rightarrow> bool) \<Rightarrow> nat option" where
  "find_proc P = List.find P [0..<MAX_PROCESSES]"

definition find_free_process :: "kernel \<Rightarrow> nat option" where
  "find_free_process k = find_proc (\<lambda>i. pstate k i = PROCESS_STATE_UNUSED)"

definition process_any_active :: "kernel \<Rightarrow> bool" where
  "process_any_active k = list_ex (\<lambda>i. pstate k i = PROCESS_STATE_READY
     \<or> pstate k i = PROCESS_STATE_RUNNING \<or> pstate k i = PROCESS_STATE_BLOCKED) [0..<MAX_PROCESSES]"

definition process_get_current :: "kernel \<Rightarrow> nat option" where
  "process_get_current k = current_process k"

definition process_set_current_none :: "kernel \<Rightarrow> kernel" where
  "process_set_current_none k = k\<lparr>current_process := None\<rparr>"

definition process_get_by_pid :: "u32 \<Rightarrow> kernel \<Rightarrow> nat option" where
  "process_get_by_pid pid k =
     find_proc (\<lambda>i. p_pid (processes k i) = pid \<and> pstate k i \<noteq> PROCESS_STATE_UNUSED)"

definition process_find_waiter :: "int \<Rightarrow> kernel \<Rightarrow> nat option" where
  "process_find_waiter child_pid k =
     find_proc (\<lambda>i. let p = processes k i in
       p_state p = PROCESS_STATE_BLOCKED \<and> \<not> p_is_thread p
       \<and> (p_wait_pid p = child_pid \<or> p_wait_pid p = - 1 \<and> p_parent_pid p \<noteq> 0)
       \<and> (p_wait_pid p = - 1 \<longrightarrow>
            list_ex (\<lambda>j. let c = processes k j in
               p_pid c = word_of_int child_pid \<and> \<not> p_is_thread c \<and> p_parent_pid c = sint (p_pid p))
             [0..<MAX_PROCESSES]))"

definition process_find_child :: "nat \<Rightarrow> int \<Rightarrow> kernel \<Rightarrow> nat option" where
  "process_find_child parent pid k =
     find_proc (\<lambda>i. let c = processes k i in
       p_state c \<noteq> PROCESS_STATE_UNUSED \<and> \<not> p_is_thread c
       \<and> p_parent_pid c = sint (p_pid (processes k parent))
       \<and> (pid > 0 \<longrightarrow> sint (p_pid c) = pid)
       \<and> (p_state c = PROCESS_STATE_READY \<or> p_state c = PROCESS_STATE_RUNNING
          \<or> p_state c = PROCESS_STATE_ZOMBIE))"

definition process_pick_ready :: "nat option \<Rightarrow> kernel \<Rightarrow> nat option" where
  "process_pick_ready exclude k =
     find_proc (\<lambda>i. pstate k i = PROCESS_STATE_READY \<and> p_parked_rsp (processes k i) \<noteq> 0
       \<and> Some i \<noteq> exclude)"

definition process_become_current :: "nat \<Rightarrow> kernel \<Rightarrow> kernel" where
  "process_become_current p k = set_state p PROCESS_STATE_RUNNING (k\<lparr>current_process := Some p\<rparr>)"

definition fpu_save :: "nat \<Rightarrow> kernel \<Rightarrow> kernel" where
  "fpu_save p k = upd_proc p (\<lambda>x. x\<lparr>p_fpu := cpu_fpu (the_cpu k)\<rparr>) k"

definition fpu_restore :: "nat \<Rightarrow> kernel \<Rightarrow> kernel" where
  "fpu_restore p k = upd_cpu (\<lambda>c. c\<lparr>cpu_fpu := p_fpu (processes k p)\<rparr>) k"

definition process_apply_fs_base :: "nat \<Rightarrow> kernel \<Rightarrow> kernel" where
  "process_apply_fs_base p k = upd_cpu (\<lambda>c. c\<lparr>cpu_fs_base := p_fs_base (processes k p)\<rparr>) k"

definition use_kernel_stack :: "nat \<Rightarrow> kernel \<Rightarrow> kernel" where
  "use_kernel_stack p k = upd_cpu (\<lambda>c. c\<lparr>cpu_rsp0 := p_kernel_stack (processes k p),
     cpu_syscall_rsp := p_kernel_stack (processes k p)\<rparr>) k"

text \<open>
  \<open>vmm_switch_cr3\<close> clears the low twelve bits and skips the load of CR3 when the register
  already holds that root (its static copy follows every load), so the register afterwards
  holds the root in both cases.
\<close>

definition use_cr3 :: "nat \<Rightarrow> kernel \<Rightarrow> kernel" where
  "use_cr3 p k =
     (case p_mm (processes k p) of
        None \<Rightarrow> k
      | Some cr3 \<Rightarrow> if cr3 \<noteq> 0 then upd_cpu (\<lambda>c. c\<lparr>cpu_cr3 := cr3 AND NOT 0xFFF\<rparr>) k else k)"

text \<open>Saved frames: slots of the entry layout and of the interrupt layout.\<close>

definition IRQ_RAX :: nat where "IRQ_RAX = 14"
definition IRQ_INTNUM :: nat where "IRQ_INTNUM = 15"
definition IRQ_ERR :: nat where "IRQ_ERR = 16"
definition IRQ_RIP :: nat where "IRQ_RIP = 17"
definition IRQ_CS :: nat where "IRQ_CS = 18"
definition IRQ_RFLAGS :: nat where "IRQ_RFLAGS = 19"
definition IRQ_RSP :: nat where "IRQ_RSP = 20"
definition IRQ_SS :: nat where "IRQ_SS = 21"
definition ENTY_RIP :: nat where "ENTY_RIP = 15"
definition ENTY_CS :: nat where "ENTY_CS = 16"
definition ENTY_RFLAGS :: nat where "ENTY_RFLAGS = 17"
definition ENTY_RSP :: nat where "ENTY_RSP = 18"
definition ENTY_SS :: nat where "ENTY_SS = 19"

definition qw :: "kernel \<Rightarrow> u64 \<Rightarrow> nat \<Rightarrow> u64" where
  "qw k a i = kmem k (a + 8 * of_nat i)"

definition set_qw :: "u64 \<Rightarrow> nat \<Rightarrow> u64 \<Rightarrow> kernel \<Rightarrow> kernel" where
  "set_qw a i v k = k\<lparr>kmem := (kmem k)(a + 8 * of_nat i := v)\<rparr>"

definition process_frame_set_ret :: "nat \<Rightarrow> u64 \<Rightarrow> kernel \<Rightarrow> kernel" where
  "process_frame_set_ret p ret k =
     (let r = p_parked_rsp (processes k p) in if r \<noteq> 0 then set_qw r IRQ_RAX ret k else k)"

definition copy_regs :: "u64 \<Rightarrow> u64 \<Rightarrow> kernel \<Rightarrow> kernel" where
  "copy_regs f e k = fold (\<lambda>i k. set_qw f i (qw k e i) k) [0..<15] k"

definition copy_iret :: "u64 \<Rightarrow> u64 \<Rightarrow> kernel \<Rightarrow> kernel" where
  "copy_iret f e k =
     (let k = set_qw f IRQ_INTNUM 32 k;
          k = set_qw f IRQ_ERR 0 k;
          k = set_qw f IRQ_RIP (qw k e ENTY_RIP) k;
          k = set_qw f IRQ_CS (qw k e ENTY_CS) k;
          k = set_qw f IRQ_RFLAGS (qw k e ENTY_RFLAGS) k;
          k = set_qw f IRQ_RSP (qw k e ENTY_RSP) k
      in set_qw f IRQ_SS (qw k e ENTY_SS) k)"

text \<open>\<open>user_byte\<close> reads user memory through the active page tables.\<close>

definition process_park_entry_frame ::
  "(u64 \<Rightarrow> u8) \<Rightarrow> nat \<Rightarrow> u64 \<Rightarrow> bool \<Rightarrow> u64 \<Rightarrow> kernel \<Rightarrow> u64 \<times> kernel" where
  "process_park_entry_frame user_byte p e restart fallback_ret k =
     (let f = p_parked_frame (processes k p);
          k = copy_iret f e (copy_regs f e k);
          rip = qw k e ENTY_RIP;
          op = (if rip \<ge> 2 then (user_byte (rip - 2), user_byte (rip - 2 + 1)) else (0, 0));
          k = (if restart \<and> op = (0x0F, 0x05) then set_qw f IRQ_RIP (rip - 2) k
               else set_qw f IRQ_RAX fallback_ret k)
      in (f, upd_proc p (\<lambda>x. x\<lparr>p_parked_rsp := f\<rparr>) k))"

section \<open>Wait queues: wait.c\<close>

definition wait_next_of :: "kernel \<Rightarrow> nat \<Rightarrow> nat option" where
  "wait_next_of k p = p_wait_next (processes k p)"

definition set_wait_next :: "nat \<Rightarrow> nat option \<Rightarrow> kernel \<Rightarrow> kernel" where
  "set_wait_next p n = upd_proc p (\<lambda>x. x\<lparr>p_wait_next := n\<rparr>)"

definition set_head :: "nat \<Rightarrow> nat option \<Rightarrow> kernel \<Rightarrow> kernel" where
  "set_head wq h = upd_queue wq (\<lambda>q. q\<lparr>wq_head := h\<rparr>)"

definition set_tail :: "nat \<Rightarrow> nat option \<Rightarrow> kernel \<Rightarrow> kernel" where
  "set_tail wq t = upd_queue wq (\<lambda>q. q\<lparr>wq_tail := t\<rparr>)"

definition wq_push :: "nat \<Rightarrow> nat \<Rightarrow> kernel \<Rightarrow> kernel" where
  "wq_push wq p k =
     (let k = set_wait_next p None k in
      case wq_tail (queues k wq) of
        None \<Rightarrow> set_tail wq (Some p) (set_head wq (Some p) k)
      | Some t \<Rightarrow> set_tail wq (Some p) (set_wait_next t (Some p) k))"

definition wq_pop :: "nat \<Rightarrow> kernel \<Rightarrow> nat option \<times> kernel" where
  "wq_pop wq k =
     (case wq_head (queues k wq) of
        None \<Rightarrow> (None, k)
      | Some p \<Rightarrow>
          (let n = wait_next_of k p;
               k = set_head wq n k;
               k = (if n = None then set_tail wq None k else k)
           in (Some p, set_wait_next p None k)))"

text \<open>The last element of the chain from \<open>h\<close>.\<close>

partial_function (option) wq_last :: "kernel \<Rightarrow> nat option \<Rightarrow> nat option option" where
  "wq_last k h =
     (case h of
        None \<Rightarrow> Some None
      | Some p \<Rightarrow> (case wait_next_of k p of None \<Rightarrow> Some (Some p) | Some n \<Rightarrow> wq_last k (Some n)))"

definition wq_cut :: "nat \<Rightarrow> nat \<Rightarrow> nat option \<Rightarrow> kernel \<Rightarrow> kernel option" where
  "wq_cut wq p prev k =
     (let k = (case prev of
                 None \<Rightarrow> set_head wq (wait_next_of k p) k
               | Some q \<Rightarrow> set_wait_next q (wait_next_of k p) k)
      in map_option (set_wait_next p None)
           (if wq_tail (queues k wq) = Some p
            then map_option (\<lambda>t. set_tail wq t k) (wq_last k (wq_head (queues k wq)))
            else Some k))"

text \<open>The walk of \<open>wq_unlink\<close>: \<open>prev\<close> is the owner of the link \<open>pp\<close> (none: the queue head).\<close>

partial_function (option) wq_unlink_loop ::
  "nat \<Rightarrow> nat \<Rightarrow> nat option \<Rightarrow> nat option \<Rightarrow> kernel \<Rightarrow> kernel option" where
  "wq_unlink_loop wq p prev cur k =
     (case cur of
        None \<Rightarrow> Some k
      | Some c \<Rightarrow>
          if c = p then wq_cut wq p prev k
          else wq_unlink_loop wq p (Some c) (wait_next_of k c) k)"

definition wq_unlink :: "nat \<Rightarrow> nat \<Rightarrow> kernel \<Rightarrow> kernel option" where
  "wq_unlink wq p k = wq_unlink_loop wq p None (wq_head (queues k wq)) k"

definition wake_locked :: "nat \<Rightarrow> wait_kind \<Rightarrow> u64 \<Rightarrow> kernel \<Rightarrow> kernel" where
  "wake_locked p kind ret k =
     set_state p PROCESS_STATE_READY
       (if kind = WAIT_COMPLETE then process_frame_set_ret p ret k else k)"

partial_function (option) wait_wake_loop :: "nat \<Rightarrow> int \<Rightarrow> int \<Rightarrow> kernel \<Rightarrow> kernel option" where
  "wait_wake_loop wq mx n k =
     (if wq_head (queues k wq) \<noteq> None \<and> (mx < 0 \<or> n < mx) then
        (case wq_pop wq k of
           (None, k) \<Rightarrow> Some k
         | (Some p, k) \<Rightarrow>
             if pstate k p = PROCESS_STATE_BLOCKED
             then wait_wake_loop wq mx (n + 1) (wake_locked p WAIT_RESTART 0 k)
             else wait_wake_loop wq mx n k)
      else Some k)"

definition wait_wake :: "nat \<Rightarrow> int \<Rightarrow> kernel \<Rightarrow> kernel option" where
  "wait_wake wq mx k = wait_wake_loop wq mx 0 k"

partial_function (option) wait_wake_status :: "nat \<Rightarrow> u64 \<Rightarrow> kernel \<Rightarrow> kernel option" where
  "wait_wake_status wq ret k =
     (case wq_pop wq k of
        (None, k) \<Rightarrow> Some k
      | (Some p, k) \<Rightarrow>
          if pstate k p = PROCESS_STATE_BLOCKED then Some (wake_locked p WAIT_COMPLETE ret k)
          else wait_wake_status wq ret k)"

definition wait_wake_proc :: "nat option \<Rightarrow> kernel \<Rightarrow> kernel" where
  "wait_wake_proc p k =
     (case p of
        None \<Rightarrow> k
      | Some p \<Rightarrow>
          if pstate k p = PROCESS_STATE_BLOCKED then set_state p PROCESS_STATE_READY k else k)"

text \<open>\<open>now\<close> is what \<open>pit_uptime_us\<close> reads.\<close>

definition wait_timer_arm :: "u64 \<Rightarrow> nat \<Rightarrow> u64 \<Rightarrow> wait_kind \<Rightarrow> u64 \<Rightarrow> kernel \<Rightarrow> int \<times> kernel" where
  "wait_timer_arm now wq us kind ret k =
     (case List.find (\<lambda>i. \<not> tm_used (timers k ! i)) [0..<WAIT_TIMERS] of
        None \<Rightarrow> (- 1, k)
      | Some i \<Rightarrow> (0, k\<lparr>timers := (timers k)[i := \<lparr>tm_used = True, tm_deadline_us = now + us,
                       tm_wq = wq, tm_kind = kind, tm_ret = ret\<rparr>]\<rparr>))"

partial_function (option) timer_wake_loop ::
  "nat \<Rightarrow> wait_kind \<Rightarrow> u64 \<Rightarrow> nat option \<Rightarrow> kernel \<Rightarrow> kernel option" where
  "timer_wake_loop wq kind ret p k =
     (case p of
        None \<Rightarrow> Some k
      | Some p \<Rightarrow>
          if pstate k p = PROCESS_STATE_BLOCKED
          then map_option (wake_locked p kind ret) (wq_unlink wq p k)
          else timer_wake_loop wq kind ret (wait_next_of k p) k)"

definition timer_expire :: "u64 \<Rightarrow> nat \<Rightarrow> kernel \<Rightarrow> kernel option" where
  "timer_expire now i k =
     (let tm = timers k ! i in
      if tm_used tm \<and> now \<ge> tm_deadline_us tm then
        (let k = k\<lparr>timers := (timers k)[i := tm\<lparr>tm_used := False\<rparr>]\<rparr> in
         timer_wake_loop (tm_wq tm) (tm_kind tm) (tm_ret tm) (wq_head (queues k (tm_wq tm))) k)
      else Some k)"

definition wait_timers_poll :: "u64 \<Rightarrow> kernel \<Rightarrow> kernel option" where
  "wait_timers_poll now k =
     fold (\<lambda>i r. Option.bind r (timer_expire now i)) [0..<WAIT_TIMERS] (Some k)"

section \<open>Kernel tasks: scheduler.c\<close>

definition scheduler_request_main_switch :: "kernel \<Rightarrow> kernel" where
  "scheduler_request_main_switch k = k\<lparr>main_switch_requested := True\<rparr>"

definition scheduler_invalidate_user_frame :: "kernel \<Rightarrow> kernel" where
  "scheduler_invalidate_user_frame k = k\<lparr>user_frame_valid := False\<rparr>"

text \<open>One push of \<open>setup_task_stack\<close>: \<open>*--sp = v\<close>.\<close>

definition push_word :: "u64 \<Rightarrow> u64 \<times> kernel \<Rightarrow> u64 \<times> kernel" where
  "push_word v = (\<lambda>(sp, k). (sp - 8, k\<lparr>kmem := (kmem k)(sp - 8 := v)\<rparr>))"

definition task_frame :: "u64 \<Rightarrow> u64 \<Rightarrow> u64 list" where
  "task_frame frame_top entry = [0x10, frame_top, 0x202, 0x08, entry, 32, 0] @ replicate 15 0"

definition setup_task_stack :: "nat \<Rightarrow> u64 \<Rightarrow> kernel \<Rightarrow> kernel" where
  "setup_task_stack i entry k =
     (let frame_top = (tk_stack (tasks k ! i) + TASK_STACK_SIZE) AND NOT 0xF;
          (sp, k) = fold push_word (task_frame frame_top entry) (frame_top, k)
      in upd_task i (\<lambda>t. t\<lparr>tk_rsp := sp\<rparr>) k)"

definition scheduler_set_main_return :: "u64 \<Rightarrow> kernel \<Rightarrow> kernel" where
  "scheduler_set_main_return entry k =
     upd_task 0 (\<lambda>t. t\<lparr>tk_status := TASK_READY\<rparr>) (setup_task_stack 0 entry k)"

definition scheduler_main_return_rsp :: "kernel \<Rightarrow> u64" where
  "scheduler_main_return_rsp k = tk_rsp (tasks k ! 0)"

definition scheduler_take_main_cpu :: "kernel \<Rightarrow> kernel" where
  "scheduler_take_main_cpu k = k\<lparr>current_task_idx := 0\<rparr>"

definition scheduler_init :: "kernel \<Rightarrow> kernel" where
  "scheduler_init k =
     (let k = k\<lparr>task_count := 1, current_task_idx := 0\<rparr>;
          k = upd_task 0 (\<lambda>t. t\<lparr>tk_status := TASK_READY, tk_rsp := 0, tk_name := ''kernel_main''\<rparr>) k
      in fold (\<lambda>i. upd_task i (\<lambda>t. t\<lparr>tk_status := TASK_DEAD\<rparr>)) [1..<MAX_TASKS] k)"

definition tstatus :: "kernel \<Rightarrow> nat \<Rightarrow> task_status" where
  "tstatus k i = tk_status (tasks k ! i)"

text \<open>An entry of 0 is \<open>NULL\<close>; the name is \<open>None\<close> for \<open>NULL\<close>.\<close>

definition task_create :: "u64 \<Rightarrow> string option \<Rightarrow> kernel \<Rightarrow> int \<times> kernel" where
  "task_create entry name k =
     (case name of
        None \<Rightarrow> (- 1, k)
      | Some nm \<Rightarrow>
          if entry = 0 then (- 1, k)
          else (case List.find (\<lambda>i. tstatus k i = TASK_DEAD) [1..<MAX_TASKS] of
                  None \<Rightarrow> (- 1, k)
                | Some idx \<Rightarrow>
                    (let k = upd_task idx (\<lambda>t. t\<lparr>tk_status := TASK_READY, tk_name := nm,
                               tk_background := False\<rparr>) k;
                         k = setup_task_stack idx entry k
                     in (int idx, k\<lparr>task_count := task_count k + 1\<rparr>))))"

definition task_create_bg :: "u64 \<Rightarrow> string option \<Rightarrow> kernel \<Rightarrow> int \<times> kernel" where
  "task_create_bg entry name k =
     (case task_create entry name k of
        (idx, k) \<Rightarrow>
          (idx, if idx \<ge> 0 then upd_task (nat idx) (\<lambda>t. t\<lparr>tk_background := True\<rparr>) k else k))"

text \<open>
  The round robin: \<open>next\<close> runs around the table until a runnable task or the current one. The first
  argument bounds the turns; the loop ends after at most \<open>MAX_TASKS\<close> of them, at the current task
  at the latest, so a larger bound changes nothing (\<open>next_task_enough\<close>).
\<close>

fun next_task :: "nat \<Rightarrow> nat \<Rightarrow> kernel \<Rightarrow> nat" where
  "next_task 0 nxt k = nxt"
| "next_task (Suc fuel) nxt k =
     (let nxt = (nxt + 1) mod MAX_TASKS in
      if nxt \<noteq> current_task_idx k \<and> tstatus k nxt \<noteq> TASK_READY \<and> tstatus k nxt \<noteq> TASK_RUNNING
      then next_task fuel nxt k else nxt)"

text \<open>The hand-over to a parked process that several places share.\<close>

definition switch_to :: "nat \<Rightarrow> kernel \<Rightarrow> kernel" where
  "switch_to p k =
     use_cr3 p (use_kernel_stack p (process_become_current p (process_apply_fs_base p (fpu_restore p k))))"

text \<open>The user half of the tick, for a current process \<open>u\<close> that is running.\<close>

definition tick_user :: "u64 \<Rightarrow> nat \<Rightarrow> kernel \<Rightarrow> u64 \<times> kernel" where
  "tick_user current_rsp u k =
     (if user_frame_valid k then
        (let k = (upd_task 0 (\<lambda>t. t\<lparr>tk_rsp := current_rsp\<rparr>) k)\<lparr>user_frame_valid := False\<rparr> in
         case process_pick_ready (Some u) k of
           Some nx \<Rightarrow>
             (let k = process_apply_fs_base nx (fpu_restore nx k);
                  k = upd_proc u (\<lambda>x. x\<lparr>p_parked_rsp := user_frame k, p_state := PROCESS_STATE_READY\<rparr>) k;
                  k = use_cr3 nx (use_kernel_stack nx (process_become_current nx k))
              in (p_parked_rsp (processes k nx), k))
         | None \<Rightarrow> (user_frame k, fpu_restore u k))
      else
        (let k = (fpu_save u k)\<lparr>user_frame := current_rsp, user_frame_valid := True, current_task_idx := 0\<rparr>
         in (tk_rsp (tasks k ! 0), k)))"

definition foreground_tasks :: "kernel \<Rightarrow> nat" where
  "foreground_tasks k =
     length (filter (\<lambda>i. tstatus k i \<noteq> TASK_DEAD \<and> \<not> tk_background (tasks k ! i)) [1..<MAX_TASKS])"

definition tick_tasks :: "kernel \<Rightarrow> u64 \<times> kernel" where
  "tick_tasks k =
     (if task_count k \<le> 1 then
        (tk_rsp (tasks k ! current_task_idx k), k\<lparr>cpu_idle_ticks := cpu_idle_ticks k + 1\<rparr>)
      else
        (let k = (if foreground_tasks k = 0 then k\<lparr>cpu_idle_ticks := cpu_idle_ticks k + 1\<rparr>
                  else k\<lparr>cpu_busy_ticks := cpu_busy_ticks k + 1\<rparr>);
             k = k\<lparr>current_task_idx := next_task MAX_TASKS (current_task_idx k) k\<rparr>
         in (tk_rsp (tasks k ! current_task_idx k), k)))"

definition running_process :: "kernel \<Rightarrow> nat option" where
  "running_process k =
     (case process_get_current k of
        Some u \<Rightarrow> if pstate k u = PROCESS_STATE_RUNNING then Some u else None
      | None \<Rightarrow> None)"

definition scheduler_tick :: "u64 \<Rightarrow> kernel \<Rightarrow> u64 \<times> kernel" where
  "scheduler_tick current_rsp k =
     (if main_switch_requested k then
        (let k = k\<lparr>main_switch_requested := False, user_frame_valid := False, current_task_idx := 0\<rparr>
         in (tk_rsp (tasks k ! 0), k))
      else
        (case running_process k of
           Some u \<Rightarrow> tick_user current_rsp u k
         | None \<Rightarrow>
             (let k = k\<lparr>user_frame_valid := False\<rparr>;
                  k = upd_task (current_task_idx k) (\<lambda>t. t\<lparr>tk_rsp := current_rsp\<rparr>) k
              in case process_pick_ready None k of
                   Some wk \<Rightarrow> (let k = switch_to wk k in (p_parked_rsp (processes k wk), k))
                 | None \<Rightarrow> tick_tasks k)))"

definition task_kill :: "int \<Rightarrow> kernel \<Rightarrow> int \<times> kernel" where
  "task_kill task_id k =
     (if task_id < 0 \<or> task_id \<ge> int MAX_TASKS then (- 1, k)
      else if tstatus k (nat task_id) = TASK_DEAD then (- 1, k)
      else (0, (upd_task (nat task_id) (\<lambda>t. t\<lparr>tk_status := TASK_DEAD\<rparr>) k)\<lparr>task_count := task_count k - 1\<rparr>))"

definition task_exit :: "kernel \<Rightarrow> control \<times> kernel" where
  "task_exit k =
     (SoftTick,
      if current_task_idx k < MAX_TASKS
      then (upd_task (current_task_idx k) (\<lambda>t. t\<lparr>tk_status := TASK_DEAD\<rparr>) k)\<lparr>task_count := task_count k - 1\<rparr>
      else k)"

definition task_get_count :: "kernel \<Rightarrow> int" where
  "task_get_count k = task_count k"

definition task_get_name :: "int \<Rightarrow> kernel \<Rightarrow> string" where
  "task_get_name idx k =
     (if idx < 0 \<or> idx \<ge> int MAX_TASKS then ''???'' else tk_name (tasks k ! nat idx))"

definition task_get_status :: "int \<Rightarrow> kernel \<Rightarrow> task_status" where
  "task_get_status idx k = (if idx < 0 \<or> idx \<ge> int MAX_TASKS then TASK_DEAD else tstatus k (nat idx))"

definition kernel_heartbeat_touch :: "kernel \<Rightarrow> kernel" where
  "kernel_heartbeat_touch k = k\<lparr>kernel_heartbeat := kernel_heartbeat k + 1\<rparr>"

definition kernel_heartbeat_read :: "kernel \<Rightarrow> u64" where
  "kernel_heartbeat_read k = kernel_heartbeat k"

text \<open>One pass of the watchdog after its interval: \<open>None\<close> is the panic, otherwise the new
  \<open>last_seen\<close>.\<close>

definition heartbeat_check :: "u64 \<Rightarrow> kernel \<Rightarrow> u64 option" where
  "heartbeat_check last_seen k =
     (if process_any_active k then Some last_seen
      else if kernel_heartbeat k = last_seen then None
      else Some (kernel_heartbeat k))"

definition heartbeat_watchdog_init :: "u64 \<Rightarrow> kernel \<Rightarrow> int \<times> kernel" where
  "heartbeat_watchdog_init heartbeat_watchdog_main k =
     task_create_bg heartbeat_watchdog_main (Some ''kwatchdog'') k"

section \<open>Giving up the CPU\<close>

definition park_switch :: "nat \<Rightarrow> kernel \<Rightarrow> control \<times> kernel" where
  "park_switch p k =
     (case process_pick_ready (Some p) k of
        Some nx \<Rightarrow>
          (let k = scheduler_invalidate_user_frame (switch_to nx k)
           in (Resume (p_parked_rsp (processes k nx)), k))
      | None \<Rightarrow> (SoftTick, scheduler_request_main_switch (process_set_current_none k)))"

definition wait_park_now :: "nat \<Rightarrow> kernel \<Rightarrow> control \<times> kernel" where
  "wait_park_now p k = park_switch p k"

text \<open>\<open>wait_block\<close>; the bounded spins return after the time has passed.\<close>

definition wait_block ::
  "u64 \<Rightarrow> (u64 \<Rightarrow> u8) \<Rightarrow> u64 \<Rightarrow> nat \<Rightarrow> wait_kind \<Rightarrow> u64 \<Rightarrow> u64 \<Rightarrow> kernel \<Rightarrow> control \<times> kernel" where
  "wait_block now user_byte frame_rsp wq kind ret timeout_us k =
     (case process_get_current k of
        None \<Rightarrow> (Return, k)
      | Some p \<Rightarrow>
          (let (ok, k) = (if timeout_us \<noteq> 0 then wait_timer_arm now wq timeout_us kind ret k else (- 1, k)) in
           if timeout_us \<noteq> 0 \<and> ok \<noteq> 0 then (Return, k)
           else
             (let (f, k) = process_park_entry_frame user_byte p frame_rsp (kind = WAIT_RESTART)
                             (if kind = WAIT_COMPLETE then ret else 0) k;
                  k = wq_push wq p k;
                  k = set_state p PROCESS_STATE_BLOCKED k;
                  k = fpu_save p k
              in park_switch p k)))"

definition process_wait_run :: "nat \<Rightarrow> u64 \<Rightarrow> u64 \<Rightarrow> kernel \<Rightarrow> control \<times> kernel" where
  "process_wait_run child status_ptr e k =
     (case process_get_current k of
        None \<Rightarrow> (Return, k)
      | Some p \<Rightarrow>
          (let f = p_parked_frame (processes k p);
               k = copy_iret f e (set_qw f IRQ_RAX 0 (copy_regs f e k));
               k = upd_proc p (\<lambda>x. x\<lparr>p_state := PROCESS_STATE_BLOCKED,
                     p_wait_pid := sint (p_pid (processes k child)),
                     p_wait_status_ptr := status_ptr, p_parked_rsp := f\<rparr>) k;
               k = scheduler_invalidate_user_frame (switch_to child (fpu_save p k))
           in (Resume (p_parked_rsp (processes k child)), k)))"

section \<open>Frame lemmas\<close>

lemmas sched_upd_defs [kdefs] =
  upd_proc_def upd_queue_def upd_task_def upd_cpu_def set_state_def set_wait_next_def set_head_def set_tail_def

lemmas sched_read_defs [kdefs] = pstate_def wait_next_of_def tstatus_def qw_def set_qw_def

lemmas switch_defs [kdefs] =
  fpu_restore_def fpu_save_def process_apply_fs_base_def process_become_current_def
  use_kernel_stack_def use_cr3_def switch_to_def

section \<open>A queue as a list\<close>

text \<open>The processes on a chain of \<open>wait_next\<close> links.\<close>

fun chain :: "kernel \<Rightarrow> nat option \<Rightarrow> nat list \<Rightarrow> bool" where
  "chain k h [] \<longleftrightarrow> h = None"
| "chain k h (x # xs) \<longleftrightarrow> h = Some x \<and> chain k (wait_next_of k x) xs"

definition wq_rep :: "nat \<Rightarrow> kernel \<Rightarrow> nat list \<Rightarrow> bool" where
  "wq_rep wq k xs \<longleftrightarrow> chain k (wq_head (queues k wq)) xs \<and> distinct xs
     \<and> wq_tail (queues k wq) = (if xs = [] then None else Some (last xs))"

lemma chain_cong:
  "(\<And>x. x \<in> set xs \<Longrightarrow> wait_next_of k' x = wait_next_of k x) \<Longrightarrow> chain k' h xs = chain k h xs"
  by (induction xs arbitrary: h) auto

lemma chain_append_one:
  "chain k h (xs @ [x]) \<Longrightarrow> p \<notin> set (xs @ [x]) \<Longrightarrow> distinct (xs @ [x]) \<Longrightarrow>
   chain (set_wait_next x (Some p) (set_wait_next p None k)) h (xs @ [x, p])"
  by (induction xs arbitrary: h) (auto simp: kdefs)

lemma wq_push_rep:
  assumes rep: "wq_rep wq k xs" and new: "p \<notin> set xs"
  shows "wq_rep wq (wq_push wq p k) (xs @ [p])"
proof (cases xs rule: rev_cases)
  case Nil
  then show ?thesis
    using rep by (auto simp: wq_rep_def wq_push_def kdefs)
next
  case (snoc ys t)
  let ?k = "set_wait_next t (Some p) (set_wait_next p None k)"
  have "chain ?k (wq_head (queues k wq)) (ys @ [t, p])"
    by (rule chain_append_one) (use rep new snoc in \<open>auto simp: wq_rep_def\<close>)
  moreover have "wq_push wq p k = set_tail wq (Some p) ?k"
    using rep snoc by (simp add: wq_push_def wq_rep_def Let_def kdefs)
  moreover have "chain (set_tail wq (Some p) ?k) h zs = chain ?k h zs" for h zs
    by (rule chain_cong) (simp add: kdefs)
  ultimately show ?thesis
    using rep new snoc by (simp add: wq_rep_def kdefs)
qed

lemma wq_pop_empty: "wq_rep wq k [] \<Longrightarrow> wq_pop wq k = (None, k)"
  by (simp add: wq_rep_def wq_pop_def)

lemma wq_pop_rep:
  assumes "wq_rep wq k (p # xs)"
  shows "\<exists>k'. wq_pop wq k = (Some p, k') \<and> wq_rep wq k' xs"
proof -
  let ?k = "snd (wq_pop wq k)"
  have n: "wait_next_of k p = None \<longleftrightarrow> xs = []"
    using assms by (cases xs) (auto simp: wq_rep_def)
  have hd: "wq_pop wq k = (Some p, ?k)"
    using assms by (simp add: wq_rep_def wq_pop_def Let_def)
  have "chain ?k h xs = chain k h xs" for h
    by (rule chain_cong) (use assms in \<open>auto simp: wq_rep_def wq_pop_def Let_def kdefs\<close>)
  then have "wq_rep wq ?k xs"
    using assms n by (auto simp: wq_rep_def wq_pop_def Let_def kdefs)
  with hd show ?thesis
    by blast
qed

text \<open>The contract of a first-in first-out queue, and what follows from it alone.\<close>

primrec drain :: "('s \<Rightarrow> 'a option \<times> 's) \<Rightarrow> nat \<Rightarrow> 's \<Rightarrow> 'a option list \<times> 's" where
  "drain pop 0 s = ([], s)"
| "drain pop (Suc n) s =
     (case pop s of (x, s) \<Rightarrow> (case drain pop n s of (xs, s) \<Rightarrow> (x # xs, s)))"

locale fifo_queue =
  fixes push :: "'a \<Rightarrow> 's \<Rightarrow> 's" and pop :: "'s \<Rightarrow> 'a option \<times> 's" and rep :: "'s \<Rightarrow> 'a list \<Rightarrow> bool"
  assumes push_rep: "rep s xs \<Longrightarrow> x \<notin> set xs \<Longrightarrow> rep (push x s) (xs @ [x])"
    and pop_empty: "rep s [] \<Longrightarrow> pop s = (None, s)"
    and pop_rep: "rep s (x # xs) \<Longrightarrow> \<exists>s'. pop s = (Some x, s') \<and> rep s' xs"
begin

lemma push_all: "rep s xs \<Longrightarrow> distinct ps \<Longrightarrow> set xs \<inter> set ps = {} \<Longrightarrow> rep (fold push ps s) (xs @ ps)"
proof (induction ps arbitrary: s xs)
  case (Cons p ps)
  have "rep (push p s) (xs @ [p])"
    using Cons.prems by (intro push_rep) auto
  from Cons.IH [OF this] show ?case
    using Cons.prems by auto
qed simp

lemma drain_all: "rep s xs \<Longrightarrow> \<exists>s'. drain pop (length xs) s = (map Some xs, s') \<and> rep s' []"
proof (induction xs arbitrary: s)
  case (Cons x xs)
  obtain s' where "pop s = (Some x, s')" "rep s' xs"
    using pop_rep [OF Cons.prems] by blast
  with Cons.IH [of s'] show ?case
    by auto
qed auto

lemma in_order:
  assumes "rep s []" and "distinct ps"
  shows "fst (drain pop (length ps) (fold push ps s)) = map Some ps"
  using drain_all [OF push_all [OF assms(1,2)]] by auto

end

interpretation wq: fifo_queue "wq_push q" "wq_pop q" "wq_rep q"
  by unfold_locales (auto intro: wq_push_rep wq_pop_rep simp: wq_pop_empty)

lemma wq_last_chain: "chain k h xs \<Longrightarrow> wq_last k h = Some (if xs = [] then None else Some (last xs))"
proof (induction xs arbitrary: h)
  case (Cons x xs)
  have "wq_last k (wait_next_of k x) = Some (if xs = [] then None else Some (last xs))"
    using Cons by simp
  then show ?case
    using Cons.prems by (cases xs) (subst wq_last.simps; auto)+
qed (subst wq_last.simps; simp)

lemma wq_unlink_loop_chain:
  "chain k cur (ys @ p # zs) \<Longrightarrow> p \<notin> set ys \<Longrightarrow>
   wq_unlink_loop wq p prev cur k = wq_cut wq p (if ys = [] then prev else Some (last ys)) k"
proof (induction ys arbitrary: cur prev)
  case Nil
  then show ?case
    by (subst wq_unlink_loop.simps) simp
next
  case (Cons y ys)
  then have "wq_unlink_loop wq p prev cur k = wq_unlink_loop wq p (Some y) (wait_next_of k y) k"
    by (subst wq_unlink_loop.simps) auto
  then show ?case
    using Cons.IH [of "wait_next_of k y" "Some y"] Cons.prems by auto
qed

lemma chain_skip:
  assumes "chain k h (ys @ y # p # zs)" and "distinct (ys @ y # p # zs)"
  shows "chain (set_wait_next y (wait_next_of k p) k) h (ys @ y # zs)"
  using assms
proof (induction ys arbitrary: h)
  case Nil
  have "chain (set_wait_next y (wait_next_of k p) k) n zs = chain k n zs" for n
    by (rule chain_cong) (use Nil in \<open>auto simp: kdefs\<close>)
  then show ?case
    using Nil by (auto simp: kdefs)
next
  case (Cons x ys)
  then show ?case
    by (auto simp: kdefs)
qed

text \<open>What a queue operation may touch of the processes: only their \<open>wait_next\<close>.\<close>

definition same_procs :: "kernel \<Rightarrow> kernel \<Rightarrow> bool" where
  "same_procs k k' \<longleftrightarrow> (\<forall>i. (processes k' i)\<lparr>p_wait_next := None\<rparr> = (processes k i)\<lparr>p_wait_next := None\<rparr>)
     \<and> kmem k' = kmem k \<and> timers k' = timers k \<and> current_process k' = current_process k"

lemma same_procs_field:
  assumes "same_procs k k'"
  shows "pstate k' i = pstate k i" "p_parked_rsp (processes k' i) = p_parked_rsp (processes k i)"
    "p_fpu (processes k' i) = p_fpu (processes k i)" "kmem k' = kmem k" "timers k' = timers k"
proof -
  have eq: "(processes k' i)\<lparr>p_wait_next := None\<rparr> = (processes k i)\<lparr>p_wait_next := None\<rparr>"
    using assms by (simp add: same_procs_def)
  show "pstate k' i = pstate k i" "p_parked_rsp (processes k' i) = p_parked_rsp (processes k i)"
    "p_fpu (processes k' i) = p_fpu (processes k i)"
    using arg_cong [OF eq, of p_state] arg_cong [OF eq, of p_parked_rsp] arg_cong [OF eq, of p_fpu]
    by (simp_all add: pstate_def)
qed (use assms in \<open>simp_all add: same_procs_def\<close>)

lemma same_procs_links:
  "same_procs k (set_wait_next p n k)" "same_procs k (set_head q h k)" "same_procs k (set_tail q t k)"
  by (simp_all add: same_procs_def kdefs)

lemma same_procs_trans: "same_procs k k' \<Longrightarrow> same_procs k' k'' \<Longrightarrow> same_procs k k''"
  by (simp add: same_procs_def)

lemma same_procs_refl [simp]: "same_procs k k"
  by (simp add: same_procs_def)

lemmas same_procs_intros = same_procs_links [THEN same_procs_trans [rotated]] same_procs_refl

lemma wq_pop_same: "same_procs k (snd (wq_pop wq k))"
  by (auto simp: wq_pop_def Let_def split: option.split intro!: same_procs_intros)

lemma wq_cut_finish:
  assumes "chain k (wq_head (queues k wq)) xs" and "distinct xs" and "p \<notin> set xs"
    and "wq_tail (queues k wq) = Some p \<or> wq_tail (queues k wq) = (if xs = [] then None else Some (last xs))"
  shows "\<exists>k'. map_option (set_wait_next p None)
      (if wq_tail (queues k wq) = Some p
       then map_option (\<lambda>t. set_tail wq t k) (wq_last k (wq_head (queues k wq))) else Some k) = Some k'
    \<and> wq_rep wq k' xs \<and> same_procs k k'"
proof (cases "wq_tail (queues k wq) = Some p")
  case True
  let ?t = "if xs = [] then None else Some (last xs)"
  let ?k = "set_wait_next p None (set_tail wq ?t k)"
  have "chain ?k h xs = chain k h xs" for h
    by (rule chain_cong) (use assms(3) in \<open>auto simp: kdefs\<close>)
  then have "wq_rep wq ?k xs"
    using assms by (simp add: wq_rep_def kdefs)
  then show ?thesis
    using True wq_last_chain [OF assms(1)] by (auto intro!: same_procs_intros)
next
  case False
  let ?k = "set_wait_next p None k"
  have "chain ?k h xs = chain k h xs" for h
    by (rule chain_cong) (use assms(3) in \<open>auto simp: kdefs\<close>)
  then have "wq_rep wq ?k xs"
    using assms False by (auto simp: wq_rep_def kdefs)
  then show ?thesis
    using False by (auto intro!: same_procs_intros)
qed

lemma wq_unlink_rep:
  assumes rep: "wq_rep wq k (ys @ p # zs)"
  shows "\<exists>k'. wq_unlink wq p k = Some k' \<and> wq_rep wq k' (ys @ zs) \<and> same_procs k k'"
proof -
  have ch: "chain k (wq_head (queues k wq)) (ys @ p # zs)" and d: "distinct (ys @ p # zs)"
    and t: "wq_tail (queues k wq) = Some (last (ys @ p # zs))"
    using rep by (simp_all add: wq_rep_def)
  have cut: "wq_unlink wq p k = wq_cut wq p (if ys = [] then None else Some (last ys)) k"
    unfolding wq_unlink_def by (rule wq_unlink_loop_chain [OF ch]) (use d in auto)
  show ?thesis
  proof (cases ys rule: rev_cases)
    case Nil
    let ?k = "set_head wq (wait_next_of k p) k"
    have "chain ?k h xs = chain k h xs" for h xs
      by (rule chain_cong) (simp add: kdefs)
    then have "chain ?k (wq_head (queues ?k wq)) zs"
      using ch Nil by (simp add: kdefs)
    from wq_cut_finish [OF this, of p] show ?thesis
      unfolding cut using Nil d t same_procs_links(2) [of k wq "wait_next_of k p"]
      by (fastforce simp: wq_cut_def Let_def sched_upd_defs intro: same_procs_trans)
  next
    case (snoc us y)
    let ?k = "set_wait_next y (wait_next_of k p) k"
    have "chain ?k (wq_head (queues ?k wq)) (ys @ zs)"
      using chain_skip [of k "wq_head (queues k wq)" us y p zs] ch d snoc by (simp add: kdefs)
    moreover have "wq_tail (queues ?k wq) = Some p
        \<or> wq_tail (queues ?k wq) = (if ys @ zs = [] then None else Some (last (ys @ zs)))"
      using t snoc by (simp add: kdefs)
    ultimately obtain k' where "map_option (set_wait_next p None)
          (if wq_tail (queues ?k wq) = Some p
           then map_option (\<lambda>t. set_tail wq t ?k) (wq_last ?k (wq_head (queues ?k wq))) else Some ?k) = Some k'"
        "wq_rep wq k' (ys @ zs)" "same_procs ?k k'"
      using wq_cut_finish [of ?k wq "ys @ zs" p] d by auto
    then show ?thesis
      unfolding cut using snoc same_procs_links(1) [of k y "wait_next_of k p"]
      by (auto simp: wq_cut_def intro: same_procs_trans)
  qed
qed

section \<open>Waking\<close>

text \<open>Which processes are awake after the processes of \<open>ys\<close> have been taken off a queue.\<close>

definition woken :: "nat list \<Rightarrow> kernel \<Rightarrow> kernel \<Rightarrow> bool" where
  "woken ys k k' \<longleftrightarrow> (\<forall>p. pstate k' p =
     (if p \<in> set ys \<and> pstate k p = PROCESS_STATE_BLOCKED then PROCESS_STATE_READY else pstate k p))"

definition blocked_in :: "kernel \<Rightarrow> nat list \<Rightarrow> int" where
  "blocked_in k ys = int (length (filter (\<lambda>p. pstate k p = PROCESS_STATE_BLOCKED) ys))"

lemma wake_restart:
  "pstate (wake_locked p WAIT_RESTART r k) q = (if q = p then PROCESS_STATE_READY else pstate k q)"
  "wq_rep wq (wake_locked p WAIT_RESTART r k) xs = wq_rep wq k xs"
  "kmem (wake_locked p WAIT_RESTART r k) = kmem k"
proof -
  let ?k = "wake_locked p WAIT_RESTART r k"
  have "chain ?k h xs = chain k h xs" for h
    by (rule chain_cong) (simp add: wake_locked_def kdefs)
  then show "wq_rep wq ?k xs = wq_rep wq k xs"
    by (simp add: wq_rep_def wake_locked_def kdefs)
qed (simp_all add: wake_locked_def kdefs)

lemma wait_wake_loop_spec:
  assumes "wq_rep wq k xs"
  shows "\<exists>k' ys zs. wait_wake_loop wq mx n k = Some k' \<and> xs = ys @ zs \<and> wq_rep wq k' zs \<and> woken ys k k'
    \<and> kmem k' = kmem k \<and> (mx < 0 \<longrightarrow> zs = [])
    \<and> (0 \<le> mx \<and> n \<le> mx \<longrightarrow> n + blocked_in k ys \<le> mx \<and> (zs = [] \<or> n + blocked_in k ys = mx))"
  using assms
proof (induction xs arbitrary: k n)
  case Nil
  then show ?case
    by (subst wait_wake_loop.simps) (auto simp: wq_rep_def woken_def blocked_in_def)
next
  case (Cons p xs)
  have hd: "wq_head (queues k wq) \<noteq> None"
    using Cons.prems by (simp add: wq_rep_def)
  obtain k1 where k1: "wq_pop wq k = (Some p, k1)" "wq_rep wq k1 xs"
    using wq_pop_rep [OF Cons.prems] by blast
  have "same_procs k k1"
    using wq_pop_same [of k wq] k1(1) by simp
  note same = same_procs_field [OF this]
  have fresh: "p \<notin> set xs"
    using Cons.prems by (simp add: wq_rep_def)
  show ?case
  proof (cases "mx < 0 \<or> n < mx")
    case False
    then have "wait_wake_loop wq mx n k = Some k"
      by (subst wait_wake_loop.simps) simp
    then show ?thesis
      using False Cons.prems
      by - (rule exI [of _ k], rule exI [of _ "[]"], rule exI [of _ "p # xs"],
          auto simp: woken_def blocked_in_def)
  next
    case go: True
    let ?b = "pstate k p = PROCESS_STATE_BLOCKED"
    let ?k2 = "if ?b then wake_locked p WAIT_RESTART 0 k1 else k1"
    let ?n = "if ?b then n + 1 else n"
    have step: "wait_wake_loop wq mx n k = wait_wake_loop wq mx ?n ?k2"
      using go hd k1(1) same(1) by (subst wait_wake_loop.simps) simp
    have rep2: "wq_rep wq ?k2 xs"
      using k1(2) by (simp add: wake_restart)
    from Cons.IH [OF rep2, of ?n] obtain k' ys zs where ih:
      "wait_wake_loop wq mx ?n ?k2 = Some k'" "xs = ys @ zs" "wq_rep wq k' zs" "woken ys ?k2 k'"
      "kmem k' = kmem ?k2" "mx < 0 \<longrightarrow> zs = []"
      "0 \<le> mx \<and> ?n \<le> mx \<longrightarrow> ?n + blocked_in ?k2 ys \<le> mx \<and> (zs = [] \<or> ?n + blocked_in ?k2 ys = mx)"
      by blast
    have st2: "pstate ?k2 q = (if q = p \<and> ?b then PROCESS_STATE_READY else pstate k q)" for q
      using same(1) by (simp add: wake_restart)
    have "woken (p # ys) k k'"
      using ih(4) fresh ih(2) unfolding woken_def st2 by auto
    moreover have "kmem k' = kmem k"
      using ih(5) same(4) by (simp add: wake_restart)
    moreover have "blocked_in ?k2 ys = blocked_in k ys"
      unfolding blocked_in_def st2 using fresh ih(2)
      by (intro arg_cong [where f = int] arg_cong [where f = length] filter_cong) auto
    then have "?n + blocked_in ?k2 ys = n + blocked_in k (p # ys)"
      by (simp add: blocked_in_def)
    ultimately show ?thesis
      using ih(1,2,3,6,7) step go
      by - (rule exI [of _ k'], rule exI [of _ "p # ys"], rule exI [of _ zs], auto split: if_splits)
  qed
qed

lemma wake_locked_effect:
  "pstate (wake_locked p kind r k) q = (if q = p then PROCESS_STATE_READY else pstate k q)"
  "wq_rep wq (wake_locked p kind r k) xs = wq_rep wq k xs"
  "timers (wake_locked p kind r k) = timers k"
proof -
  let ?k = "wake_locked p kind r k"
  have "chain ?k h xs = chain k h xs" for h
    by (rule chain_cong) (simp add: wake_locked_def process_frame_set_ret_def Let_def kdefs)
  then show "wq_rep wq ?k xs = wq_rep wq k xs"
    by (simp add: wq_rep_def wake_locked_def process_frame_set_ret_def Let_def kdefs)
qed (simp_all add: wake_locked_def process_frame_set_ret_def Let_def kdefs)

lemma wake_locked_ret:
  "p_parked_rsp (processes k p) \<noteq> 0 \<Longrightarrow>
   qw (wake_locked p WAIT_COMPLETE r k) (p_parked_rsp (processes k p)) IRQ_RAX = r"
  by (simp add: wake_locked_def process_frame_set_ret_def Let_def kdefs)

lemma timer_wake_loop_first:
  "chain k h (us @ p # zs) \<Longrightarrow> \<forall>u\<in>set us. pstate k u \<noteq> PROCESS_STATE_BLOCKED \<Longrightarrow>
   pstate k p = PROCESS_STATE_BLOCKED \<Longrightarrow>
   timer_wake_loop wq kind ret h k = map_option (wake_locked p kind ret) (wq_unlink wq p k)"
  by (induction us arbitrary: h) (subst timer_wake_loop.simps; simp)+

definition timer_due :: "u64 \<Rightarrow> kernel \<Rightarrow> nat \<Rightarrow> bool" where
  "timer_due now k i \<longleftrightarrow> tm_used (timers k ! i) \<and> now \<ge> tm_deadline_us (timers k ! i)"

lemma timers_idle:
  "\<forall>j\<in>set js. \<not> timer_due now k j \<Longrightarrow> fold (\<lambda>i r. Option.bind r (timer_expire now i)) js (Some k) = Some k"
  by (induction js) (auto simp: timer_expire_def timer_due_def Let_def)

lemma timer_expire_first:
  assumes len: "i < length (timers k)" and due: "timer_due now k i"
    and rep: "wq_rep (tm_wq (timers k ! i)) k (ys @ p # zs)"
    and ys: "\<forall>y\<in>set ys. pstate k y \<noteq> PROCESS_STATE_BLOCKED"
    and p: "pstate k p = PROCESS_STATE_BLOCKED"
  shows "\<exists>k'. timer_expire now i k = Some k' \<and> wq_rep (tm_wq (timers k ! i)) k' (ys @ zs)
    \<and> pstate k' p = PROCESS_STATE_READY \<and> (\<forall>q. q \<noteq> p \<longrightarrow> pstate k' q = pstate k q)
    \<and> timers k' = (timers k)[i := (timers k ! i)\<lparr>tm_used := False\<rparr>]
    \<and> (tm_kind (timers k ! i) = WAIT_COMPLETE \<and> p_parked_rsp (processes k p) \<noteq> 0
         \<longrightarrow> qw k' (p_parked_rsp (processes k p)) IRQ_RAX = tm_ret (timers k ! i))"
proof -
  let ?tm = "timers k ! i"
  let ?k = "k\<lparr>timers := (timers k)[i := ?tm\<lparr>tm_used := False\<rparr>]\<rparr>"
  have st: "pstate ?k q = pstate k q" "processes ?k = processes k" "queues ?k = queues k" for q
    by (simp_all add: pstate_def)
  have ch: "chain ?k h xs = chain k h xs" for h xs
    by (rule chain_cong) (simp add: wait_next_of_def)
  have rep': "wq_rep (tm_wq ?tm) ?k (ys @ p # zs)"
    using rep by (simp add: wq_rep_def ch)
  then obtain k1 where k1: "wq_unlink (tm_wq ?tm) p ?k = Some k1" "wq_rep (tm_wq ?tm) k1 (ys @ zs)"
      "same_procs ?k k1"
    using wq_unlink_rep by blast
  note same = same_procs_field [OF k1(3)]
  have "timer_expire now i k = Some (wake_locked p (tm_kind ?tm) (tm_ret ?tm) k1)"
    using due timer_wake_loop_first [of ?k "wq_head (queues k (tm_wq ?tm))" ys p zs] rep' ys p k1(1)
    by (simp add: timer_expire_def timer_due_def Let_def st wq_rep_def)
  then show ?thesis
    using k1(2) same wake_locked_ret [of k1 p "tm_ret ?tm"] by (auto simp: wake_locked_effect st)
qed

section \<open>The tick\<close>

text \<open>The CPU runs in the context of process \<open>p\<close>.\<close>

definition cpu_in :: "nat \<Rightarrow> kernel \<Rightarrow> bool" where
  "cpu_in p k \<longleftrightarrow>
     (let c = the_cpu k; x = processes k p in
      cpu_fpu c = p_fpu x \<and> cpu_fs_base c = p_fs_base x \<and> cpu_rsp0 c = p_kernel_stack x
      \<and> cpu_syscall_rsp c = p_kernel_stack x \<and> (\<forall>r. p_mm x = Some r \<longrightarrow> r \<noteq> 0 \<longrightarrow> cpu_cr3 c = r AND NOT 0xFFF))
     \<and> current_process k = Some p \<and> pstate k p = PROCESS_STATE_RUNNING"

lemma find_proc_some:
  "find_proc P = Some i \<Longrightarrow> P i \<and> i < MAX_PROCESSES \<and> (\<forall>j<i. \<not> P j)"
  by (auto simp: find_proc_def find_Some_iff)

lemma switch_to_cpu_in: "cpu_in p (switch_to p k)"
  by (auto simp: cpu_in_def kdefs Let_def split: option.splits)

lemma switch_to_frame:
  "p_parked_rsp (processes (switch_to p k) q) = p_parked_rsp (processes k q)"
  "tasks (switch_to p k) = tasks k"
  by (auto simp: kdefs split: option.splits)

lemma pick_ready_facts:
  "process_pick_ready ex k = Some i \<Longrightarrow>
     pstate k i = PROCESS_STATE_READY \<and> p_parked_rsp (processes k i) \<noteq> 0 \<and> Some i \<noteq> ex"
  unfolding process_pick_ready_def by (drule find_proc_some) simp

lemma pick_ready_cong:
  "(\<And>i. ex \<noteq> Some i \<Longrightarrow> pstate k' i = pstate k i \<and> p_parked_rsp (processes k' i) = p_parked_rsp (processes k i)) \<Longrightarrow>
   process_pick_ready ex k' = process_pick_ready ex k"
  unfolding process_pick_ready_def by (rule arg_cong [where f = find_proc]) auto

text \<open>The round robin goes to the first index after the current one that is runnable.\<close>

definition stops :: "kernel \<Rightarrow> nat \<Rightarrow> bool" where
  "stops k i \<longleftrightarrow> i = current_task_idx k \<or> tstatus k i = TASK_READY \<or> tstatus k i = TASK_RUNNING"

lemma next_task_at:
  "0 < d \<Longrightarrow> d \<le> fuel \<Longrightarrow> stops k ((nxt + d) mod MAX_TASKS) \<Longrightarrow>
   (\<And>e. 0 < e \<Longrightarrow> e < d \<Longrightarrow> \<not> stops k ((nxt + e) mod MAX_TASKS)) \<Longrightarrow>
   next_task fuel nxt k = (nxt + d) mod MAX_TASKS"
proof (induction fuel arbitrary: nxt d)
  case (Suc fuel)
  show ?case
  proof (cases "d = 1")
    case True
    then show ?thesis
      using Suc.prems(3) by (auto simp: stops_def Let_def)
  next
    case False
    let ?n = "(nxt + 1) mod MAX_TASKS"
    have shift: "(?n + e) mod MAX_TASKS = (nxt + (e + 1)) mod MAX_TASKS" for e
      by (simp add: mod_simps)
    have "next_task fuel ?n k = (?n + (d - 1)) mod MAX_TASKS"
    proof (rule Suc.IH)
      show "stops k ((?n + (d - 1)) mod MAX_TASKS)"
        unfolding shift using Suc.prems(1,3) False by simp
      show "\<not> stops k ((?n + e) mod MAX_TASKS)" if "0 < e" "e < d - 1" for e
        unfolding shift using that by (intro Suc.prems(4)) auto
    qed (use Suc.prems(1,2) False in auto)
    moreover have "\<not> stops k ?n"
      using Suc.prems(4) [of 1] Suc.prems(1) False by simp
    ultimately show ?thesis
      using Suc.prems(1) False unfolding shift by (simp add: stops_def Let_def)
  qed
qed simp

lemma next_task_first:
  assumes j: "stops k ((c + d) mod MAX_TASKS)" and d: "0 < d" "d \<le> MAX_TASKS"
  obtains e where "0 < e" "e \<le> d" "next_task MAX_TASKS c k = (c + e) mod MAX_TASKS"
    "stops k ((c + e) mod MAX_TASKS)"
proof -
  let ?P = "\<lambda>e. 0 < e \<and> stops k ((c + e) mod MAX_TASKS)"
  let ?e = "LEAST e. ?P e"
  have e: "?P ?e" "?e \<le> d"
    using j d LeastI [of ?P d] Least_le [of ?P d] by auto
  have "next_task MAX_TASKS c k = (c + ?e) mod MAX_TASKS"
  proof (rule next_task_at)
    show "\<not> stops k ((c + e') mod MAX_TASKS)" if "0 < e'" "e' < ?e" for e'
      using not_less_Least [OF that(2)] that(1) by simp
  qed (use e d in auto)
  then show thesis
    using e that by blast
qed

lemma next_task_enough:
  assumes "current_task_idx k < MAX_TASKS" and "MAX_TASKS \<le> n"
  shows "next_task n (current_task_idx k) k = next_task MAX_TASKS (current_task_idx k) k"
proof -
  let ?c = "current_task_idx k"
  let ?P = "\<lambda>e. 0 < e \<and> stops k ((?c + e) mod MAX_TASKS)"
  let ?e = "LEAST e. ?P e"
  have "?P MAX_TASKS" using assms(1) by (simp add: stops_def MAX_TASKS_def)
  then have e: "?P ?e" "?e \<le> MAX_TASKS"
    using LeastI [of ?P MAX_TASKS] Least_le [of ?P MAX_TASKS] by auto
  have "next_task m ?c k = (?c + ?e) mod MAX_TASKS" if "MAX_TASKS \<le> m" for m
  proof (rule next_task_at)
    show "\<not> stops k ((?c + e') mod MAX_TASKS)" if "0 < e'" "e' < ?e" for e'
      using not_less_Least [OF that(2)] that(1) by simp
  qed (use e that in auto)
  with assms(2) show ?thesis by simp
qed

text \<open>Only kernel tasks compete for the CPU.\<close>

definition tasks_only :: "kernel \<Rightarrow> bool" where
  "tasks_only k \<longleftrightarrow> \<not> main_switch_requested k \<and> running_process k = None
     \<and> process_pick_ready None k = None
     \<and> length (tasks k) = MAX_TASKS \<and> current_task_idx k < MAX_TASKS"

lemma tick_tasks_only:
  fixes r :: u64
  assumes "tasks_only k" and "1 < task_count k"
  defines "k' \<equiv> snd (scheduler_tick r k)"
  shows "tasks_only k'" "1 < task_count k'" "tstatus k' i = tstatus k i"
    "current_task_idx k' = next_task MAX_TASKS (current_task_idx k) k"
proof -
  let ?k = "upd_task (current_task_idx k) (\<lambda>t. t\<lparr>tk_rsp := r\<rparr>) (k\<lparr>user_frame_valid := False\<rparr>)"
  have st: "tstatus ?k i = tstatus k i" for i
    using assms by (cases "i = current_task_idx k") (auto simp: tasks_only_def kdefs nth_list_update)
  have nt: "next_task n c k1 = next_task n c k"
    if "\<And>i. tstatus k1 i = tstatus k i" "current_task_idx k1 = current_task_idx k" for n c k1
    using that by (induction n arbitrary: c) (simp_all add: Let_def)
  have pick: "process_pick_ready None ?k = process_pick_ready None k"
    by (rule pick_ready_cong) (simp add: kdefs)
  have tick: "k' = snd (tick_tasks ?k)"
    using assms pick by (simp add: scheduler_tick_def tasks_only_def Let_def)
  have eq: "task_count ?k = task_count k" "current_task_idx ?k = current_task_idx k"
      "length (tasks ?k) = length (tasks k)"
    by (simp_all add: kdefs)
  have *: "tstatus (k1\<lparr>current_task_idx := c\<rparr>) i = tstatus k1 i"
    "tstatus (k1\<lparr>cpu_idle_ticks := w\<rparr>) i = tstatus k1 i"
    "tstatus (k1\<lparr>cpu_busy_ticks := w\<rparr>) i = tstatus k1 i" for k1 c w i
    by (simp_all add: tstatus_def)
  show status: "tstatus k' i = tstatus k i" for i
    using assms(1,2) st unfolding tick tick_tasks_def tasks_only_def Let_def by (simp add: *)
  show idx: "current_task_idx k' = next_task MAX_TASKS (current_task_idx k) k"
    using assms(1,2) st unfolding tick tick_tasks_def tasks_only_def Let_def
    by (auto simp: * eq intro!: nt)
  have "current_task_idx k' < MAX_TASKS"
    unfolding idx
    by (rule next_task_first [of k "current_task_idx k" MAX_TASKS])
      (use assms(1) in \<open>auto simp: stops_def tasks_only_def MAX_TASKS_def\<close>)
  moreover have "running_process k' = running_process k" "process_pick_ready None k' = process_pick_ready None k"
      "main_switch_requested k' = main_switch_requested k" "task_count k' = task_count k"
      "length (tasks k') = length (tasks k)"
    unfolding tick tick_tasks_def Let_def
    by (auto simp: running_process_def process_get_current_def kdefs intro: pick_ready_cong split: option.splits)
  ultimately show "tasks_only k'" "1 < task_count k'"
    using assms(1,2) by (simp_all add: tasks_only_def)
qed

text \<open>A run of ticks; each interrupts whatever runs with its own stack pointer.\<close>

fun ticks :: "u64 list \<Rightarrow> kernel \<Rightarrow> kernel" where
  "ticks [] k = k"
| "ticks (r # rs) k = ticks rs (snd (scheduler_tick r k))"

lemma ticks_reach:
  "tasks_only k \<Longrightarrow> 1 < task_count k \<Longrightarrow> j < MAX_TASKS \<Longrightarrow> tstatus k j \<noteq> TASK_DEAD \<Longrightarrow> d < MAX_TASKS \<Longrightarrow>
   (current_task_idx k + d) mod MAX_TASKS = j \<Longrightarrow> d \<le> length rs \<Longrightarrow>
   \<exists>n\<le>d. current_task_idx (ticks (take n rs) k) = j"
proof (induction d arbitrary: k rs rule: less_induct)
  case (less d)
  show ?case
  proof (cases "d = 0")
    case True
    then show ?thesis
      using less.prems by (auto simp: tasks_only_def)
  next
    case False
    then obtain r rs' where rs: "rs = r # rs'"
      using less.prems(7) by (cases rs) auto
    let ?k = "snd (scheduler_tick r k)"
    have "stops k j"
      using less.prems(4) by (cases "tstatus k j") (auto simp: stops_def)
    then obtain e where e: "0 < e" "e \<le> d"
        "next_task MAX_TASKS (current_task_idx k) k = (current_task_idx k + e) mod MAX_TASKS"
      using next_task_first [of k "current_task_idx k" d] less.prems(5,6) False
      by (metis less_imp_le neq0_conv)
    note tick = tick_tasks_only [OF less.prems(1,2), of r]
    have "(current_task_idx ?k + (d - e)) mod MAX_TASKS = (current_task_idx k + e + (d - e)) mod MAX_TASKS"
      unfolding tick(4) e(3) by (rule mod_add_left_eq)
    then have "(current_task_idx ?k + (d - e)) mod MAX_TASKS = j"
      using less.prems(6) e by simp
    then have "\<exists>n\<le>d - e. current_task_idx (ticks (take n rs') ?k) = j"
      using less.prems e tick(1-3) rs by (intro less.IH) auto
    then obtain n where "n \<le> d - e" "current_task_idx (ticks (take (Suc n) rs) k) = j"
      using rs by auto
    then show ?thesis
      using e by (intro exI [of _ "Suc n"]) auto
  qed
qed

text \<open>
  With one counted task left the tick does not look for it: it resumes the current task, dead
  or not.
\<close>

lemma single_task_not_found:
  assumes "tasks_only k" and "task_count k \<le> 1"
  shows "current_task_idx (snd (scheduler_tick r k)) = current_task_idx k
    \<and> fst (scheduler_tick r k) = r"
proof -
  let ?k = "upd_task (current_task_idx k) (\<lambda>t. t\<lparr>tk_rsp := r\<rparr>) (k\<lparr>user_frame_valid := False\<rparr>)"
  have "process_pick_ready None ?k = process_pick_ready None k"
    by (rule pick_ready_cong) (simp add: kdefs)
  then show ?thesis
    using assms by (simp add: scheduler_tick_def tick_tasks_def tasks_only_def Let_def kdefs)
qed

lemma task_exit_dead_recounts:
  assumes "current_task_idx k < MAX_TASKS" and "tstatus k (current_task_idx k) = TASK_DEAD"
    and "length (tasks k) = MAX_TASKS"
  shows "task_count (snd (task_exit k)) = task_count k - 1 \<and> tstatus (snd (task_exit k)) i = tstatus k i"
  using assms by (auto simp: task_exit_def kdefs nth_list_update)

section \<open>Accounting of tasks\<close>

definition live_tasks :: "kernel \<Rightarrow> nat set" where
  "live_tasks k = {i. i < MAX_TASKS \<and> tstatus k i \<noteq> TASK_DEAD}"

text \<open>
  The operations of the task table in any order. \<open>task_exit\<close> and \<open>scheduler_set_main_return\<close> are
  taken by a task that has not been killed.
\<close>

inductive task_reach :: "kernel \<Rightarrow> bool" where
  boot: "length (tasks k) = MAX_TASKS \<Longrightarrow> task_reach (scheduler_init k)"
| create: "task_reach k \<Longrightarrow> task_reach (snd (task_create entry name k))"
| create_bg: "task_reach k \<Longrightarrow> task_reach (snd (task_create_bg entry name k))"
| kill: "task_reach k \<Longrightarrow> task_reach (snd (task_kill i k))"
| exit: "task_reach k \<Longrightarrow> tstatus k (current_task_idx k) \<noteq> TASK_DEAD \<Longrightarrow> task_reach (snd (task_exit k))"
| main_return: "task_reach k \<Longrightarrow> tstatus k 0 \<noteq> TASK_DEAD \<Longrightarrow> task_reach (scheduler_set_main_return e k)"
| tick: "task_reach k \<Longrightarrow> task_reach (snd (scheduler_tick r k))"
| processes: "task_reach k \<Longrightarrow> tasks k' = tasks k \<Longrightarrow> task_count k' = task_count k \<Longrightarrow>
    current_task_idx k' = current_task_idx k \<Longrightarrow> task_reach k'"

definition task_inv :: "kernel \<Rightarrow> bool" where
  "task_inv k \<longleftrightarrow> length (tasks k) = MAX_TASKS \<and> current_task_idx k < MAX_TASKS
     \<and> task_count k = int (card (live_tasks k))"

lemma live_tasks_finite [simp]: "finite (live_tasks k)"
  by (simp add: live_tasks_def)

lemma push_word_fold:
  "tasks (snd (fold push_word ws (sp, k))) = tasks k
   \<and> task_count (snd (fold push_word ws (sp, k))) = task_count k
   \<and> current_task_idx (snd (fold push_word ws (sp, k))) = current_task_idx k"
  by (induction ws arbitrary: sp k) (simp_all add: push_word_def)

lemma setup_task_stack_frame:
  assumes "i < length (tasks k)"
  shows "tstatus (setup_task_stack i e k) j = tstatus k j"
    "length (tasks (setup_task_stack i e k)) = length (tasks k)"
    "task_count (setup_task_stack i e k) = task_count k"
    "current_task_idx (setup_task_stack i e k) = current_task_idx k"
proof -
  let ?top = "(tk_stack (tasks k ! i) + TASK_STACK_SIZE) AND NOT 0xF"
  obtain sp k1 where f: "fold push_word (task_frame ?top e) (?top, k) = (sp, k1)"
    by fastforce
  have k1: "tasks k1 = tasks k" "task_count k1 = task_count k" "current_task_idx k1 = current_task_idx k"
    using push_word_fold [of "task_frame ?top e" ?top k] unfolding f by simp_all
  have eq: "setup_task_stack i e k = upd_task i (\<lambda>t. t\<lparr>tk_rsp := sp\<rparr>) k1"
    unfolding setup_task_stack_def Let_def f by simp
  show "tstatus (setup_task_stack i e k) j = tstatus k j"
    "length (tasks (setup_task_stack i e k)) = length (tasks k)"
    "task_count (setup_task_stack i e k) = task_count k"
    "current_task_idx (setup_task_stack i e k) = current_task_idx k"
    unfolding eq using assms k1 by (auto simp: kdefs nth_list_update)
qed

lemma tstatus_upd:
  "i < length (tasks k) \<Longrightarrow>
   tstatus (upd_task i f k) j = (if j = i then tk_status (f (tasks k ! i)) else tstatus k j)"
  by (auto simp: kdefs)

lemma tick_user_frame:
  "length (tasks (snd (tick_user r u k))) = length (tasks k)"
  "task_count (snd (tick_user r u k)) = task_count k"
  "current_task_idx (snd (tick_user r u k)) \<in> {0, current_task_idx k}"
  by (auto simp: tick_user_def Let_def kdefs split: option.splits)

lemma tick_user_status: "0 < length (tasks k) \<Longrightarrow> tstatus (snd (tick_user r u k)) j = tstatus k j"
  by (auto simp: tick_user_def Let_def kdefs nth_list_update split: option.splits)

lemma fold_dead:
  "\<forall>j\<in>set js. j < length (tasks k) \<Longrightarrow>
   (let k' = fold (\<lambda>i. upd_task i (\<lambda>t. t\<lparr>tk_status := TASK_DEAD\<rparr>)) js k in
    (\<forall>j. tstatus k' j = (if j \<in> set js then TASK_DEAD else tstatus k j))
    \<and> length (tasks k') = length (tasks k) \<and> task_count k' = task_count k
    \<and> current_task_idx k' = current_task_idx k)"
proof (induction js arbitrary: k)
  case (Cons i js)
  let ?k = "upd_task i (\<lambda>t. t\<lparr>tk_status := TASK_DEAD\<rparr>) k"
  have fr: "length (tasks ?k) = length (tasks k)" "task_count ?k = task_count k"
      "current_task_idx ?k = current_task_idx k"
    by (simp_all add: upd_task_def)
  have "tstatus ?k j = (if j = i then TASK_DEAD else tstatus k j)" for j
    using Cons.prems by (subst tstatus_upd) auto
  then show ?case
    using Cons.IH [of ?k] Cons.prems fr by (auto simp: Let_def)
qed (simp add: Let_def)

lemma task_inv_init:
  assumes "length (tasks k) = MAX_TASKS"
  shows "task_inv (scheduler_init k)"
proof -
  let ?k = "upd_task 0 (\<lambda>t. t\<lparr>tk_status := TASK_READY, tk_rsp := 0, tk_name := ''kernel_main''\<rparr>)
              (k\<lparr>task_count := 1, current_task_idx := 0\<rparr>)"
  have "length (tasks ?k) = MAX_TASKS" "tstatus ?k 0 = TASK_READY"
    using assms by (auto simp: kdefs MAX_TASKS_def)
  moreover note fold_dead [of "[1..<MAX_TASKS]" ?k]
  ultimately have "live_tasks (scheduler_init k) = {0}"
    by (auto simp: live_tasks_def scheduler_init_def Let_def MAX_TASKS_def split: if_splits)
  then show ?thesis
    using fold_dead [of "[1..<MAX_TASKS]" ?k] \<open>length (tasks ?k) = MAX_TASKS\<close>
    by (simp add: task_inv_def scheduler_init_def Let_def upd_task_def MAX_TASKS_def)
qed

lemma task_inv_same:
  "task_inv k \<Longrightarrow> length (tasks k') = length (tasks k) \<Longrightarrow> current_task_idx k' < MAX_TASKS \<Longrightarrow>
   task_count k' = task_count k \<Longrightarrow> (\<And>i. i < MAX_TASKS \<Longrightarrow> tstatus k' i = tstatus k i) \<Longrightarrow> task_inv k'"
  unfolding task_inv_def live_tasks_def
  by (metis (mono_tags, lifting) Collect_cong)

lemma task_inv_dead:
  assumes "task_inv k" and "i < MAX_TASKS" and "tstatus k i \<noteq> TASK_DEAD"
  shows "task_inv ((upd_task i (\<lambda>t. t\<lparr>tk_status := TASK_DEAD\<rparr>) k)\<lparr>task_count := task_count k - 1\<rparr>)"
proof -
  let ?k = "(upd_task i (\<lambda>t. t\<lparr>tk_status := TASK_DEAD\<rparr>) k)\<lparr>task_count := task_count k - 1\<rparr>"
  have "tstatus ?k j = (if j = i then TASK_DEAD else tstatus k j)" for j
    using tstatus_upd [of i k _ j] assms by (simp add: tstatus_def task_inv_def)
  then have "live_tasks ?k = live_tasks k - {i}"
    by (auto simp: live_tasks_def split: if_splits)
  moreover have "i \<in> live_tasks k"
    using assms by (simp add: live_tasks_def)
  moreover from this have "0 < card (live_tasks k)"
    by (auto simp: card_gt_0_iff)
  ultimately show ?thesis
    using assms(1) by (simp add: task_inv_def upd_task_def of_nat_diff)
qed

lemma task_create_effect:
  assumes "task_inv k"
  shows "task_inv (snd (task_create entry name k))"
    "0 \<le> fst (task_create entry name k) \<Longrightarrow> nat (fst (task_create entry name k)) < MAX_TASKS"
proof -
  let ?f = "List.find (\<lambda>i. tstatus k i = TASK_DEAD) [1..<MAX_TASKS]"
  have "task_inv (snd (task_create entry name k))
      \<and> (0 \<le> fst (task_create entry name k) \<longrightarrow> nat (fst (task_create entry name k)) < MAX_TASKS)"
  proof (cases "entry = 0 \<or> name = None \<or> ?f = None")
    case True
    then show ?thesis
      using assms by (auto simp: task_create_def split: option.splits)
  next
    case False
    then obtain i nm where i: "?f = Some i" "name = Some nm" "entry \<noteq> 0"
      by auto
    then have dead: "i < MAX_TASKS" "tstatus k i = TASK_DEAD"
      by (auto simp: find_Some_iff)
    let ?k1 = "upd_task i (\<lambda>t. t\<lparr>tk_status := TASK_READY, tk_name := nm, tk_background := False\<rparr>) k"
    let ?k2 = "setup_task_stack i entry ?k1"
    have len: "i < length (tasks ?k1)" "length (tasks ?k1) = MAX_TASKS"
      using assms dead by (simp_all add: upd_task_def task_inv_def)
    have st: "tstatus (?k2\<lparr>task_count := c\<rparr>) j = (if j = i then TASK_READY else tstatus k j)" for j c
      using setup_task_stack_frame(1) [OF len(1), of entry j] tstatus_upd [of i k _ j] assms dead
      by (simp add: tstatus_def task_inv_def)
    have "live_tasks (?k2\<lparr>task_count := c\<rparr>) = insert i (live_tasks k)" for c
      using dead by (auto simp: live_tasks_def st split: if_splits)
    moreover have "i \<notin> live_tasks k"
      using dead by (simp add: live_tasks_def)
    moreover have "task_create entry name k = (int i, ?k2\<lparr>task_count := task_count ?k2 + 1\<rparr>)"
      using i by (simp add: task_create_def Let_def)
    ultimately show ?thesis
      using assms dead len setup_task_stack_frame(2-4) [OF len(1), of entry]
      by (simp add: task_inv_def upd_task_def)
  qed
  then show "task_inv (snd (task_create entry name k))"
    "0 \<le> fst (task_create entry name k) \<Longrightarrow> nat (fst (task_create entry name k)) < MAX_TASKS"
    by auto
qed

lemma next_task_bound: "c < MAX_TASKS \<Longrightarrow> next_task n c k < MAX_TASKS"
  by (induction n arbitrary: c) (simp_all add: Let_def MAX_TASKS_def)

lemma tick_tasks_inv: "task_inv k \<Longrightarrow> task_inv (snd (tick_tasks k))"
  by (rule task_inv_same [of k])
    (auto simp: tick_tasks_def Let_def task_inv_def tstatus_def intro!: next_task_bound)

lemma switch_to_tasks:
  "tasks (switch_to p k) = tasks k" "task_count (switch_to p k) = task_count k"
  "current_task_idx (switch_to p k) = current_task_idx k"
  by (auto simp: kdefs split: option.splits)

lemma tick_inv:
  assumes "task_inv k"
  shows "task_inv (snd (scheduler_tick r k))"
proof -
  let ?k = "upd_task (current_task_idx k) (\<lambda>t. t\<lparr>tk_rsp := r\<rparr>) (k\<lparr>user_frame_valid := False\<rparr>)"
  have main: "task_inv (k\<lparr>main_switch_requested := False, user_frame_valid := False, current_task_idx := 0\<rparr>)"
    by (rule task_inv_same [OF assms]) (auto simp: tstatus_def MAX_TASKS_def)
  have user: "task_inv (snd (tick_user r u k))" for u
    by (rule task_inv_same [OF assms])
      (use assms tick_user_frame [of r u k] in \<open>auto simp: tick_user_status task_inv_def MAX_TASKS_def\<close>)
  have saved: "task_inv ?k"
    by (rule task_inv_same [OF assms])
      (use assms in \<open>auto simp: task_inv_def kdefs nth_list_update\<close>)
  have "task_inv (switch_to w ?k)" for w
    by (rule task_inv_same [OF saved])
      (use saved in \<open>auto simp: switch_to_tasks task_inv_def tstatus_def\<close>)
  then show ?thesis
    using main user saved tick_tasks_inv [OF saved]
    by (auto simp: scheduler_tick_def Let_def upd_task_def split: option.splits)
qed

lemma task_reach_inv: "task_reach k \<Longrightarrow> task_inv k"
proof (induction rule: task_reach.induct)
  case (create_bg k entry name)
  then show ?case
    using task_create_effect [of k entry name]
    by (auto simp: task_create_bg_def upd_task_def task_inv_def live_tasks_def kdefs nth_list_update
        split: prod.splits intro!: arg_cong [where f = card])
next
  case (kill k i)
  then show ?case
    using task_inv_dead [of k "nat i"] by (auto simp: task_kill_def)
next
  case (exit k)
  then show ?case
    using task_inv_dead [of k "current_task_idx k"] by (simp add: task_exit_def task_inv_def)
next
  case (main_return k e)
  then have "0 < length (tasks k)"
    by (simp add: task_inv_def MAX_TASKS_def)
  note fr = setup_task_stack_frame [OF this, of e]
  have "tstatus (scheduler_set_main_return e k) j = (if j = 0 then TASK_READY else tstatus k j)" for j
    using fr \<open>0 < length (tasks k)\<close> by (simp add: scheduler_set_main_return_def tstatus_upd)
  then have "live_tasks (scheduler_set_main_return e k) = live_tasks k"
    using main_return.hyps(2) by (auto simp: live_tasks_def split: if_splits)
  then show ?case
    using main_return.IH fr by (simp add: scheduler_set_main_return_def task_inv_def upd_task_def)
next
  case (processes k k')
  then show ?case
    by (simp add: task_inv_def live_tasks_def tstatus_def)
qed (auto intro: task_inv_init task_create_effect tick_inv)

lemma wq_push_same: "same_procs k (wq_push wq p k)"
  by (auto simp: wq_push_def Let_def split: option.split intro!: same_procs_intros)

lemma wq_push_all_same: "same_procs k (fold (wq_push wq) ps k)"
  by (induction ps arbitrary: k) (auto intro: same_procs_trans wq_push_same)

lemma woken_same: "same_procs k k1 \<Longrightarrow> woken ys k1 k' \<longleftrightarrow> woken ys k k'"
  by (simp add: woken_def same_procs_field)

lemma blocked_in_same: "same_procs k k1 \<Longrightarrow> blocked_in k1 ys = blocked_in k ys"
  by (simp add: blocked_in_def same_procs_field)

section \<open>A small machine\<close>

definition sample_process :: "process_state \<Rightarrow> u64 \<Rightarrow> process" where
  "sample_process s rsp = \<lparr>p_pid = 1, p_tid = 1, p_is_thread = False, p_state = s, p_mm = None,
     p_kernel_stack = 0x9000, p_fs_base = 0, p_parked_rsp = rsp, p_parent_pid = 0, p_wait_pid = 0,
     p_wait_status_ptr = 0, p_wait_next = None, p_parked_frame = 0x5000, p_fpu = [rsp]\<rparr>"

definition sample_task :: "task_status \<Rightarrow> u64 \<Rightarrow> task" where
  "sample_task s rsp = \<lparr>tk_rsp = rsp, tk_status = s, tk_name = ''t'', tk_stack = 0x70000, tk_background = False\<rparr>"

definition sample_timer :: "bool \<Rightarrow> u64 \<Rightarrow> u64 \<Rightarrow> wait_timer" where
  "sample_timer u d r = \<lparr>tm_used = u, tm_deadline_us = d, tm_wq = 0, tm_kind = WAIT_COMPLETE, tm_ret = r\<rparr>"

definition sample_kernel :: kernel where
  "sample_kernel = \<lparr>processes = (\<lambda>i. sample_process PROCESS_STATE_UNUSED 0), current_process = None,
     queues = (\<lambda>_. \<lparr>wq_head = None, wq_tail = None\<rparr>), timers = replicate WAIT_TIMERS (sample_timer False 0 0),
     tasks = replicate MAX_TASKS (sample_task TASK_DEAD 0), task_count = 0, current_task_idx = 0,
     user_frame = 0, user_frame_valid = False, main_switch_requested = False, cpu_busy_ticks = 0,
     cpu_idle_ticks = 0, kernel_heartbeat = 0,
     the_cpu = \<lparr>cpu_fpu = [7], cpu_fs_base = 0, cpu_rsp0 = 0, cpu_syscall_rsp = 0, cpu_cr3 = 0\<rparr>,
     kmem = (\<lambda>_. 0)\<rparr>"

section \<open>Properties\<close>

text \<open>C17. Wait queues are first in, first out. When processes have queued on an empty queue,
  \<open>wait_wake\<close> returns, takes a prefix of them off in the order they queued, makes exactly the
  blocked ones of that prefix ready with their frames untouched, at most \<open>max\<close> of them, and stops
  early only when the queue is empty; a negative \<open>max\<close> empties the queue.\<close>

theorem wait_wake_fifo:
  assumes "wq_rep wq k []" and "distinct ps"
  shows "\<exists>k' ys zs. wait_wake wq mx (fold (wq_push wq) ps k) = Some k' \<and> ps = ys @ zs
    \<and> wq_rep wq k' zs \<and> woken ys k k' \<and> kmem k' = kmem k \<and> (mx < 0 \<longrightarrow> zs = [])
    \<and> (0 \<le> mx \<longrightarrow> blocked_in k ys \<le> mx \<and> (zs = [] \<or> blocked_in k ys = mx))"
proof -
  let ?k = "fold (wq_push wq) ps k"
  have "wq_rep wq ?k ([] @ ps)"
    by (rule wq.push_all) (use assms in auto)
  then show ?thesis
    using wait_wake_loop_spec [of wq ?k ps mx 0] wq_push_all_same [of k wq ps]
    by (simp add: wait_wake_def woken_same blocked_in_same same_procs_field)
qed

definition all_blocked :: kernel where
  "all_blocked = sample_kernel\<lparr>processes := (\<lambda>i. sample_process PROCESS_STATE_BLOCKED 0x5000)\<rparr>"

lemma wait_wake_fifo_witness:
  "\<exists>k'. wait_wake 0 (- 1) (wq_push 0 5 (wq_push 0 3 all_blocked)) = Some k'
    \<and> wq_rep 0 k' [] \<and> woken [3, 5] all_blocked k'"
proof -
  have "wq_rep 0 all_blocked []"
    by (simp add: all_blocked_def sample_kernel_def wq_rep_def)
  from wait_wake_fifo [OF this, of "[3, 5]" "- 1"] show ?thesis
    by auto
qed

text \<open>C30. When one wake timer has expired, \<open>wait_timers_poll\<close> returns and wakes the first blocked
  process of the timer's queue, with the timer's return value in its frame. No other process is
  woken, whoever armed the timer: a short sleeper behind a long one on the same queue stays
  blocked and the long one is woken early.\<close>

theorem wait_timers_poll_first:
  assumes len: "length (timers k) = WAIT_TIMERS" "i < WAIT_TIMERS" and due: "timer_due now k i"
    and others: "\<forall>j<WAIT_TIMERS. j \<noteq> i \<longrightarrow> \<not> timer_due now k j"
    and rep: "wq_rep (tm_wq (timers k ! i)) k (ys @ p # zs)"
    and ys: "\<forall>y\<in>set ys. pstate k y \<noteq> PROCESS_STATE_BLOCKED"
    and p: "pstate k p = PROCESS_STATE_BLOCKED"
  shows "\<exists>k'. wait_timers_poll now k = Some k' \<and> wq_rep (tm_wq (timers k ! i)) k' (ys @ zs)
    \<and> pstate k' p = PROCESS_STATE_READY \<and> (\<forall>q. q \<noteq> p \<longrightarrow> pstate k' q = pstate k q)
    \<and> (tm_kind (timers k ! i) = WAIT_COMPLETE \<and> p_parked_rsp (processes k p) \<noteq> 0
         \<longrightarrow> qw k' (p_parked_rsp (processes k p)) IRQ_RAX = tm_ret (timers k ! i))"
proof -
  have "i < length (timers k)"
    using len by simp
  from timer_expire_first [OF this due rep ys p] obtain k' where k':
    "timer_expire now i k = Some k'" "timers k' = (timers k)[i := (timers k ! i)\<lparr>tm_used := False\<rparr>]"
    and rest: "wq_rep (tm_wq (timers k ! i)) k' (ys @ zs)" "pstate k' p = PROCESS_STATE_READY"
    "\<forall>q. q \<noteq> p \<longrightarrow> pstate k' q = pstate k q"
    "tm_kind (timers k ! i) = WAIT_COMPLETE \<and> p_parked_rsp (processes k p) \<noteq> 0
         \<longrightarrow> qw k' (p_parked_rsp (processes k p)) IRQ_RAX = tm_ret (timers k ! i)"
    by blast
  have split: "[0..<WAIT_TIMERS] = [0..<i] @ i # [Suc i..<WAIT_TIMERS]"
    using len(2) upt_add_eq_append [of 0 i "WAIT_TIMERS - i"] by (simp add: upt_conv_Cons)
  have pre: "fold (\<lambda>i r. Option.bind r (timer_expire now i)) [0..<i] (Some k) = Some k"
    by (rule timers_idle) (use others len in auto)
  have post: "fold (\<lambda>i r. Option.bind r (timer_expire now i)) [Suc i..<WAIT_TIMERS] (Some k') = Some k'"
    by (rule timers_idle) (use others len k'(2) in \<open>auto simp: timer_due_def\<close>)
  have "wait_timers_poll now k = Some k'"
    unfolding wait_timers_poll_def split using pre post k'(1) by simp
  then show ?thesis
    using rest by blast
qed

definition two_sleepers :: kernel where
  "two_sleepers = sample_kernel\<lparr>
     processes := (\<lambda>i. sample_process PROCESS_STATE_BLOCKED 0x5000)
       (0 := (sample_process PROCESS_STATE_BLOCKED 0x5000)\<lparr>p_wait_next := Some 1\<rparr>),
     queues := (\<lambda>_. \<lparr>wq_head = Some 0, wq_tail = Some 1\<rparr>),
     timers := (replicate WAIT_TIMERS (sample_timer False 0 0))
       [0 := sample_timer True 10000000 0, 1 := sample_timer True 1000000 0]\<rparr>"

lemma wait_timers_poll_first_witness:
  "\<exists>k'. wait_timers_poll 1000000 two_sleepers = Some k' \<and> pstate k' 0 = PROCESS_STATE_READY
     \<and> pstate k' 1 = PROCESS_STATE_BLOCKED"
proof -
  have "timer_due 1000000 two_sleepers j \<longleftrightarrow> j = 1" if "j < WAIT_TIMERS" for j
    using that
    by (cases "j = 0 \<or> j = 1")
      (auto simp: timer_due_def two_sleepers_def sample_timer_def WAIT_TIMERS_def nth_list_update)
  moreover have "wq_rep 0 two_sleepers ([] @ 0 # [1])"
    by (simp add: two_sleepers_def wq_rep_def wait_next_of_def sample_process_def)
  moreover have "tm_wq (timers two_sleepers ! 1) = 0" "length (timers two_sleepers) = WAIT_TIMERS"
    "pstate two_sleepers q = PROCESS_STATE_BLOCKED" for q
    by (simp_all add: two_sleepers_def sample_timer_def sample_process_def pstate_def WAIT_TIMERS_def)
  ultimately show ?thesis
    using wait_timers_poll_first [of two_sleepers 1 1000000 "[]" 0 "[1]"]
    by (auto simp: WAIT_TIMERS_def)
qed

text \<open>C18. Two ticks share the CPU between a running user process and the kernel main task. The first
  saves the interrupted process (its frame and its FPU image) and resumes the kernel main task. The
  second saves the main task and either resumes the process where it was interrupted, or, when
  another process is ready, leaves the first one ready with its frame and FPU image parked and
  resumes the other one at its parked frame with its whole CPU context installed.\<close>

theorem scheduler_timeslice:
  assumes "\<not> main_switch_requested k" and "running_process k = Some u" and "\<not> user_frame_valid k"
    and "0 < length (tasks k)"
  shows "let (main_rsp, k1) = scheduler_tick rsp k; (next_rsp, k2) = scheduler_tick rsp' k1 in
    main_rsp = tk_rsp (tasks k ! 0) \<and> current_task_idx k1 = 0 \<and> tk_rsp (tasks k2 ! 0) = rsp'
    \<and> (case process_pick_ready (Some u) k of
         None \<Rightarrow> next_rsp = rsp \<and> current_process k2 = Some u \<and> cpu_fpu (the_cpu k2) = cpu_fpu (the_cpu k)
       | Some nx \<Rightarrow> next_rsp = p_parked_rsp (processes k nx) \<and> cpu_in nx k2
           \<and> pstate k2 u = PROCESS_STATE_READY \<and> p_parked_rsp (processes k2 u) = rsp
           \<and> p_fpu (processes k2 u) = cpu_fpu (the_cpu k))"
proof -
  have u: "current_process k = Some u" "pstate k u = PROCESS_STATE_RUNNING"
    using assms(2) by (auto simp: running_process_def process_get_current_def split: option.splits if_splits)
  let ?k1 = "(fpu_save u k)\<lparr>user_frame := rsp, user_frame_valid := True, current_task_idx := 0\<rparr>"
  have t1: "scheduler_tick rsp k = (tk_rsp (tasks k ! 0), ?k1)"
    using assms by (simp add: scheduler_tick_def tick_user_def Let_def kdefs)
  have r1: "running_process ?k1 = Some u" "\<not> main_switch_requested ?k1" "user_frame_valid ?k1"
    using u assms(1) by (simp_all add: running_process_def process_get_current_def kdefs)
  let ?k2 = "(upd_task 0 (\<lambda>t. t\<lparr>tk_rsp := rsp'\<rparr>) ?k1)\<lparr>user_frame_valid := False\<rparr>"
  have pick: "process_pick_ready (Some u) ?k2 = process_pick_ready (Some u) k"
    by (rule pick_ready_cong) (auto simp: kdefs)
  have t2: "scheduler_tick rsp' ?k1 = tick_user rsp' u ?k1"
    using r1 by (simp add: scheduler_tick_def)
  show ?thesis
  proof (cases "process_pick_ready (Some u) k")
    case None
    then show ?thesis
      unfolding t1 Let_def prod.case t2 using r1(3) pick assms(4) u
      by (simp add: tick_user_def Let_def kdefs)
  next
    case (Some nx)
    then have "nx \<noteq> u"
      using pick_ready_facts by blast
    then show ?thesis
      unfolding t1 Let_def prod.case t2 using r1(3) pick assms(4) u Some
      by (auto simp: tick_user_def Let_def cpu_in_def kdefs split: option.splits)
  qed
qed

definition two_processes :: kernel where
  "two_processes = sample_kernel\<lparr>
     processes := (\<lambda>i. sample_process PROCESS_STATE_UNUSED 0)
       (0 := sample_process PROCESS_STATE_RUNNING 0, 1 := sample_process PROCESS_STATE_READY 0x6000),
     current_process := Some 0,
     tasks := (replicate MAX_TASKS (sample_task TASK_DEAD 0))[0 := sample_task TASK_READY 0x3000]\<rparr>"

lemma scheduler_timeslice_witness:
  "let (main_rsp, k1) = scheduler_tick 0x7000 two_processes; (next_rsp, k2) = scheduler_tick 0x3100 k1 in
     main_rsp = 0x3000 \<and> next_rsp = 0x6000 \<and> p_parked_rsp (processes k2 0) = 0x7000"
proof -
  have pick: "process_pick_ready (Some 0) two_processes = Some 1"
    by (simp add: process_pick_ready_def find_proc_def MAX_PROCESSES_def upt_conv_Cons pstate_def
        two_processes_def sample_process_def)
  have "\<not> main_switch_requested two_processes" "running_process two_processes = Some 0"
    "\<not> user_frame_valid two_processes" "0 < length (tasks two_processes)"
    "tk_rsp (tasks two_processes ! 0) = 0x3000" "p_parked_rsp (processes two_processes 1) = 0x6000"
    by (simp_all add: two_processes_def sample_kernel_def running_process_def process_get_current_def
        pstate_def sample_process_def sample_task_def MAX_TASKS_def)
  then show ?thesis
    using scheduler_timeslice [of two_processes 0 "0x7000" "0x3100"] pick by (auto simp: Let_def split: prod.splits)
qed

text \<open>C20. The round robin starves no kernel task. While no user process wants the CPU, no switch to
  the main task is requested and \<open>task_count\<close> is at least two, every task that is not dead becomes
  the current one within fifteen ticks, whatever the other tasks do with their stacks. (With a count
  of one the tick only resumes the current task, \<open>single_task_not_found\<close>.)\<close>

theorem scheduler_no_starvation:
  assumes "tasks_only k" and "1 < task_count k" and "j < MAX_TASKS" and "tstatus k j \<noteq> TASK_DEAD" and "15 \<le> length rs"
  shows "\<exists>n\<le>15. current_task_idx (ticks (take n rs) k) = j"
proof -
  let ?c = "current_task_idx k"
  let ?d = "(j + MAX_TASKS - ?c) mod MAX_TASKS"
  have c: "?c < MAX_TASKS"
    using assms(1) by (simp add: tasks_only_def)
  have "(?c + ?d) mod MAX_TASKS = (?c + (j + MAX_TASKS - ?c)) mod MAX_TASKS"
    by (rule mod_add_right_eq)
  also have "\<dots> = j"
    using c assms(3) by simp
  finally have "(?c + ?d) mod MAX_TASKS = j" .
  moreover have "?d \<le> 15" "?d < MAX_TASKS"
    by (simp_all add: MAX_TASKS_def)
  ultimately show ?thesis
    using ticks_reach [of k j ?d rs] assms by (meson order_trans)
qed

definition three_tasks :: kernel where
  "three_tasks = sample_kernel\<lparr>tasks := (replicate MAX_TASKS (sample_task TASK_DEAD 0))
     [0 := sample_task TASK_READY 0x3000, 4 := sample_task TASK_READY 0x4000,
      9 := sample_task TASK_READY 0x5000], task_count := 3\<rparr>"

lemma scheduler_no_starvation_witness:
  "tasks_only three_tasks \<and> (\<exists>n\<le>15. current_task_idx (ticks (take n (replicate 20 0x100)) three_tasks) = 9)"
proof -
  have "find_proc (\<lambda>i. False) = None"
    by (simp add: find_proc_def find_None_iff)
  then have "tasks_only three_tasks"
    by (simp add: tasks_only_def three_tasks_def sample_kernel_def running_process_def
        process_get_current_def process_pick_ready_def pstate_def sample_process_def MAX_TASKS_def)
  moreover have "tstatus three_tasks 9 \<noteq> TASK_DEAD" "1 < task_count three_tasks"
    by (simp_all add: three_tasks_def tstatus_def sample_task_def MAX_TASKS_def)
  ultimately show ?thesis
    using scheduler_no_starvation [of three_tasks 9 "replicate 20 0x100"] by (auto simp: MAX_TASKS_def)
qed

text \<open>C31. Whatever sequence of task creations, kills, exits, main returns and ticks runs, as long as a
  task that exits has not been killed before and task 0 is not dead when its return address is set,
  \<open>task_count\<close> is the number of tasks that are not dead and the current index is inside the table.
  (An exit of a dead task is counted again, \<open>task_exit_dead_recounts\<close>.)\<close>

theorem task_count_exact:
  assumes "task_reach k"
  shows "task_get_count k = int (card {i. i < MAX_TASKS \<and> task_get_status (int i) k \<noteq> TASK_DEAD})
    \<and> current_task_idx k < MAX_TASKS"
  using task_reach_inv [OF assms]
  by (auto simp: task_inv_def task_get_count_def task_get_status_def live_tasks_def intro!: arg_cong [where f = card])

lemma task_count_exact_witness:
  "task_get_count (snd (task_create 0x1000 (Some ''a'') (scheduler_init sample_kernel))) =
     int (card {i. i < MAX_TASKS \<and> task_get_status (int i)
       (snd (task_create 0x1000 (Some ''a'') (scheduler_init sample_kernel))) \<noteq> TASK_DEAD})"
proof -
  have "task_reach (snd (task_create 0x1000 (Some ''a'') (scheduler_init sample_kernel)))"
    by (intro task_reach.create task_reach.boot) (simp add: sample_kernel_def MAX_TASKS_def)
  from task_count_exact [OF this] show ?thesis
    by simp
qed

end
