(* ===== verification/Net_Base.thy ===== *)
theory Net_Base
  imports Kernel_Prelude
begin

unbundle bit_operations_syntax

text \<open>
  The lower half of the network stack: byte order and header fields (\<open>include/net/netif.h\<close>), the
  Internet checksum and the sending side of IPv4 (\<open>src/kernel/net/ipv4.c\<close>), Ethernet framing
  (\<open>src/kernel/net/ethernet.c\<close>), address resolution (\<open>src/kernel/net/arp.c\<close>) and the interface
  (\<open>src/kernel/net/netif.c\<close>). Packets are byte lists. The network card is the pair of driver hooks
  of \<open>netif_t\<close>: \<open>send\<close> is a field of the state, \<open>poll\<close> an argument \<open>drv\<close> of the operations that
  may poll. Time is the field \<open>uptime\<close>, which \<open>pit_delay_ms\<close> advances.
\<close>

section \<open>Bytes and byte order\<close>

definition NET_MTU :: nat where "NET_MTU = 1500"
definition NET_MAX_PACKET :: nat where "NET_MAX_PACKET = 2048"
definition ETH_HDR_LEN :: nat where "ETH_HDR_LEN = 14"
definition ETH_TYPE_ARP :: u16 where "ETH_TYPE_ARP = 0x0806"
definition ETH_TYPE_IP :: u16 where "ETH_TYPE_IP = 0x0800"
definition IP_PROTO_ICMP :: u8 where "IP_PROTO_ICMP = 1"
definition IP_PROTO_TCP :: u8 where "IP_PROTO_TCP = 6"
definition IP_PROTO_UDP :: u8 where "IP_PROTO_UDP = 17"

definition net_htons :: "u16 \<Rightarrow> u16" where
  "net_htons v = drop_bit 8 v OR push_bit 8 (v AND 0xFF)"

definition net_htonl :: "u32 \<Rightarrow> u32" where
  "net_htonl v = (drop_bit 24 v AND 0xFF) OR (drop_bit 8 v AND 0xFF00)
     OR (push_bit 8 v AND 0xFF0000) OR (push_bit 24 v AND 0xFF000000)"

text \<open>Little-endian stores and loads of packed header fields.\<close>

definition st16 :: "u16 \<Rightarrow> u8 list" where
  "st16 v = [ucast v, ucast (drop_bit 8 v)]"

definition st32 :: "u32 \<Rightarrow> u8 list" where
  "st32 v = [ucast v, ucast (drop_bit 8 v), ucast (drop_bit 16 v), ucast (drop_bit 24 v)]"

definition ld16 :: "u8 list \<Rightarrow> nat \<Rightarrow> u16" where
  "ld16 b i = ucast (b ! i) OR push_bit 8 (ucast (b ! (i + 1)))"

definition ld32 :: "u8 list \<Rightarrow> nat \<Rightarrow> u32" where
  "ld32 b i = ucast (b ! i) OR push_bit 8 (ucast (b ! (i + 1)))
     OR push_bit 16 (ucast (b ! (i + 2))) OR push_bit 24 (ucast (b ! (i + 3)))"

section \<open>The Internet checksum\<close>

fun checksum_sum :: "u8 list \<Rightarrow> u32 \<Rightarrow> u32" where
  "checksum_sum [] s = s"
| "checksum_sum [b] s = s + ucast b"
| "checksum_sum (b # c # bs) s = checksum_sum bs (s + (ucast b OR push_bit 8 (ucast c)))"

lemma unat_and_ffff: "unat (w AND 0xFFFF :: u32) = unat w mod 65536"
proof -
  have "w AND 0xFFFF = take_bit 16 w"
    by (simp add: take_bit_eq_mask mask_eq_exp_minus_1)
  then show ?thesis
    by (simp add: unsigned_take_bit_eq take_bit_eq_mod unat_mod)
qed

lemma unat_drop_16: "unat (drop_bit 16 w :: u32) = unat w div 65536"
  by (simp add: drop_bit_eq_div unat_div)

lemma fold_step:
  "unat ((w AND 0xFFFF) + drop_bit 16 w :: u32) = unat w mod 65536 + unat w div 65536"
proof -
  have "unat w div 65536 < 65536"
    by (rule less_mult_imp_div_less) (use unsigned_less [of w, where ?'a = nat] in simp)
  moreover have "unat w mod 65536 < 65536"
    by simp
  ultimately have "unat w mod 65536 + unat w div 65536 < 4294967296"
    by linarith
  then show ?thesis
    by (simp only: unat_word_ariths unat_and_ffff unat_drop_16) simp
qed

function fold16 :: "u32 \<Rightarrow> u32" where
  "fold16 s = (if drop_bit 16 s \<noteq> 0 then fold16 ((s AND 0xFFFF) + drop_bit 16 s) else s)"
  by pat_completeness auto
termination
proof (relation "measure unat")
  fix s :: u32
  assume "drop_bit 16 s \<noteq> 0"
  then have "unat s div 65536 \<noteq> 0"
    by (metis unat_drop_16 unsigned_0 unsigned_word_eqI)
  then have "unat s mod 65536 + unat s div 65536 < unat s"
    using div_mult_mod_eq [of "unat s" 65536] by linarith
  then show "((s AND 0xFFFF) + drop_bit 16 s, s) \<in> measure unat"
    by (simp add: fold_step)
qed simp

declare fold16.simps [simp del]

text \<open>
  The 16-bit counter of \<open>ip_checksum\<close> wraps only for a length of 65535; its callers pass headers of at
  most 60 bytes and packets that fit one Ethernet frame.
\<close>

definition ip_checksum :: "u8 list \<Rightarrow> u16" where
  "ip_checksum buf = ucast (NOT (fold16 (checksum_sum buf 0)))"

section \<open>State\<close>

record netif =
  if_mac :: "u8 list"
  if_ip :: u32
  if_netmask :: u32
  if_gateway :: u32
  if_dns :: u32

record arp_entry =
  ae_ip :: u32
  ae_mac :: "u8 list"
  ae_timestamp :: u32
  ae_valid :: bool

record udp_socket =
  us_local_port :: u16
  us_remote_ip :: u32
  us_remote_port :: u16
  us_bound :: bool
  us_used :: bool
  us_rx_buf :: "u8 list"
  us_rx_count :: nat

datatype tcp_state =
  TCP_CLOSED | TCP_SYN_SENT | TCP_ESTABLISHED | TCP_FIN_WAIT1 | TCP_FIN_WAIT2 | TCP_TIME_WAIT
  | TCP_CLOSE_WAIT | TCP_LAST_ACK | TCP_CLOSING

record tcp_socket =
  ts_used :: bool
  ts_state :: tcp_state
  ts_remote_ip :: u32
  ts_remote_port :: u16
  ts_local_port :: u16
  ts_iss :: u32
  ts_snd_una :: u32
  ts_snd_nxt :: u32
  ts_tx_seg :: "u8 list"
  ts_tx_len :: u16
  ts_tx_flags :: u8
  ts_tx_time_us :: u64
  ts_tx_retries :: int
  ts_fin_queued :: bool
  ts_rcv_nxt :: u32
  ts_rx_buf :: "nat \<Rightarrow> u8"
  ts_rx_head :: u16
  ts_rx_tail :: u16
  ts_rx_fin :: bool

text \<open>
  The globals of the stack. \<open>drv_send\<close> is \<open>None\<close> without a driver; \<open>wire\<close> collects the frames given
  to it, \<open>wakes\<close> the arguments of the calls of \<open>wait_wake(&g_net_wq, n)\<close>.
\<close>

record net =
  g_netif :: netif
  rx_busy :: bool
  uptime :: u64
  drv_send :: "(u8 list \<Rightarrow> int) option"
  wire :: "u8 list list"
  wakes :: "int list"
  arp_tbl :: "arp_entry list"
  arp_next_victim :: nat
  ping_reply :: bool
  ping_seq :: u16
  ping_peer :: u32
  udp_sockets :: "udp_socket list"
  udp_next_port :: u16
  tcp_sockets :: "tcp_socket list"
  tcp_next_port :: u16
  isn_state :: u32

definition pit_delay_ms :: "u64 \<Rightarrow> net \<Rightarrow> net" where
  "pit_delay_ms ms n = n\<lparr>uptime := uptime n + ms * 1000\<rparr>"

definition wait_wake_net :: "int \<Rightarrow> net \<Rightarrow> net" where
  "wait_wake_net mx n = n\<lparr>wakes := wakes n @ [mx]\<rparr>"

section \<open>Interface and Ethernet\<close>

definition netif_init :: "net \<Rightarrow> net" where
  "netif_init n = n\<lparr>drv_send := None\<rparr>"

definition netif_poll_busy :: "net \<Rightarrow> bool" where
  "netif_poll_busy n = rx_busy n"

definition netif_poll :: "(net \<Rightarrow> net) \<Rightarrow> net \<Rightarrow> net" where
  "netif_poll drv n = (if rx_busy n then n else drv n)"

definition netif_send :: "u8 list \<Rightarrow> net \<Rightarrow> int \<times> net" where
  "netif_send frame n =
     (case drv_send n of
        None \<Rightarrow> (- 1, n)
      | Some snd_fn \<Rightarrow> (snd_fn frame, n\<lparr>wire := wire n @ [frame]\<rparr>))"

definition netif_get_mac :: "net \<Rightarrow> u8 list" where
  "netif_get_mac n = if_mac (g_netif n)"

definition netif_get_ip :: "net \<Rightarrow> u32" where
  "netif_get_ip n = if_ip (g_netif n)"

definition eth_frame :: "u8 list \<Rightarrow> u8 list \<Rightarrow> u16 \<Rightarrow> u8 list \<Rightarrow> u8 list" where
  "eth_frame dst_mac src_mac type payload =
     (let packet = take 6 dst_mac @ take 6 src_mac @ st16 (net_htons type) @ payload
      in if length packet < 60 then packet @ replicate (60 - length packet) 0 else packet)"

definition eth_transmit :: "u8 list \<Rightarrow> u16 \<Rightarrow> u8 list \<Rightarrow> net \<Rightarrow> int \<times> net" where
  "eth_transmit dst_mac type payload n =
     (if length payload > NET_MTU then (- 1, n)
      else netif_send (eth_frame dst_mac (if_mac (g_netif n)) type payload) n)"

section \<open>Address resolution\<close>

definition ARP_CACHE_SIZE :: nat where "ARP_CACHE_SIZE = 16"
definition ARP_TIMEOUT_MS :: u32 where "ARP_TIMEOUT_MS = 30000"

definition arp_now_ms :: "net \<Rightarrow> u32" where
  "arp_now_ms n = ucast (uptime n div 1000)"

definition arp_init :: "net \<Rightarrow> net" where
  "arp_init n = n\<lparr>arp_tbl := map (\<lambda>e. e\<lparr>ae_valid := False\<rparr>) (arp_tbl n), arp_next_victim := 0\<rparr>"

text \<open>The search with lazy aging: stale entries up to the hit are invalidated.\<close>

fun arp_find_loop :: "u32 \<Rightarrow> u32 \<Rightarrow> nat \<Rightarrow> arp_entry list \<Rightarrow> nat option \<times> arp_entry list" where
  "arp_find_loop now ip i [] = (None, [])"
| "arp_find_loop now ip i (e # es) =
     (if \<not> ae_valid e then map_prod id ((#) e) (arp_find_loop now ip (i + 1) es)
      else if now - ae_timestamp e > ARP_TIMEOUT_MS
      then map_prod id ((#) (e\<lparr>ae_valid := False\<rparr>)) (arp_find_loop now ip (i + 1) es)
      else if ae_ip e = ip then (Some i, e # es)
      else map_prod id ((#) e) (arp_find_loop now ip (i + 1) es))"

definition arp_find :: "u32 \<Rightarrow> net \<Rightarrow> nat option \<times> net" where
  "arp_find ip n =
     (case arp_find_loop (arp_now_ms n) ip 0 (arp_tbl n) of
        (r, es) \<Rightarrow> (r, n\<lparr>arp_tbl := es\<rparr>))"

definition arp_free_slot :: "net \<Rightarrow> nat option" where
  "arp_free_slot n = List.find (\<lambda>i. \<not> ae_valid (arp_tbl n ! i)) [0..<ARP_CACHE_SIZE]"

definition arp_cache_update :: "u32 \<Rightarrow> u8 list \<Rightarrow> net \<Rightarrow> net" where
  "arp_cache_update ip mac n =
     (case arp_find ip n of
        (Some i, n) \<Rightarrow>
          n\<lparr>arp_tbl := (arp_tbl n)[i := (arp_tbl n ! i)\<lparr>ae_mac := take 6 mac,
              ae_timestamp := arp_now_ms n\<rparr>]\<rparr>
      | (None, n) \<Rightarrow>
          (let (slot, n) = (case arp_free_slot n of
                 Some i \<Rightarrow> (i, n)
               | None \<Rightarrow> (arp_next_victim n,
                   n\<lparr>arp_next_victim := (arp_next_victim n + 1) mod ARP_CACHE_SIZE\<rparr>))
           in n\<lparr>arp_tbl := (arp_tbl n)[slot := \<lparr>ae_ip = ip, ae_mac = take 6 mac,
                ae_timestamp = arp_now_ms n, ae_valid = True\<rparr>]\<rparr>))"

record arp_packet =
  ap_htype :: u16
  ap_ptype :: u16
  ap_hlen :: u8
  ap_plen :: u8
  ap_oper :: u16
  ap_sha :: "u8 list"
  ap_spa :: u32
  ap_tha :: "u8 list"
  ap_tpa :: u32

text \<open>The packed layout; fields hold what the structure holds, in network order.\<close>

definition arp_bytes :: "arp_packet \<Rightarrow> u8 list" where
  "arp_bytes p = st16 (ap_htype p) @ st16 (ap_ptype p) @ [ap_hlen p, ap_plen p] @ st16 (ap_oper p)
     @ ap_sha p @ st32 (ap_spa p) @ ap_tha p @ st32 (ap_tpa p)"

definition arp_parse :: "u8 list \<Rightarrow> arp_packet" where
  "arp_parse d = \<lparr>ap_htype = ld16 d 0, ap_ptype = ld16 d 2, ap_hlen = d ! 4, ap_plen = d ! 5,
     ap_oper = ld16 d 6, ap_sha = take 6 (drop 8 d), ap_spa = ld32 d 14, ap_tha = take 6 (drop 18 d),
     ap_tpa = ld32 d 24\<rparr>"

definition arp_for_us :: "arp_packet \<Rightarrow> net \<Rightarrow> bool" where
  "arp_for_us arp n \<longleftrightarrow> net_htons (ap_oper arp) = 1 \<and> net_htonl (ap_tpa arp) = if_ip (g_netif n)"

definition arp_receive :: "u8 list \<Rightarrow> net \<Rightarrow> net" where
  "arp_receive data n =
     (if length data < 28 then n
      else
        (let arp = arp_parse data in
         if net_htons (ap_htype arp) \<noteq> 1 \<or> net_htons (ap_ptype arp) \<noteq> 0x0800 then n
         else
           (let n = (if net_htons (ap_oper arp) = 2 \<or> arp_for_us arp n
                     then arp_cache_update (net_htonl (ap_spa arp)) (ap_sha arp) n else n)
            in if arp_for_us arp n
               then snd (eth_transmit (ap_sha arp) ETH_TYPE_ARP
                      (arp_bytes \<lparr>ap_htype = ap_htype arp, ap_ptype = ap_ptype arp, ap_hlen = 6, ap_plen = 4,
                         ap_oper = net_htons 2, ap_sha = take 6 (if_mac (g_netif n)),
                         ap_spa = net_htonl (if_ip (g_netif n)), ap_tha = ap_sha arp, ap_tpa = ap_spa arp\<rparr>) n)
               else n)))"

definition arp_send_request :: "u32 \<Rightarrow> net \<Rightarrow> net" where
  "arp_send_request target_ip n =
     snd (eth_transmit (replicate 6 0xFF) ETH_TYPE_ARP
       (arp_bytes \<lparr>ap_htype = net_htons 1, ap_ptype = net_htons 0x0800, ap_hlen = 6, ap_plen = 4,
          ap_oper = net_htons 1, ap_sha = take 6 (if_mac (g_netif n)), ap_spa = net_htonl (if_ip (g_netif n)),
          ap_tha = replicate 6 0, ap_tpa = net_htonl target_ip\<rparr>) n)"

text \<open>The retry loop, \<open>k\<close> rounds left of 500.\<close>

fun arp_wait :: "(net \<Rightarrow> net) \<Rightarrow> u32 \<Rightarrow> nat \<Rightarrow> net \<Rightarrow> u8 list option \<times> net" where
  "arp_wait drv ip 0 n = (None, n)"
| "arp_wait drv ip (Suc k) n =
     (let n = netif_poll drv (pit_delay_ms 2 n) in
      case arp_find ip n of
        (Some i, n) \<Rightarrow> (Some (ae_mac (arp_tbl n ! i)), n)
      | (None, n) \<Rightarrow>
          if netif_poll_busy n then (None, n)
          else arp_wait drv ip k (if (499 - k) mod 50 = 49 then arp_send_request ip n else n))"

definition arp_resolve :: "(net \<Rightarrow> net) \<Rightarrow> u32 \<Rightarrow> net \<Rightarrow> u8 list option \<times> net" where
  "arp_resolve drv ip n =
     (if ip = 0xFFFFFFFF then (Some (replicate 6 0xFF), n)
      else
        (let ifc = g_netif n;
             ip = (if if_ip ifc AND if_netmask ifc \<noteq> ip AND if_netmask ifc \<and> if_gateway ifc \<noteq> 0
                   then if_gateway ifc else ip)
         in case arp_find ip n of
              (Some i, n) \<Rightarrow> (Some (ae_mac (arp_tbl n ! i)), n)
            | (None, n) \<Rightarrow> arp_wait drv ip 500 (arp_send_request ip n)))"

definition arp_get_cache :: "net \<Rightarrow> nat" where
  "arp_get_cache n = length (filter ae_valid (arp_tbl n))"

section \<open>Sending IPv4\<close>

text \<open>The header bytes with a given checksum field.\<close>

definition ipv4_header :: "u16 \<Rightarrow> u8 \<Rightarrow> u16 \<Rightarrow> u32 \<Rightarrow> u32 \<Rightarrow> u8 list" where
  "ipv4_header total_len proto checksum src dst =
     [0x45, 0] @ st16 (net_htons total_len) @ st16 0 @ st16 0x0040 @ [64, proto] @ st16 checksum
     @ st32 (net_htonl src) @ st32 (net_htonl dst)"

definition ipv4_packet :: "u32 \<Rightarrow> u32 \<Rightarrow> u8 \<Rightarrow> u8 list \<Rightarrow> u8 list" where
  "ipv4_packet src dst proto payload =
     (let total_len = of_nat (20 + length payload) :: u16 in
      ipv4_header total_len proto (ip_checksum (ipv4_header total_len proto 0 src dst)) src dst @ payload)"

definition ipv4_next_hop :: "u32 \<Rightarrow> netif \<Rightarrow> u32" where
  "ipv4_next_hop dst_ip ifc =
     (if if_ip ifc \<noteq> 0 \<and> if_netmask ifc \<noteq> 0 \<and> dst_ip AND if_netmask ifc \<noteq> if_ip ifc AND if_netmask ifc
      then (if if_gateway ifc \<noteq> 0 then if_gateway ifc else dst_ip)
      else dst_ip)"

definition ipv4_transmit :: "(net \<Rightarrow> net) \<Rightarrow> u32 \<Rightarrow> u8 \<Rightarrow> u8 list \<Rightarrow> net \<Rightarrow> int \<times> net" where
  "ipv4_transmit drv dst_ip proto payload n =
     (let total_len = of_nat (20 + length payload) :: u16 in
      if unat total_len > NET_MAX_PACKET then (- 1, n)
      else
        (let packet = take (unat total_len) (ipv4_packet (if_ip (g_netif n)) dst_ip proto payload) in
         if dst_ip = 0xFFFFFFFF then eth_transmit (replicate 6 0xFF) ETH_TYPE_IP packet n
         else (case arp_resolve drv (ipv4_next_hop dst_ip (g_netif n)) n of
                 (None, n) \<Rightarrow> (- 1, n)
               | (Some mac, n) \<Rightarrow> eth_transmit mac ETH_TYPE_IP packet n)))"

section \<open>Fields round trip\<close>

lemma byte_masks:
  "(0xFF :: u16) = mask 8" "(0xFF :: u32) = mask 8" "(0xFF00 :: u32) = push_bit 8 (mask 8)"
  "(0xFF0000 :: u32) = push_bit 16 (mask 8)" "(0xFF000000 :: u32) = push_bit 24 (mask 8)"
  by (simp_all add: mask_eq_exp_minus_1 push_bit_eq_mult)

lemma bit_net_htons:
  "bit (net_htons v) n \<longleftrightarrow> (if n < 8 then bit v (n + 8) else n < 16 \<and> bit v (n - 8))"
  unfolding net_htons_def byte_masks
  by (auto simp: bit_simps add.commute dest: bit_imp_le_length)

lemma net_htons_twice [simp]: "net_htons (net_htons v) = v"
  by (rule bit_word_eqI) (auto simp: bit_net_htons)

lemma bit_net_htonl:
  "bit (net_htonl v) n \<longleftrightarrow>
     (if n < 8 then bit v (n + 24) else if n < 16 then bit v (n + 8)
      else if n < 24 then bit v (n - 8) else n < 32 \<and> bit v (n - 24))"
  unfolding net_htonl_def byte_masks
  by (auto simp: bit_simps add.commute dest: bit_imp_le_length)

lemma net_htonl_twice [simp]: "net_htonl (net_htonl v) = v"
  by (rule bit_word_eqI) (auto simp: bit_net_htonl)

lemma join_st16: "(ucast (ucast v :: u8) OR push_bit 8 (ucast (ucast (drop_bit 8 v) :: u8)) :: u16) = v"
  by (rule bit_word_eqI) (auto simp: bit_simps)

lemma join_st32:
  "(ucast (ucast v :: u8) OR push_bit 8 (ucast (ucast (drop_bit 8 v) :: u8))
    OR push_bit 16 (ucast (ucast (drop_bit 16 v) :: u8)) OR push_bit 24 (ucast (ucast (drop_bit 24 v) :: u8)) :: u32) = v"
  by (rule bit_word_eqI) (simp add: bit_simps cong: conj_cong, linarith)

lemma ld16_st16 [simp]: "i = length xs \<Longrightarrow> ld16 (xs @ st16 v @ ys) i = v"
  by (simp add: ld16_def st16_def nth_append join_st16)

lemma ld32_st32 [simp]: "i = length xs \<Longrightarrow> ld32 (xs @ st32 v @ ys) i = v"
  by (simp add: ld32_def st32_def nth_append join_st32)

lemma st_length [simp]: "length (st16 v) = 2" "length (st32 w) = 4"
  by (simp_all add: st16_def st32_def)

section \<open>One's complement arithmetic\<close>

fun csum :: "u8 list \<Rightarrow> nat" where
  "csum [] = 0"
| "csum [b] = unat b"
| "csum (b # c # bs) = unat b + 256 * unat c + csum bs"

lemma csum_append: "even (length xs) \<Longrightarrow> csum (xs @ ys) = csum xs + csum ys"
  by (induction xs rule: csum.induct) auto

lemma unat_ucast_8_32: "unat (ucast (b :: u8) :: u32) = unat b"
proof -
  have "unat b < 2 ^ 32"
    by (rule less_trans [OF unat_u8_less]) simp
  then show ?thesis
    by (simp add: unsigned_ucast_eq take_bit_nat_eq_self)
qed

lemma unat_pair: "unat (ucast (b :: u8) OR push_bit 8 (ucast (c :: u8)) :: u32) = unat b + 256 * unat c"
proof -
  have "(ucast b OR push_bit 8 (ucast c) :: u32) = ucast b + push_bit 8 (ucast c)"
    by (rule disjunctive_add [symmetric]) (auto simp: bit_simps dest: bit_imp_le_length)
  moreover have "unat (push_bit 8 (ucast c) :: u32) = 256 * unat c"
  proof -
    have "unat c * 256 < 4294967296"
      using unat_u8_less [of c] by linarith
    then show ?thesis
      by (simp add: push_bit_eq_mult unat_word_ariths unat_ucast_8_32)
  qed
  moreover have "unat (ucast b :: u32) = unat b"
    by (rule unat_ucast_8_32)
  moreover have "unat b + 256 * unat c < 4294967296"
    using unat_u8_less [of c] unat_u8_less [of b] by linarith
  ultimately show ?thesis
    by (simp add: unat_word_ariths)
qed

lemma csum_bound: "csum bs \<le> 65535 * ((length bs + 1) div 2)"
proof (induction bs rule: csum.induct)
  case (2 b)
  have "unat b \<le> 65535"
    using unat_u8_less [of b] by linarith
  then show ?case
    by simp
next
  case (3 b c bs)
  then have "unat b + 256 * unat c + csum bs \<le> 65535 + 65535 * ((length bs + 1) div 2)"
    using unat_u8_less [of b] unat_u8_less [of c] by linarith
  then show ?case
    by simp
qed simp

lemma checksum_sum_csum: "unat s + csum bs < 2 ^ 32 \<Longrightarrow> unat (checksum_sum bs s) = unat s + csum bs"
proof (induction bs s rule: checksum_sum.induct)
  case (2 b s)
  then show ?case
    by (simp add: unat_word_ariths unat_ucast_8_32)
next
  case (3 b c bs s)
  have "unat (s + (ucast b OR push_bit 8 (ucast c))) = unat s + unat b + 256 * unat c"
    using "3.prems" by (simp add: unat_word_ariths unat_pair)
  then show ?case
    using 3 by simp
qed simp

text \<open>Folding keeps the value modulo 65535 and never turns a positive sum into zero.\<close>

lemma fold16_spec:
  "unat (fold16 s) < 65536 \<and> unat (fold16 s) mod 65535 = unat s mod 65535 \<and> (fold16 s = 0 \<longleftrightarrow> s = 0)"
proof (induction s rule: fold16.induct)
  case (1 s)
  show ?case
  proof (cases "drop_bit 16 s = 0")
    case True
    then have "unat s div 65536 = 0"
      by (metis unat_drop_16 unsigned_0)
    then have "unat s < 65536"
      by (simp add: div_eq_0_iff)
    then show ?thesis
      using True by (simp add: fold16.simps [of s])
  next
    case False
    let ?t = "(s AND 0xFFFF) + drop_bit 16 s"
    have step: "fold16 s = fold16 ?t"
      using False by (simp add: fold16.simps [of s])
    have "unat s div 65536 \<noteq> 0"
      using False by (metis unat_drop_16 unsigned_0 unsigned_word_eqI)
    then have pos: "?t \<noteq> 0" "s \<noteq> 0"
      using fold_step [of s] by auto
    have "unat s = 65535 * (unat s div 65536) + unat ?t"
      unfolding fold_step using div_mult_mod_eq [of "unat s" 65536] by linarith
    then have "unat ?t mod 65535 = unat s mod 65535"
      by (metis mod_mult_self4)
    then show ?thesis
      using 1 [OF False] pos step by simp
  qed
qed

definition finish_sum :: "u32 \<Rightarrow> u16" where
  "finish_sum s = ucast (NOT (fold16 s))"

lemma unat_finish_sum: "unat (finish_sum s) = 65535 - unat (fold16 s)"
proof -
  have "unat (fold16 s) < 65536"
    using fold16_spec by blast
  moreover have "unat (NOT (fold16 s)) = 4294967295 - unat (fold16 s)"
  proof -
    have "NOT (fold16 s) = - 1 - fold16 s"
      by (simp add: not_eq_complement)
    then show ?thesis
      by (simp only: unat_sub_le word_order.extremum) (simp add: unsigned_minus_1_eq_mask mask_eq_exp_minus_1)
  qed
  moreover have "(4294967295 - a) mod 65536 = 65535 - a" if "a < 65536" for a :: nat
  proof -
    have "4294967295 - a = 65535 * 65536 + (65535 - a)"
      using that by simp
    then show ?thesis
      by (simp only: mod_mult_self3) simp
  qed
  ultimately show ?thesis
    by (simp add: finish_sum_def unsigned_ucast_eq take_bit_eq_mod)
qed

text \<open>A sum with its own checksum added verifies.\<close>

lemma finish_sum_verifies:
  assumes "0 < unat s" and "unat t = unat s + unat (finish_sum s)"
  shows "finish_sum t = 0"
proof -
  have f: "unat (fold16 s) < 65536" "unat (fold16 s) mod 65535 = unat s mod 65535"
    using fold16_spec by blast+
  have "(unat s + (65535 - unat (fold16 s))) mod 65535 = 0"
  proof -
    have "(unat s + (65535 - unat (fold16 s))) mod 65535
        = (unat (fold16 s) + (65535 - unat (fold16 s))) mod 65535"
      using f(2) by (metis mod_add_left_eq)
    also have "\<dots> = 0"
      using f(1) by simp
    finally show ?thesis .
  qed
  then have t: "unat t mod 65535 = 0"
    using assms(2) unat_finish_sum by simp
  have "t \<noteq> 0"
    using assms by auto
  then have "unat (fold16 t) mod 65535 = 0" "unat (fold16 t) \<noteq> 0" "unat (fold16 t) < 65536"
    using fold16_spec [of t] t by (auto simp: unat_eq_zero)
  then have "unat (fold16 t) = 65535"
    by (auto simp: mod_eq_0_iff_dvd elim!: dvdE)
  then have "unat (finish_sum t) = 0"
    by (simp add: unat_finish_sum)
  then show ?thesis
    by (simp add: unat_eq_zero)
qed

lemma unat_st16: "csum (st16 v) = unat v"
proof -
  have "unat (ucast v :: u8) = unat v mod 256" "unat (ucast (drop_bit 8 v) :: u8) = unat v div 256"
    using less_mult_imp_div_less [of "unat v" 256 256]
    by (simp_all add: unsigned_ucast_eq take_bit_eq_mod drop_bit_eq_div unat_div)
  then show ?thesis
    by (simp add: st16_def)
qed

text \<open>A message with its checksum field filled in verifies: \<open>pre\<close> covers a pseudo header.\<close>

lemma checksum_field_verifies:
  assumes "even (length pre)" and "even (length xs)" and "0 < csum (pre @ xs)"
    and "length pre + length xs + length ys \<le> 60000"
  shows "finish_sum (checksum_sum (xs @ st16 (finish_sum (checksum_sum (xs @ st16 0 @ ys) (checksum_sum pre 0))) @ ys)
    (checksum_sum pre 0)) = 0"
proof -
  have small: "csum pre + csum (xs @ st16 c @ ys) < 2 ^ 32" for c
    using csum_bound [of pre] csum_bound [of "xs @ st16 c @ ys"] assms(4) by simp
  have "unat (checksum_sum pre 0) = csum pre"
    using small [of 0] by (subst checksum_sum_csum) auto
  then have sum: "unat (checksum_sum (xs @ st16 c @ ys) (checksum_sum pre 0)) = csum pre + csum xs + unat c + csum ys" for c
    using small by (subst checksum_sum_csum) (auto simp: csum_append assms unat_st16)
  show ?thesis
    by (rule finish_sum_verifies [of "checksum_sum (xs @ st16 0 @ ys) (checksum_sum pre 0)"])
      (use sum assms in \<open>auto simp: csum_append\<close>)
qed

lemma ip_checksum_finish: "ip_checksum bs = finish_sum (checksum_sum bs 0)"
  by (simp add: ip_checksum_def finish_sum_def)

section \<open>The ARP cache\<close>

definition arp_stale :: "u32 \<Rightarrow> arp_entry \<Rightarrow> bool" where
  "arp_stale now e \<longleftrightarrow> now - ae_timestamp e > ARP_TIMEOUT_MS"

definition arp_match :: "u32 \<Rightarrow> u32 \<Rightarrow> arp_entry \<Rightarrow> bool" where
  "arp_match now ip e \<longleftrightarrow> ae_valid e \<and> \<not> arp_stale now e \<and> ae_ip e = ip"

lemma arp_find_loop_spec:
  "arp_find_loop now ip i es = (r, es') \<Longrightarrow>
     length es' = length es
     \<and> (\<forall>k<length es. es' ! k = es ! k \<or> es' ! k = (es ! k)\<lparr>ae_valid := False\<rparr>)
     \<and> (case r of
          None \<Rightarrow> \<forall>k<length es. ae_valid (es' ! k) \<longrightarrow> ae_ip (es' ! k) \<noteq> ip
        | Some j \<Rightarrow> \<exists>k<length es. j = i + k \<and> arp_match now ip (es' ! k))"
proof (induction es arbitrary: i r es')
  case (Cons e es)
  obtain r1 es1 where rec: "arp_find_loop now ip (i + 1) es = (r1, es1)"
    by fastforce
  note ih = Cons.IH [OF rec]
  show ?case
  proof (cases "arp_match now ip e")
    case True
    then show ?thesis
      using Cons.prems by (auto simp: arp_match_def arp_stale_def intro!: exI [of _ 0])
  next
    case False
    define e1 where "e1 = (if ae_valid e \<and> arp_stale now e then e\<lparr>ae_valid := False\<rparr> else e)"
    have res: "r = r1" "es' = e1 # es1"
      using Cons.prems rec False by (auto simp: e1_def arp_match_def arp_stale_def split: if_splits)
    have e1: "ae_valid e1 \<longrightarrow> ae_ip e1 \<noteq> ip"
      using False by (auto simp: e1_def arp_match_def)
    show ?thesis
      unfolding res using ih e1
      by (auto simp: nth_Cons e1_def split: option.splits nat.splits)
  qed
qed simp

lemma arp_find_loop_hit:
  "k < length es \<Longrightarrow> arp_match now ip (es ! k) \<Longrightarrow> (\<And>j. j < length es \<Longrightarrow> j \<noteq> k \<Longrightarrow> \<not> (ae_valid (es ! j) \<and> ae_ip (es ! j) = ip)) \<Longrightarrow>
   \<exists>es'. arp_find_loop now ip i es = (Some (i + k), es') \<and> es' ! k = es ! k"
proof (induction es arbitrary: i k)
  case (Cons e es)
  show ?case
  proof (cases k)
    case 0
    then show ?thesis
      using Cons.prems by (auto simp: arp_match_def arp_stale_def)
  next
    case (Suc k1)
    have "\<not> (ae_valid e \<and> ae_ip e = ip)"
      using Cons.prems(3) [of 0] Suc by simp
    moreover obtain es1 where "arp_find_loop now ip (i + 1) es = (Some (i + 1 + k1), es1)" "es1 ! k1 = es ! k1"
      using Cons.IH [of k1 "i + 1"] Cons.prems(1,2) Cons.prems(3) [of "Suc _"] Suc by auto
    ultimately show ?thesis
      using Suc by auto
  qed
qed simp

definition arp_inv :: "net \<Rightarrow> bool" where
  "arp_inv n \<longleftrightarrow> length (arp_tbl n) = ARP_CACHE_SIZE \<and> arp_next_victim n < ARP_CACHE_SIZE
     \<and> (\<forall>i<ARP_CACHE_SIZE. \<forall>j<ARP_CACHE_SIZE. ae_valid (arp_tbl n ! i) \<and> ae_valid (arp_tbl n ! j)
          \<and> ae_ip (arp_tbl n ! i) = ae_ip (arp_tbl n ! j) \<longrightarrow> i = j)"

definition arp_lookup :: "u32 \<Rightarrow> net \<Rightarrow> u8 list option" where
  "arp_lookup ip n =
     (case arp_find ip n of (None, n) \<Rightarrow> None | (Some i, n) \<Rightarrow> Some (ae_mac (arp_tbl n ! i)))"

lemma arp_find_inv:
  assumes "arp_inv n" and "arp_find ip n = (r, n')"
  shows "arp_inv n'" "n' = n\<lparr>arp_tbl := arp_tbl n'\<rparr>"
    "r = None \<Longrightarrow> k < ARP_CACHE_SIZE \<Longrightarrow> ae_valid (arp_tbl n' ! k) \<Longrightarrow> ae_ip (arp_tbl n' ! k) \<noteq> ip"
    "r = Some j \<Longrightarrow> j < ARP_CACHE_SIZE \<and> arp_match (arp_now_ms n) ip (arp_tbl n' ! j)"
proof -
  obtain es where es: "arp_find_loop (arp_now_ms n) ip 0 (arp_tbl n) = (r, es)" "n' = n\<lparr>arp_tbl := es\<rparr>"
    using assms(2) by (auto simp: arp_find_def split: prod.splits)
  note spec = arp_find_loop_spec [OF es(1)]
  have len: "length (arp_tbl n) = ARP_CACHE_SIZE"
    using assms(1) by (simp add: arp_inv_def)
  have keep: "ae_valid (es ! k) \<Longrightarrow> es ! k = arp_tbl n ! k" if "k < ARP_CACHE_SIZE" for k
    using spec len that by auto
  show "arp_inv n'"
    using assms(1) spec keep unfolding arp_inv_def es(2) by simp
  show "n' = n\<lparr>arp_tbl := arp_tbl n'\<rparr>"
    using es(2) by simp
  show "r = None \<Longrightarrow> k < ARP_CACHE_SIZE \<Longrightarrow> ae_valid (arp_tbl n' ! k) \<Longrightarrow> ae_ip (arp_tbl n' ! k) \<noteq> ip"
    using spec len es(2) by simp
  show "r = Some j \<Longrightarrow> j < ARP_CACHE_SIZE \<and> arp_match (arp_now_ms n) ip (arp_tbl n' ! j)"
    using spec len es(2) by auto
qed

lemma arp_stale_now [simp]: "ae_timestamp e = now \<Longrightarrow> \<not> arp_stale now e"
  by (simp add: arp_stale_def ARP_TIMEOUT_MS_def)

lemma arp_lookup_hit:
  assumes "arp_inv n" and "k < ARP_CACHE_SIZE" and "arp_match (arp_now_ms n) ip (arp_tbl n ! k)"
  shows "arp_lookup ip n = Some (ae_mac (arp_tbl n ! k))"
proof -
  have "\<not> (ae_valid (arp_tbl n ! j) \<and> ae_ip (arp_tbl n ! j) = ip)" if "j < ARP_CACHE_SIZE" "j \<noteq> k" for j
    using assms that by (auto simp: arp_inv_def arp_match_def)
  then obtain es where "arp_find_loop (arp_now_ms n) ip 0 (arp_tbl n) = (Some (0 + k), es)" "es ! k = arp_tbl n ! k"
    using arp_find_loop_hit [of k "arp_tbl n" "arp_now_ms n" ip 0] assms by (auto simp: arp_inv_def)
  then show ?thesis
    by (simp add: arp_lookup_def arp_find_def)
qed

text \<open>Storing an entry in a slot when no other valid entry has its address.\<close>

lemma arp_store:
  assumes inv: "arp_inv n" and k: "k < ARP_CACHE_SIZE" and e: "ae_valid e" "ae_ip e = ip" "ae_timestamp e = arp_now_ms n"
    and others: "\<And>j. j < ARP_CACHE_SIZE \<Longrightarrow> j \<noteq> k \<Longrightarrow> ae_valid (arp_tbl n ! j) \<Longrightarrow> ae_ip (arp_tbl n ! j) \<noteq> ip"
    and v: "v < ARP_CACHE_SIZE"
  defines "n' \<equiv> n\<lparr>arp_tbl := (arp_tbl n)[k := e], arp_next_victim := v\<rparr>"
  shows "arp_inv n'" "arp_lookup ip n' = Some (ae_mac e)"
proof -
  have len: "length (arp_tbl n) = ARP_CACHE_SIZE"
    using inv by (simp add: arp_inv_def)
  show i: "arp_inv n'"
    unfolding n'_def arp_inv_def using inv v len k e others
    by (auto simp: arp_inv_def nth_list_update) blast
  have "arp_match (arp_now_ms n') ip (arp_tbl n' ! k)"
    using e k len by (simp add: n'_def arp_match_def arp_now_ms_def)
  from arp_lookup_hit [OF i k this] show "arp_lookup ip n' = Some (ae_mac e)"
    using k len by (simp add: n'_def)
qed

lemma arp_cache_update_spec:
  assumes "arp_inv n"
  shows "arp_inv (arp_cache_update ip mac n) \<and> arp_lookup ip (arp_cache_update ip mac n) = Some (take 6 mac)"
proof -
  obtain r n1 where f: "arp_find ip n = (r, n1)"
    by fastforce
  note fnd = arp_find_inv [OF assms f]
  have v: "arp_next_victim n1 < ARP_CACHE_SIZE"
    using fnd(1) by (simp add: arp_inv_def)
  show ?thesis
  proof (cases r)
    case (Some j)
    have j: "j < ARP_CACHE_SIZE" "arp_match (arp_now_ms n) ip (arp_tbl n1 ! j)"
      using fnd(4) [OF Some] by auto
    let ?e = "(arp_tbl n1 ! j)\<lparr>ae_mac := take 6 mac, ae_timestamp := arp_now_ms n1\<rparr>"
    have "arp_cache_update ip mac n = n1\<lparr>arp_tbl := (arp_tbl n1)[j := ?e], arp_next_victim := arp_next_victim n1\<rparr>"
      by (simp add: arp_cache_update_def f Some)
    moreover have "ae_ip (arp_tbl n1 ! i) \<noteq> ip" if "i < ARP_CACHE_SIZE" "i \<noteq> j" "ae_valid (arp_tbl n1 ! i)" for i
      using fnd(1) j that unfolding arp_inv_def arp_match_def by blast
    moreover have "ae_valid ?e" "ae_ip ?e = ip" "ae_timestamp ?e = arp_now_ms n1"
      using j(2) by (simp_all add: arp_match_def)
    ultimately show ?thesis
      using arp_store [OF fnd(1) j(1), of ?e ip "arp_next_victim n1"] v by simp
  next
    case None
    let ?e = "\<lparr>ae_ip = ip, ae_mac = take 6 mac, ae_timestamp = arp_now_ms n1, ae_valid = True\<rparr>"
    let ?k = "case arp_free_slot n1 of Some i \<Rightarrow> i | None \<Rightarrow> arp_next_victim n1"
    let ?v = "case arp_free_slot n1 of Some i \<Rightarrow> arp_next_victim n1
              | None \<Rightarrow> (arp_next_victim n1 + 1) mod ARP_CACHE_SIZE"
    have "arp_cache_update ip mac n = n1\<lparr>arp_tbl := (arp_tbl n1)[?k := ?e], arp_next_victim := ?v\<rparr>"
      by (simp add: arp_cache_update_def f None arp_now_ms_def split: option.splits)
    moreover have "?k < ARP_CACHE_SIZE"
      using v by (auto simp: arp_free_slot_def find_Some_iff split: option.splits)
    moreover have "?v < ARP_CACHE_SIZE"
      using v by (auto simp: ARP_CACHE_SIZE_def split: option.splits)
    ultimately show ?thesis
      using arp_store [of n1 ?k ?e ip ?v] fnd(1) fnd(3) [OF None] by simp
  qed
qed

text \<open>What IPv4 needs from a neighbour cache, and what follows for any sequence of learned pairs.\<close>

locale neighbour_cache =
  fixes learn :: "'k \<Rightarrow> 'v \<Rightarrow> 's \<Rightarrow> 's" and lookup :: "'k \<Rightarrow> 's \<Rightarrow> 'v option" and inv :: "'s \<Rightarrow> bool"
    and ok :: "'v \<Rightarrow> bool"
  assumes learn_inv: "inv s \<Longrightarrow> inv (learn k v s)"
    and lookup_learn: "inv s \<Longrightarrow> ok v \<Longrightarrow> lookup k (learn k v s) = Some v"
begin

lemma learn_all_inv: "inv s \<Longrightarrow> inv (fold (\<lambda>(k, v). learn k v) kvs s)"
  by (induction kvs arbitrary: s) (auto intro: learn_inv)

lemma lookup_last:
  "inv s \<Longrightarrow> ok v \<Longrightarrow> lookup k (fold (\<lambda>(k, v). learn k v) (kvs @ [(k, v)]) s) = Some v"
  by (simp add: learn_all_inv lookup_learn)

end

interpretation arp: neighbour_cache arp_cache_update arp_lookup arp_inv "\<lambda>mac. length mac = 6"
  by unfold_locales (auto simp: arp_cache_update_spec)

lemma arp_parse_bytes:
  assumes "length (ap_sha p) = 6" and "length (ap_tha p) = 6"
  shows "arp_parse (arp_bytes p @ pad) = p"
proof -
  let ?d = "arp_bytes p @ pad"
  have "ld16 ?d 0 = ap_htype p"
    unfolding arp_bytes_def using ld16_st16 [of 0 "[]"] by simp
  moreover have "ld16 ?d 2 = ap_ptype p"
    unfolding arp_bytes_def using ld16_st16 [of 2 "st16 (ap_htype p)"] by simp
  moreover have "ld16 ?d 6 = ap_oper p"
    unfolding arp_bytes_def
    using ld16_st16 [of 6 "st16 (ap_htype p) @ st16 (ap_ptype p) @ [ap_hlen p, ap_plen p]"] by simp
  moreover have "ld32 ?d 14 = ap_spa p"
    unfolding arp_bytes_def using assms
      ld32_st32 [of 14 "st16 (ap_htype p) @ st16 (ap_ptype p) @ [ap_hlen p, ap_plen p] @ st16 (ap_oper p) @ ap_sha p"]
    by simp
  moreover have "ld32 ?d 24 = ap_tpa p"
    unfolding arp_bytes_def using assms
      ld32_st32 [of 24 "st16 (ap_htype p) @ st16 (ap_ptype p) @ [ap_hlen p, ap_plen p] @ st16 (ap_oper p)
        @ ap_sha p @ st32 (ap_spa p) @ ap_tha p"]
    by simp
  moreover have "?d ! 4 = ap_hlen p" "?d ! 5 = ap_plen p" "take 6 (drop 8 ?d) = ap_sha p"
      "take 6 (drop 18 ?d) = ap_tha p"
    unfolding arp_bytes_def using assms by (simp_all add: nth_append)
  ultimately show ?thesis
    unfolding arp_parse_def by simp
qed

lemma arp_bytes_length: "length (ap_sha p) = 6 \<Longrightarrow> length (ap_tha p) = 6 \<Longrightarrow> length (arp_bytes p) = 28"
  by (simp add: arp_bytes_def)

lemma arp_lookup_resolve:
  assumes "arp_lookup ip n = Some mac" and "ip \<noteq> 0xFFFFFFFF"
    and "if_gateway (g_netif n) = 0 \<or> if_ip (g_netif n) AND if_netmask (g_netif n) = ip AND if_netmask (g_netif n)"
  shows "\<exists>es. arp_resolve drv ip n = (Some mac, n\<lparr>arp_tbl := es\<rparr>)"
  using assms
  by (auto simp: arp_resolve_def arp_lookup_def arp_find_def Let_def split: prod.splits option.splits)

lemma arp_cache_update_frame:
  "g_netif (arp_cache_update ip mac n) = g_netif n" "wire (arp_cache_update ip mac n) = wire n"
  "udp_sockets (arp_cache_update ip mac n) = udp_sockets n" "drv_send (arp_cache_update ip mac n) = drv_send n"
proof -
  obtain r es where "arp_find_loop (arp_now_ms n) ip 0 (arp_tbl n) = (r, es)"
    by fastforce
  then have "arp_find ip n = (r, n\<lparr>arp_tbl := es\<rparr>)"
    by (simp add: arp_find_def)
  then show "g_netif (arp_cache_update ip mac n) = g_netif n" "wire (arp_cache_update ip mac n) = wire n"
    "udp_sockets (arp_cache_update ip mac n) = udp_sockets n" "drv_send (arp_cache_update ip mac n) = drv_send n"
    by (simp_all add: arp_cache_update_def Let_def split: option.splits)
qed

definition arp_reply :: "u32 \<Rightarrow> u8 list \<Rightarrow> u32 \<Rightarrow> u8 list \<Rightarrow> arp_packet" where
  "arp_reply ip mac to_ip to_mac = \<lparr>ap_htype = net_htons 1, ap_ptype = net_htons 0x0800, ap_hlen = 6, ap_plen = 4,
     ap_oper = net_htons 2, ap_sha = mac, ap_spa = net_htonl ip, ap_tha = to_mac, ap_tpa = net_htonl to_ip\<rparr>"

lemma eth_transmit_frame:
  "arp_tbl (snd (eth_transmit m ty p n)) = arp_tbl n" "tcp_sockets (snd (eth_transmit m ty p n)) = tcp_sockets n"
  "udp_sockets (snd (eth_transmit m ty p n)) = udp_sockets n" "g_netif (snd (eth_transmit m ty p n)) = g_netif n"
  "rx_busy (snd (eth_transmit m ty p n)) = rx_busy n"
  by (simp_all add: eth_transmit_def netif_send_def split: option.split)

section \<open>Properties\<close>

text \<open>C33. Address resolution. Any ARP reply is learnt, whether or not it was asked for: after it has been
  received, resolving its sender's address returns the sender's hardware address at once and sends
  nothing, provided the address is not the broadcast address and is resolved directly (it is on the
  local network, or no gateway is configured); the cache keeps at most one entry for an address. Only
  a packet that is neither a reply nor a request for this machine's address is sure to leave the
  cache as it was.\<close>

theorem arp_reply_resolves:
  assumes "arp_inv n" and "length mac = 6" and "length to_mac = 6" and "ip \<noteq> 0xFFFFFFFF"
    and "if_gateway (g_netif n) = 0
      \<or> if_ip (g_netif n) AND if_netmask (g_netif n) = ip AND if_netmask (g_netif n)"
  shows "let n' = arp_receive (arp_bytes (arp_reply ip mac to_ip to_mac) @ pad) n in
      arp_inv n' \<and> fst (arp_resolve drv ip n') = Some mac \<and> wire (snd (arp_resolve drv ip n')) = wire n
      \<and> (net_htons (ap_oper (arp_parse other)) \<noteq> 2 \<and> \<not> arp_for_us (arp_parse other) n'
           \<longrightarrow> arp_tbl (arp_receive other n') = arp_tbl n')"
proof -
  let ?p = "arp_reply ip mac to_ip to_mac"
  let ?n = "arp_cache_update ip mac n"
  have "arp_parse (arp_bytes ?p @ pad) = ?p" "\<not> length (arp_bytes ?p @ pad) < 28"
    using assms(2,3) by (simp_all add: arp_parse_bytes arp_bytes_length arp_reply_def)
  moreover have "\<not> arp_for_us ?p m" for m
    by (simp add: arp_for_us_def arp_reply_def)
  ultimately have recv: "arp_receive (arp_bytes ?p @ pad) n = ?n"
    using assms(2) by (simp add: arp_receive_def Let_def) (simp add: arp_reply_def)
  have frame: "g_netif ?n = g_netif n" "wire ?n = wire n"
    by (simp_all add: arp_cache_update_frame)
  have "arp_inv ?n" "arp_lookup ip ?n = Some mac"
    using assms(1,2) by (simp_all add: arp.learn_inv arp.lookup_learn)
  moreover have "net_htons (ap_oper (arp_parse other)) \<noteq> 2 \<and> \<not> arp_for_us (arp_parse other) ?n
      \<longrightarrow> arp_tbl (arp_receive other ?n) = arp_tbl ?n"
    by (simp add: arp_receive_def Let_def)
  ultimately show ?thesis
    unfolding recv Let_def using arp_lookup_resolve [of ip ?n mac drv] assms(4,5) frame by auto
qed

definition sample_netif :: "u32 \<Rightarrow> u8 list \<Rightarrow> netif" where
  "sample_netif ip mac = \<lparr>if_mac = mac, if_ip = ip, if_netmask = 0xFFFFFF00, if_gateway = 0, if_dns = 0\<rparr>"

definition sample_net :: "u32 \<Rightarrow> u8 list \<Rightarrow> net" where
  "sample_net ip mac = \<lparr>g_netif = sample_netif ip mac, rx_busy = False, uptime = 1000000,
     drv_send = Some (\<lambda>f. int (length f)), wire = [], wakes = [],
     arp_tbl = replicate ARP_CACHE_SIZE \<lparr>ae_ip = 0, ae_mac = [], ae_timestamp = 0, ae_valid = False\<rparr>,
     arp_next_victim = 0, ping_reply = False, ping_seq = 0, ping_peer = 0, udp_sockets = [],
     udp_next_port = 49152, tcp_sockets = [], tcp_next_port = 49152, isn_state = 0\<rparr>"

lemma sample_net_arp: "arp_inv (sample_net ip mac)"
  by (simp add: arp_inv_def sample_net_def ARP_CACHE_SIZE_def)

lemma arp_reply_resolves_witness:
  "let n' = arp_receive (arp_bytes (arp_reply 0x0A000202 [1, 2, 3, 4, 5, 6] 0x0A00020F [9, 9, 9, 9, 9, 9]) @ [0, 0])
       (sample_net 0x0A00020F [9, 9, 9, 9, 9, 9]) in
   fst (arp_resolve (\<lambda>n. n) 0x0A000202 n') = Some [1, 2, 3, 4, 5, 6]"
proof -
  let ?n = "sample_net 0x0A00020F [9, 9, 9, 9, 9, 9]"
  have net: "if_gateway (g_netif ?n) = 0 \<or> if_ip (g_netif ?n) AND if_netmask (g_netif ?n) = 0x0A000202 AND if_netmask (g_netif ?n)"
    by (simp add: sample_net_def sample_netif_def)
  have "length [1, 2, 3, 4, 5, 6 :: u8] = 6" "length [9, 9, 9, 9, 9, 9 :: u8] = 6" "(0x0A000202 :: u32) \<noteq> 0xFFFFFFFF"
    by simp_all
  from arp_reply_resolves [OF sample_net_arp this net, where to_ip = "0x0A00020F" and pad = "[0, 0]" and drv = "\<lambda>n. n"
      and other = "[]"]
  show ?thesis
    unfolding Let_def by (elim conjE) assumption
qed

end
