(* ===== verification/Tcp.thy ===== *)
theory Tcp
  imports Net_Base
begin

unbundle bit_operations_syntax

text \<open>
  TCP (\<open>src/kernel/net/tcp.c\<close>): segments, the receive state machine and the blocking interface. A
  socket pointer is its index in \<open>sockets\<close>. The loops that wait for the network poll the driver hook
  \<open>drv\<close> and are partial functions: \<open>None\<close> is a wait that never ends.
\<close>

section \<open>Constants and sockets\<close>

definition TCP_MAX_SOCKETS :: nat where "TCP_MAX_SOCKETS = 8"
definition TCP_RX_BUFSZ :: nat where "TCP_RX_BUFSZ = 64 * 1024"
definition TCP_MSS :: nat where "TCP_MSS = 1400"
definition TCP_RETRIES :: int where "TCP_RETRIES = 8"
definition TCP_RTO_US :: u64 where "TCP_RTO_US = 300 * 1000"
definition TCP_FLAG_FIN :: u8 where "TCP_FLAG_FIN = 0x01"
definition TCP_FLAG_SYN :: u8 where "TCP_FLAG_SYN = 0x02"
definition TCP_FLAG_RST :: u8 where "TCP_FLAG_RST = 0x04"
definition TCP_FLAG_PSH :: u8 where "TCP_FLAG_PSH = 0x08"
definition TCP_FLAG_ACK :: u8 where "TCP_FLAG_ACK = 0x10"

definition tcp_sock :: "net \<Rightarrow> nat \<Rightarrow> tcp_socket" where
  "tcp_sock n i = tcp_sockets n ! i"

definition upd_tcp :: "nat \<Rightarrow> (tcp_socket \<Rightarrow> tcp_socket) \<Rightarrow> net \<Rightarrow> net" where
  "upd_tcp i f n = n\<lparr>tcp_sockets := (tcp_sockets n)[i := f (tcp_sockets n ! i)]\<rparr>"

definition tcp_isn :: "net \<Rightarrow> u32 \<times> net" where
  "tcp_isn n =
     (let s = (if isn_state n = 0 then ucast (uptime n) OR 1 else isn_state n);
          s = s XOR push_bit 13 s;
          s = s XOR drop_bit 17 s;
          s = s XOR push_bit 5 s
      in (s, n\<lparr>isn_state := s\<rparr>))"

definition tcp_init :: "net \<Rightarrow> net" where
  "tcp_init n = n\<lparr>tcp_sockets := map (\<lambda>s. s\<lparr>ts_used := False, ts_state := TCP_CLOSED\<rparr>) (tcp_sockets n)\<rparr>"

definition tcp_zero_socket :: tcp_socket where
  "tcp_zero_socket = \<lparr>ts_used = False, ts_state = TCP_CLOSED, ts_remote_ip = 0, ts_remote_port = 0,
     ts_local_port = 0, ts_iss = 0, ts_snd_una = 0, ts_snd_nxt = 0, ts_tx_seg = replicate TCP_MSS 0,
     ts_tx_len = 0, ts_tx_flags = 0, ts_tx_time_us = 0, ts_tx_retries = 0, ts_fin_queued = False,
     ts_rcv_nxt = 0, ts_rx_buf = (\<lambda>_. 0), ts_rx_head = 0, ts_rx_tail = 0, ts_rx_fin = False\<rparr>"

definition tcp_socket_create :: "net \<Rightarrow> nat option \<times> net" where
  "tcp_socket_create n =
     (case List.find (\<lambda>i. \<not> ts_used (tcp_sock n i)) [0..<TCP_MAX_SOCKETS] of
        None \<Rightarrow> (None, n)
      | Some i \<Rightarrow> (Some i, upd_tcp i (\<lambda>_. tcp_zero_socket\<lparr>ts_used := True, ts_state := TCP_CLOSED\<rparr>) n))"

definition tcp_socket_close :: "nat option \<Rightarrow> net \<Rightarrow> net" where
  "tcp_socket_close sock n =
     (case sock of None \<Rightarrow> n | Some i \<Rightarrow> upd_tcp i (\<lambda>s. s\<lparr>ts_used := False, ts_state := TCP_CLOSED\<rparr>) n)"

definition tcp_port_taken :: "nat \<Rightarrow> u16 \<Rightarrow> net \<Rightarrow> bool" where
  "tcp_port_taken i p n =
     list_ex (\<lambda>j. j \<noteq> i \<and> ts_used (tcp_sock n j) \<and> ts_local_port (tcp_sock n j) = p) [0..<TCP_MAX_SOCKETS]"

definition tcp_bind :: "nat option \<Rightarrow> u16 \<Rightarrow> net \<Rightarrow> int \<times> net" where
  "tcp_bind sock port n =
     (case sock of
        None \<Rightarrow> (- 1, n)
      | Some i \<Rightarrow>
          if \<not> ts_used (tcp_sock n i) \<or> tcp_port_taken i port n then (- 1, n)
          else (0, upd_tcp i (\<lambda>s. s\<lparr>ts_local_port := port\<rparr>) n))"

section \<open>Segments\<close>

definition tcp_pseudo :: "u32 \<Rightarrow> u32 \<Rightarrow> u16 \<Rightarrow> u8 list" where
  "tcp_pseudo src_ip dst_ip seg_len =
     [ucast (drop_bit 24 src_ip), ucast (drop_bit 16 src_ip), ucast (drop_bit 8 src_ip), ucast src_ip,
      ucast (drop_bit 24 dst_ip), ucast (drop_bit 16 dst_ip), ucast (drop_bit 8 dst_ip), ucast dst_ip,
      0, IP_PROTO_TCP, ucast (drop_bit 8 seg_len), ucast seg_len]"

definition tcp_checksum :: "u32 \<Rightarrow> u32 \<Rightarrow> u8 list \<Rightarrow> u16" where
  "tcp_checksum src_ip dst_ip seg =
     ucast (NOT (fold16 (checksum_sum seg (checksum_sum (tcp_pseudo src_ip dst_ip (of_nat (length seg))) 0))))"

definition tcp_window :: "tcp_socket \<Rightarrow> u16" where
  "tcp_window s = of_nat (TCP_RX_BUFSZ - 1) - (ts_rx_head s - ts_rx_tail s)"

text \<open>Header, MSS option and payload, with a given checksum field.\<close>

definition tcp_segment :: "tcp_socket \<Rightarrow> u32 \<Rightarrow> u8 \<Rightarrow> u16 \<Rightarrow> u8 list \<Rightarrow> u8 list" where
  "tcp_segment s seq flags checksum payload =
     st16 (net_htons (ts_local_port s)) @ st16 (net_htons (ts_remote_port s)) @ st32 (net_htonl seq)
     @ st32 (net_htonl (ts_rcv_nxt s)) @ [of_nat ((24 div 4) * 16), flags] @ st16 (net_htons (tcp_window s))
     @ st16 checksum @ st16 0
     @ [2, 4, of_nat (TCP_MSS div 256), of_nat (TCP_MSS mod 256)] @ payload"

definition tcp_transmit_seg ::
  "(net \<Rightarrow> net) \<Rightarrow> nat \<Rightarrow> u32 \<Rightarrow> u8 \<Rightarrow> u8 list \<Rightarrow> net \<Rightarrow> int \<times> net" where
  "tcp_transmit_seg drv i seq flags payload n =
     (let s = tcp_sock n i in
      if 24 + length payload > NET_MAX_PACKET - 20 then (- 1, n)
      else ipv4_transmit drv (ts_remote_ip s) IP_PROTO_TCP
             (tcp_segment s seq flags
               (tcp_checksum (netif_get_ip n) (ts_remote_ip s) (tcp_segment s seq flags 0 payload)) payload) n)"

fun tcp_rx_push_loop :: "u8 list \<Rightarrow> tcp_socket \<Rightarrow> tcp_socket" where
  "tcp_rx_push_loop [] s = s"
| "tcp_rx_push_loop (b # bs) s =
     (let nxt = of_nat ((unat (ts_rx_head s) + 1) mod TCP_RX_BUFSZ) in
      if nxt = ts_rx_tail s then s
      else tcp_rx_push_loop bs
             (s\<lparr>ts_rx_buf := (ts_rx_buf s)(unat (ts_rx_head s) := b), ts_rx_head := nxt\<rparr>))"

definition tcp_rx_push :: "nat \<Rightarrow> u8 list \<Rightarrow> net \<Rightarrow> net" where
  "tcp_rx_push i data n = wait_wake_net 1 (upd_tcp i (tcp_rx_push_loop data) n)"

section \<open>The receive state machine\<close>

definition tcp_ack_in :: "u8 \<Rightarrow> u32 \<Rightarrow> tcp_socket \<Rightarrow> tcp_socket" where
  "tcp_ack_in flags ack s =
     (if flags AND TCP_FLAG_ACK \<noteq> 0 \<and> sint (ack - ts_snd_una s) > 0 \<and> sint (ts_snd_nxt s - ack) \<ge> 0
      then s\<lparr>ts_snd_una := ack, ts_tx_len := 0, ts_tx_time_us := 0, ts_fin_queued := False, ts_tx_retries := 0\<rparr>
      else s)"

definition tcp_data_in :: "(net \<Rightarrow> net) \<Rightarrow> nat \<Rightarrow> u32 \<Rightarrow> u8 list \<Rightarrow> net \<Rightarrow> net" where
  "tcp_data_in drv i seq payload n =
     (if payload = [] then n
      else
        (let n = (if seq = ts_rcv_nxt (tcp_sock n i)
                  then upd_tcp i (\<lambda>s. s\<lparr>ts_rcv_nxt := ts_rcv_nxt s + of_nat (length payload)\<rparr>) (tcp_rx_push i payload n)
                  else n)
         in snd (tcp_transmit_seg drv i (ts_snd_nxt (tcp_sock n i)) TCP_FLAG_ACK [] n)))"

definition tcp_fin_in :: "(net \<Rightarrow> net) \<Rightarrow> nat \<Rightarrow> u32 \<Rightarrow> u8 list \<Rightarrow> net \<Rightarrow> net" where
  "tcp_fin_in drv i seq payload n =
     (let fin_end = seq + of_nat (length payload) + 1;
          n = upd_tcp i (\<lambda>s. s\<lparr>ts_rcv_nxt := (if fin_end > ts_rcv_nxt s then fin_end else ts_rcv_nxt s),
                 ts_rx_fin := True\<rparr>) n;
          n = wait_wake_net (- 1) n;
          n = snd (tcp_transmit_seg drv i (ts_snd_nxt (tcp_sock n i)) TCP_FLAG_ACK [] n)
      in upd_tcp i (\<lambda>s. s\<lparr>ts_state :=
           (case ts_state s of
              TCP_ESTABLISHED \<Rightarrow> TCP_CLOSE_WAIT
            | TCP_FIN_WAIT1 \<Rightarrow> TCP_CLOSING
            | TCP_FIN_WAIT2 \<Rightarrow> TCP_TIME_WAIT
            | st \<Rightarrow> st)\<rparr>) n)"

definition tcp_ack_done :: "tcp_socket \<Rightarrow> tcp_socket" where
  "tcp_ack_done s =
     (let s = (if ts_state s = TCP_FIN_WAIT1 \<and> ts_tx_len s = 0 \<and> \<not> ts_fin_queued s
               then s\<lparr>ts_state := TCP_FIN_WAIT2\<rparr> else s)
      in if ts_state s = TCP_CLOSING \<and> ts_tx_len s = 0 then s\<lparr>ts_state := TCP_TIME_WAIT\<rparr> else s)"

definition tcp_open_in :: "(net \<Rightarrow> net) \<Rightarrow> nat \<Rightarrow> u32 \<Rightarrow> u32 \<Rightarrow> u8 \<Rightarrow> u8 list \<Rightarrow> net \<Rightarrow> net" where
  "tcp_open_in drv i seq ack flags payload n =
     (let n = upd_tcp i (tcp_ack_in flags ack) n;
          n = tcp_data_in drv i seq payload n;
          n = (if flags AND TCP_FLAG_FIN \<noteq> 0 then tcp_fin_in drv i seq payload n else n)
      in upd_tcp i tcp_ack_done n)"

definition tcp_syn_sent_in :: "(net \<Rightarrow> net) \<Rightarrow> nat \<Rightarrow> u32 \<Rightarrow> u32 \<Rightarrow> u8 \<Rightarrow> u8 list \<Rightarrow> net \<Rightarrow> net" where
  "tcp_syn_sent_in drv i seq ack flags payload n =
     (if flags AND TCP_FLAG_SYN \<noteq> 0 \<and> flags AND TCP_FLAG_ACK \<noteq> 0 \<and> ack = ts_iss (tcp_sock n i) + 1 then
        (let n = upd_tcp i (\<lambda>s. s\<lparr>ts_rcv_nxt := seq + 1 + of_nat (length payload), ts_snd_una := ack,
                   ts_state := TCP_ESTABLISHED, ts_tx_time_us := 0, ts_tx_retries := 0\<rparr>) n;
             n = tcp_rx_push i payload n
         in snd (tcp_transmit_seg drv i (ts_snd_nxt (tcp_sock n i)) TCP_FLAG_ACK [] n))
      else n)"

text \<open>A segment for socket \<open>i\<close>, after the checks of \<open>tcp_receive\<close>.\<close>

definition tcp_segment_in :: "(net \<Rightarrow> net) \<Rightarrow> nat \<Rightarrow> u32 \<Rightarrow> u32 \<Rightarrow> u8 \<Rightarrow> u8 list \<Rightarrow> net \<Rightarrow> net" where
  "tcp_segment_in drv i seq ack flags payload n =
     (if flags AND TCP_FLAG_RST \<noteq> 0 then upd_tcp i (\<lambda>s. s\<lparr>ts_state := TCP_CLOSED\<rparr>) n
      else
        (case ts_state (tcp_sock n i) of
           TCP_SYN_SENT \<Rightarrow> tcp_syn_sent_in drv i seq ack flags payload n
         | TCP_ESTABLISHED \<Rightarrow> tcp_open_in drv i seq ack flags payload n
         | TCP_FIN_WAIT1 \<Rightarrow> tcp_open_in drv i seq ack flags payload n
         | TCP_FIN_WAIT2 \<Rightarrow> tcp_open_in drv i seq ack flags payload n
         | TCP_CLOSING \<Rightarrow> tcp_open_in drv i seq ack flags payload n
         | TCP_LAST_ACK \<Rightarrow>
             if flags AND TCP_FLAG_ACK \<noteq> 0 \<and> ack = ts_snd_nxt (tcp_sock n i)
             then upd_tcp i (\<lambda>s. s\<lparr>ts_state := TCP_CLOSED\<rparr>) n else n
         | TCP_TIME_WAIT \<Rightarrow>
             if flags AND TCP_FLAG_FIN \<noteq> 0
             then snd (tcp_transmit_seg drv i (ts_snd_nxt (tcp_sock n i)) TCP_FLAG_ACK [] n) else n
         | _ \<Rightarrow> n))"

definition tcp_demux :: "u32 \<Rightarrow> u16 \<Rightarrow> u16 \<Rightarrow> net \<Rightarrow> nat option" where
  "tcp_demux src_ip src_port dst_port n =
     List.find (\<lambda>i. let s = tcp_sock n i in
       ts_used s \<and> ts_local_port s = dst_port \<and> ts_remote_port s = src_port \<and> ts_state s \<noteq> TCP_CLOSED
       \<and> ts_remote_ip s = src_ip) [0..<TCP_MAX_SOCKETS]"

definition tcp_receive :: "(net \<Rightarrow> net) \<Rightarrow> u32 \<Rightarrow> u8 list \<Rightarrow> net \<Rightarrow> net" where
  "tcp_receive drv src_ip data n =
     (if length data < 20 then n
      else
        (let src_port = net_htons (ld16 data 0);
             dst_port = net_htons (ld16 data 2);
             seq = net_htonl (ld32 data 4);
             ack = net_htonl (ld32 data 8);
             flags = data ! 13;
             off = unat (drop_bit 4 (data ! 12)) * 4
         in if off < 20 \<or> off > length data then n
            else (case tcp_demux src_ip src_port dst_port n of
                    None \<Rightarrow> n
                  | Some i \<Rightarrow>
                      if tcp_checksum src_ip (netif_get_ip n) data \<noteq> 0 then n
                      else tcp_segment_in drv i seq ack flags (drop off data) n)))"

section \<open>The blocking interface\<close>

definition tcp_poll :: "(net \<Rightarrow> net) \<Rightarrow> nat \<Rightarrow> net \<Rightarrow> net" where
  "tcp_poll drv i n =
     (let s = tcp_sock n i in
      if \<not> ts_used s \<or> ts_tx_len s = 0 \<or> ts_tx_time_us s = 0 then n
      else if uptime n - ts_tx_time_us s < TCP_RTO_US then n
      else if ts_tx_retries s \<ge> TCP_RETRIES then
        upd_tcp i (\<lambda>s. s\<lparr>ts_state := TCP_CLOSED, ts_tx_time_us := 0\<rparr>) n
      else
        (let n = snd (tcp_transmit_seg drv i (ts_snd_una s) (ts_tx_flags s) (take (unat (ts_tx_len s)) (ts_tx_seg s)) n)
         in upd_tcp i (\<lambda>s. s\<lparr>ts_tx_time_us := uptime n, ts_tx_retries := ts_tx_retries s + 1\<rparr>) n))"

definition tcp_send_seg_tracked :: "(net \<Rightarrow> net) \<Rightarrow> nat \<Rightarrow> u8 \<Rightarrow> u8 list \<Rightarrow> net \<Rightarrow> net" where
  "tcp_send_seg_tracked drv i flags payload n =
     (let payload = take TCP_MSS payload;
          n = upd_tcp i (\<lambda>s. s\<lparr>ts_tx_seg := payload @ drop (length payload) (ts_tx_seg s),
                ts_tx_len := of_nat (length payload), ts_tx_flags := flags OR TCP_FLAG_ACK,
                ts_fin_queued := (flags AND TCP_FLAG_FIN \<noteq> 0), ts_tx_retries := 0\<rparr>) n;
          s = tcp_sock n i;
          n = snd (tcp_transmit_seg drv i (ts_snd_una s) (ts_tx_flags s) payload n)
      in upd_tcp i (\<lambda>s. s\<lparr>ts_tx_time_us := uptime n\<rparr>) n)"

text \<open>The search for an ephemeral port, \<open>tries\<close> left of 0x4000.\<close>

fun tcp_port_loop :: "nat \<Rightarrow> nat \<Rightarrow> net \<Rightarrow> net" where
  "tcp_port_loop 0 i n = n"
| "tcp_port_loop (Suc tries) i n =
     (let p = tcp_next_port n;
          n = n\<lparr>tcp_next_port := p + 1\<rparr>
      in if \<not> tcp_port_taken i p n then upd_tcp i (\<lambda>s. s\<lparr>ts_local_port := p\<rparr>) n
         else tcp_port_loop tries i
                (if tcp_next_port n < 49152 then n\<lparr>tcp_next_port := 49152\<rparr> else n))"

text \<open>The wait for the handshake; \<open>Inl\<close> is the time-out.\<close>

partial_function (option) tcp_connect_wait ::
  "(net \<Rightarrow> net) \<Rightarrow> nat \<Rightarrow> u64 \<Rightarrow> u64 \<Rightarrow> net \<Rightarrow> (net + net) option" where
  "tcp_connect_wait drv i start rto_us n =
     (if ts_state (tcp_sock n i) \<noteq> TCP_SYN_SENT then Some (Inr n)
      else
        (let n = netif_poll drv n in
         if ts_state (tcp_sock n i) \<noteq> TCP_SYN_SENT then Some (Inr n)
         else
           (let s = tcp_sock n i in
            if ts_tx_time_us s \<noteq> 0 \<and> uptime n - ts_tx_time_us s > rto_us \<and> ts_tx_retries s \<ge> TCP_RETRIES
            then Some (Inr (upd_tcp i (\<lambda>s. s\<lparr>ts_state := TCP_CLOSED\<rparr>) n))
            else
              (let resend = (ts_tx_time_us s \<noteq> 0 \<and> uptime n - ts_tx_time_us s > rto_us);
                   n = (if resend
                        then (let n = snd (tcp_transmit_seg drv i (ts_iss s) TCP_FLAG_SYN [] n)
                              in upd_tcp i (\<lambda>s. s\<lparr>ts_tx_time_us := uptime n, ts_tx_retries := ts_tx_retries s + 1\<rparr>) n)
                        else n);
                   rto_us = (if resend \<and> rto_us < 4000000 then rto_us * 2 else rto_us)
               in if uptime n - start > 10000000 then Some (Inl n)
                  else tcp_connect_wait drv i start rto_us (pit_delay_ms 2 n)))))"

text \<open>Opening: everything \<open>tcp_connect\<close> does before it waits.\<close>

definition tcp_connect_start :: "(net \<Rightarrow> net) \<Rightarrow> nat \<Rightarrow> u32 \<Rightarrow> u16 \<Rightarrow> net \<Rightarrow> (net + net)" where
  "tcp_connect_start drv i ip port n =
     (let n = upd_tcp i (\<lambda>s. s\<lparr>ts_remote_ip := ip, ts_remote_port := port\<rparr>) n;
          n = (if ts_local_port (tcp_sock n i) = 0 then tcp_port_loop 0x4000 i n else n)
      in if ts_local_port (tcp_sock n i) = 0 then Inl n
         else
           (let (iss, n) = tcp_isn n;
                n = upd_tcp i (\<lambda>s. s\<lparr>ts_iss := iss, ts_snd_una := iss, ts_snd_nxt := iss + 1, ts_rcv_nxt := 0,
                      ts_rx_head := 0, ts_rx_tail := 0, ts_rx_fin := False, ts_state := TCP_SYN_SENT\<rparr>) n;
                n = snd (tcp_transmit_seg drv i iss TCP_FLAG_SYN [] n)
            in Inr (upd_tcp i (\<lambda>s. s\<lparr>ts_tx_len := 0, ts_tx_flags := TCP_FLAG_SYN, ts_fin_queued := False,
                      ts_tx_retries := 0, ts_tx_time_us := uptime n\<rparr>) n)))"

definition tcp_connect :: "(net \<Rightarrow> net) \<Rightarrow> nat \<Rightarrow> u32 \<Rightarrow> u16 \<Rightarrow> net \<Rightarrow> (int \<times> net) option" where
  "tcp_connect drv i ip port n =
     (if \<not> ts_used (tcp_sock n i) \<or> ts_state (tcp_sock n i) \<noteq> TCP_CLOSED then Some (- 1, n)
      else
        (case tcp_connect_start drv i ip port n of
           Inl n \<Rightarrow> Some (- 1, n)
         | Inr n \<Rightarrow>
             (case tcp_connect_wait drv i (uptime n) 500000 n of
                None \<Rightarrow> None
              | Some (Inl n) \<Rightarrow> Some (- 1, n)
              | Some (Inr n) \<Rightarrow>
                  (let n = upd_tcp i (\<lambda>s. s\<lparr>ts_tx_time_us := 0, ts_tx_retries := 0\<rparr>) n
                   in Some (if ts_state (tcp_sock n i) = TCP_ESTABLISHED then 0 else - 1, n)))))"

text \<open>The wait for the acknowledgement of one chunk; \<open>Inl\<close> is the time-out.\<close>

partial_function (option) tcp_send_wait ::
  "(net \<Rightarrow> net) \<Rightarrow> nat \<Rightarrow> u64 \<Rightarrow> net \<Rightarrow> (net + net) option" where
  "tcp_send_wait drv i start n =
     (if ts_tx_len (tcp_sock n i) = 0 \<or> ts_state (tcp_sock n i) \<noteq> TCP_ESTABLISHED then Some (Inr n)
      else
        (let n = tcp_poll drv i (netif_poll drv n) in
         if ts_tx_len (tcp_sock n i) = 0 \<or> ts_state (tcp_sock n i) \<noteq> TCP_ESTABLISHED then Some (Inr n)
         else if uptime n - start > 15000000 then Some (Inl n)
         else tcp_send_wait drv i start (pit_delay_ms 2 n)))"

partial_function (option) tcp_send_loop ::
  "(net \<Rightarrow> net) \<Rightarrow> nat \<Rightarrow> u8 list \<Rightarrow> nat \<Rightarrow> net \<Rightarrow> (int \<times> net) option" where
  "tcp_send_loop drv i data sent n =
     (if sent < length data then
        (let chunk = min (length data - sent) TCP_MSS;
             n = upd_tcp i (\<lambda>s. s\<lparr>ts_snd_nxt := ts_snd_nxt s + of_nat chunk\<rparr>) n;
             n = tcp_send_seg_tracked drv i (TCP_FLAG_ACK OR TCP_FLAG_PSH) (take chunk (drop sent data)) n
         in case tcp_send_wait drv i (uptime n) n of
              None \<Rightarrow> None
            | Some r \<Rightarrow>
                (case r of
                   Inl n \<Rightarrow> Some (- 1, n)
                 | Inr n \<Rightarrow>
                     if ts_tx_len (tcp_sock n i) \<noteq> 0 then Some (- 1, n)
                     else tcp_send_loop drv i data (sent + chunk) n))
      else Some (int sent, n))"

definition tcp_send :: "(net \<Rightarrow> net) \<Rightarrow> nat \<Rightarrow> u8 list \<Rightarrow> net \<Rightarrow> (int \<times> net) option" where
  "tcp_send drv i data n =
     (if \<not> ts_used (tcp_sock n i) \<or> ts_state (tcp_sock n i) \<noteq> TCP_ESTABLISHED then Some (- 1, n)
      else tcp_send_loop drv i data 0 n)"

definition tcp_rx_ready :: "nat \<Rightarrow> net \<Rightarrow> bool" where
  "tcp_rx_ready i n =
     (let s = tcp_sock n i in ts_used s \<and> (ts_rx_head s \<noteq> ts_rx_tail s \<or> ts_rx_fin s))"

text \<open>Draining the ring: at most \<open>maxlen\<close> bytes.\<close>

fun tcp_drain :: "nat \<Rightarrow> tcp_socket \<Rightarrow> u8 list \<times> tcp_socket" where
  "tcp_drain 0 s = ([], s)"
| "tcp_drain (Suc k) s =
     (if ts_rx_tail s \<noteq> ts_rx_head s then
        map_prod ((#) (ts_rx_buf s (unat (ts_rx_tail s)))) id
          (tcp_drain k (s\<lparr>ts_rx_tail := of_nat ((unat (ts_rx_tail s) + 1) mod TCP_RX_BUFSZ)\<rparr>))
      else ([], s))"

partial_function (option) tcp_recv_loop ::
  "(net \<Rightarrow> net) \<Rightarrow> nat \<Rightarrow> nat \<Rightarrow> u32 \<Rightarrow> u32 \<Rightarrow> net \<Rightarrow> (int \<times> u8 list \<times> net) option" where
  "tcp_recv_loop drv i maxlen timeout_ms waited n =
     (let n = netif_poll drv n; s = tcp_sock n i in
      if ts_state s = TCP_CLOSED \<and> ts_rx_head s = ts_rx_tail s then Some (- 1, [], n)
      else if ts_rx_head s \<noteq> ts_rx_tail s then
        (let (bytes, s') = tcp_drain maxlen s;
             n = upd_tcp i (\<lambda>_. s') n;
             n = snd (tcp_transmit_seg drv i (ts_snd_nxt s') TCP_FLAG_ACK [] n)
         in Some (int (length bytes), bytes, n))
      else if ts_rx_fin s then Some (0, [], n)
      else if timeout_ms \<noteq> 0xFFFFFFFF \<and> waited \<ge> timeout_ms then Some (- 1, [], n)
      else tcp_recv_loop drv i maxlen timeout_ms (waited + 2) (pit_delay_ms 2 n))"

definition tcp_recv :: "(net \<Rightarrow> net) \<Rightarrow> nat \<Rightarrow> nat \<Rightarrow> u32 \<Rightarrow> net \<Rightarrow> (int \<times> u8 list \<times> net) option" where
  "tcp_recv drv i maxlen timeout_ms n =
     (if \<not> ts_used (tcp_sock n i) then Some (- 1, [], n) else tcp_recv_loop drv i maxlen timeout_ms 0 n)"

text \<open>
  The two waits of \<open>tcp_close\<close>: while \<open>waiting\<close> holds of the socket, retransmit the FIN (if \<open>armed\<close>) and
  give up after \<open>limit\<close> microseconds.
\<close>

partial_function (option) tcp_close_wait ::
  "(net \<Rightarrow> net) \<Rightarrow> nat \<Rightarrow> (tcp_socket \<Rightarrow> bool) \<Rightarrow> (tcp_socket \<Rightarrow> bool) \<Rightarrow> u64 \<Rightarrow> u64 \<Rightarrow> net \<Rightarrow> net option" where
  "tcp_close_wait drv i waiting armed limit start n =
     (if waiting (tcp_sock n i) then
        (let n = netif_poll drv n;
             s = tcp_sock n i;
             resend = (armed s \<and> ts_tx_time_us s \<noteq> 0 \<and> uptime n - ts_tx_time_us s > TCP_RTO_US)
         in if resend \<and> ts_tx_retries s \<ge> TCP_RETRIES then Some n
            else
              (let n = (if resend
                        then (let n = snd (tcp_transmit_seg drv i (ts_snd_una s) (ts_tx_flags s) [] n)
                              in upd_tcp i (\<lambda>s. s\<lparr>ts_tx_time_us := uptime n, ts_tx_retries := ts_tx_retries s + 1\<rparr>) n)
                        else n)
               in if uptime n - start > limit then Some n
                  else tcp_close_wait drv i waiting armed limit start (pit_delay_ms 2 n)))
      else Some n)"

definition tcp_finish :: "nat \<Rightarrow> net \<Rightarrow> int \<times> net" where
  "tcp_finish i n = (0, upd_tcp i (\<lambda>s. s\<lparr>ts_state := TCP_CLOSED, ts_used := False\<rparr>) n)"

definition tcp_send_fin :: "(net \<Rightarrow> net) \<Rightarrow> nat \<Rightarrow> net \<Rightarrow> net" where
  "tcp_send_fin drv i n =
     (let n = upd_tcp i (\<lambda>s. s\<lparr>ts_tx_flags := TCP_FLAG_ACK OR TCP_FLAG_FIN, ts_tx_retries := 0,
                ts_snd_nxt := ts_snd_nxt s + 1\<rparr>) n;
          s = tcp_sock n i;
          n = snd (tcp_transmit_seg drv i (ts_snd_nxt s - 1) (ts_tx_flags s) [] n)
      in upd_tcp i (\<lambda>s. s\<lparr>ts_tx_time_us := uptime n\<rparr>) n)"

definition tcp_close :: "(net \<Rightarrow> net) \<Rightarrow> nat \<Rightarrow> net \<Rightarrow> (int \<times> net) option" where
  "tcp_close drv i n =
     (let s = tcp_sock n i in
      if \<not> ts_used s then Some (- 1, n)
      else if ts_state s = TCP_CLOSED then Some (0, upd_tcp i (\<lambda>s. s\<lparr>ts_used := False\<rparr>) n)
      else if ts_state s = TCP_CLOSE_WAIT then
        (let n = tcp_send_fin drv i (upd_tcp i (\<lambda>s. s\<lparr>ts_state := TCP_LAST_ACK\<rparr>) n) in
         map_option (tcp_finish i)
           (tcp_close_wait drv i (\<lambda>s. ts_state s = TCP_LAST_ACK) (\<lambda>_. True) 3000000 (uptime n) n))
      else if ts_state s = TCP_ESTABLISHED then
        (let n = tcp_send_fin drv i (upd_tcp i (\<lambda>s. s\<lparr>ts_tx_len := 1, ts_fin_queued := True,
                   ts_state := TCP_FIN_WAIT1\<rparr>) n) in
         map_option (tcp_finish i)
           (tcp_close_wait drv i (\<lambda>s. ts_state s \<noteq> TCP_CLOSED \<and> ts_state s \<noteq> TCP_TIME_WAIT)
             (\<lambda>s. ts_tx_len s \<noteq> 0) 8000000 (uptime n) n))
      else Some (tcp_finish i n))"

section \<open>Sending touches no socket\<close>

lemma arp_find_tcp:
  "tcp_sockets (snd (arp_find ip n)) = tcp_sockets n" "rx_busy (snd (arp_find ip n)) = rx_busy n"
  by (simp_all add: arp_find_def split: prod.split)

lemma arp_request_tcp:
  "tcp_sockets (arp_send_request ip n) = tcp_sockets n" "rx_busy (arp_send_request ip n) = rx_busy n"
  by (simp_all add: arp_send_request_def eth_transmit_frame)

text \<open>While a frame is dispatched polling is refused; without a driver hook polling does nothing.\<close>

definition quiet :: "(net \<Rightarrow> net) \<Rightarrow> net \<Rightarrow> bool" where
  "quiet drv n \<longleftrightarrow> rx_busy n \<or> drv = (\<lambda>n. n)"

lemma quiet_poll: "quiet drv n \<Longrightarrow> netif_poll drv n = n"
  by (auto simp: quiet_def netif_poll_def)

lemma arp_wait_tcp: "quiet drv n \<Longrightarrow> tcp_sockets (snd (arp_wait drv ip k n)) = tcp_sockets n"
proof (induction k arbitrary: n)
  case (Suc k)
  let ?n = "pit_delay_ms 2 n"
  have q: "quiet drv ?n" and tcp: "tcp_sockets ?n = tcp_sockets n"
    using Suc.prems by (simp_all add: quiet_def pit_delay_ms_def)
  obtain r n1 where f: "arp_find ip ?n = (r, n1)"
    by fastforce
  have n1: "tcp_sockets n1 = tcp_sockets n" "quiet drv n1" "quiet drv (arp_send_request ip n1)"
    using arp_find_tcp [of ip ?n] q tcp f by (auto simp: quiet_def arp_request_tcp)
  show ?case
    using f n1 Suc.IH [of n1] Suc.IH [of "arp_send_request ip n1"]
    by (auto simp: quiet_poll [OF q] arp_request_tcp Let_def split: option.split)
qed simp

lemma arp_resolve_tcp: "quiet drv n \<Longrightarrow> tcp_sockets (snd (arp_resolve drv ip n)) = tcp_sockets n"
proof -
  assume q: "quiet drv n"
  have "tcp_sockets (snd (case arp_find ip' n of
      (Some i, n) \<Rightarrow> (Some (ae_mac (arp_tbl n ! i)), n)
    | (None, n) \<Rightarrow> arp_wait drv ip' 500 (arp_send_request ip' n))) = tcp_sockets n" for ip'
  proof -
    obtain r n1 where f: "arp_find ip' n = (r, n1)"
      by fastforce
    then have "tcp_sockets n1 = tcp_sockets n" "quiet drv (arp_send_request ip' n1)"
      using arp_find_tcp [of ip' n] q by (auto simp: quiet_def arp_request_tcp)
    then show ?thesis
      using f by (simp add: arp_wait_tcp arp_request_tcp split: option.split)
  qed
  then show ?thesis
    unfolding arp_resolve_def Let_def by simp
qed

lemma ipv4_transmit_tcp:
  assumes "quiet drv n"
  shows "tcp_sockets (snd (ipv4_transmit drv dst proto payload n)) = tcp_sockets n"
proof -
  obtain r n1 where f: "arp_resolve drv (ipv4_next_hop dst (g_netif n)) n = (r, n1)"
    by fastforce
  then have "tcp_sockets n1 = tcp_sockets n"
    using arp_resolve_tcp [OF assms, of "ipv4_next_hop dst (g_netif n)"] by simp
  then show ?thesis
    by (simp add: ipv4_transmit_def f eth_transmit_frame Let_def split: option.split)
qed

lemma tcp_transmit_tcp:
  "quiet drv n \<Longrightarrow> tcp_sockets (snd (tcp_transmit_seg drv i seq flags payload n)) = tcp_sockets n"
  by (simp add: tcp_transmit_seg_def ipv4_transmit_tcp Let_def)

section \<open>The receive ring\<close>

definition ring_used :: "tcp_socket \<Rightarrow> nat" where
  "ring_used s = unat (ts_rx_head s - ts_rx_tail s)"

text \<open>The bytes between tail and head.\<close>

definition ring :: "tcp_socket \<Rightarrow> u8 list" where
  "ring s = map (\<lambda>k. ts_rx_buf s (unat (ts_rx_tail s + of_nat k))) [0..<ring_used s]"

lemma ring_length [simp]: "length (ring s) = ring_used s"
  by (simp add: ring_def)

lemma ring_next: "of_nat ((unat h + 1) mod TCP_RX_BUFSZ) = (h + 1 :: u16)"
  by (simp add: word_unat_eq_iff TCP_RX_BUFSZ_def unat_word_ariths unsigned_of_nat take_bit_eq_mod)

lemmas ring_step = ring_next [simplified]

lemma unat_plus_one:
  assumes "x + 1 \<noteq> (0 :: u16)"
  shows "unat (x + 1) = unat x + 1"
proof -
  have "unat (x + 1) = (unat x + 1) mod 65536"
    by (simp add: unat_word_ariths)
  moreover have "unat (x + 1) \<noteq> 0"
    using assms by (simp add: unat_eq_zero)
  moreover have "unat x < 65536"
    by simp
  ultimately show ?thesis
    by (cases "unat x = 65535") auto
qed

lemma ring_push_one:
  fixes b :: u8
  assumes room: "ts_rx_head s + 1 \<noteq> ts_rx_tail s"
  defines "s' \<equiv> s\<lparr>ts_rx_buf := (ts_rx_buf s)(unat (ts_rx_head s) := b), ts_rx_head := ts_rx_head s + 1\<rparr>"
  shows "ring s' = ring s @ [b]"
proof -
  let ?h = "ts_rx_head s" and ?t = "ts_rx_tail s"
  have "?h - ?t + 1 \<noteq> 0"
    using room by (metis add.commute diff_add_eq diff_eq_diff_eq diff_self eq_iff_diff_eq_0)
  then have used: "ring_used s' = ring_used s + 1"
    using unat_plus_one [of "?h - ?t"] by (simp add: ring_used_def s'_def diff_add_eq)
  have idx: "unat (?t + of_nat k) \<noteq> unat ?h" if "k < ring_used s" for k
  proof
    assume "unat (?t + of_nat k) = unat ?h"
    then have "?t + of_nat k = ?h"
      by (simp add: word_unat_eq_iff)
    then have "?h - ?t = of_nat k"
      by (metis add_diff_cancel_left')
    moreover have "unat (of_nat k :: u16) = k"
      by (rule unat_of_nat_le [of _ "?h - ?t"]) (use that in \<open>simp add: ring_used_def\<close>)
    ultimately show False
      using that by (simp add: ring_used_def)
  qed
  have end_at: "?t + of_nat (ring_used s) = ?h"
    by (simp add: ring_used_def)
  show ?thesis
    unfolding ring_def used using idx end_at by (simp add: s'_def)
qed

lemma tcp_rx_push_ring:
  "length bs \<le> unat (tcp_window s) \<Longrightarrow>
     ring (tcp_rx_push_loop bs s) = ring s @ bs
     \<and> (\<exists>buf h. tcp_rx_push_loop bs s = s\<lparr>ts_rx_buf := buf, ts_rx_head := h\<rparr>)"
proof (induction bs arbitrary: s)
  case Nil
  show ?case
    by (intro conjI exI [of _ "ts_rx_buf s"] exI [of _ "ts_rx_head s"]) simp_all
next
  case (Cons b bs)
  let ?s = "s\<lparr>ts_rx_buf := (ts_rx_buf s)(unat (ts_rx_head s) := b), ts_rx_head := ts_rx_head s + 1\<rparr>"
  have win: "unat (tcp_window s) = 65535 - ring_used s" for s
  proof -
    have "unat (ts_rx_head s - ts_rx_tail s) \<le> 65535"
      using unat_u16_less [of "ts_rx_head s - ts_rx_tail s"] by linarith
    then show ?thesis
      unfolding tcp_window_def ring_used_def TCP_RX_BUFSZ_def
      by (subst unat_sub_le) (simp_all add: word_le_nat_alt)
  qed
  have room: "ts_rx_head s + 1 \<noteq> ts_rx_tail s"
  proof
    assume "ts_rx_head s + 1 = ts_rx_tail s"
    then have "ts_rx_head s - ts_rx_tail s = ts_rx_head s - (ts_rx_head s + 1)"
      by (simp only:)
    also have "\<dots> = - 1"
      by simp
    finally have "ring_used s = 65535"
      by (simp add: ring_used_def unsigned_minus_1_eq_mask mask_eq_exp_minus_1)
    then show False
      using Cons.prems win [of s] by simp
  qed
  have one: "ring ?s = ring s @ [b]"
    by (rule ring_push_one [OF room])
  then have "ring_used ?s = ring_used s + 1"
    by (metis ring_length length_append_singleton Suc_eq_plus1)
  then have "length bs \<le> unat (tcp_window ?s)"
    using Cons.prems win [of s] win [of ?s] by simp
  from Cons.IH [OF this] show ?case
    using room one by (auto simp: ring_step Let_def)
qed

lemma ring_pop_one:
  assumes "ts_rx_tail s \<noteq> ts_rx_head s"
  shows "ring s = ts_rx_buf s (unat (ts_rx_tail s)) # ring (s\<lparr>ts_rx_tail := ts_rx_tail s + 1\<rparr>)"
proof -
  let ?s = "s\<lparr>ts_rx_tail := ts_rx_tail s + 1\<rparr>"
  have "ts_rx_head s - ts_rx_tail s \<noteq> 0"
    using assms by auto
  then have used: "ring_used s = Suc (ring_used ?s)"
    unfolding ring_used_def by (simp add: diff_diff_eq [symmetric] unat_minus_one unat_gt_0)
  show ?thesis
    unfolding ring_def used map_upt_Suc by (simp add: add.assoc)
qed

lemma tcp_drain_ring:
  "\<exists>t. tcp_drain k s = (take k (ring s), s\<lparr>ts_rx_tail := t\<rparr>) \<and> ring (s\<lparr>ts_rx_tail := t\<rparr>) = drop k (ring s)"
proof (induction k arbitrary: s)
  case 0
  have "s\<lparr>ts_rx_tail := ts_rx_tail s\<rparr> = s"
    by simp
  then show ?case
    by (metis drop0 take_0 tcp_drain.simps(1))
next
  case (Suc k)
  show ?case
  proof (cases "ts_rx_tail s = ts_rx_head s")
    case True
    then have "ring s = []"
      by (simp add: ring_def ring_used_def)
    then show ?thesis
      using True by (intro exI [of _ "ts_rx_tail s"]) (simp add: ring_def ring_used_def)
  next
    case False
    let ?s = "s\<lparr>ts_rx_tail := ts_rx_tail s + 1\<rparr>"
    obtain t where "tcp_drain k ?s = (take k (ring ?s), ?s\<lparr>ts_rx_tail := t\<rparr>)" "ring (?s\<lparr>ts_rx_tail := t\<rparr>) = drop k (ring ?s)"
      using Suc.IH by blast
    then show ?thesis
      using False ring_pop_one [OF False] by (intro exI [of _ t]) (simp add: ring_step)
  qed
qed

section \<open>Receiving a stream\<close>

definition receiving :: "tcp_state \<Rightarrow> bool" where
  "receiving st \<longleftrightarrow> st \<in> {TCP_ESTABLISHED, TCP_FIN_WAIT1, TCP_FIN_WAIT2, TCP_CLOSING}"

lemma ring_cong:
  "ts_rx_buf s' = ts_rx_buf s \<Longrightarrow> ts_rx_head s' = ts_rx_head s \<Longrightarrow> ts_rx_tail s' = ts_rx_tail s \<Longrightarrow> ring s' = ring s"
  by (simp add: ring_def ring_used_def)

lemma tcp_ack_in_rx:
  "ts_rcv_nxt (tcp_ack_in f a s) = ts_rcv_nxt s" "ring (tcp_ack_in f a s) = ring s"
  "tcp_window (tcp_ack_in f a s) = tcp_window s"
  by (auto simp: tcp_ack_in_def tcp_window_def intro: ring_cong)

lemma tcp_ack_done_rx: "ts_rcv_nxt (tcp_ack_done s) = ts_rcv_nxt s" "ring (tcp_ack_done s) = ring s"
  by (auto simp: tcp_ack_done_def Let_def intro: ring_cong)

lemma tcp_sock_upd:
  "i < length (tcp_sockets n) \<Longrightarrow> tcp_sock (upd_tcp i f n) i = f (tcp_sock n i)"
  by (simp add: tcp_sock_def upd_tcp_def)

lemma upd_tcp_frame: "rx_busy (upd_tcp i f n) = rx_busy n" "length (tcp_sockets (upd_tcp i f n)) = length (tcp_sockets n)"
  by (simp_all add: upd_tcp_def)

lemma tcp_sock_send:
  assumes "quiet drv n"
  shows "tcp_sock (snd (tcp_transmit_seg drv i seq flags payload n)) j = tcp_sock n j"
    "length (tcp_sockets (snd (tcp_transmit_seg drv i seq flags payload n))) = length (tcp_sockets n)"
  using tcp_transmit_tcp [OF assms] by (simp_all add: tcp_sock_def)

lemma tcp_rx_push_frame: "rx_busy (tcp_rx_push i d n) = rx_busy n"
  "length (tcp_sockets (tcp_rx_push i d n)) = length (tcp_sockets n)"
  by (simp_all add: tcp_rx_push_def wait_wake_net_def upd_tcp_def)

lemma tcp_sock_push:
  "i < length (tcp_sockets n) \<Longrightarrow> tcp_sock (tcp_rx_push i d n) i = tcp_rx_push_loop d (tcp_sock n i)"
  by (simp add: tcp_rx_push_def wait_wake_net_def tcp_sock_def upd_tcp_def)

lemma tcp_data_in_rx:
  fixes seq :: u32 and drv :: "net \<Rightarrow> net"
  assumes i: "i < length (tcp_sockets n)" and busy: "rx_busy n"
    and win: "length payload \<le> unat (tcp_window (tcp_sock n i))"
  defines "s \<equiv> tcp_sock n i"
  defines "s' \<equiv> tcp_sock (tcp_data_in drv i seq payload n) i"
  shows "ring s' = (if seq = ts_rcv_nxt s then ring s @ payload else ring s)"
    "ts_rcv_nxt s' = (if seq = ts_rcv_nxt s then ts_rcv_nxt s + of_nat (length payload) else ts_rcv_nxt s)"
    "length (tcp_sockets (tcp_data_in drv i seq payload n)) = length (tcp_sockets n)"
proof -
  obtain buf h where push: "tcp_rx_push_loop payload s = s\<lparr>ts_rx_buf := buf, ts_rx_head := h\<rparr>"
      "ring (tcp_rx_push_loop payload s) = ring s @ payload"
    using tcp_rx_push_ring [of payload s] win by (auto simp: s_def)
  let ?n = "if seq = ts_rcv_nxt s
    then upd_tcp i (\<lambda>s. s\<lparr>ts_rcv_nxt := ts_rcv_nxt s + of_nat (length payload)\<rparr>) (tcp_rx_push i payload n) else n"
  have q: "quiet drv ?n" and len: "length (tcp_sockets ?n) = length (tcp_sockets n)"
    using busy by (simp_all add: quiet_def upd_tcp_frame tcp_rx_push_frame)
  have sock: "tcp_sock ?n i = (if seq = ts_rcv_nxt s
      then (tcp_rx_push_loop payload s)\<lparr>ts_rcv_nxt := ts_rcv_nxt s + of_nat (length payload)\<rparr> else s)"
    using i push(1) by (simp add: tcp_sock_upd tcp_sock_push tcp_rx_push_frame s_def)
  have s': "payload \<noteq> [] \<Longrightarrow> s' = tcp_sock ?n i"
    unfolding s'_def tcp_data_in_def Let_def s_def [symmetric] using tcp_sock_send [OF q] by simp
  have rc: "ring ((tcp_rx_push_loop payload s)\<lparr>ts_rcv_nxt := r\<rparr>) = ring s @ payload" for r
    using push(2) by (subst ring_cong [of _ "tcp_rx_push_loop payload s"]) auto
  show "ring s' = (if seq = ts_rcv_nxt s then ring s @ payload else ring s)"
  proof (cases "payload = []")
    case True
    then show ?thesis
      by (simp add: s'_def s_def tcp_data_in_def)
  next
    case False
    then show ?thesis
      using s' sock rc by simp
  qed
  show "ts_rcv_nxt s' = (if seq = ts_rcv_nxt s then ts_rcv_nxt s + of_nat (length payload) else ts_rcv_nxt s)"
  proof (cases "payload = []")
    case True
    then show ?thesis
      by (simp add: s'_def s_def tcp_data_in_def)
  next
    case False
    then show ?thesis
      using s' sock by simp
  qed
  show "length (tcp_sockets (tcp_data_in drv i seq payload n)) = length (tcp_sockets n)"
    unfolding tcp_data_in_def Let_def s_def [symmetric] using tcp_sock_send(2) [OF q] len by simp
qed

lemma tcp_segment_in_rx:
  fixes seq ack :: u32 and drv :: "net \<Rightarrow> net"
  assumes i: "i < length (tcp_sockets n)" and busy: "rx_busy n" and st: "receiving (ts_state (tcp_sock n i))"
    and flags: "flags AND TCP_FLAG_RST = 0" "flags AND TCP_FLAG_FIN = 0"
    and win: "length payload \<le> unat (tcp_window (tcp_sock n i))"
  defines "s \<equiv> tcp_sock n i"
  defines "n' \<equiv> tcp_segment_in drv i seq ack flags payload n"
  shows "ring (tcp_sock n' i) = (if seq = ts_rcv_nxt s then ring s @ payload else ring s)"
    "ts_rcv_nxt (tcp_sock n' i) = (if seq = ts_rcv_nxt s then ts_rcv_nxt s + of_nat (length payload) else ts_rcv_nxt s)"
    "length (tcp_sockets n') = length (tcp_sockets n)"
proof -
  let ?n = "upd_tcp i (tcp_ack_in flags ack) n"
  have n': "n' = upd_tcp i tcp_ack_done (tcp_data_in drv i seq payload ?n)"
    using st flags by (auto simp: n'_def tcp_segment_in_def receiving_def tcp_open_in_def Let_def)
  have i': "i < length (tcp_sockets ?n)" "rx_busy ?n"
    using i busy by (simp_all add: upd_tcp_frame)
  have s: "tcp_sock ?n i = tcp_ack_in flags ack s"
    using i by (simp add: tcp_sock_upd s_def)
  have win': "length payload \<le> unat (tcp_window (tcp_sock ?n i))"
    unfolding s tcp_ack_in_rx using win by (simp add: s_def)
  note rx = tcp_data_in_rx [OF i' win', of drv seq, unfolded s tcp_ack_in_rx]
  have done_at: "tcp_sock n' i = tcp_ack_done (tcp_sock (tcp_data_in drv i seq payload ?n) i)"
    unfolding n' using rx(3) i by (simp add: tcp_sock_upd upd_tcp_frame)
  show "ring (tcp_sock n' i) = (if seq = ts_rcv_nxt s then ring s @ payload else ring s)"
    "ts_rcv_nxt (tcp_sock n' i) = (if seq = ts_rcv_nxt s then ts_rcv_nxt s + of_nat (length payload) else ts_rcv_nxt s)"
    "length (tcp_sockets n') = length (tcp_sockets n)"
    unfolding done_at tcp_ack_done_rx using rx by (simp_all add: n' upd_tcp_frame)
qed

text \<open>Reading with no traffic in between takes bytes off the front.\<close>

definition rx_kept :: "nat \<Rightarrow> net \<Rightarrow> int \<times> u8 list \<times> net \<Rightarrow> bool" where
  "rx_kept i n = (\<lambda>(r, bytes, n'). bytes @ ring (tcp_sock n' i) = ring (tcp_sock n i)
     \<and> ts_rcv_nxt (tcp_sock n' i) = ts_rcv_nxt (tcp_sock n i) \<and> length (tcp_sockets n') = length (tcp_sockets n))"

lemma rx_kept_drain:
  assumes i: "i < length (tcp_sockets n)" and d: "tcp_drain maxlen (tcp_sock n i) = (bytes, s')"
  shows "rx_kept i n (r, bytes, snd (tcp_transmit_seg (\<lambda>n. n) i q TCP_FLAG_ACK [] (upd_tcp i (\<lambda>_. s') n)))"
proof -
  obtain t where t: "bytes = take maxlen (ring (tcp_sock n i))" "s' = (tcp_sock n i)\<lparr>ts_rx_tail := t\<rparr>"
      "ring s' = drop maxlen (ring (tcp_sock n i))"
    using tcp_drain_ring [of maxlen "tcp_sock n i"] d by auto
  have "quiet (\<lambda>n. n) (upd_tcp i (\<lambda>_. s') n)"
    by (simp add: quiet_def)
  from tcp_sock_send [OF this] show ?thesis
    using i t by (simp add: rx_kept_def tcp_sock_upd upd_tcp_frame)
qed

lemma tcp_recv_loop_rx:
  assumes "tcp_recv_loop (\<lambda>n. n) i maxlen tmo waited n = Some res" and "i < length (tcp_sockets n)"
  shows "rx_kept i n res"
proof -
  have "drv = (\<lambda>n. n) \<longrightarrow> i < length (tcp_sockets n) \<longrightarrow> rx_kept i n res"
    if "tcp_recv_loop drv i maxlen tmo waited n = Some res" for drv i maxlen tmo waited n res
    using that
  proof (rule tcp_recv_loop.raw_induct [rotated, where P = "\<lambda>drv i maxlen tmo waited n res.
      drv = (\<lambda>n. n) \<longrightarrow> i < length (tcp_sockets n) \<longrightarrow> rx_kept i n res"], intro impI)
    fix loop :: "(net \<Rightarrow> net) \<Rightarrow> nat \<Rightarrow> nat \<Rightarrow> u32 \<Rightarrow> u32 \<Rightarrow> net \<Rightarrow> (int \<times> u8 list \<times> net) option"
      and drv i maxlen tmo waited n res
    assume ih: "\<And>drv i maxlen tmo waited n res. loop drv i maxlen tmo waited n = Some res \<Longrightarrow>
        drv = (\<lambda>n. n) \<longrightarrow> i < length (tcp_sockets n) \<longrightarrow> rx_kept i n res"
      and body: "(let n = netif_poll drv n; s = tcp_sock n i in
        if ts_state s = TCP_CLOSED \<and> ts_rx_head s = ts_rx_tail s then Some (- 1, [], n)
        else if ts_rx_head s \<noteq> ts_rx_tail s then
          (let (bytes, s') = tcp_drain maxlen s; n = upd_tcp i (\<lambda>_. s') n;
               n = snd (tcp_transmit_seg drv i (ts_snd_nxt s') TCP_FLAG_ACK [] n)
           in Some (int (length bytes), bytes, n))
        else if ts_rx_fin s then Some (0, [], n)
        else if tmo \<noteq> 0xFFFFFFFF \<and> waited \<ge> tmo then Some (- 1, [], n)
        else loop drv i maxlen tmo (waited + 2) (pit_delay_ms 2 n)) = Some res"
      and drv: "drv = (\<lambda>n. n)" and i: "i < length (tcp_sockets n)"
    have poll: "netif_poll (\<lambda>n. n) n = n"
      by (simp add: netif_poll_def)
    have delay: "tcp_sockets (pit_delay_ms 2 n) = tcp_sockets n"
        "rx_kept i (pit_delay_ms 2 n) res \<Longrightarrow> rx_kept i n res"
      by (simp_all add: pit_delay_ms_def rx_kept_def tcp_sock_def)
    obtain bytes s' where d: "tcp_drain maxlen (tcp_sock n i) = (bytes, s')"
      by fastforce
    consider c where "res = (c, [], n)"
      | c q where "res = (c, bytes, snd (tcp_transmit_seg (\<lambda>n. n) i q TCP_FLAG_ACK [] (upd_tcp i (\<lambda>_. s') n)))"
      | "loop drv i maxlen tmo (waited + 2) (pit_delay_ms 2 n) = Some res"
      using body d unfolding drv poll Let_def by (auto split: if_splits)
    then show "rx_kept i n res"
    proof cases
      case 1
      then show ?thesis
        by (simp add: rx_kept_def)
    next
      case 2
      then show ?thesis
        using rx_kept_drain [OF i d] by simp
    next
      case 3
      then show ?thesis
        using ih [OF 3] drv i delay by simp
    qed
  qed
  from this [OF assms(1)] show ?thesis
    using assms(2) by simp
qed

text \<open>
  A session: the peer's stream \<open>str\<close> starts at sequence number \<open>irs\<close>; segments carry pieces of it in any
  order and any number of times, within the advertised window; the application reads now and then.
  \<open>got\<close> is what it has read.
\<close>

inductive tcp_session :: "nat \<Rightarrow> u32 \<Rightarrow> u8 list \<Rightarrow> net \<Rightarrow> u8 list \<Rightarrow> bool" for i irs str where
  start: "i < length (tcp_sockets n) \<Longrightarrow> ring (tcp_sock n i) = [] \<Longrightarrow> ts_rcv_nxt (tcp_sock n i) = irs \<Longrightarrow>
    tcp_session i irs str n []"
| segment: "tcp_session i irs str n got \<Longrightarrow> receiving (ts_state (tcp_sock n i)) \<Longrightarrow>
    flags AND TCP_FLAG_RST = 0 \<Longrightarrow> flags AND TCP_FLAG_FIN = 0 \<Longrightarrow>
    off + len \<le> length str \<Longrightarrow> len \<le> unat (tcp_window (tcp_sock n i)) \<Longrightarrow>
    tcp_session i irs str
      ((tcp_segment_in drv i (irs + of_nat off) ack flags (take len (drop off str)) (n\<lparr>rx_busy := True\<rparr>))
         \<lparr>rx_busy := False\<rparr>) got"
| read: "tcp_session i irs str n got \<Longrightarrow> tcp_recv (\<lambda>n. n) i maxlen timeout n = Some (r, bytes, n') \<Longrightarrow>
    tcp_session i irs str n' (got @ bytes)"

lemma len32: "n < 2 ^ 32 \<longleftrightarrow> n < 2 ^ LENGTH(32)"
  by simp

lemma tcp_session_inv:
  assumes "tcp_session i irs str n got" and "length str < 2 ^ 32"
  shows "i < length (tcp_sockets n) \<and> (let s = tcp_sock n i in
      got @ ring s = take (length got + ring_used s) str \<and> length got + ring_used s \<le> length str
      \<and> ts_rcv_nxt s = irs + of_nat (length got + ring_used s))"
  using assms(1)
proof (induction rule: tcp_session.induct)
  case (start n)
  then have "ring_used (tcp_sock n i) = 0"
    by (metis ring_length list.size(3))
  then show ?case
    using start by (simp add: Let_def)
next
  case (segment n got flags off len drv ack)
  let ?n = "n\<lparr>rx_busy := True\<rparr>" and ?p = "take len (drop off str)"
  let ?s = "tcp_sock n i" and ?m = "length got + ring_used (tcp_sock n i)"
  have same: "tcp_sock ?n i = ?s" "tcp_sock (k\<lparr>rx_busy := b\<rparr>) i = tcp_sock k i" for k b
    by (simp_all add: tcp_sock_def)
  have ih: "i < length (tcp_sockets n)" "got @ ring ?s = take ?m str" "?m \<le> length str"
      "ts_rcv_nxt ?s = irs + of_nat ?m"
    using segment.IH by (simp_all add: Let_def)
  have len: "length ?p = len"
    using segment.hyps by simp
  have rx: "ring (tcp_sock (tcp_segment_in drv i (irs + of_nat off) ack flags ?p ?n) i)
        = (if irs + of_nat off = ts_rcv_nxt ?s then ring ?s @ ?p else ring ?s)"
    "ts_rcv_nxt (tcp_sock (tcp_segment_in drv i (irs + of_nat off) ack flags ?p ?n) i)
        = (if irs + of_nat off = ts_rcv_nxt ?s then ts_rcv_nxt ?s + of_nat len else ts_rcv_nxt ?s)"
    "length (tcp_sockets (tcp_segment_in drv i (irs + of_nat off) ack flags ?p ?n)) = length (tcp_sockets n)"
    using tcp_segment_in_rx [of i ?n flags ?p drv "irs + of_nat off" ack] segment.hyps ih(1) same len by simp_all
  show ?case
  proof (cases "irs + of_nat off = ts_rcv_nxt ?s")
    case True
    then have eq: "(of_nat off :: u32) = of_nat ?m"
      using ih(4) by simp
    have "off < 2 ^ 32" "?m < 2 ^ 32"
      using segment.hyps ih(3) assms(2) by linarith+
    then have "unat (of_nat off :: u32) = off" "unat (of_nat ?m :: u32) = ?m"
      by (simp_all only: unat_of_nat_small len32)
    then have off: "off = ?m"
      using eq by simp
    have "got @ ring ?s @ ?p = take ?m str @ take len (drop ?m str)"
      using ih(2) off by (metis append_assoc)
    also have "\<dots> = take (?m + len) str"
      by (simp add: take_add)
    finally have "got @ ring ?s @ ?p = take (?m + len) str" .
    moreover have "ring_used (tcp_sock (tcp_segment_in drv i (irs + of_nat off) ack flags ?p ?n) i) = ring_used ?s + len"
      using rx(1) True len by (metis length_append ring_length)
    ultimately show ?thesis
      using rx True ih segment.hyps off by (simp add: same Let_def add.assoc)
  next
    case False
    then have "ring_used (tcp_sock (tcp_segment_in drv i (irs + of_nat off) ack flags ?p ?n) i) = ring_used ?s"
      using rx(1) by (metis ring_length)
    then show ?thesis
      using False rx ih by (simp add: same Let_def)
  qed
next
  case (read n got maxlen timeout r bytes n')
  let ?s = "tcp_sock n i"
  have ih: "i < length (tcp_sockets n)" "got @ ring ?s = take (length got + ring_used ?s) str"
      "length got + ring_used ?s \<le> length str" "ts_rcv_nxt ?s = irs + of_nat (length got + ring_used ?s)"
    using read.IH by (simp_all add: Let_def)
  have "rx_kept i n (r, bytes, n')"
    using read.hyps tcp_recv_loop_rx [of i maxlen timeout 0 n "(r, bytes, n')"] ih(1)
    by (auto simp: tcp_recv_def rx_kept_def split: if_splits)
  then have k: "bytes @ ring (tcp_sock n' i) = ring ?s" "ts_rcv_nxt (tcp_sock n' i) = ts_rcv_nxt ?s"
      "length (tcp_sockets n') = length (tcp_sockets n)"
    by (simp_all add: rx_kept_def)
  from k(1) have "ring_used ?s = length bytes + ring_used (tcp_sock n' i)"
    by (metis length_append ring_length)
  then show ?case
    using k ih by (simp add: Let_def add.assoc)
qed

section \<open>Properties\<close>

text \<open>C22. TCP delivers the peer's stream. However the pieces of a stream of less than 4 GiB are cut, repeated
  and reordered on the way, as long as no segment carries FIN or RST and none is longer than the window
  advertised when it arrives, what the application has read is a prefix of the stream, the ring holds
  the bytes that follow, and the acknowledgement number is the number of bytes received.\<close>

theorem tcp_stream_prefix:
  assumes "tcp_session i irs str n got" and "length str < 2 ^ 32"
  shows "\<exists>rest. str = got @ ring (tcp_sock n i) @ rest
    \<and> ts_rcv_nxt (tcp_sock n i) = irs + of_nat (length got + length (ring (tcp_sock n i)))"
proof -
  let ?s = "tcp_sock n i"
  have "got @ ring ?s = take (length got + ring_used ?s) str" "ts_rcv_nxt ?s = irs + of_nat (length got + ring_used ?s)"
    using tcp_session_inv [OF assms] by (simp_all add: Let_def)
  then show ?thesis
    by (metis append_assoc append_take_drop_id ring_length)
qed

definition sample_connection :: net where
  "sample_connection = (sample_net 0x0A000202 [2, 0, 0, 0, 0, 2])\<lparr>tcp_sockets :=
     [tcp_zero_socket\<lparr>ts_used := True, ts_state := TCP_ESTABLISHED, ts_rcv_nxt := 100\<rparr>]\<rparr>"

lemma tcp_stream_prefix_witness:
  "\<exists>n rest. [1, 2, 3, 4 :: u8] = [] @ ring (tcp_sock n 0) @ rest
     \<and> n = (tcp_segment_in (\<lambda>n. n) 0 (100 + of_nat 0) 0 0 (take 2 (drop 0 [1, 2, 3, 4])) (sample_connection\<lparr>rx_busy := True\<rparr>))
         \<lparr>rx_busy := False\<rparr>"
proof -
  have "tcp_sock sample_connection 0 =
      tcp_zero_socket\<lparr>ts_used := True, ts_state := TCP_ESTABLISHED, ts_rcv_nxt := 100\<rparr>"
    by (simp add: sample_connection_def tcp_sock_def)
  then have s: "ring (tcp_sock sample_connection 0) = []" "ts_rcv_nxt (tcp_sock sample_connection 0) = 100"
      "receiving (ts_state (tcp_sock sample_connection 0))" "2 \<le> unat (tcp_window (tcp_sock sample_connection 0))"
    by (simp_all add: ring_def ring_used_def tcp_zero_socket_def receiving_def tcp_window_def TCP_RX_BUFSZ_def)
  have "tcp_session 0 100 [1, 2, 3, 4] sample_connection []"
    by (rule tcp_session.start) (use s in \<open>simp_all add: sample_connection_def\<close>)
  from tcp_session.segment [OF this s(3), of 0 0 2 "\<lambda>n. n" 0]
  have "tcp_session 0 100 [1, 2, 3, 4] ((tcp_segment_in (\<lambda>n. n) 0 (100 + of_nat 0) 0 0 (take 2 (drop 0 [1, 2, 3, 4]))
      (sample_connection\<lparr>rx_busy := True\<rparr>))\<lparr>rx_busy := False\<rparr>) []"
    using s(4) by simp
  from tcp_stream_prefix [OF this] show ?thesis
    by simp
qed

text \<open>C34. A FIN that overtakes data. When a segment with FIN and no data arrives beyond the next expected byte
  (an earlier data segment was lost or is late), the receiver takes the FIN: it acknowledges
  everything up to the FIN, marks the end of the stream and leaves \<open>ESTABLISHED\<close>, although the ring
  has got none of the bytes in between.\<close>

theorem tcp_fin_skips_data:
  assumes "i < length (tcp_sockets n)" and "rx_busy n" and "ts_state (tcp_sock n i) = TCP_ESTABLISHED"
    and "flags AND TCP_FLAG_RST = 0" and "flags AND TCP_FLAG_FIN \<noteq> 0" and "ts_rcv_nxt (tcp_sock n i) < seq" and "seq < seq + 1"
  shows "let s' = tcp_sock (tcp_segment_in drv i seq ack flags [] n) i in
    ring s' = ring (tcp_sock n i) \<and> ts_rcv_nxt s' = seq + 1 \<and> ts_rx_fin s' \<and> ts_state s' = TCP_CLOSE_WAIT"
proof -
  let ?n = "upd_tcp i (tcp_ack_in flags ack) n"
  let ?s = "tcp_ack_in flags ack (tcp_sock n i)"
  let ?m = "wait_wake_net (- 1) (upd_tcp i (\<lambda>s. s\<lparr>ts_rcv_nxt := (if seq + 1 > ts_rcv_nxt s then seq + 1 else ts_rcv_nxt s),
    ts_rx_fin := True\<rparr>) ?n)"
  have in_eq: "tcp_segment_in drv i seq ack flags [] n = upd_tcp i tcp_ack_done (tcp_fin_in drv i seq [] ?n)"
    using assms by (simp add: tcp_segment_in_def tcp_open_in_def tcp_data_in_def Let_def)
  have no_data: "seq + of_nat (length ([] :: u8 list)) + 1 = seq + 1"
    by simp
  have q: "quiet drv ?m"
    using assms(2) by (simp add: quiet_def wait_wake_net_def upd_tcp_frame)
  have m: "tcp_sock ?m i = ?s\<lparr>ts_rcv_nxt := seq + 1, ts_rx_fin := True\<rparr>"
    using assms(1,6,7) by (simp add: wait_wake_net_def tcp_sock_def upd_tcp_def tcp_ack_in_rx(1))
  have st: "ts_state ?s = TCP_ESTABLISHED"
    using assms(3) by (simp add: tcp_ack_in_def)
  have "length (tcp_sockets ?m) = length (tcp_sockets n)"
    by (simp add: wait_wake_net_def upd_tcp_frame)
  then have "tcp_sock (tcp_segment_in drv i seq ack flags [] n) i =
      tcp_ack_done (?s\<lparr>ts_rcv_nxt := seq + 1, ts_rx_fin := True, ts_state := TCP_CLOSE_WAIT\<rparr>)"
    unfolding in_eq tcp_fin_in_def Let_def no_data using q m st assms(1)
    by (simp add: tcp_sock_upd upd_tcp_frame tcp_sock_send)
  moreover have "ring (?s\<lparr>ts_rcv_nxt := seq + 1, ts_rx_fin := True, ts_state := TCP_CLOSE_WAIT\<rparr>) = ring (tcp_sock n i)"
    using tcp_ack_in_rx(2) by (subst ring_cong [of _ ?s]) simp_all
  ultimately show ?thesis
    by (simp add: Let_def tcp_ack_done_rx) (simp add: tcp_ack_done_def)
qed

lemma tcp_fin_skips_data_witness:
  "let s' = tcp_sock (tcp_segment_in (\<lambda>n. n) 0 5000 0 0x11 [] (sample_connection\<lparr>rx_busy := True\<rparr>)) 0 in
     ts_rcv_nxt s' = 5001 \<and> ts_rx_fin s'"
proof -
  let ?n = "sample_connection\<lparr>rx_busy := True\<rparr>"
  have "0 < length (tcp_sockets ?n)" "rx_busy ?n" "ts_state (tcp_sock ?n 0) = TCP_ESTABLISHED"
    "0x11 AND TCP_FLAG_RST = 0" "0x11 AND TCP_FLAG_FIN \<noteq> 0" "ts_rcv_nxt (tcp_sock ?n 0) < 5000" "5000 < 5000 + (1 :: u32)"
    by (simp_all add: sample_connection_def tcp_sock_def TCP_FLAG_RST_def TCP_FLAG_FIN_def)
  from tcp_fin_skips_data [OF this, of "\<lambda>n. n" 0] show ?thesis
    unfolding Let_def by (elim conjE, intro conjI) (simp, assumption)
qed

end
