(* ===== verification/Net_Stack.thy ===== *)
theory Net_Stack
  imports Tcp
begin

unbundle bit_operations_syntax

text \<open>
  The upper half of the network stack: ICMP (\<open>src/kernel/net/icmp.c\<close>), UDP (\<open>src/kernel/net/udp.c\<close>),
  the receiving side of IPv4 and Ethernet and the entry from the driver
  (\<open>src/kernel/net/ipv4.c\<close>, \<open>ethernet.c\<close>, \<open>netif.c\<close>), with the theorems about whole packets: what
  one machine sends, another one receives.
\<close>

section \<open>ICMP\<close>

definition PING_ID :: u16 where "PING_ID = 0x1234"

definition icmp_bytes :: "u8 \<Rightarrow> u16 \<Rightarrow> u16 \<Rightarrow> u16 \<Rightarrow> u8 list \<Rightarrow> u8 list" where
  "icmp_bytes type checksum ident seq payload = [type, 0] @ st16 checksum @ st16 ident @ st16 seq @ payload"

definition icmp_message :: "u8 \<Rightarrow> u16 \<Rightarrow> u16 \<Rightarrow> u8 list \<Rightarrow> u8 list" where
  "icmp_message type ident seq payload =
     icmp_bytes type (ip_checksum (icmp_bytes type 0 ident seq payload)) ident seq payload"

definition icmp_receive :: "(net \<Rightarrow> net) \<Rightarrow> u32 \<Rightarrow> u8 list \<Rightarrow> net \<Rightarrow> net" where
  "icmp_receive drv src_ip data n =
     (if length data < 8 then n
      else
        (let type = data ! 0; ident = ld16 data 4; seq = ld16 data 6 in
         if type = 8 then
           snd (ipv4_transmit drv src_ip IP_PROTO_ICMP
             (icmp_message 0 ident seq (take (NET_MAX_PACKET - 8) (drop 8 data))) n)
         else if type = 0 then
           (if net_htons seq = ping_seq n \<and> net_htons ident = PING_ID \<and> src_ip = ping_peer n
            then n\<lparr>ping_reply := True\<rparr> else n)
         else n))"

text \<open>The two waits of \<open>icmp_ping\<close>.\<close>

partial_function (option) ping_wait :: "(net \<Rightarrow> net) \<Rightarrow> u64 \<Rightarrow> net \<Rightarrow> net option" where
  "ping_wait drv deadline n =
     (if uptime n < deadline \<and> \<not> ping_reply n
      then ping_wait drv deadline (pit_delay_ms 10 (netif_poll drv n)) else Some n)"

partial_function (option) ping_pace :: "(net \<Rightarrow> net) \<Rightarrow> u64 \<Rightarrow> net \<Rightarrow> net option" where
  "ping_pace drv start n =
     (if uptime n - start < 1000000
      then ping_pace drv start (pit_delay_ms 10 (netif_poll drv n)) else Some n)"

definition icmp_ping :: "(net \<Rightarrow> net) \<Rightarrow> u32 \<Rightarrow> u16 \<Rightarrow> u32 \<Rightarrow> net \<Rightarrow> (int \<times> net) option" where
  "icmp_ping drv target_ip seq timeout_ms n =
     (let buf = icmp_message 8 (net_htons PING_ID) (net_htons seq) [0x4B, 0x69, 0x6C, 0x30, 0x79, 0x4F, 0x53, 0];
          n = n\<lparr>ping_reply := False, ping_seq := seq, ping_peer := target_ip\<rparr>;
          start = uptime n;
          deadline = start + ucast timeout_ms * 1000
      in case ipv4_transmit drv target_ip IP_PROTO_ICMP buf n of
           (r, n) \<Rightarrow>
             if r < 0 then Some (- 1, n)
             else (case ping_wait drv deadline n of
                     None \<Rightarrow> None
                   | Some n \<Rightarrow>
                       map_option (\<lambda>n. (if ping_reply n then 0 else - 1, n)) (ping_pace drv start n)))"

section \<open>UDP\<close>

definition UDP_MAX_SOCKETS :: nat where "UDP_MAX_SOCKETS = 8"
definition UDP_RX_BUFSZ :: nat where "UDP_RX_BUFSZ = 2048"

definition udp_sock :: "net \<Rightarrow> nat \<Rightarrow> udp_socket" where
  "udp_sock n i = udp_sockets n ! i"

definition upd_udp :: "nat \<Rightarrow> (udp_socket \<Rightarrow> udp_socket) \<Rightarrow> net \<Rightarrow> net" where
  "upd_udp i f n = n\<lparr>udp_sockets := (udp_sockets n)[i := f (udp_sockets n ! i)]\<rparr>"

definition udp_init :: "net \<Rightarrow> net" where
  "udp_init n = n\<lparr>udp_sockets :=
     map (\<lambda>s. s\<lparr>us_used := False, us_bound := False, us_rx_count := 0\<rparr>) (udp_sockets n)\<rparr>"

definition udp_demux :: "u16 \<Rightarrow> net \<Rightarrow> nat option" where
  "udp_demux port n =
     List.find (\<lambda>i. us_used (udp_sock n i) \<and> us_bound (udp_sock n i) \<and> us_local_port (udp_sock n i) = port)
       [0..<UDP_MAX_SOCKETS]"

definition udp_receive :: "u32 \<Rightarrow> u8 list \<Rightarrow> net \<Rightarrow> net" where
  "udp_receive src_ip data n =
     (if length data < 8 then n
      else
        (let src_port = net_htons (ld16 data 0);
             dst_port = net_htons (ld16 data 2);
             udp_len = min (unat (net_htons (ld16 data 4))) (length data)
         in if udp_len < 8 then n
            else (case udp_demux dst_port n of
                    None \<Rightarrow> n
                  | Some i \<Rightarrow>
                      if us_rx_count (udp_sock n i) \<noteq> 0 then n
                      else
                        (let payload = take UDP_RX_BUFSZ (take (udp_len - 8) (drop 8 data)) in
                         wait_wake_net 1 (upd_udp i (\<lambda>s. s\<lparr>us_remote_ip := src_ip, us_remote_port := src_port,
                           us_rx_buf := payload @ drop (length payload) (us_rx_buf s),
                           us_rx_count := length payload\<rparr>) n)))))"

definition udp_socket_create :: "net \<Rightarrow> nat option \<times> net" where
  "udp_socket_create n =
     (case List.find (\<lambda>i. \<not> us_used (udp_sock n i)) [0..<UDP_MAX_SOCKETS] of
        None \<Rightarrow> (None, n)
      | Some i \<Rightarrow> (Some i, upd_udp i (\<lambda>s. s\<lparr>us_used := True, us_bound := False, us_rx_count := 0,
                     us_local_port := 0\<rparr>) n))"

definition udp_socket_close :: "nat option \<Rightarrow> net \<Rightarrow> net" where
  "udp_socket_close sock n =
     (case sock of None \<Rightarrow> n | Some i \<Rightarrow> upd_udp i (\<lambda>s. s\<lparr>us_used := False\<rparr>) n)"

definition udp_bind :: "nat \<Rightarrow> u16 \<Rightarrow> net \<Rightarrow> int \<times> net" where
  "udp_bind i port n =
     (if \<not> us_used (udp_sock n i) then (- 1, n)
      else (0, upd_udp i (\<lambda>s. s\<lparr>us_local_port := port, us_bound := True\<rparr>) n))"

definition udp_port_taken :: "u16 \<Rightarrow> net \<Rightarrow> bool" where
  "udp_port_taken p n =
     list_ex (\<lambda>i. us_used (udp_sock n i) \<and> us_bound (udp_sock n i) \<and> us_local_port (udp_sock n i) = p)
       [0..<UDP_MAX_SOCKETS]"

fun udp_port_loop :: "nat \<Rightarrow> net \<Rightarrow> u16 \<times> net" where
  "udp_port_loop 0 n = (0, n)"
| "udp_port_loop (Suc tries) n =
     (let p = udp_next_port n;
          n = n\<lparr>udp_next_port := (if p + 1 < 49152 then 49152 else p + 1)\<rparr>
      in if \<not> udp_port_taken p n then (p, n) else udp_port_loop tries n)"

definition udp_ephemeral_port :: "net \<Rightarrow> u16 \<times> net" where
  "udp_ephemeral_port n = udp_port_loop 0x4000 n"

definition udp_datagram :: "u16 \<Rightarrow> u16 \<Rightarrow> u8 list \<Rightarrow> u8 list" where
  "udp_datagram src_port dst_port data =
     st16 (net_htons src_port) @ st16 (net_htons dst_port) @ st16 (net_htons (of_nat (8 + length data)))
     @ st16 0 @ data"

definition udp_sendto :: "(net \<Rightarrow> net) \<Rightarrow> nat \<Rightarrow> u32 \<Rightarrow> u16 \<Rightarrow> u8 list \<Rightarrow> net \<Rightarrow> int \<times> net" where
  "udp_sendto drv i dst_ip dst_port data n =
     (if \<not> us_used (udp_sock n i) then (- 1, n)
      else
        (let (ok, n) =
           (if us_bound (udp_sock n i) then (True, n)
            else (case udp_ephemeral_port n of
                    (p, n) \<Rightarrow> if p = 0 then (False, n)
                             else (True, upd_udp i (\<lambda>s. s\<lparr>us_local_port := p, us_bound := True\<rparr>) n)))
         in if \<not> ok then (- 1, n)
            else if length data > NET_MTU - 20 - 8 then (- 1, n)
            else ipv4_transmit drv dst_ip IP_PROTO_UDP
                   (udp_datagram (us_local_port (udp_sock n i)) dst_port data) n))"

text \<open>
  \<open>udp_recvfrom\<close>: result, bytes, source address and port; the wait is counted in the 32-bit
  \<open>waited\<close>. A timeout within ten of the largest value lets the sum wrap below it, so that the loop
  may never end: \<open>None\<close>.
\<close>

partial_function (option) udp_recv_loop ::
  "(net \<Rightarrow> net) \<Rightarrow> nat \<Rightarrow> nat \<Rightarrow> u32 \<Rightarrow> u32 \<Rightarrow> net \<Rightarrow> (int \<times> (u8 list \<times> u32 \<times> u16) option \<times> net) option" where
  "udp_recv_loop drv i maxlen timeout_ms waited n =
     (if waited < timeout_ms then
        (let n = netif_poll drv n; s = udp_sock n i in
         if us_rx_count s > 0 then
           (let bytes = take (min (us_rx_count s) maxlen) (us_rx_buf s) in
            Some (int (min (us_rx_count s) maxlen), Some (bytes, us_remote_ip s, us_remote_port s),
             upd_udp i (\<lambda>s. s\<lparr>us_rx_count := 0\<rparr>) n))
         else udp_recv_loop drv i maxlen timeout_ms (waited + 10) (pit_delay_ms 10 n))
      else Some (- 1, None, n))"

definition udp_recvfrom ::
  "(net \<Rightarrow> net) \<Rightarrow> nat \<Rightarrow> nat \<Rightarrow> u32 \<Rightarrow> net \<Rightarrow> (int \<times> (u8 list \<times> u32 \<times> u16) option \<times> net) option" where
  "udp_recvfrom drv i maxlen timeout_ms n =
     (if \<not> us_used (udp_sock n i) then Some (- 1, None, n) else udp_recv_loop drv i maxlen timeout_ms 0 n)"

section \<open>Receiving\<close>

text \<open>The checks of \<open>ipv4_receive\<close>: source address, protocol and payload of an accepted packet.\<close>

definition ipv4_accept :: "netif \<Rightarrow> u8 list \<Rightarrow> (u32 \<times> u8 \<times> u8 list) option" where
  "ipv4_accept ifc data =
     (if length data < 20 then None
      else
        (let version = drop_bit 4 (data ! 0) AND 0x0F;
             ihl = data ! 0 AND 0x0F;
             hdr_len = unat ihl * 4
         in if version \<noteq> 4 \<or> ihl < 5 \<or> hdr_len > length data then None
            else if ip_checksum (take hdr_len data) \<noteq> 0 then None
            else
              (let total_len = min (unat (net_htons (ld16 data 2))) (length data) in
               if total_len < hdr_len then None
               else
                 (let dst = net_htonl (ld32 data 16) in
                  if if_ip ifc \<noteq> 0 \<and> dst \<noteq> if_ip ifc \<and> dst \<noteq> 0xFFFFFFFF \<and> dst \<noteq> (if_ip ifc OR NOT (if_netmask ifc))
                  then None
                  else Some (net_htonl (ld32 data 12), data ! 9, take (total_len - hdr_len) (drop hdr_len data))))))"

definition ipv4_receive :: "(net \<Rightarrow> net) \<Rightarrow> u8 list \<Rightarrow> net \<Rightarrow> net" where
  "ipv4_receive drv data n =
     (case ipv4_accept (g_netif n) data of
        None \<Rightarrow> n
      | Some (src_ip, proto, payload) \<Rightarrow>
          if proto = IP_PROTO_ICMP then icmp_receive drv src_ip payload n
          else if proto = IP_PROTO_UDP then udp_receive src_ip payload n
          else if proto = IP_PROTO_TCP then tcp_receive drv src_ip payload n
          else n)"

definition eth_receive :: "(net \<Rightarrow> net) \<Rightarrow> u8 list \<Rightarrow> net \<Rightarrow> net" where
  "eth_receive drv data n =
     (if length data < ETH_HDR_LEN then n
      else
        (let type = net_htons (ld16 data 12); payload = drop ETH_HDR_LEN data in
         if type = ETH_TYPE_ARP then arp_receive payload n
         else if type = ETH_TYPE_IP then ipv4_receive drv payload n
         else n))"

definition netif_receive :: "(net \<Rightarrow> net) \<Rightarrow> u8 list \<Rightarrow> net \<Rightarrow> net" where
  "netif_receive drv data n =
     (if length data < ETH_HDR_LEN \<or> length data > NET_MAX_PACKET then n
      else (eth_receive drv data (n\<lparr>rx_busy := True\<rparr>))\<lparr>rx_busy := False\<rparr>)"

section \<open>Packets round trip\<close>

lemma ipv4_header_fields:
  "length (ipv4_header tot p c s d) = 20"
  "ipv4_header tot p c s d =
     ([0x45, 0] @ st16 (net_htons tot) @ st16 0 @ st16 0x0040 @ [64, p]) @ st16 c @ (st32 (net_htonl s) @ st32 (net_htonl d))"
  by (simp_all add: ipv4_header_def)

lemma ipv4_header_checksum:
  "ip_checksum (ipv4_header tot p (ip_checksum (ipv4_header tot p 0 s d)) s d) = 0"
  unfolding ipv4_header_fields(2) ip_checksum_finish
  using checksum_field_verifies [of "[]" "[0x45, 0] @ st16 (net_htons tot) @ st16 0 @ st16 0x0040 @ [64, p]"
      "st32 (net_htonl s) @ st32 (net_htonl d)"]
  by simp

lemma ipv4_accept_packet:
  assumes "20 + length payload \<le> 65535" and "if_ip ifc = 0 \<or> dst = if_ip ifc \<or> dst = 0xFFFFFFFF"
  shows "ipv4_accept ifc (ipv4_packet src dst proto payload @ pad) = Some (src, proto, payload)"
proof -
  let ?tl = "of_nat (20 + length payload) :: u16"
  let ?h = "ipv4_header ?tl proto (ip_checksum (ipv4_header ?tl proto 0 src dst)) src dst"
  let ?d = "?h @ payload @ pad"
  have tl: "unat ?tl = 20 + length payload"
    by (rule unat_of_nat_small) (use assms(1) in simp)
  have p: "ipv4_packet src dst proto payload @ pad = ?d"
    by (simp add: ipv4_packet_def Let_def)
  have "?d ! 0 = 0x45" "?d ! 9 = proto"
    by (simp_all add: ipv4_header_def st16_def nth_append)
  moreover have "ld16 ?d 2 = net_htons ?tl"
    unfolding ipv4_header_def using ld16_st16 [of 2 "[0x45, 0]"] by simp
  moreover have "ld32 ?d 12 = net_htonl src"
    unfolding ipv4_header_def
    using ld32_st32 [of 12 "[0x45, 0] @ st16 (net_htons ?tl) @ st16 0 @ st16 0x0040 @ [64, proto]
      @ st16 (ip_checksum (ipv4_header ?tl proto 0 src dst))"] by (simp add: ipv4_header_def)
  moreover have "ld32 ?d 16 = net_htonl dst"
    unfolding ipv4_header_def
    using ld32_st32 [of 16 "[0x45, 0] @ st16 (net_htons ?tl) @ st16 0 @ st16 0x0040 @ [64, proto]
      @ st16 (ip_checksum (ipv4_header ?tl proto 0 src dst)) @ st32 (net_htonl src)"] by (simp add: ipv4_header_def)
  moreover have "take 20 ?d = ?h" "drop 20 ?d = payload @ pad" "length ?d = 20 + length payload + length pad"
    by (simp_all add: ipv4_header_fields(1))
  ultimately show ?thesis
    unfolding p ipv4_accept_def using assms(2) tl ipv4_header_checksum by (auto simp: Let_def)
qed

lemma eth_frame_fields:
  assumes "length dst = 6" and "length src = 6"
  shows "ld16 (eth_frame dst src ty payload) 12 = net_htons ty"
    "\<exists>pad. drop 14 (eth_frame dst src ty payload) = payload @ pad"
    "length (eth_frame dst src ty payload) = max 60 (14 + length payload)"
proof -
  have "ld16 ((dst @ src) @ st16 (net_htons ty) @ rest) 12 = net_htons ty" for rest
    by (rule ld16_st16) (use assms in simp)
  then show "ld16 (eth_frame dst src ty payload) 12 = net_htons ty"
    using assms by (auto simp: eth_frame_def Let_def)
  have "drop 14 (dst @ src @ st16 (net_htons ty) @ rest) = rest" for rest
    using assms by simp
  then show "\<exists>pad. drop 14 (eth_frame dst src ty payload) = payload @ pad"
    using assms by (auto simp: eth_frame_def Let_def)
  show "length (eth_frame dst src ty payload) = max 60 (14 + length payload)"
    using assms by (auto simp: eth_frame_def Let_def)
qed

text \<open>An Ethernet frame with an IPv4 packet for this machine reaches the protocol.\<close>

lemma netif_receive_ip:
  assumes "length dst_mac = 6" and "length src_mac = 6" and "20 + length payload \<le> NET_MTU"
    and "dst = if_ip (g_netif n)"
  shows "netif_receive drv (eth_frame dst_mac src_mac ETH_TYPE_IP (ipv4_packet src dst IP_PROTO_UDP payload)) n =
    (udp_receive src payload (n\<lparr>rx_busy := True\<rparr>))\<lparr>rx_busy := False\<rparr>"
proof -
  let ?p = "ipv4_packet src dst IP_PROTO_UDP payload"
  let ?f = "eth_frame dst_mac src_mac ETH_TYPE_IP ?p"
  have len: "length ?p = 20 + length payload"
    by (simp add: ipv4_packet_def ipv4_header_fields(1) Let_def)
  obtain pad where pad: "drop 14 ?f = ?p @ pad"
    using eth_frame_fields(2) [OF assms(1,2)] by blast
  have acc: "ipv4_accept (g_netif n) (?p @ pad) = Some (src, IP_PROTO_UDP, payload)"
    by (rule ipv4_accept_packet) (use assms in \<open>auto simp: NET_MTU_def\<close>)
  have "length ?f = max 60 (14 + length ?p)" "ld16 ?f 12 = net_htons ETH_TYPE_IP"
    using eth_frame_fields [OF assms(1,2)] by auto
  then show ?thesis
    using len assms(3) pad acc
    by (simp add: netif_receive_def eth_receive_def ipv4_receive_def NET_MTU_def NET_MAX_PACKET_def
        ETH_HDR_LEN_def ETH_TYPE_IP_def ETH_TYPE_ARP_def IP_PROTO_UDP_def IP_PROTO_ICMP_def Let_def)
qed

lemma udp_datagram_fields:
  "length (udp_datagram sp dp data) = 8 + length data"
  "ld16 (udp_datagram sp dp data) 0 = net_htons sp"
  "ld16 (udp_datagram sp dp data) 2 = net_htons dp"
  "ld16 (udp_datagram sp dp data) 4 = net_htons (of_nat (8 + length data))"
  "drop 8 (udp_datagram sp dp data) = data"
  unfolding udp_datagram_def
  using ld16_st16 [of 0 "[]"] ld16_st16 [of 2 "st16 (net_htons sp)"]
    ld16_st16 [of 4 "st16 (net_htons sp) @ st16 (net_htons dp)"]
  by simp_all

lemma udp_receive_datagram:
  assumes "length data \<le> 1472" and "udp_demux dp n = Some j" and "us_rx_count (udp_sock n j) = 0"
  shows "udp_receive src (udp_datagram sp dp data) n =
    wait_wake_net 1 (upd_udp j (\<lambda>s. s\<lparr>us_remote_ip := src, us_remote_port := sp,
      us_rx_buf := data @ drop (length data) (us_rx_buf s), us_rx_count := length data\<rparr>) n)"
proof -
  have "unat (of_nat (8 + length data) :: u16) = 8 + length data"
    by (rule unat_of_nat_small) (use assms(1) in simp)
  then show ?thesis
    using assms unfolding udp_receive_def by (simp add: udp_datagram_fields Let_def UDP_RX_BUFSZ_def)
qed

text \<open>Sending: the frame that reaches the card.\<close>

lemma udp_sendto_frame:
  assumes "us_used (udp_sock a i)" and "us_bound (udp_sock a i)" and "length data \<le> 1472"
    and "dst \<noteq> 0xFFFFFFFF" and "arp_resolve drv (ipv4_next_hop dst (g_netif a)) a = (Some mac, a')"
    and "drv_send a' = Some f"
  shows "udp_sendto drv i dst port data a =
    (let frame = eth_frame mac (if_mac (g_netif a')) ETH_TYPE_IP (ipv4_packet (if_ip (g_netif a)) dst IP_PROTO_UDP
           (udp_datagram (us_local_port (udp_sock a i)) port data))
     in (f frame, a'\<lparr>wire := wire a' @ [frame]\<rparr>))"
proof -
  let ?d = "udp_datagram (us_local_port (udp_sock a i)) port data"
  have len: "length (ipv4_packet (if_ip (g_netif a)) dst IP_PROTO_UDP ?d) = 28 + length data"
    by (simp add: ipv4_packet_def ipv4_header_fields(1) udp_datagram_fields Let_def)
  have tl: "unat (of_nat (20 + length ?d) :: u16) = 28 + length data"
    using assms(3) by (subst unat_of_nat_small) (auto simp: udp_datagram_fields)
  show ?thesis
    using assms len tl
    by (simp add: udp_sendto_def ipv4_transmit_def eth_transmit_def netif_send_def NET_MTU_def
        NET_MAX_PACKET_def Let_def)
qed

text \<open>Below the wrap the wait ends, whatever the driver does.\<close>

lemma udp_recv_loop_returns:
  assumes "unat timeout + 10 \<le> 2 ^ 32"
  shows "\<exists>r. udp_recv_loop drv i maxlen timeout waited n = Some r"
  using assms
proof (induction "unat timeout - unat waited" arbitrary: waited n rule: less_induct)
  case less
  show ?case
  proof (cases "waited < timeout")
    case True
    then have lt: "unat waited < unat timeout" by (simp add: word_less_nat_alt)
    then have "unat (waited + 10) = unat waited + 10"
      using less.prems by (subst unat_add_small) auto
    then have "unat timeout - unat (waited + 10) < unat timeout - unat waited" using lt by arith
    from less.hyps [OF this less.prems]
    have "\<exists>r. udp_recv_loop drv i maxlen timeout (waited + 10) n' = Some r" for n' .
    then show ?thesis by (subst udp_recv_loop.simps) (simp add: Let_def)
  next
    case False
    then show ?thesis by (subst udp_recv_loop.simps) simp
  qed
qed

lemma udp_recvfrom_returns:
  "unat timeout + 10 \<le> 2 ^ 32 \<Longrightarrow> \<exists>r. udp_recvfrom drv i maxlen timeout n = Some r"
  using udp_recv_loop_returns [of timeout drv i maxlen 0 n]
  by (cases "us_used (udp_sock n i)") (auto simp: udp_recvfrom_def)

text \<open>
  An empty datagram leaves \<open>rx_count\<close> at 0, which means that nothing has arrived:
  \<open>udp_recvfrom\<close> never reports it.
\<close>

lemma udp_receive_empty:
  assumes "udp_demux port n = Some j" and "us_rx_count (udp_sock n j) = 0" and "j < length (udp_sockets n)"
  shows "us_rx_count (udp_sock (udp_receive src (udp_datagram sport port []) n) j) = 0"
proof -
  have "udp_receive src (udp_datagram sport port []) n =
      wait_wake_net 1 (upd_udp j (\<lambda>s. s\<lparr>us_remote_ip := src, us_remote_port := sport,
        us_rx_buf := [] @ drop (length ([] :: u8 list)) (us_rx_buf s), us_rx_count := length ([] :: u8 list)\<rparr>) n)"
    by (rule udp_receive_datagram) (use assms in auto)
  then show ?thesis using assms(3) by (simp add: udp_sock_def upd_udp_def wait_wake_net_def)
qed

section \<open>Properties\<close>

text \<open>C24. A UDP datagram from end to end. When one machine sends between 1 and 1472 bytes from a bound
  socket to a unicast address and the next hop is resolved, exactly one frame goes on the wire; when
  another machine with the destination address and an empty socket bound to the port receives that
  frame through its driver hook, \<open>udp_recvfrom\<close> with a positive timeout and a large enough buffer
  returns exactly those bytes with the sender's address and port. (An empty datagram is never
  returned, \<open>udp_receive_empty\<close>.)\<close>

theorem udp_end_to_end:
  assumes send: "us_used (udp_sock a i)" "us_bound (udp_sock a i)" "0 < length data" "length data \<le> 1472"
    "dst \<noteq> 0xFFFFFFFF"
    and hop: "arp_resolve drv (ipv4_next_hop dst (g_netif a)) a = (Some mac, a')" "drv_send a' = Some f"
      "length mac = 6" "length (if_mac (g_netif a')) = 6"
    and recv: "if_ip (g_netif b) = dst" "udp_demux port b = Some j" "us_rx_count (udp_sock b j) = 0"
      "j < length (udp_sockets b)" "length data \<le> maxlen" "0 < timeout"
  shows "\<exists>frame. wire (snd (udp_sendto drv i dst port data a)) = wire a' @ [frame]
    \<and> (\<exists>b'. udp_recvfrom (\<lambda>n. n) j maxlen timeout (netif_receive drv' frame b) =
         Some (int (length data), Some (data, if_ip (g_netif a), us_local_port (udp_sock a i)), b'))"
proof -
  let ?d = "udp_datagram (us_local_port (udp_sock a i)) port data"
  let ?frame = "eth_frame mac (if_mac (g_netif a')) ETH_TYPE_IP (ipv4_packet (if_ip (g_netif a)) dst IP_PROTO_UDP ?d)"
  have sent: "wire (snd (udp_sendto drv i dst port data a)) = wire a' @ [?frame]"
    using udp_sendto_frame [OF send(1,2,4,5) hop(1,2)] by (simp add: Let_def)
  have used: "us_used (udp_sock b j)"
    using recv(2) by (auto simp: udp_demux_def find_Some_iff)
  let ?b = "netif_receive drv' ?frame b"
  have "?b = (udp_receive (if_ip (g_netif a)) ?d (b\<lparr>rx_busy := True\<rparr>))\<lparr>rx_busy := False\<rparr>"
    by (rule netif_receive_ip) (use hop recv send in \<open>auto simp: udp_datagram_fields NET_MTU_def\<close>)
  also have "udp_receive (if_ip (g_netif a)) ?d (b\<lparr>rx_busy := True\<rparr>) =
      wait_wake_net 1 (upd_udp j (\<lambda>s. s\<lparr>us_remote_ip := if_ip (g_netif a),
        us_remote_port := us_local_port (udp_sock a i), us_rx_buf := data @ drop (length data) (us_rx_buf s),
        us_rx_count := length data\<rparr>) (b\<lparr>rx_busy := True\<rparr>))"
    by (rule udp_receive_datagram) (use send recv in \<open>auto simp: udp_demux_def udp_sock_def\<close>)
  finally have sock: "udp_sock ?b j = (udp_sock b j)\<lparr>us_remote_ip := if_ip (g_netif a),
        us_remote_port := us_local_port (udp_sock a i),
        us_rx_buf := data @ drop (length data) (us_rx_buf (udp_sock b j)), us_rx_count := length data\<rparr>"
    using recv(4) by (simp add: udp_sock_def upd_udp_def wait_wake_net_def)
  have "udp_recvfrom (\<lambda>n. n) j maxlen timeout ?b =
      Some (int (length data), Some (data, if_ip (g_netif a), us_local_port (udp_sock a i)),
       upd_udp j (\<lambda>s. s\<lparr>us_rx_count := 0\<rparr>) ?b)"
    unfolding udp_recvfrom_def using sock used recv(5,6) send(3)
    by (simp add: udp_recv_loop.simps netif_poll_def Let_def min_absorb1)
  then show ?thesis
    using sent by (intro exI [of _ ?frame]) (simp add: Let_def)
qed

definition sample_socket :: "u16 \<Rightarrow> udp_socket" where
  "sample_socket port = \<lparr>us_local_port = port, us_remote_ip = 0, us_remote_port = 0, us_bound = True, us_used = True,
     us_rx_buf = replicate 2048 0, us_rx_count = 0\<rparr>"

lemma udp_end_to_end_witness:
  "\<exists>a b frame. wire (snd (udp_sendto (\<lambda>n. n) 0 0x0A000203 53 [1, 2, 3] a)) = [frame]
    \<and> (\<exists>b'. udp_recvfrom (\<lambda>n. n) 0 512 1000 (netif_receive (\<lambda>n. n) frame b) =
         Some (3, Some ([1, 2, 3], 0x0A000202, 40000), b'))"
proof -
  let ?mac = "[2, 0, 0, 0, 0, 3 :: u8]" and ?own = "[2, 0, 0, 0, 0, 2 :: u8]"
  let ?base = "(sample_net 0x0A000202 ?own)\<lparr>udp_sockets := replicate 8 (sample_socket 40000)\<rparr>"
  let ?a = "arp_cache_update 0x0A000203 ?mac ?base"
  let ?b = "(sample_net 0x0A000203 ?mac)\<lparr>udp_sockets := replicate 8 (sample_socket 53)\<rparr>"
  have "arp_inv ?base"
    using sample_net_arp by (simp add: arp_inv_def)
  then have look: "arp_lookup 0x0A000203 ?a = Some ?mac"
    by (rule arp.lookup_learn) simp
  have n: "g_netif ?a = sample_netif 0x0A000202 ?own" "udp_sockets ?a = replicate 8 (sample_socket 40000)"
    "drv_send ?a = Some (\<lambda>f. int (length f))" "wire ?a = []"
    by (simp_all add: arp_cache_update_frame sample_net_def)
  have hop: "ipv4_next_hop 0x0A000203 (g_netif ?a) = 0x0A000203"
    by (simp add: ipv4_next_hop_def n sample_netif_def)
  obtain es' where r: "arp_resolve (\<lambda>n. n) 0x0A000203 ?a = (Some ?mac, ?a\<lparr>arp_tbl := es'\<rparr>)"
    using arp_lookup_resolve [OF look, of "\<lambda>n. n"] by (auto simp: n sample_netif_def)
  have "udp_demux 53 ?b = Some 0"
    by (simp add: udp_demux_def udp_sock_def sample_socket_def UDP_MAX_SOCKETS_def upt_conv_Cons)
  then have "\<exists>frame. wire (snd (udp_sendto (\<lambda>n. n) 0 0x0A000203 53 [1, 2, 3] ?a)) = wire (?a\<lparr>arp_tbl := es'\<rparr>) @ [frame]
    \<and> (\<exists>b'. udp_recvfrom (\<lambda>n. n) 0 512 1000 (netif_receive (\<lambda>n. n) frame ?b) =
       Some (int (length [1, 2, 3 :: u8]), Some ([1, 2, 3], if_ip (g_netif ?a), us_local_port (udp_sock ?a 0)), b'))"
    using r n hop
    by (intro udp_end_to_end [where mac = ?mac and f = "\<lambda>f. int (length f)"])
      (simp_all add: udp_sock_def sample_socket_def sample_netif_def sample_net_def)
  then show ?thesis
    using n by (intro exI [of _ ?a] exI [of _ ?b]) (simp add: sample_netif_def udp_sock_def sample_socket_def)
qed

end
