(* ===== verification/Sha256.thy ===== *)
theory Sha256
  imports Kernel_Prelude
begin

text \<open>
  The checksum of downloaded packages, \<open>pkg/sha256.c\<close>. The first part
  translates the C function block by block, at the widths of its variables. The second
  part states SHA-256 as FIPS 180-4 does: constants from the roots of the first primes,
  a padded message, a recursive message schedule. The last part proves that the two agree.
\<close>

subsection \<open>The C function\<close>

definition sha_K :: "u32 list" where
  "sha_K =
    [0x428a2f98, 0x71374491, 0xb5c0fbcf, 0xe9b5dba5, 0x3956c25b, 0x59f111f1, 0x923f82a4, 0xab1c5ed5,
     0xd807aa98, 0x12835b01, 0x243185be, 0x550c7dc3, 0x72be5d74, 0x80deb1fe, 0x9bdc06a7, 0xc19bf174,
     0xe49b69c1, 0xefbe4786, 0x0fc19dc6, 0x240ca1cc, 0x2de92c6f, 0x4a7484aa, 0x5cb0a9dc, 0x76f988da,
     0x983e5152, 0xa831c66d, 0xb00327c8, 0xbf597fc7, 0xc6e00bf3, 0xd5a79147, 0x06ca6351, 0x14292967,
     0x27b70a85, 0x2e1b2138, 0x4d2c6dfc, 0x53380d13, 0x650a7354, 0x766a0abb, 0x81c2c92e, 0x92722c85,
     0xa2bfe8a1, 0xa81a664b, 0xc24b8b70, 0xc76c51a3, 0xd192e819, 0xd6990624, 0xf40e3585, 0x106aa070,
     0x19a4c116, 0x1e376c08, 0x2748774c, 0x34b0bcb5, 0x391c0cb3, 0x4ed8aa4a, 0x5b9cca4f, 0x682e6ff3,
     0x748f82ee, 0x78a5636f, 0x84c87814, 0x8cc70208, 0x90befffa, 0xa4506ceb, 0xbef9a3f7, 0xc67178f2]"

definition ror :: "u32 \<Rightarrow> nat \<Rightarrow> u32" where
  "ror x n = drop_bit n x OR push_bit (32 - n) x"

definition sha_init :: "u32 list" where
  "sha_init = [0x6a09e667, 0xbb67ae85, 0x3c6ef372, 0xa54ff53a,
               0x510e527f, 0x9b05688c, 0x1f83d9ab, 0x5be0cd19]"

text \<open>\<open>block[0..63]\<close> for the block at offset \<open>off\<close>.\<close>

definition sha_block :: "(nat \<Rightarrow> u8) \<Rightarrow> u64 \<Rightarrow> u64 \<Rightarrow> nat \<Rightarrow> u8 list" where
  "sha_block data len tot off =
     (if off + 64 \<le> unat len then map (\<lambda>i. data (off + i)) [0..<64]
      else
        (let block = map (\<lambda>i. let idx = off + i in
                 if idx < unat len then data idx else if idx = unat len then 0x80 else 0) [0..<64]
         in if unat tot \<le> off + 64
            then (let bits = len * 8 in
                  fold (\<lambda>i blk. blk[56 + i := ucast (drop_bit (56 - i * 8) bits)]) [0..<8] block)
            else block))"

definition sha_words :: "u8 list \<Rightarrow> u32 list" where
  "sha_words block =
     map (\<lambda>i. push_bit 24 (ucast (block ! (i * 4))) OR push_bit 16 (ucast (block ! (i * 4 + 1))) OR
              push_bit 8 (ucast (block ! (i * 4 + 2))) OR ucast (block ! (i * 4 + 3))) [0..<16]"

definition sha_extend :: "nat \<Rightarrow> u32 list \<Rightarrow> u32 list" where
  "sha_extend i w =
     (let s0 = ror (w ! (i - 15)) 7 XOR ror (w ! (i - 15)) 18 XOR drop_bit 3 (w ! (i - 15));
          s1 = ror (w ! (i - 2)) 17 XOR ror (w ! (i - 2)) 19 XOR drop_bit 10 (w ! (i - 2))
      in w @ [w ! (i - 16) + s0 + w ! (i - 7) + s1])"

definition sha_schedule :: "u8 list \<Rightarrow> u32 list" where
  "sha_schedule block = fold sha_extend [16..<64] (sha_words block)"

text \<open>The working variables \<open>a, b2, c, d, e, f, g, hh\<close>.\<close>

type_synonym sha_vars = "u32 \<times> u32 \<times> u32 \<times> u32 \<times> u32 \<times> u32 \<times> u32 \<times> u32"

fun sha_round :: "u32 list \<Rightarrow> nat \<Rightarrow> sha_vars \<Rightarrow> sha_vars" where
  "sha_round w i (a, b2, c, d, e, f, g, hh) =
     (let S1 = ror e 6 XOR ror e 11 XOR ror e 25;
          ch = (e AND f) XOR (NOT e AND g);
          t1 = hh + S1 + ch + sha_K ! i + w ! i;
          S0 = ror a 2 XOR ror a 13 XOR ror a 22;
          maj = (a AND b2) XOR (a AND c) XOR (b2 AND c);
          t2 = S0 + maj
      in (t1 + t2, a, b2, c, d + t1, e, f, g))"

definition sha_compress :: "u32 list \<Rightarrow> u8 list \<Rightarrow> u32 list" where
  "sha_compress h block =
     (let w = sha_schedule block;
          (a, b2, c, d, e, f, g, hh) =
            fold (sha_round w) [0..<64] (h ! 0, h ! 1, h ! 2, h ! 3, h ! 4, h ! 5, h ! 6, h ! 7)
      in [h ! 0 + a, h ! 1 + b2, h ! 2 + c, h ! 3 + d, h ! 4 + e, h ! 5 + f, h ! 6 + g, h ! 7 + hh])"

definition sha_digest :: "u32 list \<Rightarrow> u8 list" where
  "sha_digest h =
     concat (map (\<lambda>i. [ucast (drop_bit 24 (h ! i)), ucast (drop_bit 16 (h ! i)),
                       ucast (drop_bit 8 (h ! i)), ucast (h ! i)]) [0..<8])"

definition sha256 :: "(nat \<Rightarrow> u8) \<Rightarrow> u64 \<Rightarrow> u8 list" where
  "sha256 data len =
     (let tot = len + 1 + 8;
          blocks = (tot + 63) div 64
      in sha_digest (fold (\<lambda>b h. sha_compress h (sha_block data len tot (b * 64)))
           [0..<unat blocks] sha_init))"

definition hexd :: "u8 list" where
  "hexd = [0x30, 0x31, 0x32, 0x33, 0x34, 0x35, 0x36, 0x37, 0x38, 0x39,
           0x61, 0x62, 0x63, 0x64, 0x65, 0x66]"

definition sha256_hex :: "u8 list \<Rightarrow> u8 list" where
  "sha256_hex digest =
     concat (map (\<lambda>i. [hexd ! unat (drop_bit 4 (digest ! i)), hexd ! unat (digest ! i AND 0xF)])
       [0..<32]) @ [0]"

subsection \<open>SHA-256 as the standard states it\<close>

text \<open>\<open>iroot k N b\<close>: the integer \<open>k\<close>-th root of \<open>N\<close>, found bit by bit below \<open>2 ^ b\<close>.\<close>

fun iroot :: "nat \<Rightarrow> int \<Rightarrow> int \<Rightarrow> nat \<Rightarrow> int" where
  "iroot k N acc 0 = acc"
| "iroot k N acc (Suc b) = iroot k N (if (acc + 2 ^ b) ^ k \<le> N then acc + 2 ^ b else acc) b"

definition frac_root :: "nat \<Rightarrow> nat \<Rightarrow> u32" where
  "frac_root k p = of_int (iroot k (int p * 2 ^ (32 * k)) 0 37)"

definition fips_primes :: "nat list" where
  "fips_primes =
    [2, 3, 5, 7, 11, 13, 17, 19, 23, 29, 31, 37, 41, 43, 47, 53, 59, 61, 67, 71, 73, 79, 83, 89, 97,
     101, 103, 107, 109, 113, 127, 131, 137, 139, 149, 151, 157, 163, 167, 173, 179, 181, 191, 193,
     197, 199, 211, 223, 227, 229, 233, 239, 241, 251, 257, 263, 269, 271, 277, 281, 283, 293, 307, 311]"

definition Ch :: "u32 \<Rightarrow> u32 \<Rightarrow> u32 \<Rightarrow> u32" where
  "Ch x y z = (x AND y) XOR (NOT x AND z)"

definition Maj :: "u32 \<Rightarrow> u32 \<Rightarrow> u32 \<Rightarrow> u32" where
  "Maj x y z = (x AND y) XOR (x AND z) XOR (y AND z)"

definition Sigma0 :: "u32 \<Rightarrow> u32" where
  "Sigma0 x = word_rotr 2 x XOR word_rotr 13 x XOR word_rotr 22 x"

definition Sigma1 :: "u32 \<Rightarrow> u32" where
  "Sigma1 x = word_rotr 6 x XOR word_rotr 11 x XOR word_rotr 25 x"

definition sigma0 :: "u32 \<Rightarrow> u32" where
  "sigma0 x = word_rotr 7 x XOR word_rotr 18 x XOR drop_bit 3 x"

definition sigma1 :: "u32 \<Rightarrow> u32" where
  "sigma1 x = word_rotr 17 x XOR word_rotr 19 x XOR drop_bit 10 x"

fun fips_W :: "u8 list \<Rightarrow> nat \<Rightarrow> u32" where
  "fips_W M t =
     (if t < 16 then word_rcat [M ! (4 * t), M ! (4 * t + 1), M ! (4 * t + 2), M ! (4 * t + 3)]
      else sigma1 (fips_W M (t - 2)) + fips_W M (t - 7) + sigma0 (fips_W M (t - 15)) + fips_W M (t - 16))"

declare fips_W.simps [simp del]

fun fips_rounds :: "u8 list \<Rightarrow> nat list \<Rightarrow> nat \<Rightarrow> sha_vars \<Rightarrow> sha_vars" where
  "fips_rounds M [] t v = v"
| "fips_rounds M (p # ps) t (a, b, c, d, e, f, g, h) =
     (let T1 = h + Sigma1 e + Ch e f g + frac_root 3 p + fips_W M t;
          T2 = Sigma0 a + Maj a b c
      in fips_rounds M ps (Suc t) (T1 + T2, a, b, c, d + T1, e, f, g))"

fun fips_hash :: "sha_vars \<Rightarrow> u8 list list \<Rightarrow> sha_vars" where
  "fips_hash H [] = H"
| "fips_hash (H0, H1, H2, H3, H4, H5, H6, H7) (M # Ms) =
     (case fips_rounds M fips_primes 0 (H0, H1, H2, H3, H4, H5, H6, H7) of
        (a, b, c, d, e, f, g, h) \<Rightarrow>
          fips_hash (H0 + a, H1 + b, H2 + c, H3 + d, H4 + e, H5 + f, H6 + g, H7 + h) Ms)"

definition fips_init :: sha_vars where
  "fips_init = (frac_root 2 2, frac_root 2 3, frac_root 2 5, frac_root 2 7,
                frac_root 2 11, frac_root 2 13, frac_root 2 17, frac_root 2 19)"

definition be_bytes :: "nat \<Rightarrow> int \<Rightarrow> u8 list" where
  "be_bytes n x = map (\<lambda>i. of_int (x div 256 ^ (n - 1 - i))) [0..<n]"

definition fips_pad :: "u8 list \<Rightarrow> u8 list" where
  "fips_pad m = m @ [0x80] @ replicate ((119 - length m mod 64) mod 64) 0 @ be_bytes 8 (8 * int (length m))"

definition blocks_of :: "u8 list \<Rightarrow> u8 list list" where
  "blocks_of m = map (\<lambda>b. take 64 (drop (b * 64) m)) [0..<length m div 64]"

definition fips_sha256 :: "u8 list \<Rightarrow> u8 list" where
  "fips_sha256 m =
     (case fips_hash fips_init (blocks_of (fips_pad m)) of (a, b, c, d, e, f, g, h) \<Rightarrow>
        concat (map (be_bytes 4 \<circ> uint) [a, b, c, d, e, f, g, h]))"

subsection \<open>The two agree\<close>

lemma ror_rotr: "0 < n \<Longrightarrow> n < 32 \<Longrightarrow> ror x n = word_rotr n x"
proof (rule bit_word_eqI)
  fix k :: nat
  assume n: "0 < n" "n < 32" and k: "k < LENGTH(32)"
  show "bit (ror x n) k = bit (word_rotr n x) k"
  proof (cases "k + n < 32")
    case True
    then have "\<not> 32 - n \<le> k" by linarith
    with True n show ?thesis by (simp add: ror_def bit_simps bit_word_rotr_iff add.commute)
  next
    case False
    then have "(k + n) mod 32 = k + n - 32" using k n by (simp add: mod_if)
    with False k n show ?thesis
      by (auto simp: ror_def bit_simps bit_word_rotr_iff add.commute dest: bit_imp_le_length)
  qed
qed

lemmas ror_rotrs = ror_rotr [of 2] ror_rotr [of 6] ror_rotr [of 7] ror_rotr [of 11] ror_rotr [of 13]
  ror_rotr [of 17] ror_rotr [of 18] ror_rotr [of 19] ror_rotr [of 22] ror_rotr [of 25]

lemma iroot_unique:
  assumes "0 \<le> r" and "r ^ k \<le> N" and "N < (r + 1) ^ k" and "0 < k"
  shows "0 \<le> acc \<Longrightarrow> acc \<le> r \<Longrightarrow> r < acc + 2 ^ b \<Longrightarrow> iroot k N acc b = r"
proof (induction b arbitrary: acc)
  case 0
  then show ?case by simp
next
  case (Suc b)
  have "(acc + 2 ^ b) ^ k \<le> N \<longleftrightarrow> acc + 2 ^ b \<le> r"
  proof
    assume "(acc + 2 ^ b) ^ k \<le> N"
    then have "(acc + 2 ^ b) ^ k < (r + 1) ^ k" using assms(3) by linarith
    then have "acc + 2 ^ b < r + 1" by (rule power_less_imp_less_base) (use assms(1) in simp)
    then show "acc + 2 ^ b \<le> r" by simp
  next
    assume "acc + 2 ^ b \<le> r"
    then have "(acc + 2 ^ b) ^ k \<le> r ^ k" using Suc.prems(1) by (intro power_mono) simp_all
    then show "(acc + 2 ^ b) ^ k \<le> N" using assms(2) by linarith
  qed
  with Suc.prems show ?case by (auto intro!: Suc.IH)
qed

text \<open>The checks that identify the tables of the code as the fractional parts of roots.\<close>

lemma frac_root_eqI:
  assumes "r ^ k \<le> int p * 2 ^ (32 * k)" and "int p * 2 ^ (32 * k) < (r + 1) ^ k"
    and "0 \<le> r" and "r < 2 ^ 37" and "0 < k" and "of_int r = w"
  shows "frac_root k p = w"
  unfolding frac_root_def using assms(6) iroot_unique [OF assms(3,1,2,5), of 0 37] assms(3,4) by simp

definition cube_roots :: "int list" where
  "cube_roots =
    [5411319704, 6194414737, 7344290767, 8215976869, 9551921755, 10098905585,
     11043570340, 11460697813, 12214315672, 13195500289, 13492127166, 14311783875,
     14809980276, 15046980094, 15499789991, 16133124468, 16720292289, 16907126662,
     17444216262, 17784676812, 17950125167, 18429019306, 18734950876, 19175934170,
     19734090066, 20001703533, 20132865992, 20390182855, 20516441075, 20764397895,
     21588763473, 21813078375, 22141143685, 22248366392, 22769593852, 22871018771,
     23170020180, 23461497531, 23651862830, 23931792517, 24205322401, 24295138891,
     24734567280, 24820601251, 24990902297, 25075189284, 25569408389, 26045227120,
     26200031510, 26276752392, 26428864332, 26653801653, 26727943347, 27092625994,
     27306805839, 27517677555, 27725365998, 27793908591, 27997534228, 28131656200,
     28198240250, 28526537963, 28973835255, 29099129074]"

lemma sha_K_roots: "map (frac_root 3) fips_primes = sha_K"
proof -
  have "list_all2 (\<lambda>p r. r ^ 3 \<le> int p * 2 ^ 96 \<and> int p * 2 ^ 96 < (r + 1) ^ 3 \<and> 0 \<le> r \<and> r < 2 ^ 37)
          fips_primes cube_roots"
    by (simp add: fips_primes_def cube_roots_def)
  then have "map (frac_root 3) fips_primes = map of_int cube_roots"
    by (induction rule: list_all2_induct) (auto intro!: frac_root_eqI)
  also have "\<dots> = sha_K" by (simp add: cube_roots_def sha_K_def)
  finally show ?thesis .
qed

lemma sha_init_roots:
  "fips_init = (0x6a09e667, 0xbb67ae85, 0x3c6ef372, 0xa54ff53a, 0x510e527f, 0x9b05688c, 0x1f83d9ab, 0x5be0cd19)"
  unfolding fips_init_def
  by (simp add: frac_root_eqI [where r = 6074000999]
      frac_root_eqI [where r = 7439101573]
      frac_root_eqI [where r = 9603838834]
      frac_root_eqI [where r = 11363415354]
      frac_root_eqI [where r = 14244795007]
      frac_root_eqI [where r = 15485724812]
      frac_root_eqI [where r = 17708603819]
      frac_root_eqI [where r = 18721328409])

lemma word_rcat_shifts:
  "(word_rcat [a, b, c, d] :: u32) =
     push_bit 24 (ucast a) OR push_bit 16 (ucast b) OR push_bit 8 (ucast c) OR ucast (d :: u8)"
proof -
  have "push_bit 24 (ucast a) OR push_bit 16 (ucast b) OR push_bit 8 (ucast c) OR (ucast d :: u32)
     = push_bit 24 (ucast a) + (push_bit 16 (ucast b) + (push_bit 8 (ucast c) + ucast d))"
    by (subst disjunctive_add, force simp: bit_simps dest: bit_imp_le_length)+ simp
  then show ?thesis by (simp add: word_rcat_def push_bit_eq_mult of_int_uint algebra_simps)
qed

lemma fips_W_16: "t < 16 \<Longrightarrow> fips_W M t = sha_words M ! t"
  by (subst fips_W.simps) (simp add: sha_words_def word_rcat_shifts mult.commute)

lemma sha_schedule_upto:
  "16 \<le> n \<Longrightarrow> n \<le> 64 \<Longrightarrow> fold sha_extend [16..<n] (sha_words M) = map (fips_W M) [0..<n]"
proof (induction n rule: dec_induct)
  case base
  have "length (sha_words M) = 16" by (simp add: sha_words_def)
  then show ?case by (auto intro: nth_equalityI simp: fips_W_16)
next
  case (step n)
  then have "fold sha_extend [16..<Suc n] (sha_words M) = sha_extend n (map (fips_W M) [0..<n])"
    by simp
  also have "\<dots> = map (fips_W M) [0..<n] @ [fips_W M n]"
    using step(1) unfolding fips_W.simps [of M n]
    by (simp add: sha_extend_def Let_def sigma0_def sigma1_def ror_rotrs ac_simps)
  finally show ?case by simp
qed

lemma sha_schedule_fips: "sha_schedule M = map (fips_W M) [0..<64]"
  unfolding sha_schedule_def by (rule sha_schedule_upto) simp_all

lemma fips_rounds_fold:
  "t + length ps = 64 \<Longrightarrow> map (frac_root 3) ps = drop t sha_K \<Longrightarrow>
     fips_rounds M ps t v = fold (sha_round (sha_schedule M)) [t..<64] v"
proof (induction ps arbitrary: t v)
  case Nil
  then show ?case by simp
next
  case (Cons p ps)
  obtain a b c d e f g h where v: "v = (a, b, c, d, e, f, g, h)" by (cases v) auto
  have t: "t < 64" and rest: "Suc t + length ps = 64" using Cons.prems(1) by auto
  have len: "length sha_K = 64" by (simp add: sha_K_def)
  from Cons.prems(2) have K: "frac_root 3 p = sha_K ! t" and ps: "map (frac_root 3) ps = drop (Suc t) sha_K"
    using t len by (simp_all add: Cons_nth_drop_Suc [symmetric])
  have upt: "[t..<64] = t # [Suc t..<64]" using t by (simp add: upt_rec)
  have W: "sha_schedule M ! t = fips_W M t"
    unfolding sha_schedule_fips using t by (simp del: upt_rec_numeral)
  show ?case
    unfolding v upt
    by (simp add: Let_def K Cons.IH [OF rest ps] W Sigma0_def Sigma1_def Ch_def Maj_def
        ror_rotrs)
qed

definition vars_of :: "u32 list \<Rightarrow> sha_vars" where
  "vars_of h = (h ! 0, h ! 1, h ! 2, h ! 3, h ! 4, h ! 5, h ! 6, h ! 7)"

lemma fips_hash_fold:
  "fips_hash (vars_of h) Ms = vars_of (fold (\<lambda>M h. sha_compress h M) Ms h)"
proof (induction Ms arbitrary: h)
  case Nil
  then show ?case by (simp add: vars_of_def)
next
  case (Cons M Ms)
  have rounds: "fips_rounds M fips_primes 0 v = fold (sha_round (sha_schedule M)) [0..<64] v" for v
    by (rule fips_rounds_fold) (simp add: fips_primes_def, simp only: sha_K_roots drop_0)
  obtain a b c d e f g hh where
    v: "fold (sha_round (sha_schedule M)) [0..<64] (vars_of h) = (a, b, c, d, e, f, g, hh)"
    by (metis surj_pair)
  have "fips_hash (vars_of h) (M # Ms) = fips_hash (vars_of (sha_compress h M)) Ms"
    using v rounds unfolding vars_of_def sha_compress_def Let_def
    by (simp del: upt_rec_numeral)
  then show ?case by (simp add: Cons.IH)
qed

lemma length_be_bytes [simp]: "length (be_bytes n x) = n"
  by (simp add: be_bytes_def)

lemma length_fips_pad: "length (fips_pad m) = (length m + 72) div 64 * 64"
proof -
  define q r where "q = length m div 64" and "r = length m mod 64"
  have m: "length m = 64 * q + r" and r: "r < 64" by (simp_all add: q_def r_def)
  have "length (fips_pad m) = length m + 9 + (119 - r) mod 64"
    by (simp add: fips_pad_def r_def)
  also have "\<dots> = (length m + 72) div 64 * 64"
  proof (cases "r \<le> 55")
    case True
    then have "(119 - r) mod 64 = 55 - r" by (simp add: mod_if)
    moreover have "(64 * q + r + 72) div 64 = q + 1" using True by (intro div_nat_eqI) simp_all
    ultimately show ?thesis using True m by simp
  next
    case False
    then have "(119 - r) mod 64 = 119 - r" using r by (simp add: mod_if)
    moreover have "(64 * q + r + 72) div 64 = q + 2" using False r by (intro div_nat_eqI) simp_all
    ultimately show ?thesis using False r m by simp
  qed
  finally show ?thesis .
qed

lemma fips_pad_nth:
  assumes "i < length (fips_pad m)"
  shows "fips_pad m ! i =
    (if i < length m then m ! i else if i = length m then 0x80
     else if i + 8 < length (fips_pad m) then 0
     else be_bytes 8 (8 * int (length m)) ! (i + 8 - length (fips_pad m)))"
  using assms unfolding fips_pad_def
  by (auto simp: nth_append nth_Cons' intro!: arg_cong [of _ _ "nth _"])

lemma uint_mult_8: "unat len < 2 ^ 61 \<Longrightarrow> uint (len * 8 :: u64) = 8 * int (unat len)"
proof -
  assume "unat len < 2 ^ 61"
  then have "unat (len * 8) = unat len * 8" by (simp add: unat_word_ariths)
  then have "int (unat (len * 8)) = 8 * int (unat len)" by simp
  then show ?thesis by simp
qed

lemma uint_drop_bit_u64: "uint (drop_bit n (w :: u64)) = uint w div 2 ^ n"
  unfolding unsigned_drop_bit_eq by (simp add: drop_bit_eq_div bintr_uint)

lemma pow_256: "i < 8 \<Longrightarrow> (256 :: int) ^ (7 - i) = 2 ^ (56 - i * 8)"
proof -
  assume "i < 8"
  then have "56 - i * 8 = 8 * (7 - i)" by simp
  then show ?thesis by (simp add: power_mult)
qed

lemma be_bytes_len:
  assumes "unat len < 2 ^ 61" and "i < 8"
  shows "be_bytes 8 (8 * int (unat len)) ! i = ucast (drop_bit (56 - i * 8) (len * 8 :: u64))"
proof -
  have "ucast (drop_bit (56 - i * 8) (len * 8)) = (of_int (uint (drop_bit (56 - i * 8) (len * 8))) :: u8)"
    by (simp add: unsigned_def)
  then show ?thesis
    using assms(2) unfolding be_bytes_def
    by (simp add: uint_mult_8 [OF assms(1)] uint_drop_bit_u64 pow_256)
qed

lemma nth_fold_update:
  "length blk = 64 \<Longrightarrow> n \<le> 8 \<Longrightarrow> j < 64 \<Longrightarrow>
     fold (\<lambda>i b. b[56 + i := f i]) [0..<n] blk ! j = (if 56 \<le> j \<and> j < 56 + n then f (j - 56) else blk ! j)"
proof (induction n)
  case 0
  then show ?case by auto
next
  case (Suc n)
  have "length (fold (\<lambda>i b. b[56 + i := f i]) [0..<n] blk) = 64"
    using Suc.prems(1) by (induction n) simp_all
  with Suc show ?case by (auto simp: nth_list_update)
qed

lemma length_fold_update: "length (fold (\<lambda>i b. b[56 + i := f i]) xs blk) = length blk"
  by (induction xs arbitrary: blk) simp_all

lemma length_sha_block [simp]: "length (sha_block data len tot off) = 64"
  by (simp add: sha_block_def Let_def length_fold_update)

lemma sha_block_pad:
  assumes len: "unat len < 2 ^ 61" and b: "b < (unat len + 72) div 64" and j: "j < 64"
  shows "sha_block data len (len + 1 + 8) (b * 64) ! j = fips_pad (map data [0..<unat len]) ! (b * 64 + j)"
proof -
  let ?m = "map data [0..<unat len]"
  define n where "n = (unat len + 72) div 64"
  have L: "length (fips_pad ?m) = n * 64" by (simp add: length_fips_pad n_def)
  have tot: "unat (len + 1 + 8) = unat len + 9" using len by (simp add: unat_word_ariths)
  have n: "unat len + 9 \<le> n * 64" and n': "n * 64 < unat len + 73" unfolding n_def by simp_all
  have bn: "b < n" using b by (simp add: n_def)
  have ij: "b * 64 + j < length (fips_pad ?m)" using bn j unfolding L by simp
  consider (whole) "b * 64 + 64 \<le> unat len" | (middle) "unat len < b * 64 + 64" "b * 64 + 64 < unat len + 9"
    | (final) "unat len + 9 \<le> b * 64 + 64" by linarith
  then show ?thesis
  proof cases
    case whole
    with j show ?thesis by (simp add: fips_pad_nth [OF ij] sha_block_def del: upt_rec_numeral)
  next
    case middle
    then have "b * 64 + 64 < n * 64" using n by linarith
    then have "b * 64 + 128 \<le> n * 64" by arith
    with middle j tot show ?thesis
      unfolding fips_pad_nth [OF ij] L by (simp add: sha_block_def Let_def del: upt_rec_numeral)
  next
    case final
    then have "n \<le> b + 1" using n' by simp
    then have "b * 64 + 64 = n * 64" using bn by simp
    then have idx: "b * 64 + j + 8 - n * 64 = j - 56" "b * 64 + j + 8 < n * 64 \<longleftrightarrow> j < 56" by linarith+
    have "be_bytes 8 (8 * int (unat len)) ! (j - 56) = ucast (drop_bit (56 - (j - 56) * 8) (len * 8))"
      if "56 \<le> j" using be_bytes_len [OF len, of "j - 56"] that j by linarith
    with final j tot show ?thesis
      unfolding fips_pad_nth [OF ij] L idx by (auto simp: sha_block_def Let_def nth_fold_update simp del: upt_rec_numeral)
  qed
qed

lemma sha_block_blocks_of:
  assumes "unat len < 2 ^ 61"
  shows "map (\<lambda>b. sha_block data len (len + 1 + 8) (b * 64)) [0..<(unat len + 72) div 64] =
         blocks_of (fips_pad (map data [0..<unat len]))"
proof -
  have "sha_block data len (len + 1 + 8) (b * 64) = take 64 (drop (b * 64) (fips_pad (map data [0..<unat len])))"
    if b: "b < (unat len + 72) div 64" for b
  proof (rule nth_equalityI)
    have "b * 64 + 64 \<le> (unat len + 72) div 64 * 64" using b by simp
    then show "length (sha_block data len (len + 1 + 8) (b * 64)) =
        length (take 64 (drop (b * 64) (fips_pad (map data [0..<unat len]))))"
      by (simp add: length_fips_pad)
    then show "sha_block data len (len + 1 + 8) (b * 64) ! j =
        take 64 (drop (b * 64) (fips_pad (map data [0..<unat len]))) ! j"
      if "j < length (sha_block data len (len + 1 + 8) (b * 64))" for j
      using that sha_block_pad [OF assms b, of j data] by simp
  qed
  then show ?thesis unfolding blocks_of_def by (simp add: length_fips_pad)
qed

lemma be_bytes_word:
  "be_bytes 4 (uint (w :: u32)) = [ucast (drop_bit 24 w), ucast (drop_bit 16 w), ucast (drop_bit 8 w), ucast w]"
proof -
  have "(ucast (drop_bit n w) :: u8) = of_int (uint w div 2 ^ n)" for n
  proof -
    have "uint (drop_bit n w) = uint w div 2 ^ n"
      unfolding unsigned_drop_bit_eq by (simp add: drop_bit_eq_div bintr_uint)
    moreover have "(ucast (drop_bit n w) :: u8) = of_int (uint (drop_bit n w))" by (simp add: unsigned_def)
    ultimately show ?thesis by (simp only:)
  qed
  from this [of 24] this [of 16] this [of 8] this [of 0]
  show ?thesis by (simp add: be_bytes_def upt_rec)
qed

lemma sha_digest_bytes:
  "sha_digest h =
     (case vars_of h of (a, b, c, d, e, f, g, hh) \<Rightarrow>
        concat (map (be_bytes 4 \<circ> uint) [a, b, c, d, e, f, g, hh]))"
proof -
  have "[0..<8] = [0, 1, 2, 3, 4, 5, 6, 7 :: nat]" by (simp add: upt_rec)
  then show ?thesis by (simp add: sha_digest_def vars_of_def be_bytes_word)
qed

text \<open>
  C14. \<open>sha256()\<close> computes SHA-256. For every message shorter than \<open>2 ^ 61\<close> bytes,
  the bound the standard itself sets, the block-at-a-time loop of the code, its padding branch,
  its message schedule, its rounds and its constant tables give the digest that FIPS 180-4
  defines over the padded message.
\<close>

theorem sha256_fips:
  assumes "unat len < 2 ^ 61"
  shows "sha256 data len = fips_sha256 (map data [0..<unat len])"
proof -
  have n: "unat ((len + 1 + 8 + 63) div 64) = (unat len + 72) div 64"
    using assms by (simp add: unat_div unat_word_ariths)
  have init: "fips_init = vars_of sha_init"
    by (simp add: sha_init_roots vars_of_def sha_init_def)
  have fold: "fold (\<lambda>b h. sha_compress h (sha_block data len (len + 1 + 8) (b * 64))) bs sha_init =
      fold (\<lambda>M h. sha_compress h M) (map (\<lambda>b. sha_block data len (len + 1 + 8) (b * 64)) bs) sha_init" for bs
    by (simp add: fold_map comp_def)
  show ?thesis
    unfolding sha256_def fips_sha256_def Let_def sha_block_blocks_of [OF assms, symmetric] init
      fips_hash_fold sha_digest_bytes n fold ..
qed

definition abc :: "nat \<Rightarrow> u8" where
  "abc i = [0x61, 0x62, 0x63] ! i"

theorem sha256_fips_witness:
  "unat (3 :: u64) < 2 ^ 61 \<and> sha256 abc 3 = fips_sha256 [0x61, 0x62, 0x63]"
proof -
  have "map abc [0..<unat (3 :: u64)] = [0x61, 0x62, 0x63]" by (simp add: abc_def upt_rec)
  then show ?thesis using sha256_fips [of 3 abc] by simp
qed

end
