(* ===== verification/Inflate.thy ===== *)
theory Inflate
  imports Kernel_Prelude
begin

text \<open>
  The gzip decoder of the package manager, \<open>pkg/inflate.c\<close>: the bit reader, the Huffman
  tables, the three block types, the sliding window that hands finished output to a sink, and
  the gzip members around it. A failing function returns \<open>Inl\<close> with the state at the
  failure, because bytes may already have left through the sink; \<open>Inr\<close> is a return of 0.
  Loops whose end depends on the input are partial functions: \<open>None\<close> means they run forever.
\<close>

subsection \<open>Tables and state\<close>

definition INFLATE_MAX_BITS :: nat where "INFLATE_MAX_BITS = 15"
definition HTAB_SIZE :: nat where "HTAB_SIZE = 32768"

definition HENT :: "u16 \<Rightarrow> nat \<Rightarrow> u16" where
  "HENT sy len = 1 OR push_bit 1 (of_nat len) OR push_bit 5 sy"

definition HENT_VALID :: "u16 \<Rightarrow> bool" where "HENT_VALID e \<longleftrightarrow> e AND 1 \<noteq> 0"
definition HENT_LEN :: "u16 \<Rightarrow> nat" where "HENT_LEN e = unat (drop_bit 1 e AND 0xF)"
definition HENT_SYM :: "u16 \<Rightarrow> nat" where "HENT_SYM e = unat (drop_bit 5 e)"

record huff_t =
  hcount :: "nat \<Rightarrow> u16"
  hsym :: "nat \<Rightarrow> u16"
  htable :: "nat \<Rightarrow> u16"

definition huff_zero :: huff_t where
  "huff_zero = \<lparr>hcount = (\<lambda>_. 0), hsym = (\<lambda>_. 0), htable = (\<lambda>_. 0)\<rparr>"

text \<open>The tables at file scope.\<close>

record inf_globals =
  fixed_ready :: bool
  fixed_lit :: huff_t
  fixed_dist :: huff_t
  dyn_lit :: huff_t
  dyn_dist :: huff_t
  dyn_clc :: huff_t

definition inf_static :: inf_globals where
  "inf_static = \<lparr>fixed_ready = False, fixed_lit = huff_zero, fixed_dist = huff_zero,
     dyn_lit = huff_zero, dyn_dist = huff_zero, dyn_clc = huff_zero\<rparr>"

text \<open>A sink consumes bytes and updates its context; \<open>True\<close> is a return of 0.\<close>

type_synonym 'c sink_fn = "'c \<Rightarrow> u8 list \<Rightarrow> bool \<times> 'c"

record 'c inf_state_t =
  in_buf :: "u8 list"
  in_pos :: nat
  bitbuf :: u64
  bitcnt :: nat
  out :: "nat \<Rightarrow> u8"
  out_cap :: nat
  out_len :: nat
  sink :: "'c sink_fn option"
  sink_ctx :: 'c
  flushed :: nat
  glob :: inf_globals

type_synonym ('c, 'a) inf_res = "'c inf_state_t + 'a \<times> 'c inf_state_t"

definition INF_KEEP :: nat where "INF_KEEP = 32768"
definition INF_BUFSZ :: nat where "INF_BUFSZ = 65536"

definition len_base :: "nat list" where
  "len_base = [3,4,5,6,7,8,9,10,11,13,15,17,19,23,27,31,35,43,51,59,67,83,99,115,131,163,195,227,258]"

definition len_ext :: "nat list" where
  "len_ext = [0,0,0,0,0,0,0,0,1,1,1,1,2,2,2,2,3,3,3,3,4,4,4,4,5,5,5,5,0]"

definition dist_base :: "nat list" where
  "dist_base = [1,2,3,4,5,7,9,13,17,25,33,49,65,97,129,193,257,385,513,769,
     1025,1537,2049,3073,4097,6145,8193,12289,16385,24577]"

definition dist_ext :: "nat list" where
  "dist_ext = [0,0,0,0,1,1,2,2,3,3,4,4,5,5,6,6,7,7,8,8,9,9,10,10,11,11,12,12,13,13]"

subsection \<open>The sliding window\<close>

definition out_flush :: "'c inf_state_t \<Rightarrow> ('c, unit) inf_res" where
  "out_flush s =
     (let keep = (if out_len s < INF_KEEP then out_len s else INF_KEEP);
          flush_n = out_len s - keep
      in if flush_n \<noteq> 0 then
           (case the (sink s) (sink_ctx s) (map (out s) [0..<flush_n]) of (ok, c) \<Rightarrow>
              if \<not> ok then Inl (s\<lparr>sink_ctx := c\<rparr>)
              else Inr ((), s\<lparr>sink_ctx := c,
                     out := fold (\<lambda>i m. m(i := m (flush_n + i))) [0..<keep] (out s),
                     flushed := flushed s + flush_n, out_len := keep\<rparr>))
         else Inr ((), s\<lparr>out_len := keep\<rparr>))"

text \<open>The test before every byte written to the window.\<close>

definition out_room :: "'c inf_state_t \<Rightarrow> ('c, bool) inf_res" where
  "out_room s =
     (if out_cap s \<le> out_len s then
        (if sink s = None then Inl s
         else case out_flush s of Inl e \<Rightarrow> Inl e | Inr (_, s) \<Rightarrow> Inr (True, s))
      else Inr (False, s))"

definition out_put :: "u8 \<Rightarrow> 'c inf_state_t \<Rightarrow> 'c inf_state_t" where
  "out_put b s = s\<lparr>out := (out s)(out_len s := b), out_len := out_len s + 1\<rparr>"

subsection \<open>The bit reader\<close>

function refill :: "'c inf_state_t \<Rightarrow> 'c inf_state_t" where
  "refill s =
     (if bitcnt s \<le> 56 \<and> in_pos s < length (in_buf s) then
        refill (s\<lparr>bitbuf := bitbuf s OR push_bit (bitcnt s) (ucast (in_buf s ! in_pos s)),
                  in_pos := in_pos s + 1, bitcnt := bitcnt s + 8\<rparr>)
      else s)"
  by pat_completeness auto
termination
  by (relation "measure (\<lambda>s. 64 - bitcnt s)") auto

declare refill.simps [simp del]

definition get_bits :: "nat \<Rightarrow> 'c inf_state_t \<Rightarrow> ('c, u32) inf_res" where
  "get_bits n s =
     (let s = (if 0 < n then refill s else s)
      in if bitcnt s < n then Inl s
         else Inr (ucast (bitbuf s AND (push_bit n 1 - 1)),
                   s\<lparr>bitbuf := drop_bit n (bitbuf s), bitcnt := bitcnt s - n\<rparr>))"

subsection \<open>Huffman tables\<close>

text \<open>\<open>next_code[]\<close> and the sum of the counts.\<close>

fun next_code_step :: "huff_t \<Rightarrow> nat \<Rightarrow> (nat \<Rightarrow> u16) \<times> u16 \<times> u32 \<Rightarrow> (nat \<Rightarrow> u16) \<times> u16 \<times> u32" where
  "next_code_step h len (nc, code, tot) =
     (let code = push_bit 1 (code + hcount h (len - 1))
      in (nc(len := code), code, tot + ucast (hcount h len)))"

definition next_codes :: "huff_t \<Rightarrow> (nat \<Rightarrow> u16) \<times> u16 \<times> u32" where
  "next_codes h = fold (next_code_step h) [1..<INFLATE_MAX_BITS + 1] (\<lambda>_. 0, 0, 0)"

text \<open>The over-subscription check; \<open>None\<close> is its \<open>return -1\<close>.\<close>

fun kraft_loop :: "(nat \<Rightarrow> u16) \<Rightarrow> nat list \<Rightarrow> u32 \<Rightarrow> u32 option" where
  "kraft_loop cnt [] left = Some left"
| "kraft_loop cnt (len # lens) left =
     (let left = push_bit 1 left
      in if left < ucast (cnt len) then None else kraft_loop cnt lens (left - ucast (cnt len)))"

definition rev_code :: "u16 \<Rightarrow> nat \<Rightarrow> u32" where
  "rev_code c len =
     fold (\<lambda>b r. if c AND push_bit b 1 \<noteq> 0 then r OR push_bit (len - 1 - b) 1 else r) [0..<len] 0"

function fill_loop :: "nat \<Rightarrow> nat \<Rightarrow> u16 \<Rightarrow> (nat \<Rightarrow> u16) \<Rightarrow> nat \<Rightarrow> u16" where
  "fill_loop j stride ent tab =
     (if j < HTAB_SIZE \<and> 0 < stride then fill_loop (j + stride) stride ent (tab(j := ent)) else tab)"
  by pat_completeness auto
termination
  by (relation "measure (\<lambda>(j, _). HTAB_SIZE - j)") auto

declare fill_loop.simps [simp del]

definition fill_code :: "huff_t \<Rightarrow> nat \<Rightarrow> (nat \<Rightarrow> u16) \<times> u16 \<times> nat \<Rightarrow> (nat \<Rightarrow> u16) \<times> u16 \<times> nat" where
  "fill_code h len = (\<lambda>(tab, c, sym_idx).
     (fill_loop (unat (rev_code c len)) (2 ^ len) (HENT (hsym h sym_idx) len) tab, c + 1, sym_idx + 1))"

definition fill_len :: "huff_t \<Rightarrow> (nat \<Rightarrow> u16) \<Rightarrow> nat \<Rightarrow> (nat \<Rightarrow> u16) \<times> nat \<Rightarrow> (nat \<Rightarrow> u16) \<times> nat" where
  "fill_len h nc len = (\<lambda>(tab, sym_idx).
     case (fill_code h len ^^ unat (hcount h len)) (tab, nc len, sym_idx) of (tab, _, sym_idx) \<Rightarrow> (tab, sym_idx))"

definition huff_build :: "huff_t \<Rightarrow> huff_t option" where
  "huff_build h =
     (case next_codes h of (nc, _, tot) \<Rightarrow>
        if tot = 0 \<or> 320 < tot then None
        else case kraft_loop (hcount h) [1..<INFLATE_MAX_BITS + 1] 1 of
          None \<Rightarrow> None
        | Some _ \<Rightarrow>
            Some (h\<lparr>htable := fst (fold (fill_len h nc) [1..<INFLATE_MAX_BITS + 1]
              ((\<lambda>j. if j < HTAB_SIZE then 0 else htable h j), 0))\<rparr>))"

definition huff_decode :: "huff_t \<Rightarrow> 'c inf_state_t \<Rightarrow> ('c, nat) inf_res" where
  "huff_decode h s =
     (let s = refill s
      in if bitcnt s < 1 then Inl s
         else let e = htable h (unat (bitbuf s AND (of_nat HTAB_SIZE - 1)))
           in if \<not> HENT_VALID e then Inl s
              else if bitcnt s < HENT_LEN e then Inl s
              else Inr (HENT_SYM e, s\<lparr>bitbuf := drop_bit (HENT_LEN e) (bitbuf s),
                                       bitcnt := bitcnt s - HENT_LEN e\<rparr>))"

text \<open>Counting and sorting symbols by code length, as each table is prepared.\<close>

definition huff_counts :: "(nat \<Rightarrow> nat) \<Rightarrow> nat \<Rightarrow> (nat \<Rightarrow> u16) \<Rightarrow> nat \<Rightarrow> u16" where
  "huff_counts lens n = fold (\<lambda>i c. if lens i \<noteq> 0 then c(lens i := c (lens i) + 1) else c) [0..<n]"

definition huff_sort :: "(nat \<Rightarrow> nat) \<Rightarrow> nat \<Rightarrow> (nat \<Rightarrow> u16) \<Rightarrow> nat \<Rightarrow> u16" where
  "huff_sort lens n syms =
     fst (fold (\<lambda>len. fold (\<lambda>sy (f, idx).
            if lens sy = len then (f(idx := of_nat sy), idx + 1) else (f, idx)) [0..<n])
       [1..<INFLATE_MAX_BITS + 1] (syms, 0 :: nat))"

definition huff_from :: "(nat \<Rightarrow> nat) \<Rightarrow> nat \<Rightarrow> huff_t" where
  "huff_from lens n =
     huff_zero\<lparr>hcount := huff_counts lens n (hcount huff_zero), hsym := huff_sort lens n (hsym huff_zero)\<rparr>"

subsection \<open>Blocks\<close>

definition fixed_len :: "nat \<Rightarrow> nat" where
  "fixed_len sy = (if sy < 144 then 8 else if sy < 256 then 9 else if sy < 280 then 7 else 8)"

definition bump :: "nat \<Rightarrow> nat list \<Rightarrow> (nat \<Rightarrow> u16) \<Rightarrow> nat \<Rightarrow> u16" where
  "bump l = fold (\<lambda>_ c. c(l := c l + 1))"

definition build_fixed :: "inf_globals \<Rightarrow> inf_globals" where
  "build_fixed g =
     (if fixed_ready g then g
      else
        let lit = huff_zero\<lparr>hcount := bump 8 [280..<288] (bump 7 [256..<280]
                     (bump 9 [144..<256] (bump 8 [0..<144] (hcount huff_zero)))),
                   hsym := huff_sort fixed_len 288 (hsym huff_zero)\<rparr>;
            dist = huff_zero\<lparr>hcount := bump 5 [0..<30] (hcount huff_zero),
                   hsym := fold (\<lambda>i f. f(i := of_nat i)) [0..<30] (hsym huff_zero)\<rparr>
        in case huff_build lit of
             None \<Rightarrow> g\<lparr>fixed_lit := lit, fixed_dist := dist, fixed_ready := False\<rparr>
           | Some lit \<Rightarrow> (case huff_build dist of
               None \<Rightarrow> g\<lparr>fixed_lit := lit, fixed_dist := dist, fixed_ready := False\<rparr>
             | Some dist \<Rightarrow> g\<lparr>fixed_lit := lit, fixed_dist := dist, fixed_ready := True\<rparr>))"

fun stored_loop :: "nat \<Rightarrow> 'c inf_state_t \<Rightarrow> ('c, unit) inf_res" where
  "stored_loop 0 s = Inr ((), s)"
| "stored_loop (Suc n) s =
     (case out_room s of Inl e \<Rightarrow> Inl e
      | Inr (_, s) \<Rightarrow> (case get_bits 8 s of Inl e \<Rightarrow> Inl e
        | Inr (b, s) \<Rightarrow> stored_loop n (out_put (ucast b) s)))"

definition inflate_stored :: "'c inf_state_t \<Rightarrow> ('c, unit) inf_res" where
  "inflate_stored s =
     (let drop = bitcnt s mod 8;
          s = s\<lparr>bitbuf := drop_bit drop (bitbuf s), bitcnt := bitcnt s - drop\<rparr>
      in case get_bits 16 s of Inl e \<Rightarrow> Inl e
      | Inr (len, s) \<Rightarrow> (case get_bits 16 s of Inl e \<Rightarrow> Inl e
        | Inr (nlen, s) \<Rightarrow>
            if len XOR 0xFFFF \<noteq> nlen then Inl s
            else if sink s = None \<and> out_cap s < out_len s + unat len then Inl s
            else stored_loop (unat len) s))"

text \<open>The copy of a match: \<open>length\<close> bytes from \<open>from\<close>.\<close>

fun copy_loop :: "nat \<Rightarrow> nat \<Rightarrow> nat \<Rightarrow> 'c inf_state_t \<Rightarrow> ('c, unit) inf_res" where
  "copy_loop 0 distance from s = Inr ((), s)"
| "copy_loop (Suc n) distance from s =
     (case out_room s of Inl e \<Rightarrow> Inl e
      | Inr (slid, s) \<Rightarrow>
          let from = (if slid then out_len s - distance else from)
          in copy_loop n distance (from + 1) (out_put (out s from) s))"

definition inflate_match :: "huff_t \<Rightarrow> nat \<Rightarrow> 'c inf_state_t \<Rightarrow> ('c, unit) inf_res" where
  "inflate_match dist sy s =
     (if 29 \<le> sy then Inl s
      else case (if len_ext ! sy \<noteq> 0 then get_bits (len_ext ! sy) s else Inr (0, s)) of Inl e \<Rightarrow> Inl e
      | Inr (extra, s) \<Rightarrow>
        let length = len_base ! sy + unat extra
        in case huff_decode dist s of Inl e \<Rightarrow> Inl e
        | Inr (dsym, s) \<Rightarrow>
          if 30 \<le> dsym then Inl s
          else case (if dist_ext ! dsym \<noteq> 0 then get_bits (dist_ext ! dsym) s else Inr (0, s)) of Inl e \<Rightarrow> Inl e
          | Inr (extra, s) \<Rightarrow>
            let distance = dist_base ! dsym + unat extra
            in if out_len s < distance then Inl s
               else copy_loop length distance (out_len s - distance) s)"

partial_function (option) inflate_codes ::
  "huff_t \<Rightarrow> huff_t \<Rightarrow> 'c inf_state_t \<Rightarrow> ('c, unit) inf_res option" where
  "inflate_codes lit dist s =
     (case huff_decode lit s of Inl e \<Rightarrow> Some (Inl e)
      | Inr (sy, s) \<Rightarrow>
          if sy < 256 then
            (case out_room s of Inl e \<Rightarrow> Some (Inl e)
             | Inr (_, s) \<Rightarrow> inflate_codes lit dist (out_put (of_nat sy) s))
          else if sy = 256 then Some (Inr ((), s))
          else (case inflate_match dist (sy - 257) s of Inl e \<Rightarrow> Some (Inl e)
             | Inr (_, s) \<Rightarrow> inflate_codes lit dist s))"

definition clc_order :: "nat list" where
  "clc_order = [16,17,18,0,8,7,9,6,10,5,11,4,12,3,13,2,14,1,15]"

fun clc_loop :: "nat list \<Rightarrow> (nat \<Rightarrow> nat) \<times> (nat \<Rightarrow> u16) \<Rightarrow> 'c inf_state_t \<Rightarrow>
    ('c, (nat \<Rightarrow> nat) \<times> (nat \<Rightarrow> u16)) inf_res" where
  "clc_loop [] (clc_len, cnt) s = Inr ((clc_len, cnt), s)"
| "clc_loop (k # ks) (clc_len, cnt) s =
     (case get_bits 3 s of Inl e \<Rightarrow> Inl e
      | Inr (v, s) \<Rightarrow>
          clc_loop ks (clc_len(k := unat v),
            if v \<noteq> 0 then cnt(unat v := cnt (unat v) + 1) else cnt) s)"

text \<open>\<open>while (rep-- && cur < n) lens[cur++] = v\<close>.\<close>

fun rep_loop :: "nat \<Rightarrow> nat \<Rightarrow> nat \<Rightarrow> nat \<Rightarrow> (nat \<Rightarrow> nat) \<Rightarrow> nat \<times> (nat \<Rightarrow> nat)" where
  "rep_loop 0 v n cur lens = (cur, lens)"
| "rep_loop (Suc rep) v n cur lens =
     (if cur < n then rep_loop rep v n (cur + 1) (lens(cur := v)) else (cur, lens))"

lemma rep_loop_grows: "cur \<le> fst (rep_loop rep v n cur lens)"
proof (induction rep arbitrary: cur lens)
  case (Suc rep)
  show ?case using Suc [of "cur + 1"] by (auto intro: Suc_leD)
qed simp

lemma rep_loop_progress: "cur < n \<Longrightarrow> 0 < rep \<Longrightarrow> cur < fst (rep_loop rep v n cur lens)"
  using rep_loop_grows [of "cur + 1"] by (cases rep) (auto simp: Suc_le_eq)

text \<open>One entry of the code-length alphabet: \<open>(cur, last, lens)\<close> after it, \<open>last\<close> being \<open>None\<close> for -1.\<close>

definition lens_step :: "nat \<Rightarrow> nat \<Rightarrow> nat \<times> nat option \<times> (nat \<Rightarrow> nat) \<Rightarrow> 'c inf_state_t \<Rightarrow>
    ('c, nat \<times> nat option \<times> (nat \<Rightarrow> nat)) inf_res" where
  "lens_step n sy = (\<lambda>(cur, prev, lens) s.
     if sy < 16 then Inr ((cur + 1, Some sy, lens(cur := sy)), s)
     else if sy = 16 then
       (case prev of None \<Rightarrow> Inl s
        | Some l \<Rightarrow> (case get_bits 2 s of Inl e \<Rightarrow> Inl e
            | Inr (v, s) \<Rightarrow> (case rep_loop (3 + unat v) l n cur lens of (cur, lens) \<Rightarrow> Inr ((cur, prev, lens), s))))
     else if sy = 17 then
       (case get_bits 3 s of Inl e \<Rightarrow> Inl e
        | Inr (v, s) \<Rightarrow> (case rep_loop (3 + unat v) 0 n cur lens of (cur, lens) \<Rightarrow> Inr ((cur, prev, lens), s)))
     else
       (case get_bits 7 s of Inl e \<Rightarrow> Inl e
        | Inr (v, s) \<Rightarrow> (case rep_loop (11 + unat v) 0 n cur lens of (cur, lens) \<Rightarrow> Inr ((cur, prev, lens), s))))"

lemma lens_step_progress:
  assumes "lens_step n sy st s = Inr (st', s')" and "fst st < n"
  shows "fst st < fst st'"
proof -
  obtain cur prev lens where st: "st = (cur, prev, lens)" by (cases st)
  have r: "cur < cur'" if "rep_loop rep v n cur lens = (cur', lens')" "0 < rep" for rep v cur' lens'
    using rep_loop_progress [of cur n rep v lens] that assms(2) st by simp
  show ?thesis
    using assms(1) unfolding st lens_step_def
    by (auto split: if_splits sum.splits option.splits prod.splits dest: r)
qed

function lens_loop :: "huff_t \<Rightarrow> nat \<Rightarrow> nat \<times> nat option \<times> (nat \<Rightarrow> nat) \<Rightarrow> 'c inf_state_t \<Rightarrow>
    ('c, nat \<Rightarrow> nat) inf_res" where
  "lens_loop clc n st s =
     (if fst st < n then
        (case huff_decode clc s of Inl e \<Rightarrow> Inl e
         | Inr (sy, s) \<Rightarrow> (case lens_step n sy st s of Inl e \<Rightarrow> Inl e
            | Inr (st, s) \<Rightarrow> lens_loop clc n st s))
      else Inr (snd (snd st), s))"
  by pat_completeness auto
termination
  by (relation "measure (\<lambda>(clc, n, st, s). n - fst st)")
    (auto dest!: sym [of "Inr _"] lens_step_progress intro: diff_less_mono2)

declare lens_loop.simps [simp del]

definition build_trees :: "nat \<Rightarrow> nat \<Rightarrow> (nat \<Rightarrow> nat) \<Rightarrow> 'c inf_state_t \<Rightarrow> ('c, unit) inf_res" where
  "build_trees hlit hdist lens s =
     (if lens 256 = 0 then Inl s
      else (case huff_build (huff_from lens hlit) of None \<Rightarrow> Inl s
        | Some lit \<Rightarrow> (case huff_build (huff_from (\<lambda>i. lens (hlit + i)) hdist) of None \<Rightarrow> Inl s
          | Some dist \<Rightarrow> Inr ((), s\<lparr>glob := (glob s)\<lparr>dyn_lit := lit, dyn_dist := dist\<rparr>\<rparr>))))"

definition inflate_trees :: "nat \<Rightarrow> nat \<Rightarrow> nat \<Rightarrow> 'c inf_state_t \<Rightarrow> ('c, unit) inf_res" where
  "inflate_trees hlit hdist hclen s =
     (case clc_loop (take hclen clc_order) (\<lambda>_. 0, \<lambda>_. 0) s of Inl e \<Rightarrow> Inl e
      | Inr (clc, s) \<Rightarrow>
        (case huff_build (huff_zero\<lparr>hcount := snd clc, hsym := huff_sort (fst clc) 19 (hsym huff_zero)\<rparr>) of
           None \<Rightarrow> Inl s
         | Some clc \<Rightarrow>
           (case lens_loop clc (hlit + hdist) (0, None, \<lambda>_. 0) (s\<lparr>glob := (glob s)\<lparr>dyn_clc := clc\<rparr>\<rparr>) of
              Inl e \<Rightarrow> Inl e
            | Inr (lens, s) \<Rightarrow> build_trees hlit hdist lens s)))"

definition inflate_dynamic_tables :: "'c inf_state_t \<Rightarrow> ('c, unit) inf_res" where
  "inflate_dynamic_tables s =
     (case get_bits 5 s of Inl e \<Rightarrow> Inl e
      | Inr (v, s) \<Rightarrow> let hlit = unat v + 257 in
        (case get_bits 5 s of Inl e \<Rightarrow> Inl e
         | Inr (v, s) \<Rightarrow> let hdist = unat v + 1 in
           (case get_bits 4 s of Inl e \<Rightarrow> Inl e
            | Inr (v, s) \<Rightarrow> let hclen = unat v + 4 in
              if 286 < hlit \<or> 30 < hdist then Inl s else inflate_trees hlit hdist hclen s)))"

definition inflate_block :: "u32 \<Rightarrow> 'c inf_state_t \<Rightarrow> ('c, unit) inf_res option" where
  "inflate_block ty s =
     (if ty = 0 then Some (inflate_stored s)
      else if ty = 1 then
        (let s = s\<lparr>glob := build_fixed (glob s)\<rparr>
         in if \<not> fixed_ready (glob s) then Some (Inl s)
            else inflate_codes (fixed_lit (glob s)) (fixed_dist (glob s)) s)
      else if ty = 2 then
        (case inflate_dynamic_tables s of Inl e \<Rightarrow> Some (Inl e)
         | Inr (_, s) \<Rightarrow> inflate_codes (dyn_lit (glob s)) (dyn_dist (glob s)) s)
      else Some (Inl s))"

partial_function (option) inflate_raw :: "'c inf_state_t \<Rightarrow> ('c, unit) inf_res option" where
  "inflate_raw s =
     (case get_bits 1 s of Inl e \<Rightarrow> Some (Inl e)
      | Inr (final, s) \<Rightarrow> (case get_bits 2 s of Inl e \<Rightarrow> Some (Inl e)
        | Inr (ty, s) \<Rightarrow>
            Option.bind (inflate_block ty s) (\<lambda>r. case r of Inl e \<Rightarrow> Some (Inl e)
              | Inr (_, s) \<Rightarrow> if final \<noteq> 0 then Some (Inr ((), s)) else inflate_raw s)))"

subsection \<open>gzip members\<close>

definition crc32_byte :: "u8 \<Rightarrow> u32 \<Rightarrow> u32" where
  "crc32_byte b crc =
     ((\<lambda>crc. drop_bit 1 crc XOR (0xEDB88320 AND (0 - (crc AND 1)))) ^^ 8) (crc XOR ucast b)"

definition crc32_update :: "u32 \<Rightarrow> u8 list \<Rightarrow> u32" where
  "crc32_update crc p = NOT (fold crc32_byte p (NOT crc))"

definition crc_sink :: "'u sink_fn \<Rightarrow> (u32 \<times> 'u) sink_fn" where
  "crc_sink user = (\<lambda>(crc, uctx) d.
     case user uctx d of (ok, uctx) \<Rightarrow> (ok, (crc32_update crc d, uctx)))"

text \<open>The fresh decoder state of a member.\<close>

definition inf_start :: "u8 list \<Rightarrow> 'c sink_fn \<Rightarrow> 'c \<Rightarrow> (nat \<Rightarrow> u8) \<Rightarrow> inf_globals \<Rightarrow> 'c inf_state_t" where
  "inf_start data f c window g =
     \<lparr>in_buf = data, in_pos = 0, bitbuf = 0, bitcnt = 0, out = window, out_cap = INF_BUFSZ,
      out_len = 0, sink = Some f, sink_ctx = c, flushed = 0, glob = g\<rparr>"

function skip_name :: "u8 list \<Rightarrow> nat \<Rightarrow> nat \<Rightarrow> nat" where
  "skip_name data pos off =
     (if pos + off < length data \<and> data ! (pos + off) \<noteq> 0 then skip_name data pos (off + 1) else off)"
  by pat_completeness auto
termination
  by (relation "measure (\<lambda>(data, pos, off). length data - off)") auto

declare skip_name.simps [simp del]

definition gzip_header :: "u8 list \<Rightarrow> nat \<Rightarrow> nat option" where
  "gzip_header data pos =
     (if data ! pos \<noteq> 0x1F \<or> data ! (pos + 1) \<noteq> 0x8B \<or> data ! (pos + 2) \<noteq> 8 then None
      else
        let flg = data ! (pos + 3) in
        if flg AND 0x04 \<noteq> 0 \<and> length data < pos + 10 + 2 then None
        else
          let off = (if flg AND 0x04 \<noteq> 0
                     then 10 + (2 + (unat (data ! (pos + 10)) + 256 * unat (data ! (pos + 11)))) else 10);
              off = (if flg AND 0x08 \<noteq> 0 then skip_name data pos off + 1 else off);
              off = (if flg AND 0x10 \<noteq> 0 then skip_name data pos off + 1 else off);
              off = (if flg AND 0x02 \<noteq> 0 then off + 2 else off)
          in if length data < pos + off then None else Some off)"

definition le32 :: "u8 list \<Rightarrow> nat \<Rightarrow> u32" where
  "le32 d i = ucast (d ! i) OR push_bit 8 (ucast (d ! (i + 1))) OR
     push_bit 16 (ucast (d ! (i + 2))) OR push_bit 24 (ucast (d ! (i + 3)))"

text \<open>
  One member at \<open>pos\<close>: \<open>Inl\<close> the failure, \<open>Inr\<close> the bytes delivered and the position after
  the trailer. Both carry the window, the tables and the context of the user's sink.
\<close>

definition gzip_member :: "'u sink_fn \<Rightarrow> u8 list \<Rightarrow> nat \<Rightarrow> (nat \<Rightarrow> u8) \<times> inf_globals \<times> 'u \<Rightarrow>
    (((nat \<Rightarrow> u8) \<times> inf_globals \<times> 'u) + (nat \<times> nat) \<times> (nat \<Rightarrow> u8) \<times> inf_globals \<times> 'u) option" where
  "gzip_member user data pos = (\<lambda>(window, g, u).
     case gzip_header data pos of None \<Rightarrow> Some (Inl (window, g, u))
     | Some off \<Rightarrow>
       Option.bind (inflate_raw (inf_start (drop (pos + off) data) (crc_sink user) (0, u) window g))
       (\<lambda>r. case r of Inl e \<Rightarrow> Some (Inl (out e, glob e, snd (sink_ctx e)))
        | Inr (_, s) \<Rightarrow>
          let trailer_pos = (in_pos s * 8 - bitcnt s + 7) div 8 in
          if length (in_buf s) < trailer_pos + 8 then Some (Inl (out s, glob s, snd (sink_ctx s)))
          else
            let want_crc = le32 (in_buf s) trailer_pos;
                (ok, c) = (if 0 < out_len s
                           then crc_sink user (sink_ctx s) (map (out s) [0..<out_len s])
                           else (True, sink_ctx s))
            in if \<not> ok \<or> fst c \<noteq> want_crc then Some (Inl (out s, glob s, snd c))
               else Some (Inr ((flushed s + out_len s, pos + off + trailer_pos + 8), out s, glob s, snd c))))"

function skip_zeros :: "u8 list \<Rightarrow> nat \<Rightarrow> nat" where
  "skip_zeros data pos = (if pos < length data \<and> data ! pos = 0 then skip_zeros data (pos + 1) else pos)"
  by pat_completeness auto
termination
  by (relation "measure (\<lambda>(data, pos). length data - pos)") auto

declare skip_zeros.simps [simp del]

text \<open>The loop over concatenated members; \<open>Some tot\<close> is a return of 0 with \<open>*out_len = tot\<close>.\<close>

partial_function (option) gzip_loop :: "'u sink_fn \<Rightarrow> u8 list \<Rightarrow> nat \<Rightarrow> nat \<Rightarrow>
    (nat \<Rightarrow> u8) \<times> inf_globals \<times> 'u \<Rightarrow> (nat option \<times> (nat \<Rightarrow> u8) \<times> inf_globals \<times> 'u) option" where
  "gzip_loop user data pos tot st =
     (if 18 \<le> length data - pos then
        Option.bind (gzip_member user data pos st) (\<lambda>r. case r of
          Inl st \<Rightarrow> Some (None, st)
        | Inr ((n, pos), st) \<Rightarrow>
            let tot = tot + n; pos = skip_zeros data pos in
            if length data \<le> pos then Some (if tot = 0 then None else Some tot, st)
            else if length data - pos < 18 then Some (None, st)
            else gzip_loop user data pos tot st)
      else Some (if tot = 0 then None else Some tot, st))"

definition gzip_inflate_cb :: "'u sink_fn \<Rightarrow> u8 list \<Rightarrow> (nat \<Rightarrow> u8) \<times> inf_globals \<times> 'u \<Rightarrow>
    (nat option \<times> (nat \<Rightarrow> u8) \<times> inf_globals \<times> 'u) option" where
  "gzip_inflate_cb user data st = gzip_loop user data 0 0 st"

record buf_sink_t =
  bs_out :: "nat \<Rightarrow> u8"
  bs_cap :: nat
  bs_len :: nat

definition buf_sink :: "buf_sink_t sink_fn" where
  "buf_sink b d =
     (if bs_cap b < bs_len b + length d then (False, b)
      else (True, b\<lparr>bs_out := fold (\<lambda>i m. m(bs_len b + i := d ! i)) [0..<length d] (bs_out b),
                     bs_len := bs_len b + length d\<rparr>))"

definition gzip_inflate :: "u8 list \<Rightarrow> (nat \<Rightarrow> u8) \<Rightarrow> nat \<Rightarrow> (nat \<Rightarrow> u8) \<Rightarrow> inf_globals \<Rightarrow>
    (nat option \<times> (nat \<Rightarrow> u8) \<times> inf_globals \<times> (nat \<Rightarrow> u8)) option" where
  "gzip_inflate data buf cap window g =
     Option.bind (gzip_inflate_cb buf_sink data (window, g, \<lparr>bs_out = buf, bs_cap = cap, bs_len = 0\<rparr>))
       (\<lambda>(r, window, g, b). Some (r, window, g, bs_out b))"

definition gzip_payload_size :: "u8 list \<Rightarrow> int" where
  "gzip_payload_size data =
     (if length data < 18 \<or> data ! 0 \<noteq> 0x1F \<or> data ! 1 \<noteq> 0x8B then -1
      else uint (le32 data (length data - 4)))"

end
