(* ===== verification/Deflate.thy ===== *)
theory Deflate
  imports Inflate "HOL-Library.Sublist"
begin

text \<open>
  The format the decoder of \<open>pkg/inflate.c\<close> accepts: a DEFLATE decoder over a list of bits with
  unbounded output, without the three optimisations of the code (the 64-bit bit buffer, the direct
  lookup table and the sliding window). It shares the code's tables and reads the headers of dynamic
  blocks as the code does; \<open>Deflate_Rfc\<close> relates it to RFC 1951 and \<open>Deflate_Refine\<close> shows that the C
  decoder refines it.
\<close>

subsection \<open>The reference decoder\<close>

definition byte_bits :: "u8 \<Rightarrow> bool list" where
  "byte_bits b = map (bit b) [0..<8]"

definition bits_of :: "u8 list \<Rightarrow> bool list" where
  "bits_of data = concat (map byte_bits data)"

definition bits_val :: "bool list \<Rightarrow> nat" where
  "bits_val bs = horner_sum of_bool 2 bs"

text \<open>A reading action takes the remaining bits and the output so far.\<close>

type_synonym 'a action = "bool list \<Rightarrow> u8 list \<Rightarrow> ('a \<times> bool list \<times> u8 list) option"

definition read_bits :: "nat \<Rightarrow> nat action" where
  "read_bits n bs os =
     (if length bs < n then None else Some (bits_val (take n bs), drop n bs, os))"

text \<open>Canonical Huffman codes from code lengths (RFC 1951, 3.2.2).\<close>

definition len_count :: "(nat \<Rightarrow> nat) \<Rightarrow> nat \<Rightarrow> nat \<Rightarrow> nat" where
  "len_count lens n l = (if l = 0 then 0 else length (filter (\<lambda>s. lens s = l) [0..<n]))"

fun first_code :: "(nat \<Rightarrow> nat) \<Rightarrow> nat \<Rightarrow> nat" where
  "first_code cnt 0 = 0"
| "first_code cnt (Suc l) = 2 * (first_code cnt l + cnt l)"

definition code_value :: "(nat \<Rightarrow> nat) \<Rightarrow> nat \<Rightarrow> nat \<Rightarrow> nat" where
  "code_value lens n s =
     first_code (len_count lens n) (lens s) + length (filter (\<lambda>t. lens t = lens s) [0..<s])"

definition codeword :: "(nat \<Rightarrow> nat) \<Rightarrow> nat \<Rightarrow> nat \<Rightarrow> bool list" where
  "codeword lens n s = map (\<lambda>i. bit (code_value lens n s) (lens s - 1 - i)) [0..<lens s]"

definition code_ok :: "(nat \<Rightarrow> nat) \<Rightarrow> nat \<Rightarrow> bool" where
  "code_ok lens n \<longleftrightarrow>
     (\<exists>s\<in>set [0..<n]. lens s \<noteq> 0) \<and> (\<Sum>l\<in>{1..15}. len_count lens n l * 2 ^ (15 - l)) \<le> 2 ^ 15"

definition decode_sym :: "(nat \<Rightarrow> nat) \<Rightarrow> nat \<Rightarrow> nat action" where
  "decode_sym lens n bs os =
     (case find (\<lambda>s. lens s \<noteq> 0 \<and> take (lens s) bs = codeword lens n s) [0..<n] of
        None \<Rightarrow> None
      | Some s \<Rightarrow> Some (s, drop (lens s) bs, os))"

text \<open>Blocks. A stored block starts at the next byte boundary.\<close>

definition bits_bytes :: "nat \<Rightarrow> bool list \<Rightarrow> u8 list" where
  "bits_bytes n bs = map (\<lambda>i. of_nat (bits_val (take 8 (drop (8 * i) bs)))) [0..<n]"

definition spec_stored :: "unit action" where
  "spec_stored bs os =
     Option.bind (read_bits 16 (drop (length bs mod 8) bs) os) (\<lambda>(len, bs, os).
     Option.bind (read_bits 16 bs os) (\<lambda>(nlen, bs, os).
       if len + nlen \<noteq> 0xFFFF \<or> length bs < 8 * len then None
       else Some ((), drop (8 * len) bs, os @ bits_bytes len bs)))"

fun lz_copy :: "nat \<Rightarrow> nat \<Rightarrow> u8 list \<Rightarrow> u8 list" where
  "lz_copy 0 d os = os"
| "lz_copy (Suc n) d os = lz_copy n d (os @ [os ! (length os - d)])"

definition spec_match :: "(nat \<Rightarrow> nat) \<Rightarrow> nat \<Rightarrow> nat \<Rightarrow> unit action" where
  "spec_match dlens dn k bs os =
     (if 29 \<le> k then None
      else Option.bind (read_bits (len_ext ! k) bs os) (\<lambda>(extra, bs, os).
        Option.bind (decode_sym dlens dn bs os) (\<lambda>(d, bs, os).
          if 30 \<le> d then None
          else Option.bind (read_bits (dist_ext ! d) bs os) (\<lambda>(extra', bs, os).
            if length os < dist_base ! d + extra' then None
            else Some ((), bs, lz_copy (len_base ! k + extra) (dist_base ! d + extra') os)))))"

lemma read_bits_shrinks: "read_bits n bs os = Some (v, bs', os') \<Longrightarrow> length bs' + n = length bs"
  by (auto simp: read_bits_def split: if_splits)

lemma decode_sym_Some:
  assumes "decode_sym lens n bs os = Some (s, bs', os')"
  shows "s < n \<and> lens s \<noteq> 0 \<and> lens s \<le> length bs \<and> take (lens s) bs = codeword lens n s \<and>
         bs' = drop (lens s) bs \<and> os' = os"
proof -
  from assms have *: "s < n" "lens s \<noteq> 0" "take (lens s) bs = codeword lens n s" "bs' = drop (lens s) bs" "os' = os"
    by (auto simp: decode_sym_def find_Some_iff split: option.splits)
  have "length (take (lens s) bs) = lens s" unfolding *(3) by (simp add: codeword_def)
  then have "lens s \<le> length bs" unfolding length_take by simp
  with * show ?thesis by simp
qed

lemma decode_sym_shrinks: "decode_sym lens n bs os = Some (v, bs', os') \<Longrightarrow> length bs' < length bs"
  using decode_sym_Some by fastforce

lemma spec_match_shrinks: "spec_match dlens dn k bs os = Some (v, bs', os') \<Longrightarrow> length bs' < length bs"
  by (auto simp: spec_match_def bind_eq_Some_conv split: if_splits prod.splits
      dest!: read_bits_shrinks decode_sym_shrinks)

function spec_codes :: "(nat \<Rightarrow> nat) \<Rightarrow> nat \<Rightarrow> (nat \<Rightarrow> nat) \<Rightarrow> nat \<Rightarrow> unit action" where
  "spec_codes lens n dlens dn bs os =
     Option.bind (decode_sym lens n bs os) (\<lambda>(s, bs, os).
       if s < 256 then spec_codes lens n dlens dn bs (os @ [of_nat s])
       else if s = 256 then Some ((), bs, os)
       else Option.bind (spec_match dlens dn (s - 257) bs os) (\<lambda>(_, bs, os).
         spec_codes lens n dlens dn bs os))"
  by pat_completeness auto
termination
  by (relation "measure (\<lambda>(lens, n, dlens, dn, bs, os). length bs)")
    (auto dest: decode_sym_shrinks spec_match_shrinks intro: less_trans)

declare spec_codes.simps [simp del]

text \<open>
  Code lengths of a dynamic block. As in the code, a repeat copies the last length that was sent
  as such, and a repeat past the end is cut off.
\<close>

fun spec_clc :: "nat list \<Rightarrow> (nat \<Rightarrow> nat) \<Rightarrow> (nat \<Rightarrow> nat) action" where
  "spec_clc [] lens bs os = Some (lens, bs, os)"
| "spec_clc (k # ks) lens bs os =
     Option.bind (read_bits 3 bs os) (\<lambda>(v, bs, os). spec_clc ks (lens(k := v)) bs os)"

definition spec_entry :: "nat \<Rightarrow> nat option \<times> nat list \<Rightarrow> (nat option \<times> nat list) action" where
  "spec_entry k = (\<lambda>(prev, ls) bs os.
     if k < 16 then Some ((Some k, ls @ [k]), bs, os)
     else if k = 16 then
       (case prev of None \<Rightarrow> None
        | Some l \<Rightarrow> Option.bind (read_bits 2 bs os) (\<lambda>(v, bs, os). Some ((prev, ls @ replicate (3 + v) l), bs, os)))
     else if k = 17 then
       Option.bind (read_bits 3 bs os) (\<lambda>(v, bs, os). Some ((prev, ls @ replicate (3 + v) 0), bs, os))
     else
       Option.bind (read_bits 7 bs os) (\<lambda>(v, bs, os). Some ((prev, ls @ replicate (11 + v) 0), bs, os)))"

lemma spec_entry_grows:
  "spec_entry k st bs os = Some (st', bs', os') \<Longrightarrow> length (snd st) < length (snd st')"
  by (auto simp: spec_entry_def bind_eq_Some_conv split: if_splits option.splits prod.splits)

function spec_lens :: "(nat \<Rightarrow> nat) \<Rightarrow> nat \<Rightarrow> nat option \<times> nat list \<Rightarrow> nat list action" where
  "spec_lens clens n st bs os =
     (if length (snd st) < n then
        Option.bind (decode_sym clens 19 bs os) (\<lambda>(k, bs, os).
        Option.bind (spec_entry k st bs os) (\<lambda>(st, bs, os). spec_lens clens n st bs os))
      else Some (take n (snd st), bs, os))"
  by pat_completeness auto
termination
  by (relation "measure (\<lambda>(clens, n, st, bs, os). n - length (snd st))")
    (auto dest!: spec_entry_grows intro: diff_less_mono2)

declare spec_lens.simps [simp del]

definition nth_or_0 :: "nat list \<Rightarrow> nat \<Rightarrow> nat" where
  "nth_or_0 ls i = (if i < length ls then ls ! i else 0)"

text \<open>The two codes of a dynamic block: lengths and alphabet sizes.\<close>

type_synonym trees = "(nat \<Rightarrow> nat) \<times> nat \<times> (nat \<Rightarrow> nat) \<times> nat"

definition spec_build :: "nat \<Rightarrow> nat \<Rightarrow> nat list \<Rightarrow> trees action" where
  "spec_build hlit hdist ls bs os =
     (let lens = nth_or_0 ls; dlens = (\<lambda>i. lens (hlit + i)) in
      if lens 256 = 0 \<or> \<not> code_ok lens hlit \<or> \<not> code_ok dlens hdist then None
      else Some ((lens, hlit, dlens, hdist), bs, os))"

definition spec_trees :: "nat \<Rightarrow> nat \<Rightarrow> nat \<Rightarrow> trees action" where
  "spec_trees hlit hdist hclen bs os =
     Option.bind (spec_clc (take hclen clc_order) (\<lambda>_. 0) bs os) (\<lambda>(clens, bs, os).
       if \<not> code_ok clens 19 then None
       else Option.bind (spec_lens clens (hlit + hdist) (None, []) bs os) (\<lambda>(ls, bs, os).
         spec_build hlit hdist ls bs os))"

definition spec_tables :: "trees action" where
  "spec_tables bs os =
     Option.bind (read_bits 5 bs os) (\<lambda>(v, bs, os). let hlit = v + 257 in
     Option.bind (read_bits 5 bs os) (\<lambda>(v, bs, os). let hdist = v + 1 in
     Option.bind (read_bits 4 bs os) (\<lambda>(v, bs, os). let hclen = v + 4 in
       if 286 < hlit \<or> 30 < hdist then None else spec_trees hlit hdist hclen bs os)))"

definition spec_block :: "nat \<Rightarrow> unit action" where
  "spec_block ty bs os =
     (if ty = 0 then spec_stored bs os
      else if ty = 1 then spec_codes fixed_len 288 (\<lambda>_. 5) 30 bs os
      else if ty = 2 then
        Option.bind (spec_tables bs os) (\<lambda>(t, bs, os).
          case t of (lens, n, dlens, dn) \<Rightarrow> spec_codes lens n dlens dn bs os)
      else None)"

text \<open>The whole stream, block after block up to the one marked final.\<close>

lemma spec_codes_shrinks:
  "spec_codes lens n dlens dn bs os = Some (v, bs', os') \<Longrightarrow> length bs' < length bs"
proof (induction lens n dlens dn bs os rule: spec_codes.induct)
  case (1 lens n dlens dn bs os)
  from "1.prems" obtain s b o1 where d: "decode_sym lens n bs os = Some (s, b, o1)"
    by (subst (asm) spec_codes.simps) (auto simp: bind_eq_Some_conv)
  have b: "length b < length bs" by (rule decode_sym_shrinks [OF d])
  show ?case
  proof (cases "s < 256")
    case True
    with "1.prems" d have "spec_codes lens n dlens dn b (o1 @ [of_nat s]) = Some (v, bs', os')"
      by (subst (asm) spec_codes.simps) simp
    from "1.IH"(1) [OF d refl refl True this] b show ?thesis by simp
  next
    case False
    show ?thesis
    proof (cases "s = 256")
      case True
      with "1.prems" d b show ?thesis by (subst (asm) spec_codes.simps) simp
    next
      case F2: False
      with False "1.prems" d obtain u b2 o2 where m: "spec_match dlens dn (s - 257) b o1 = Some (u, b2, o2)"
        and r: "spec_codes lens n dlens dn b2 o2 = Some (v, bs', os')"
        by (subst (asm) spec_codes.simps) (auto simp: bind_eq_Some_conv)
      from "1.IH"(2) [OF d refl refl False F2 m refl refl r] spec_match_shrinks [OF m] b show ?thesis by simp
    qed
  qed
qed

lemma spec_clc_shrinks: "spec_clc ks lens bs os = Some (v, bs', os') \<Longrightarrow> length bs' \<le> length bs"
  by (induction ks arbitrary: lens bs os)
    (auto simp: bind_eq_Some_conv dest!: read_bits_shrinks, fastforce)

lemma spec_entry_shrinks: "spec_entry k st bs os = Some (st', bs', os') \<Longrightarrow> length bs' \<le> length bs"
  by (auto simp: spec_entry_def bind_eq_Some_conv split: if_splits option.splits prod.splits
      dest!: read_bits_shrinks)

lemma spec_lens_shrinks: "spec_lens clens n st bs os = Some (v, bs', os') \<Longrightarrow> length bs' \<le> length bs"
proof (induction clens n st bs os rule: spec_lens.induct)
  case (1 clens n st bs os)
  show ?case
  proof (cases "length (snd st) < n")
    case True
    with "1.prems" obtain k b o1 st2 b2 o2 where
      d: "decode_sym clens 19 bs os = Some (k, b, o1)" and e: "spec_entry k st b o1 = Some (st2, b2, o2)" and
      r: "spec_lens clens n st2 b2 o2 = Some (v, bs', os')"
      by (subst (asm) spec_lens.simps) (auto simp: bind_eq_Some_conv)
    from "1.IH" [OF True d refl refl e refl refl r] decode_sym_shrinks [OF d] spec_entry_shrinks [OF e]
    show ?thesis by linarith
  next
    case False
    with "1.prems" show ?thesis by (subst (asm) spec_lens.simps) simp
  qed
qed

lemma spec_tables_shrinks: "spec_tables bs os = Some (v, bs', os') \<Longrightarrow> length bs' \<le> length bs"
  by (auto simp: spec_tables_def spec_trees_def spec_build_def bind_eq_Some_conv Let_def split: if_splits
      dest!: read_bits_shrinks spec_clc_shrinks spec_lens_shrinks)

lemma spec_stored_shrinks: "spec_stored bs os = Some (v, bs', os') \<Longrightarrow> length bs' \<le> length bs"
  by (auto simp: spec_stored_def bind_eq_Some_conv split: if_splits dest!: read_bits_shrinks)

lemma spec_block_shrinks: "spec_block ty bs os = Some (v, bs', os') \<Longrightarrow> length bs' \<le> length bs"
  by (auto simp: spec_block_def bind_eq_Some_conv split: if_splits
      dest!: spec_stored_shrinks spec_codes_shrinks spec_tables_shrinks)

function spec_inflate :: "unit action" where
  "spec_inflate bs os =
     Option.bind (read_bits 1 bs os) (\<lambda>(final, bs, os).
     Option.bind (read_bits 2 bs os) (\<lambda>(ty, bs, os).
     Option.bind (spec_block ty bs os) (\<lambda>(_, bs, os).
       if final \<noteq> 0 then Some ((), bs, os) else spec_inflate bs os)))"
  by pat_completeness auto
termination
  by (relation "measure (\<lambda>(bs, os). length bs)")
    (auto dest!: read_bits_shrinks spec_block_shrinks)

declare spec_inflate.simps [simp del]

text \<open>The output only grows.\<close>

lemma lz_copy_grows: "prefix os (lz_copy n d os)"
  by (induction n arbitrary: os) (auto intro: append_prefixD)

lemma spec_match_grows: "spec_match dlens dn k bs os = Some (v, bs', os') \<Longrightarrow> prefix os os'"
  by (auto simp: spec_match_def read_bits_def bind_eq_Some_conv lz_copy_grows split: if_splits
      dest!: decode_sym_Some)

lemma spec_codes_grows: "spec_codes lens n dlens dn bs os = Some (v, bs', os') \<Longrightarrow> prefix os os'"
proof (induction "length bs" arbitrary: bs os rule: less_induct)
  case less
  from less.prems obtain s b where d: "decode_sym lens n bs os = Some (s, b, os)"
    and r: "(if s < 256 then spec_codes lens n dlens dn b (os @ [of_nat s])
       else if s = 256 then Some ((), b, os)
       else Option.bind (spec_match dlens dn (s - 257) b os) (\<lambda>(_, bs, os). spec_codes lens n dlens dn bs os)) =
       Some (v, bs', os')"
    by (subst (asm) spec_codes.simps) (auto simp: bind_eq_Some_conv dest: decode_sym_Some)
  have sh: "length b < length bs" by (rule decode_sym_shrinks [OF d])
  show ?case
  proof (cases "s < 256")
    case True
    with r less.hyps [OF sh] show ?thesis by (auto dest: append_prefixD)
  next
    case False
    show ?thesis
    proof (cases "s = 256")
      case True
      with r show ?thesis by simp
    next
      case F: False
      with False r obtain u b2 o2 where m: "spec_match dlens dn (s - 257) b os = Some (u, b2, o2)"
        and c: "spec_codes lens n dlens dn b2 o2 = Some (v, bs', os')" by (auto simp: bind_eq_Some_conv)
      have "length b2 < length bs" using spec_match_shrinks [OF m] sh by simp
      from less.hyps [OF this c] spec_match_grows [OF m] show ?thesis by (blast intro: prefix_order.trans)
    qed
  qed
qed

lemma spec_clc_out: "spec_clc ks lens bs os = Some (v, bs', os') \<Longrightarrow> os' = os"
  by (induction ks arbitrary: lens bs os) (auto simp: bind_eq_Some_conv read_bits_def split: if_splits)

lemma spec_entry_out: "spec_entry k st bs os = Some (v, bs', os') \<Longrightarrow> os' = os"
  by (auto simp: spec_entry_def bind_eq_Some_conv read_bits_def split: if_splits option.splits prod.splits)

lemma spec_lens_out: "spec_lens clens n st bs os = Some (v, bs', os') \<Longrightarrow> os' = os"
proof (induction clens n st bs os rule: spec_lens.induct)
  case (1 clens n st bs os)
  show ?case
  proof (cases "length (snd st) < n")
    case True
    with "1.prems" obtain k b o1 st2 b2 o2 where
      d: "decode_sym clens 19 bs os = Some (k, b, o1)" and e: "spec_entry k st b o1 = Some (st2, b2, o2)" and
      r: "spec_lens clens n st2 b2 o2 = Some (v, bs', os')"
      by (subst (asm) spec_lens.simps) (auto simp: bind_eq_Some_conv)
    from "1.IH" [OF True d refl refl e refl refl r] decode_sym_Some [OF d] spec_entry_out [OF e]
    show ?thesis by simp
  next
    case False
    with "1.prems" show ?thesis by (subst (asm) spec_lens.simps) simp
  qed
qed

lemma spec_tables_out: "spec_tables bs os = Some (v, bs', os') \<Longrightarrow> os' = os"
  by (auto simp: spec_tables_def spec_trees_def spec_build_def bind_eq_Some_conv Let_def read_bits_def
      split: if_splits dest!: spec_clc_out spec_lens_out)

lemma spec_block_grows: "spec_block ty bs os = Some (v, bs', os') \<Longrightarrow> prefix os os'"
  by (auto simp: spec_block_def spec_stored_def read_bits_def bind_eq_Some_conv split: if_splits
      dest!: spec_codes_grows spec_tables_out)

lemma spec_inflate_grows: "spec_inflate bs os = Some (v, bs', os') \<Longrightarrow> prefix os os'"
proof (induction "length bs" arbitrary: bs os rule: less_induct)
  case less
  from less.prems obtain fin bs1 o1 ty bs2 o2 u bs3 o3 where
    r: "read_bits 1 bs os = Some (fin, bs1, o1)" "read_bits 2 bs1 o1 = Some (ty, bs2, o2)"
      "spec_block ty bs2 o2 = Some (u, bs3, o3)"
    and n: "(if fin \<noteq> 0 then Some ((), bs3, o3) else spec_inflate bs3 o3) = Some (v, bs', os')"
    by (subst (asm) spec_inflate.simps) (auto simp: bind_eq_Some_conv)
  have "o2 = os" using r(1,2) by (auto simp: read_bits_def split: if_splits)
  then have p: "prefix os o3" using spec_block_grows [OF r(3)] by simp
  have "length bs3 < length bs"
    using spec_block_shrinks [OF r(3)] read_bits_shrinks [OF r(1)] read_bits_shrinks [OF r(2)] by simp
  from less.hyps [OF this] n p show ?case by (auto split: if_splits intro: prefix_order.trans)
qed

subsection \<open>Canonical codes are prefix-free\<close>

text \<open>\<open>cv \<beta> l\<close>: the first \<open>l\<close> bits of a stream, read first bit first.\<close>

fun cv :: "(nat \<Rightarrow> bool) \<Rightarrow> nat \<Rightarrow> nat" where
  "cv \<beta> 0 = 0"
| "cv \<beta> (Suc l) = 2 * cv \<beta> l + of_bool (\<beta> l)"

lemma cv_cong: "(\<And>i. i < l \<Longrightarrow> \<beta> i = \<gamma> i) \<Longrightarrow> cv \<beta> l = cv \<gamma> l"
  by (induction l) simp_all

lemma cv_less: "cv \<beta> l < 2 ^ l"
  by (induction l) (auto simp: of_bool_def)

lemma bit_cv: "i < l \<Longrightarrow> bit (cv \<beta> l) (l - 1 - i) = \<beta> i"
proof (induction l)
  case 0
  then show ?case by simp
next
  case (Suc l)
  show ?case
  proof (cases "i = l")
    case True
    then show ?thesis by (simp add: bit_0)
  next
    case False
    with Suc.prems have i: "i < l" and d: "Suc l - 1 - i = Suc (l - 1 - i)" by simp_all
    have "bit (cv \<beta> (Suc l)) (Suc l - 1 - i) = bit (cv \<beta> l) (l - 1 - i)"
      unfolding d by (simp add: bit_Suc)
    with Suc.IH [OF i] show ?thesis by simp
  qed
qed

lemma nat_bit_high: "(x :: nat) < 2 ^ l \<Longrightarrow> l \<le> k \<Longrightarrow> \<not> bit x k"
  by (metis bit_take_bit_iff leD take_bit_nat_eq_self)

lemma cv_eq_iff:
  assumes "c < 2 ^ l"
  shows "cv \<beta> l = c \<longleftrightarrow> (\<forall>i<l. \<beta> i = bit c (l - 1 - i))"
proof
  assume "cv \<beta> l = c"
  then show "\<forall>i<l. \<beta> i = bit c (l - 1 - i)" using bit_cv by blast
next
  assume r: "\<forall>i<l. \<beta> i = bit c (l - 1 - i)"
  show "cv \<beta> l = c"
  proof (rule bit_eqI)
    fix k
    show "bit (cv \<beta> l) k = bit c k"
    proof (cases "k < l")
      case True
      then have "l - 1 - k < l" "l - 1 - (l - 1 - k) = k" by simp_all
      with bit_cv [of "l - 1 - k" l \<beta>] r show ?thesis by metis
    next
      case False
      then have "\<not> bit x k" if "x < 2 ^ l" for x :: nat using that nat_bit_high by simp
      with assms cv_less show ?thesis by blast
    qed
  qed
qed

lemma cv_below:
  "cv \<beta> l < first_code cnt l + cnt l \<Longrightarrow> l < m \<Longrightarrow> cv \<beta> m < first_code cnt m"
proof (induction m)
  case (Suc m)
  have "cv \<beta> m < first_code cnt m + cnt m"
    using Suc by (cases "l = m") auto
  then show ?case by (auto simp: of_bool_def)
qed simp

text \<open>The Kraft sum, cut at length \<open>l\<close>.\<close>

lemma kraft_first: "first_code cnt l + cnt l = (\<Sum>k\<in>{0..l}. cnt k * 2 ^ (l - k))"
proof (induction l)
  case (Suc l)
  have "(\<Sum>k\<in>{0..Suc l}. cnt k * 2 ^ (Suc l - k)) = (\<Sum>k\<in>{0..l}. 2 * (cnt k * 2 ^ (l - k))) + cnt (Suc l)"
    by (simp add: Suc_diff_le mult.left_commute)
  also have "\<dots> = 2 * (first_code cnt l + cnt l) + cnt (Suc l)"
    unfolding Suc.IH sum_distrib_left ..
  finally show ?case by simp
qed simp

lemma kraft_prefix:
  assumes "first_code cnt m + cnt m \<le> 2 ^ m" and "l \<le> m"
  shows "first_code cnt l + cnt l \<le> 2 ^ l"
  using assms(2) by (induction rule: inc_induct) (use assms(1) in auto)

lemma len_count_0 [simp]: "len_count lens n 0 = 0"
  by (simp add: len_count_def)

lemma code_ok_kraft: 
  assumes "code_ok lens n" and "l \<le> 15"
  shows "first_code (len_count lens n) l + len_count lens n l \<le> 2 ^ l"
proof -
  have "{0..15} = insert 0 {1..15::nat}" by auto
  then have "first_code (len_count lens n) 15 + len_count lens n 15 = (\<Sum>k\<in>{1..15}. len_count lens n k * 2 ^ (15 - k))"
    unfolding kraft_first by simp
  with assms kraft_prefix [of "len_count lens n" 15 l] show ?thesis by (simp add: code_ok_def)
qed

lemma length_filter_upt_mono: "s < n \<Longrightarrow> P s \<Longrightarrow> length (filter P [0..<s]) < length (filter P [0..<n])"
proof -
  assume s: "s < n" and P: "P s"
  then have "[0..<n] = [0..<s] @ s # [Suc s..<n]" by (metis less_imp_le_nat upt_add_eq_append upt_conv_Cons le_add_diff_inverse zero_le)
  with P show ?thesis by simp
qed

lemma code_value_range:
  assumes "s < n" and "lens s \<noteq> 0"
  shows "first_code (len_count lens n) (lens s) \<le> code_value lens n s"
    and "code_value lens n s < first_code (len_count lens n) (lens s) + len_count lens n (lens s)"
  using assms length_filter_upt_mono [of s n "\<lambda>t. lens t = lens s"]
  by (simp_all add: code_value_def len_count_def)

lemma code_value_less:
  "code_ok lens n \<Longrightarrow> s < n \<Longrightarrow> lens s \<noteq> 0 \<Longrightarrow> lens s < 16 \<Longrightarrow> code_value lens n s < 2 ^ lens s"
  using code_value_range(2) [of s n lens] code_ok_kraft [of lens n "lens s"] by simp

definition hits :: "(nat \<Rightarrow> nat) \<Rightarrow> nat \<Rightarrow> (nat \<Rightarrow> bool) \<Rightarrow> nat \<Rightarrow> bool" where
  "hits lens n \<beta> s \<longleftrightarrow> s < n \<and> lens s \<noteq> 0 \<and> cv \<beta> (lens s) = code_value lens n s"

lemma hits_le:
  assumes "hits lens n \<beta> s" and "hits lens n \<beta> t"
  shows "lens s = lens t"
proof -
  have "\<not> lens s < lens t" if "hits lens n \<beta> s" "hits lens n \<beta> t" for s t
    using that cv_below [of \<beta> "lens s" "len_count lens n" "lens t"]
      code_value_range(2) [of s n lens] code_value_range(1) [of t n lens]
    by (auto simp: hits_def)
  from this [OF assms] this [OF assms(2,1)] show ?thesis by simp
qed

lemma hits_unique:
  assumes "hits lens n \<beta> s" and "hits lens n \<beta> t"
  shows "s = t"
proof -
  have l: "lens s = lens t" using assms by (rule hits_le)
  with assms have "length (filter (\<lambda>u. lens u = lens s) [0..<s]) = length (filter (\<lambda>u. lens u = lens s) [0..<t])"
    by (simp add: hits_def code_value_def)
  with l show ?thesis
    using length_filter_upt_mono [of s t "\<lambda>u. lens u = lens s"] length_filter_upt_mono [of t s "\<lambda>u. lens u = lens s"]
    by (cases s t rule: linorder_cases) auto
qed

subsection \<open>The lookup table\<close>

definition sorted_syms :: "(nat \<Rightarrow> nat) \<Rightarrow> nat \<Rightarrow> nat \<Rightarrow> nat list" where
  "sorted_syms lens n m = concat (map (\<lambda>l. filter (\<lambda>s. lens s = l) [0..<n]) [1..<m])"

definition prepared :: "huff_t \<Rightarrow> (nat \<Rightarrow> nat) \<Rightarrow> nat \<Rightarrow> bool" where
  "prepared h lens n \<longleftrightarrow>
     n \<le> 320 \<and> (\<forall>s<n. lens s < 16) \<and>
     (\<forall>l<16. hcount h l = of_nat (len_count lens n l)) \<and>
     (\<forall>i<length (sorted_syms lens n 16). hsym h i = of_nat (sorted_syms lens n 16 ! i))"

definition table_ok :: "huff_t \<Rightarrow> (nat \<Rightarrow> nat) \<Rightarrow> nat \<Rightarrow> bool" where
  "table_ok h lens n \<longleftrightarrow>
     (\<forall>j<HTAB_SIZE. (\<forall>s. hits lens n (bit j) s \<longrightarrow> htable h j = HENT (of_nat s) (lens s)) \<and>
        ((\<nexists>s. hits lens n (bit j) s) \<longrightarrow> htable h j = 0))"

lemma length_sorted_syms: "length (sorted_syms lens n m) = (\<Sum>l\<in>{1..<m}. len_count lens n l)"
proof -
  have "length (sorted_syms lens n m) = (\<Sum>l\<leftarrow>[1..<m]. len_count lens n l)"
    unfolding sorted_syms_def length_concat map_map
    by (intro arg_cong [of _ _ sum_list] map_cong) (auto simp: len_count_def)
  then show ?thesis by (simp add: sum_list_distinct_conv_sum_set)
qed

lemma set_sorted_syms: "set (sorted_syms lens n m) = {s. s < n \<and> 0 < lens s \<and> lens s < m}"
  by (auto simp: sorted_syms_def)

lemma distinct_sorted_syms: "distinct (sorted_syms lens n m)"
  unfolding sorted_syms_def
  by (induction m) (auto simp: distinct_filter)

lemma sorted_syms_le: "length (sorted_syms lens n m) \<le> n"
proof -
  have "card (set (sorted_syms lens n m)) \<le> card {0..<n}"
    by (rule card_mono) (auto simp: set_sorted_syms)
  then show ?thesis by (simp add: distinct_card [OF distinct_sorted_syms])
qed

lemma len_count_le: "len_count lens n l \<le> n"
  unfolding len_count_def by (auto intro: length_filter_le [THEN order_trans])

lemma next_codes_upto:
  assumes cnt: "\<forall>l<16. hcount h l = of_nat (cnt l)"
  shows "m < 16 \<Longrightarrow> \<exists>nc. fold (next_code_step h) [1..<Suc m] (\<lambda>_. 0, 0, 0) =
     (nc, of_nat (first_code cnt m), of_nat (\<Sum>l\<in>{1..<Suc m}. unat (hcount h l))) \<and>
     (\<forall>l. 0 < l \<and> l \<le> m \<longrightarrow> nc l = of_nat (first_code cnt l))"
proof (induction m)
  case 0
  then show ?case by simp
next
  case (Suc m)
  from Suc.IH [OF Suc_lessD [OF Suc.prems]] obtain nc where
    nc: "fold (next_code_step h) [1..<Suc m] (\<lambda>_. 0, 0, 0) =
     (nc, of_nat (first_code cnt m), of_nat (\<Sum>l\<in>{1..<Suc m}. unat (hcount h l)))"
     "\<forall>l. 0 < l \<and> l \<le> m \<longrightarrow> nc l = of_nat (first_code cnt l)" by blast
  have code: "push_bit 1 (of_nat (first_code cnt m) + hcount h m) = (of_nat (first_code cnt (Suc m)) :: u16)"
    using cnt Suc.prems by (simp add: push_bit_eq_mult mult.commute)
  have uc: "of_nat x + ucast (hcount h (Suc m)) = (of_nat (x + unat (hcount h (Suc m))) :: u32)" for x
    by (simp add: of_nat_unat)
  have up: "[1..<Suc (Suc m)] = [1..<Suc m] @ [Suc m]" and
    sum: "(\<Sum>l\<in>{1..<Suc (Suc m)}. unat (hcount h l)) = (\<Sum>l\<in>{1..<Suc m}. unat (hcount h l)) + unat (hcount h (Suc m))"
    by simp_all
  have "fold (next_code_step h) [1..<Suc (Suc m)] (\<lambda>_. 0, 0, 0) =
      (nc(Suc m := of_nat (first_code cnt (Suc m))), of_nat (first_code cnt (Suc m)),
       of_nat (\<Sum>l\<in>{1..<Suc (Suc m)}. unat (hcount h l)))"
    unfolding up fold_append comp_def nc(1) sum uc [symmetric] code [symmetric] fold_simps id_def by (simp add: Let_def)
  with nc(2) show ?case by (intro exI conjI) (auto simp: le_Suc_eq)
qed

lemma next_codes_spec:
  assumes "prepared h lens n"
  obtains nc code where "next_codes h = (nc, code, of_nat (length (sorted_syms lens n 16)))"
    and "\<And>l. 0 < l \<Longrightarrow> l < 16 \<Longrightarrow> nc l = of_nat (first_code (len_count lens n) l)"
proof -
  have cnt: "\<forall>l<16. hcount h l = of_nat (len_count lens n l)" using assms by (simp add: prepared_def)
  have "unat (hcount h l) = len_count lens n l" if "l < 16" for l
    using cnt that assms len_count_le [of lens n l] by (simp add: prepared_def unat_of_nat)
  then have tot: "(\<Sum>l\<in>{1..<Suc 15}. unat (hcount h l)) = length (sorted_syms lens n 16)"
    unfolding length_sorted_syms by simp
  obtain nc where "fold (next_code_step h) [1..<Suc 15] (\<lambda>_. 0, 0, 0) =
      (nc, of_nat (first_code (len_count lens n) 15), of_nat (length (sorted_syms lens n 16)))"
    and nc: "\<forall>l. 0 < l \<and> l \<le> 15 \<longrightarrow> nc l = of_nat (first_code (len_count lens n) l)"
    using next_codes_upto [OF cnt, of 15] unfolding tot by auto
  then have "next_codes h = (nc, of_nat (first_code (len_count lens n) 15), of_nat (length (sorted_syms lens n 16)))"
    unfolding next_codes_def INFLATE_MAX_BITS_def by simp
  then show thesis by (rule that) (use nc in auto)
qed

lemma kraft_loop_iff:
  assumes cnt: "\<forall>l<16. hc l = of_nat (cnt l)" and small: "\<forall>l<16. cnt l \<le> 320"
  shows "0 < l \<Longrightarrow> l \<le> 16 \<Longrightarrow> first_code cnt (l - 1) + cnt (l - 1) \<le> 2 ^ (l - 1) \<Longrightarrow>
    kraft_loop hc [l..<16] (of_nat (2 ^ (l - 1) - (first_code cnt (l - 1) + cnt (l - 1)))) \<noteq> None \<longleftrightarrow>
    (\<forall>k. l \<le> k \<and> k < 16 \<longrightarrow> first_code cnt k + cnt k \<le> 2 ^ k)"
proof (induction "16 - l" arbitrary: l)
  case 0
  then show ?case by auto
next
  case (Suc d)
  then have l: "0 < l" "l < 16" by auto
  obtain m where m: "l = Suc m" using l(1) by (cases l) auto
  define L where "L = 2 ^ m - (first_code cnt m + cnt m)"
  have two: "2 * L = 2 ^ l - first_code cnt l"
    using Suc.prems(3) by (simp add: L_def m algebra_simps)
  have "(2::nat) ^ l \<le> 2 ^ 15" using l by (intro power_increasing) auto
  then have L: "2 * L < 2 ^ 32" unfolding two by simp
  from small l have "cnt l < 65536" by fastforce
  then have "unat (hc l) = cnt l" using cnt l by (simp add: unat_of_nat)
  then have c: "ucast (hc l) = (of_nat (cnt l) :: u32)" "cnt l \<le> 320"
    using small l of_nat_unat [of "hc l", symmetric] by simp_all
  have left: "push_bit 1 (of_nat L) = (of_nat (2 * L) :: u32)" by (simp add: push_bit_eq_mult mult.commute)
  have less: "(of_nat (2 * L) :: u32) < of_nat (cnt l) \<longleftrightarrow> 2 * L < cnt l"
    unfolding word_less_nat_alt
    by (subst (1 2) unat_of_nat_small) (use L c(2) in simp_all)
  have f: "first_code cnt l \<le> 2 ^ l" using Suc.prems(3) by (simp add: m)
  have up: "[l..<16] = l # [Suc l..<16]" using l by (simp add: upt_rec)
  show ?case
  proof (cases "2 * L < cnt l")
    case True
    then have "\<not> first_code cnt l + cnt l \<le> 2 ^ l" using f two by linarith
    moreover have "kraft_loop hc [l..<16] (of_nat L) = None"
      unfolding up kraft_loop.simps Let_def left c(1) by (simp only: less True if_True)
    ultimately show ?thesis using l by (auto simp: L_def m)
  next
    case False
    then have k: "first_code cnt l + cnt l \<le> 2 ^ l" using f two by linarith
    have "2 ^ l - (first_code cnt l + cnt l) = 2 * L - cnt l" using two by simp
    then have "of_nat (2 * L) - of_nat (cnt l) = (of_nat (2 ^ l - (first_code cnt l + cnt l)) :: u32)"
      using False by (simp add: of_nat_diff)
    then have "kraft_loop hc [l..<16] (of_nat L) = kraft_loop hc [Suc l..<16] (of_nat (2 ^ l - (first_code cnt l + cnt l)))"
      unfolding up kraft_loop.simps Let_def left c(1) by (simp only: less False if_False)
    moreover have "kraft_loop hc [Suc l..<16] (of_nat (2 ^ l - (first_code cnt l + cnt l))) \<noteq> None \<longleftrightarrow>
       (\<forall>k. Suc l \<le> k \<and> k < 16 \<longrightarrow> first_code cnt k + cnt k \<le> 2 ^ k)"
      using Suc.hyps(1) [of "Suc l"] Suc.hyps(2) k l by simp
    moreover have "(\<forall>k. l \<le> k \<and> k < 16 \<longrightarrow> first_code cnt k + cnt k \<le> 2 ^ k) \<longleftrightarrow>
       (\<forall>k. Suc l \<le> k \<and> k < 16 \<longrightarrow> first_code cnt k + cnt k \<le> 2 ^ k)"
      using k by (metis Suc_leD Suc_leI le_neq_implies_less)
    ultimately show ?thesis by (simp only: L_def [symmetric] m diff_Suc_1)
  qed
qed

lemma fill_loop_eq:
  "0 < stride \<Longrightarrow> fill_loop j0 stride ent tab j =
     (if j < HTAB_SIZE \<and> j0 \<le> j \<and> (j - j0) mod stride = 0 then ent else tab j)"
proof (induction j0 stride ent tab rule: fill_loop.induct)
  case (1 j0 stride ent tab)
  show ?case
  proof (cases "j0 < HTAB_SIZE")
    case True
    then have step: "fill_loop j0 stride ent tab = fill_loop (j0 + stride) stride ent (tab(j0 := ent))"
      using "1.prems" by (subst fill_loop.simps) simp
    have "fill_loop j0 stride ent tab j =
        (if j < HTAB_SIZE \<and> j0 + stride \<le> j \<and> (j - (j0 + stride)) mod stride = 0 then ent
         else (tab(j0 := ent)) j)"
      unfolding step using True "1.prems" by (intro "1.IH") simp_all
    moreover have "j0 \<le> j \<and> (j - j0) mod stride = 0 \<longleftrightarrow>
        j = j0 \<or> j0 + stride \<le> j \<and> (j - (j0 + stride)) mod stride = 0"
    proof (cases "j0 + stride \<le> j")
      case True
      then have "(j - j0) mod stride = (j - (j0 + stride)) mod stride"
        by (metis diff_diff_add le_add_diff_inverse2 le_diff_conv2 mod_add_self2 add_leD1 add.commute)
      with True "1.prems" show ?thesis by auto
    next
      case False
      then show ?thesis using "1.prems" by (auto simp: mod_if)
    qed
    ultimately show ?thesis using True by auto
  next
    case False
    then show ?thesis by (subst fill_loop.simps) auto
  qed
qed

lemma bit_rev_code:
  assumes "len < 16"
  shows "bit (rev_code c len) k \<longleftrightarrow> k < len \<and> bit c (len - 1 - k)"
proof -
  have test: "c AND push_bit b 1 \<noteq> 0 \<longleftrightarrow> bit c b" for b
    unfolding bit_eq_iff [of "c AND push_bit b 1" 0]
    by (auto simp: bit_simps dest: bit_imp_le_length)
  have "m \<le> len \<Longrightarrow> bit (fold (\<lambda>b r. if bit c b then r OR push_bit (len - 1 - b) 1 else r) [0..<m] (0 :: u32)) k
      \<longleftrightarrow> (\<exists>b<m. bit c b \<and> k = len - 1 - b)" for m
  proof (induction m)
    case (Suc m)
    then show ?case using assms by (auto simp: bit_simps less_Suc_eq)
  qed simp
  from this [of len] show ?thesis unfolding rev_code_def test using assms
    by (auto intro!: exI [of _ "len - 1 - k"])
qed

text \<open>A table index selects the entries of the code its low bits spell.\<close>

lemma rev_code_index:
  assumes "len < 16" and "c < 2 ^ len"
  shows "unat (rev_code (of_nat c) len) \<le> j \<and> (j - unat (rev_code (of_nat c) len)) mod 2 ^ len = 0 \<longleftrightarrow>
         cv (bit j) len = c"
proof -
  let ?r = "unat (rev_code (of_nat c) len)"
  have c: "bit (of_nat c :: u16) i = bit c i" if "i < 16" for i
    using that by (simp add: bit_simps)
  have r: "bit ?r k \<longleftrightarrow> k < len \<and> bit c (len - 1 - k)" for k
    using assms(1) c bit_rev_code [OF assms(1), of "of_nat c" k] by (auto simp: bit_unsigned_iff)
  then have "?r = take_bit len ?r" unfolding bit_eq_iff [of ?r] by (auto simp: bit_take_bit_iff)
  then have less: "?r < 2 ^ len" by (metis take_bit_nat_less_exp)
  have "?r \<le> j \<and> (j - ?r) mod 2 ^ len = 0 \<longleftrightarrow> j mod 2 ^ len = ?r"
  proof
    assume "?r \<le> j \<and> (j - ?r) mod 2 ^ len = 0"
    then have "j mod 2 ^ len = ?r mod 2 ^ len" using mod_eq_dvd_iff_nat by blast
    with less show "j mod 2 ^ len = ?r" by simp
  next
    assume "j mod 2 ^ len = ?r"
    moreover have "j mod 2 ^ len \<le> j" by simp
    ultimately show "?r \<le> j \<and> (j - ?r) mod 2 ^ len = 0" by (metis minus_mod_eq_mult_div mod_mult_self1_is_0)
  qed
  also have "\<dots> \<longleftrightarrow> (\<forall>k. k < len \<longrightarrow> bit j k = bit c (len - 1 - k))"
    unfolding take_bit_eq_mod [symmetric] bit_eq_iff [of "take_bit len j"] by (auto simp: bit_take_bit_iff r)
  also have "\<dots> \<longleftrightarrow> cv (bit j) len = c" using cv_eq_iff [OF assms(2)] by blast
  finally show ?thesis .
qed

definition write_sym :: "(nat \<Rightarrow> nat) \<Rightarrow> nat \<Rightarrow> nat \<Rightarrow> (nat \<Rightarrow> u16) \<Rightarrow> nat \<Rightarrow> u16" where
  "write_sym lens n s tab = (\<lambda>j.
     if j < HTAB_SIZE \<and> cv (bit j) (lens s) = code_value lens n s then HENT (of_nat s) (lens s) else tab j)"

lemma fill_loop_write:
  assumes "lens s < 16" and "code_value lens n s < 2 ^ lens s"
  shows "fill_loop (unat (rev_code (of_nat (code_value lens n s)) (lens s))) (2 ^ lens s)
           (HENT (of_nat s) (lens s)) tab = write_sym lens n s tab"
proof -
  have "(0 :: nat) < 2 ^ lens s" by simp
  then show ?thesis by (intro ext) (simp only: fill_loop_eq rev_code_index [OF assms] write_sym_def)
qed

lemma filter_upt_rank:
  "i < length (filter P [0..<n]) \<Longrightarrow> length (filter P [0..<filter P [0..<n] ! i]) = i"
proof (induction n)
  case (Suc n)
  show ?case
  proof (cases "i < length (filter P [0..<n])")
    case True
    with Suc.IH show ?thesis by (simp add: nth_append)
  next
    case False
    with Suc.prems have "P n" "i = length (filter P [0..<n])" by (simp_all split: if_splits)
    then show ?thesis by (simp add: nth_append)
  qed
qed simp

lemma sorted_syms_split:
  "0 < l \<Longrightarrow> l < 16 \<Longrightarrow>
     sorted_syms lens n 16 = sorted_syms lens n l @ filter (\<lambda>s. lens s = l) [0..<n] @
       concat (map (\<lambda>l. filter (\<lambda>s. lens s = l) [0..<n]) [Suc l..<16])"
proof -
  assume l: "0 < l" "l < 16"
  then have "[1..<16] = [1..<l] @ l # [Suc l..<16]"
    by (metis One_nat_def Suc_leI le_add_diff_inverse less_imp_le_nat upt_add_eq_append upt_conv_Cons)
  then show ?thesis unfolding sorted_syms_def by simp
qed

lemma sorted_syms_Suc:
  "0 < l \<Longrightarrow> sorted_syms lens n (Suc l) = sorted_syms lens n l @ filter (\<lambda>s. lens s = l) [0..<n]"
  by (simp add: sorted_syms_def)

lemma fill_codes:
  assumes h: "prepared h lens n" and ok: "code_ok lens n" and l: "0 < l" "l < 16"
  defines "F \<equiv> filter (\<lambda>s. lens s = l) [0..<n]" and "f \<equiv> first_code (len_count lens n) l"
    and "k \<equiv> length (sorted_syms lens n l)"
  shows "i \<le> length F \<Longrightarrow>
    (fill_code h l ^^ i) (tab, of_nat f, k) = (fold (write_sym lens n) (take i F) tab, of_nat (f + i), k + i)"
proof (induction i)
  case (Suc i)
  then have i: "i < length F" by simp
  have s: "F ! i < n" "lens (F ! i) = l" using nth_mem [OF i] by (simp_all add: F_def)
  have "length (filter (\<lambda>t. lens t = l) [0..<F ! i]) = i"
    unfolding F_def by (rule filter_upt_rank) (use i in \<open>simp add: F_def\<close>)
  then have c: "code_value lens n (F ! i) = f + i" using s by (simp add: code_value_def f_def)
  have "sorted_syms lens n 16 ! (k + i) = F ! i" "k + i < length (sorted_syms lens n 16)"
    unfolding sorted_syms_split [OF l] using i by (simp_all add: nth_append k_def F_def)
  then have sy: "hsym h (k + i) = of_nat (F ! i)" using h by (simp add: prepared_def)
  have fl: "fill_loop (unat (rev_code (of_nat (f + i)) l)) (2 ^ l) (HENT (of_nat (F ! i)) l) tb =
      write_sym lens n (F ! i) tb" for tb
    using fill_loop_write [of lens "F ! i" n tb] code_value_less [OF ok s(1)] s l c by simp
  show ?case
    using Suc i sy fl by (simp add: fill_code_def take_Suc_conv_app_nth add.commute [of 1])
qed simp

lemma fill_len_step:
  assumes "prepared h lens n" and "code_ok lens n" and l: "0 < l" "l < 16"
    and "nc l = of_nat (first_code (len_count lens n) l)"
  shows "fill_len h nc l (tab, length (sorted_syms lens n l)) =
     (fold (write_sym lens n) (filter (\<lambda>s. lens s = l) [0..<n]) tab, length (sorted_syms lens n (Suc l)))"
proof -
  have "len_count lens n l \<le> 320" using len_count_le [of lens n l] assms(1) by (simp add: prepared_def)
  then have "unat (hcount h l) = length (filter (\<lambda>s. lens s = l) [0..<n])"
    using assms(1) l by (simp add: prepared_def unat_of_nat len_count_def)
  then show ?thesis
    using assms fill_codes [OF assms(1,2) l order_refl, of tab]
    by (simp add: fill_len_def sorted_syms_Suc)
qed

lemma fill_all:
  assumes "prepared h lens n" and "code_ok lens n"
    and "\<And>l. 0 < l \<Longrightarrow> l < 16 \<Longrightarrow> nc l = of_nat (first_code (len_count lens n) l)"
  shows "0 < m \<Longrightarrow> m \<le> 16 \<Longrightarrow> fold (fill_len h nc) [1..<m] (tab, 0) =
     (fold (write_sym lens n) (sorted_syms lens n m) tab, length (sorted_syms lens n m))"
proof (induction m)
  case (Suc m)
  show ?case
  proof (cases "m = 0")
    case False
    with Suc have IH: "fold (fill_len h nc) [1..<m] (tab, 0) =
        (fold (write_sym lens n) (sorted_syms lens n m) tab, length (sorted_syms lens n m))" by simp
    have "[1..<Suc m] = [1..<m] @ [m]" using False by simp
    with IH False Suc.prems fill_len_step [OF assms(1,2), of m nc] assms(3) [of m] show ?thesis
      by (simp add: sorted_syms_Suc)
  qed (simp add: sorted_syms_def)
qed simp

lemma fold_write_sym:
  assumes "\<forall>s\<in>set xs. s < n \<and> lens s \<noteq> 0" and "j < HTAB_SIZE"
  shows "s \<in> set xs \<Longrightarrow> hits lens n (bit j) s \<Longrightarrow> fold (write_sym lens n) xs tab j = HENT (of_nat s) (lens s)"
    and "(\<nexists>s. hits lens n (bit j) s) \<Longrightarrow> fold (write_sym lens n) xs tab j = tab j"
  using assms
proof (induction xs rule: rev_induct)
  case (snoc x xs)
  {
    case 1
    with snoc hits_unique [of lens n "bit j" x s] show ?case by (auto simp: write_sym_def hits_def)
  next
    case 2
    with snoc show ?case by (auto simp: write_sym_def hits_def)
  }
qed auto

lemma code_ok_iff:
  "code_ok lens n \<longleftrightarrow> (\<exists>s\<in>set [0..<n]. lens s \<noteq> 0) \<and>
     (\<forall>l. 1 \<le> l \<and> l < 16 \<longrightarrow> first_code (len_count lens n) l + len_count lens n l \<le> 2 ^ l)"
proof -
  have "{0..15} = insert 0 {1..15::nat}" by auto
  then have sum: "first_code (len_count lens n) 15 + len_count lens n 15 =
      (\<Sum>k\<in>{1..15}. len_count lens n k * 2 ^ (15 - k))"
    unfolding kraft_first by simp
  show ?thesis
  proof
    assume ok: "code_ok lens n"
    with code_ok_kraft [OF ok] show "(\<exists>s\<in>set [0..<n]. lens s \<noteq> 0) \<and>
      (\<forall>l. 1 \<le> l \<and> l < 16 \<longrightarrow> first_code (len_count lens n) l + len_count lens n l \<le> 2 ^ l)"
      unfolding code_ok_def by force
  next
    assume r: "(\<exists>s\<in>set [0..<n]. lens s \<noteq> 0) \<and>
      (\<forall>l. 1 \<le> l \<and> l < 16 \<longrightarrow> first_code (len_count lens n) l + len_count lens n l \<le> 2 ^ l)"
    then have "first_code (len_count lens n) 15 + len_count lens n 15 \<le> 2 ^ 15"
      by (elim conjE allE [of _ 15]) simp
    with r show "code_ok lens n" unfolding code_ok_def sum by blast
  qed
qed

lemma huff_build_spec:
  assumes "prepared h lens n"
  shows "case huff_build h of None \<Rightarrow> \<not> code_ok lens n | Some h' \<Rightarrow> code_ok lens n \<and> table_ok h' lens n"
proof -
  let ?N = "length (sorted_syms lens n 16)"
  obtain nc code where nc: "next_codes h = (nc, code, of_nat ?N)"
    "\<And>l. 0 < l \<Longrightarrow> l < 16 \<Longrightarrow> nc l = of_nat (first_code (len_count lens n) l)"
    by (rule next_codes_spec [OF assms]) blast
  have N: "?N \<le> 320" using sorted_syms_le [of lens n 16] assms by (simp add: prepared_def)
  then have u: "unat (of_nat ?N :: u32) = ?N" by (intro unat_of_nat_small) simp
  have tot: "(of_nat ?N :: u32) = 0 \<longleftrightarrow> ?N = 0"
    using unsigned_eq_0_iff [of "of_nat ?N :: u32", where ?'a = nat] unfolding u by (rule sym)
  have tot': "\<not> (320 :: u32) < of_nat ?N"
    unfolding word_less_nat_alt u using N by simp
  have some: "?N = 0 \<longleftrightarrow> \<not> (\<exists>s\<in>set [0..<n]. lens s \<noteq> 0)"
  proof -
    have "?N = 0 \<longleftrightarrow> set (sorted_syms lens n 16) = {}" by simp
    also have "\<dots> \<longleftrightarrow> \<not> (\<exists>s\<in>set [0..<n]. lens s \<noteq> 0)"
      unfolding set_sorted_syms using assms by (force simp: prepared_def)
    finally show ?thesis .
  qed
  have kraft: "kraft_loop (hcount h) [1..<16] 1 \<noteq> None \<longleftrightarrow>
      (\<forall>l. 1 \<le> l \<and> l < 16 \<longrightarrow> first_code (len_count lens n) l + len_count lens n l \<le> 2 ^ l)"
    using kraft_loop_iff [of "hcount h" "len_count lens n" 1] assms len_count_le [of lens n]
    by (auto simp: prepared_def intro: order_trans)
  show ?thesis
  proof (cases "code_ok lens n")
    case True
    with kraft tot some obtain k where k: "kraft_loop (hcount h) [1..<16] 1 = Some k" and "?N \<noteq> 0"
      unfolding code_ok_iff by blast
    with nc(1) tot tot' have b: "huff_build h = Some (h\<lparr>htable := fold (write_sym lens n) (sorted_syms lens n 16)
        (\<lambda>j. if j < HTAB_SIZE then 0 else htable h j)\<rparr>)"
      using fill_all [OF assms True nc(2), of 16] by (simp add: huff_build_def INFLATE_MAX_BITS_def)
    have "\<forall>s\<in>set (sorted_syms lens n 16). s < n \<and> lens s \<noteq> 0" by (simp add: set_sorted_syms)
    moreover have "s \<in> set (sorted_syms lens n 16)" if "hits lens n \<beta> s" for \<beta> s
      using that assms by (simp add: set_sorted_syms hits_def prepared_def)
    ultimately have "table_ok (h\<lparr>htable := fold (write_sym lens n) (sorted_syms lens n 16)
        (\<lambda>j. if j < HTAB_SIZE then 0 else htable h j)\<rparr>) lens n"
      unfolding table_ok_def using fold_write_sym [of "sorted_syms lens n 16" n lens] by simp
    with True b show ?thesis by simp
  next
    case False
    then have "?N = 0 \<or> kraft_loop (hcount h) [1..<16] 1 = None"
      using kraft some unfolding code_ok_iff by blast
    then have "huff_build h = None"
      unfolding huff_build_def INFLATE_MAX_BITS_def nc(1) using tot by auto
    with False show ?thesis by simp
  qed
qed

end
