(* ===== verification/Deflate_Rfc.thy ===== *)
theory Deflate_Rfc
  imports Deflate
begin

text \<open>
  DEFLATE as RFC 1951 defines it, with the tables of the standard written as the formulas behind
  them, and the streams on which the decoder of \<open>pkg/inflate.c\<close> follows it. The decoder departs
  from the standard only in the header of a dynamic block: a repeat after a run of zeros, a repeat
  past the last code length, an empty distance code and more than 30 distance codes are read
  differently. On every other stream \<open>spec_inflate\<close>, which the C code refines, is the standard's
  decoder.
\<close>

subsection \<open>The standard\<close>

text \<open>Base and extra bits of the length codes 257 to 285 and of the distance codes (3.2.5).\<close>

definition rfc_length :: "nat \<Rightarrow> nat \<times> nat" where
  "rfc_length k =
     (if k < 8 then (k + 3, 0)
      else if k = 28 then (258, 0)
      else (3 + (4 + k mod 4) * 2 ^ (k div 4 - 1), k div 4 - 1))"

definition rfc_distance :: "nat \<Rightarrow> nat \<times> nat" where
  "rfc_distance d =
     (if d < 4 then (d + 1, 0) else (1 + (2 + d mod 2) * 2 ^ (d div 2 - 1), d div 2 - 1))"

definition rfc_match :: "(nat \<Rightarrow> nat) \<Rightarrow> nat \<Rightarrow> nat \<Rightarrow> unit action" where
  "rfc_match dlens dn k bs os =
     (if 28 < k then None
      else case rfc_length k of (lbase, lext) \<Rightarrow>
        Option.bind (read_bits lext bs os) (\<lambda>(le, bs, os).
        Option.bind (decode_sym dlens dn bs os) (\<lambda>(d, bs, os).
          if 29 < d then None
          else case rfc_distance d of (dbase, dext) \<Rightarrow>
            Option.bind (read_bits dext bs os) (\<lambda>(de, bs, os).
              if length os < dbase + de then None
              else Some ((), bs, lz_copy (lbase + le) (dbase + de) os)))))"

lemma rfc_match_shrinks: "rfc_match dlens dn k bs os = Some (v, bs', os') \<Longrightarrow> length bs' < length bs"
  by (auto simp: rfc_match_def bind_eq_Some_conv split: if_splits prod.splits
      dest!: read_bits_shrinks decode_sym_shrinks)

function rfc_codes :: "(nat \<Rightarrow> nat) \<Rightarrow> nat \<Rightarrow> (nat \<Rightarrow> nat) \<Rightarrow> nat \<Rightarrow> unit action" where
  "rfc_codes lens n dlens dn bs os =
     Option.bind (decode_sym lens n bs os) (\<lambda>(s, bs, os).
       if s < 256 then rfc_codes lens n dlens dn bs (os @ [of_nat s])
       else if s = 256 then Some ((), bs, os)
       else Option.bind (rfc_match dlens dn (s - 257) bs os) (\<lambda>(_, bs, os).
         rfc_codes lens n dlens dn bs os))"
  by pat_completeness auto
termination
  by (relation "measure (\<lambda>(lens, n, dlens, dn, bs, os). length bs)")
    (auto dest: decode_sym_shrinks rfc_match_shrinks intro: less_trans)

declare rfc_codes.simps [simp del]

text \<open>The fixed codes (3.2.6): distance codes are the numbers 0 to 31 in five bits.\<close>

definition rfc_fixed :: "nat list" where
  "rfc_fixed = replicate 144 8 @ replicate 112 9 @ replicate 24 7 @ replicate 8 8"

text \<open>
  The header of a dynamic block (3.2.7): the lengths of the code-length code in their transmitted
  order, then the code lengths as numbers, repeats of the previous length and runs of zeros.
\<close>

definition rfc_order :: "nat list" where
  "rfc_order = [16, 17, 18, 0] @ concat (map (\<lambda>i. [8 + i, 7 - i]) [0..<7]) @ [15]"

datatype cl_item = CL_Len nat | CL_Prev nat | CL_Zeros nat

fun item_size :: "cl_item \<Rightarrow> nat" where
  "item_size (CL_Len k) = 1"
| "item_size (CL_Prev r) = r"
| "item_size (CL_Zeros r) = r"

definition rfc_item :: "nat \<Rightarrow> cl_item action" where
  "rfc_item k bs os =
     (if k < 16 then Some (CL_Len k, bs, os)
      else if k = 16 then Option.bind (read_bits 2 bs os) (\<lambda>(v, bs, os). Some (CL_Prev (3 + v), bs, os))
      else if k = 17 then Option.bind (read_bits 3 bs os) (\<lambda>(v, bs, os). Some (CL_Zeros (3 + v), bs, os))
      else Option.bind (read_bits 7 bs os) (\<lambda>(v, bs, os). Some (CL_Zeros (11 + v), bs, os)))"

lemma rfc_item_size: "rfc_item k bs os = Some (i, bs', os') \<Longrightarrow> 0 < item_size i \<and> length bs' \<le> length bs"
  by (auto simp: rfc_item_def bind_eq_Some_conv split: if_splits dest!: read_bits_shrinks)

text \<open>Items are read until they cover \<open>n\<close> code lengths.\<close>

function rfc_items :: "(nat \<Rightarrow> nat) \<Rightarrow> nat \<Rightarrow> cl_item list action" where
  "rfc_items clens n bs os =
     (if 0 < n then
        Option.bind (decode_sym clens 19 bs os) (\<lambda>(k, bs, os).
        Option.bind (rfc_item k bs os) (\<lambda>(i, bs, os).
        Option.bind (rfc_items clens (n - item_size i) bs os) (\<lambda>(is, bs, os). Some (i # is, bs, os))))
      else Some ([], bs, os))"
  by pat_completeness auto
termination
  by (relation "measure (\<lambda>(clens, n, bs, os). n)") (auto dest!: rfc_item_size)

declare rfc_items.simps [simp del]

fun rfc_expand :: "nat list \<Rightarrow> cl_item list \<Rightarrow> nat list option" where
  "rfc_expand ls [] = Some ls"
| "rfc_expand ls (CL_Len k # is) = rfc_expand (ls @ [k]) is"
| "rfc_expand ls (CL_Prev r # is) = (if ls = [] then None else rfc_expand (ls @ replicate r (last ls)) is)"
| "rfc_expand ls (CL_Zeros r # is) = rfc_expand (ls @ replicate r 0) is"

text \<open>A set of code lengths is usable when it is not over-subscribed.\<close>

definition code_fits :: "(nat \<Rightarrow> nat) \<Rightarrow> nat \<Rightarrow> bool" where
  "code_fits lens n \<longleftrightarrow> (\<Sum>l\<in>{1..15}. len_count lens n l * 2 ^ (15 - l)) \<le> 2 ^ 15"

definition rfc_header :: "(nat \<times> nat \<times> cl_item list) action" where
  "rfc_header bs os =
     Option.bind (read_bits 5 bs os) (\<lambda>(a, bs, os).
     Option.bind (read_bits 5 bs os) (\<lambda>(b, bs, os).
     Option.bind (read_bits 4 bs os) (\<lambda>(c, bs, os).
       if 286 < a + 257 then None
       else Option.bind (spec_clc (take (c + 4) rfc_order) (\<lambda>_. 0) bs os) (\<lambda>(clens, bs, os).
         if \<not> code_fits clens 19 then None
         else Option.bind (rfc_items clens (a + 257 + (b + 1)) bs os) (\<lambda>(is, bs, os).
           Some ((a + 257, b + 1, is), bs, os))))))"

definition rfc_trees :: "nat \<times> nat \<times> cl_item list \<Rightarrow> trees option" where
  "rfc_trees = (\<lambda>(hlit, hdist, is).
     Option.bind (rfc_expand [] is) (\<lambda>ls.
       let lens = nth_or_0 ls; dlens = (\<lambda>i. lens (hlit + i)) in
       if length ls \<noteq> hlit + hdist \<or> \<not> code_fits lens hlit \<or> \<not> code_fits dlens hdist then None
       else Some (lens, hlit, dlens, hdist)))"

definition rfc_block :: "nat \<Rightarrow> unit action" where
  "rfc_block ty bs os =
     (if ty = 0 then spec_stored bs os
      else if ty = 1 then rfc_codes (nth_or_0 rfc_fixed) 288 (\<lambda>_. 5) 32 bs os
      else if ty = 2 then
        Option.bind (rfc_header bs os) (\<lambda>(h, bs, os).
        Option.bind (rfc_trees h) (\<lambda>(lens, n, dlens, dn). rfc_codes lens n dlens dn bs os))
      else None)"

lemma rfc_codes_shrinks:
  "rfc_codes lens n dlens dn bs os = Some (v, bs', os') \<Longrightarrow> length bs' < length bs"
proof (induction lens n dlens dn bs os rule: rfc_codes.induct)
  case (1 lens n dlens dn bs os)
  from "1.prems" obtain s b o1 where d: "decode_sym lens n bs os = Some (s, b, o1)"
    by (subst (asm) rfc_codes.simps) (auto simp: bind_eq_Some_conv)
  have b: "length b < length bs" by (rule decode_sym_shrinks [OF d])
  consider (lit) "s < 256" | (eob) "s = 256" | (match) "256 < s" by linarith
  then show ?case
  proof cases
    case lit
    with "1.prems" d have "rfc_codes lens n dlens dn b (o1 @ [of_nat s]) = Some (v, bs', os')"
      by (subst (asm) rfc_codes.simps) simp
    from "1.IH"(1) [OF d refl refl lit this] b show ?thesis by simp
  next
    case eob
    with "1.prems" d b show ?thesis by (subst (asm) rfc_codes.simps) simp
  next
    case match
    with "1.prems" d obtain u b2 o2 where m: "rfc_match dlens dn (s - 257) b o1 = Some (u, b2, o2)"
      and r: "rfc_codes lens n dlens dn b2 o2 = Some (v, bs', os')"
      by (subst (asm) rfc_codes.simps) (auto simp: bind_eq_Some_conv)
    from "1.IH"(2) [OF d refl refl _ _ m refl refl r] match rfc_match_shrinks [OF m] b show ?thesis by simp
  qed
qed

lemma rfc_items_shrinks: "rfc_items clens n bs os = Some (v, bs', os') \<Longrightarrow> length bs' \<le> length bs"
proof (induction clens n bs os arbitrary: v rule: rfc_items.induct)
  case (1 clens n bs os)
  show ?case
  proof (cases "0 < n")
    case True
    with "1.prems" obtain k b o1 i b2 o2 items where
      d: "decode_sym clens 19 bs os = Some (k, b, o1)" and e: "rfc_item k b o1 = Some (i, b2, o2)" and
      r: "rfc_items clens (n - item_size i) b2 o2 = Some (items, bs', os')"
      by (subst (asm) rfc_items.simps) (auto simp: bind_eq_Some_conv)
    from "1.IH" [OF True d refl refl e refl refl r] decode_sym_shrinks [OF d] rfc_item_size [OF e]
    show ?thesis by linarith
  next
    case False
    with "1.prems" show ?thesis by (subst (asm) rfc_items.simps) simp
  qed
qed

lemma rfc_header_shrinks: "rfc_header bs os = Some (v, bs', os') \<Longrightarrow> length bs' \<le> length bs"
  by (auto simp: rfc_header_def bind_eq_Some_conv split: if_splits
      dest!: read_bits_shrinks spec_clc_shrinks rfc_items_shrinks)

lemma rfc_block_shrinks: "rfc_block ty bs os = Some (v, bs', os') \<Longrightarrow> length bs' \<le> length bs"
  by (auto simp: rfc_block_def bind_eq_Some_conv split: if_splits
      dest!: spec_stored_shrinks rfc_codes_shrinks rfc_header_shrinks)

function rfc_inflate :: "unit action" where
  "rfc_inflate bs os =
     Option.bind (read_bits 1 bs os) (\<lambda>(final, bs, os).
     Option.bind (read_bits 2 bs os) (\<lambda>(ty, bs, os).
     Option.bind (rfc_block ty bs os) (\<lambda>(_, bs, os).
       if final = 1 then Some ((), bs, os) else rfc_inflate bs os)))"
  by pat_completeness auto
termination
  by (relation "measure (\<lambda>(bs, os). length bs)")
    (auto dest!: read_bits_shrinks rfc_block_shrinks)

declare rfc_inflate.simps [simp del]

subsection \<open>The parts the decoder shares with the standard\<close>

lemma length_tables: "k < 29 \<Longrightarrow> rfc_length k = (len_base ! k, len_ext ! k)"
proof -
  have "list_all (\<lambda>k. rfc_length k = (len_base ! k, len_ext ! k)) [0..<29]"
    by (simp add: upt_conv_Cons rfc_length_def len_base_def len_ext_def)
  then show "k < 29 \<Longrightarrow> rfc_length k = (len_base ! k, len_ext ! k)" by (simp add: list_all_iff)
qed

lemma distance_tables: "d < 30 \<Longrightarrow> rfc_distance d = (dist_base ! d, dist_ext ! d)"
proof -
  have "list_all (\<lambda>d. rfc_distance d = (dist_base ! d, dist_ext ! d)) [0..<30]"
    by (simp add: upt_conv_Cons rfc_distance_def dist_base_def dist_ext_def)
  then show "d < 30 \<Longrightarrow> rfc_distance d = (dist_base ! d, dist_ext ! d)" by (simp add: list_all_iff)
qed

lemma order_table: "rfc_order = clc_order"
  by code_simp

lemma fixed_table: "s < 288 \<Longrightarrow> nth_or_0 rfc_fixed s = fixed_len s"
  by (simp add: nth_or_0_def rfc_fixed_def fixed_len_def nth_append) presburger

lemma match_rfc: "spec_match dlens dn k bs os = rfc_match dlens dn k bs os"
  by (auto simp: spec_match_def rfc_match_def length_tables distance_tables split: prod.splits
      intro!: Option.bind_cong)

lemma decode_sym_cong:
  assumes "\<And>s. s < n \<Longrightarrow> lens s = lens' s"
  shows "decode_sym lens n = decode_sym lens' n"
proof -
  have c: "len_count lens n = len_count lens' n"
    by (rule ext) (auto simp: len_count_def assms intro!: arg_cong [where f = length] filter_cong)
  have "filter (\<lambda>t. lens t = lens s) [0..<s] = filter (\<lambda>t. lens' t = lens' s) [0..<s]" if "s < n" for s
    using that by (intro filter_cong) (auto simp: assms)
  then have w: "codeword lens n s = codeword lens' n s" if "s < n" for s
    using that by (simp add: codeword_def code_value_def c assms)
  have "find (\<lambda>s. lens s \<noteq> 0 \<and> take (lens s) bs = codeword lens n s) [0..<n] =
      find (\<lambda>s. lens' s \<noteq> 0 \<and> take (lens' s) bs = codeword lens' n s) [0..<n]" for bs
    by (rule find_cong) (auto simp: assms w)
  moreover have "find P [0..<n] = Some s \<Longrightarrow> lens s = lens' s" for P s
    by (auto simp: find_Some_iff assms)
  ultimately show ?thesis by (intro ext) (auto simp: decode_sym_def split: option.splits)
qed

lemma find_split: "find P (xs @ ys) = (case find P xs of None \<Rightarrow> find P ys | Some x \<Rightarrow> Some x)"
  by (induction xs) auto

text \<open>The two distance codes 30 and 31 of the fixed code never occur in a valid stream.\<close>

lemma fixed_distance: "rfc_match (\<lambda>_. 5) 30 k bs os = rfc_match (\<lambda>_. 5) 32 k bs os"
proof -
  have five: "codeword (\<lambda>_. 5) 30 s = codeword (\<lambda>_. 5) 32 s" for s
    by (simp add: codeword_def code_value_def eval_nat_numeral len_count_def)
  have up: "[0..<32] = [0..<30] @ [30, 31::nat]" using upt_add_eq_append [of 0 30 2] by (simp add: upt_rec)
  let ?P = "\<lambda>bs s. take 5 bs = codeword (\<lambda>_. 5) 32 s"
  have "decode_sym (\<lambda>_. 5) 32 bs os = (case decode_sym (\<lambda>_. 5) 30 bs os of
      Some r \<Rightarrow> Some r | None \<Rightarrow> map_option (\<lambda>s. (s, drop 5 bs, os)) (find (?P bs) [30, 31]))" for bs os
    unfolding decode_sym_def up find_split five
    by (simp add: map_option_case split: option.splits)
  moreover have "s = 30 \<or> s = 31" if "find (?P bs) [30, 31] = Some s" for bs s
    using that by (auto simp: find_Some_iff less_Suc_eq split: if_splits)
  ultimately have key: "Option.bind (decode_sym (\<lambda>_. 5) 30 bs os) (\<lambda>(d, bs, os). if 29 < d then None else F d bs os) =
      Option.bind (decode_sym (\<lambda>_. 5) 32 bs os) (\<lambda>(d, bs, os). if 29 < d then None else F d bs os)" for bs os F
    by (cases "decode_sym (\<lambda>_. 5) 30 bs os"; cases "find (?P bs) [30, 31]") fastforce+
  show ?thesis unfolding rfc_match_def by (simp only: key)
qed

lemma codes_rfc:
  assumes "decode_sym lens n = decode_sym lens' n'"
    and "\<And>k bs os. spec_match dlens dn k bs os = rfc_match dlens' dn' k bs os"
  shows "spec_codes lens n dlens dn bs os = rfc_codes lens' n' dlens' dn' bs os"
proof (induction "length bs" arbitrary: bs os rule: less_induct)
  case less
  have IH: "length b < length bs \<Longrightarrow> spec_codes lens n dlens dn b p = rfc_codes lens' n' dlens' dn' b p" for b p
    by (rule less.hyps)
  show ?case
    unfolding spec_codes.simps [of lens n dlens dn bs os] rfc_codes.simps [of lens' n' dlens' dn' bs os] assms
    by (rule Option.bind_cong [OF refl])
      (auto intro!: IH Option.bind_cong dest!: decode_sym_shrinks rfc_match_shrinks)
qed

text \<open>Without an end-of-block code no block ends.\<close>

lemma rfc_codes_no_end:
  assumes "lens 256 = 0"
  shows "rfc_codes lens n dlens dn bs os = None"
proof (induction "length bs" arbitrary: bs os rule: less_induct)
  case less
  have IH: "length b < length bs \<Longrightarrow> rfc_codes lens n dlens dn b p = None" for b p by (rule less.hyps)
  have "s \<noteq> 256" if "decode_sym lens n bs os = Some (s, b, p)" for s b p
    using decode_sym_Some [OF that] assms by auto
  then show ?case
    unfolding rfc_codes.simps [of lens n dlens dn bs os]
    by (cases "decode_sym lens n bs os")
      (auto simp: IH split: Option.bind_split dest!: decode_sym_shrinks rfc_match_shrinks)
qed

subsection \<open>The code lengths\<close>

text \<open>What the code makes of the items: it remembers the last length sent as a number.\<close>

fun code_expand :: "nat option \<Rightarrow> nat list \<Rightarrow> cl_item list \<Rightarrow> nat list option" where
  "code_expand prev ls [] = Some ls"
| "code_expand prev ls (CL_Len k # is) = code_expand (Some k) (ls @ [k]) is"
| "code_expand prev ls (CL_Prev r # is) =
     (case prev of None \<Rightarrow> None | Some l \<Rightarrow> code_expand prev (ls @ replicate r l) is)"
| "code_expand prev ls (CL_Zeros r # is) = code_expand prev (ls @ replicate r 0) is"

lemma entry_item:
  "spec_entry k (prev, ls) bs os = Option.bind (rfc_item k bs os) (\<lambda>(i, bs, os).
     case (i, prev) of
       (CL_Len v, _) \<Rightarrow> Some ((Some v, ls @ [v]), bs, os)
     | (CL_Prev r, None) \<Rightarrow> None
     | (CL_Prev r, Some l) \<Rightarrow> Some ((prev, ls @ replicate r l), bs, os)
     | (CL_Zeros r, _) \<Rightarrow> Some ((prev, ls @ replicate r 0), bs, os))"
  by (auto simp: spec_entry_def rfc_item_def split: option.splits Option.bind_split)

lemma lens_items:
  "spec_lens clens n (prev, ls) bs os = Option.bind (rfc_items clens (n - length ls) bs os) (\<lambda>(is, bs, os).
     map_option (\<lambda>ls'. (take n ls', bs, os)) (code_expand prev ls is))"
proof (induction "n - length ls" arbitrary: prev ls bs os rule: less_induct)
  case less
  show ?case
  proof (cases "length ls < n")
    case False
    then show ?thesis by (subst spec_lens.simps, subst rfc_items.simps) simp
  next
    case True
    have IH: "spec_lens clens n (p, ls @ xs) b q = Option.bind (rfc_items clens (n - length ls - length xs) b q)
        (\<lambda>(is, bs, os). map_option (\<lambda>ls'. (take n ls', bs, os)) (code_expand p (ls @ xs) is))"
      if "0 < length xs" for p xs b q
    proof -
      have "n - length (ls @ xs) < n - length ls"
        using that True unfolding length_append by linarith
      from less.hyps [OF this, of p b q] show ?thesis by simp
    qed
    have step: "Option.bind (spec_entry k (prev, ls) b q) (\<lambda>(st, bs, os). spec_lens clens n st bs os) =
        Option.bind (rfc_item k b q) (\<lambda>(i, bs, os).
        Option.bind (rfc_items clens (n - length ls - item_size i) bs os) (\<lambda>(is, bs, os).
          map_option (\<lambda>ls'. (take n ls', bs, os)) (code_expand prev ls (i # is))))" for k b q
    proof (cases "rfc_item k b q")
      case None
      then show ?thesis by (simp add: entry_item)
    next
      case (Some x)
      obtain i b2 q2 where x: "x = (i, b2, q2)" by (cases x)
      from Some x have pos: "0 < item_size i" by (auto dest: rfc_item_size)
      have "Option.bind (case (i, prev) of
            (CL_Len v, _) \<Rightarrow> Some ((Some v, ls @ [v]), b2, q2)
          | (CL_Prev r, None) \<Rightarrow> None
          | (CL_Prev r, Some l) \<Rightarrow> Some ((prev, ls @ replicate r l), b2, q2)
          | (CL_Zeros r, _) \<Rightarrow> Some ((prev, ls @ replicate r 0), b2, q2))
          (\<lambda>(st, bs, os). spec_lens clens n st bs os) =
        Option.bind (rfc_items clens (n - length ls - item_size i) b2 q2) (\<lambda>(is, bs, os).
          map_option (\<lambda>ls'. (take n ls', bs, os)) (code_expand prev ls (i # is)))"
        using pos IH by (cases i; cases prev) (auto split: Option.bind_split)
      then show ?thesis unfolding entry_item Some x Option.bind.simps prod.case .
    qed
    from True show ?thesis
      unfolding spec_lens.simps [of clens n "(prev, ls)"] rfc_items.simps [of clens "n - length ls"]
      by (simp add: step) (simp add: case_prod_unfold)
  qed
qed

text \<open>
  A usual sequence of items: a repeat never follows a run of zeros, directly or through other
  repeats. The code and the standard then agree.
\<close>

fun usual_items :: "bool \<Rightarrow> cl_item list \<Rightarrow> bool" where
  "usual_items z [] \<longleftrightarrow> True"
| "usual_items z (CL_Len k # is) \<longleftrightarrow> usual_items False is"
| "usual_items z (CL_Prev r # is) \<longleftrightarrow> \<not> z \<and> usual_items z is"
| "usual_items z (CL_Zeros r # is) \<longleftrightarrow> usual_items True is"

lemma expand_usual:
  "usual_items z is \<Longrightarrow> prev = None \<and> ls = [] \<and> \<not> z \<or> ls \<noteq> [] \<and> (\<not> z \<longrightarrow> prev = Some (last ls)) \<Longrightarrow>
   \<forall>i\<in>set is. 0 < item_size i \<Longrightarrow> code_expand prev ls is = rfc_expand ls is"
proof (induction z "is" arbitrary: prev ls rule: usual_items.induct)
  case (3 z r "is")
  then obtain r' where "r = Suc r'" by (cases r) auto
  with 3 show ?case by (auto simp: last_append)
next
  case (4 z r "is")
  then obtain r' where "r = Suc r'" by (cases r) auto
  with 4 show ?case by auto
qed auto

lemma rfc_items_pos:
  "rfc_items clens n bs os = Some (is, bs', os') \<Longrightarrow> \<forall>i\<in>set is. 0 < item_size i"
proof (induction clens n bs os arbitrary: "is" bs' os' rule: rfc_items.induct)
  case (1 clens n bs os)
  show ?case
  proof (cases "0 < n")
    case True
    with "1.prems" obtain k b o1 i b2 o2 js where
      d: "decode_sym clens 19 bs os = Some (k, b, o1)" and e: "rfc_item k b o1 = Some (i, b2, o2)" and
      r: "rfc_items clens (n - item_size i) b2 o2 = Some (js, bs', os')" and eq: "is = i # js"
      by (subst (asm) rfc_items.simps) (auto simp: bind_eq_Some_conv)
    from "1.IH" [OF True d refl refl e refl refl r] rfc_item_size [OF e] show ?thesis by (simp add: eq)
  next
    case False
    with "1.prems" show ?thesis by (subst (asm) rfc_items.simps) simp
  qed
qed

lemma rfc_expand_length: "rfc_expand ls is = Some ls' \<Longrightarrow> length ls' = length ls + sum_list (map item_size is)"
  by (induction ls "is" rule: rfc_expand.induct) (auto split: if_splits)

subsection \<open>Streams read as the standard says\<close>

text \<open>
  A usual header of a dynamic block: no repeat after a run of zeros, code lengths that end with the
  last item, at most 30 distance codes and at least one of them in use.
\<close>

definition usual_header :: "nat \<times> nat \<times> cl_item list \<Rightarrow> bool" where
  "usual_header = (\<lambda>(hlit, hdist, is).
     usual_items False is \<and> sum_list (map item_size is) = hlit + hdist \<and> hdist \<le> 30 \<and>
     (case rfc_expand [] is of None \<Rightarrow> True | Some ls \<Rightarrow> list_ex (\<lambda>l. l \<noteq> 0) (drop hlit ls)))"

definition usual_block :: "nat \<Rightarrow> bool list \<Rightarrow> u8 list \<Rightarrow> bool" where
  "usual_block ty bs os \<longleftrightarrow>
     ty = 2 \<longrightarrow> (case rfc_header bs os of None \<Rightarrow> True | Some (h, _, _) \<Rightarrow> usual_header h)"

text \<open>Every dynamic block of the stream has a usual header.\<close>

function usual_stream :: "bool list \<Rightarrow> u8 list \<Rightarrow> bool" where
  "usual_stream bs os \<longleftrightarrow>
     (case read_bits 1 bs os of None \<Rightarrow> True | Some (final, bs, os) \<Rightarrow>
      case read_bits 2 bs os of None \<Rightarrow> True | Some (ty, bs, os) \<Rightarrow>
        usual_block ty bs os \<and>
        (case rfc_block ty bs os of None \<Rightarrow> True
         | Some (_, bs, os) \<Rightarrow> final = 1 \<or> usual_stream bs os))"
  by pat_completeness auto
termination
  by (relation "measure (\<lambda>(bs, os). length bs)")
    (auto dest!: read_bits_shrinks rfc_block_shrinks)

declare usual_stream.simps [simp del]

lemma code_ok_fits: "code_ok lens n \<longleftrightarrow> (\<exists>s<n. lens s \<noteq> 0) \<and> code_fits lens n"
  by (auto simp: code_ok_def code_fits_def)

abbreviation tree_codes :: "trees \<times> bool list \<times> u8 list \<Rightarrow> (unit \<times> bool list \<times> u8 list) option" where
  "tree_codes \<equiv> \<lambda>(t, bs, os). case t of (lens, n, dlens, dn) \<Rightarrow> spec_codes lens n dlens dn bs os"

abbreviation tree_rfc_codes :: "bool list \<Rightarrow> u8 list \<Rightarrow> trees \<Rightarrow> (unit \<times> bool list \<times> u8 list) option" where
  "tree_rfc_codes bs os \<equiv> \<lambda>(lens, n, dlens, dn). rfc_codes lens n dlens dn bs os"

lemma build_rfc:
  assumes u: "usual_header (hlit, hdist, is)" and n: "257 \<le> hlit" and pos: "\<forall>i\<in>set is. 0 < item_size i"
  shows "Option.bind (code_expand None [] is)
      (\<lambda>ls. Option.bind (spec_build hlit hdist (take (hlit + hdist) ls) bs os) tree_codes) =
    Option.bind (rfc_trees (hlit, hdist, is)) (tree_rfc_codes bs os)"
proof (cases "rfc_expand [] is")
  case None
  with u pos expand_usual [of False "is" None "[]"] show ?thesis
    by (simp add: usual_header_def rfc_trees_def)
next
  case (Some ls)
  from u pos expand_usual [of False "is" None "[]"] Some have e: "code_expand None [] is = Some ls"
    by (simp add: usual_header_def)
  have len: "length ls = hlit + hdist" using u rfc_expand_length [OF Some] by (simp add: usual_header_def)
  let ?l = "nth_or_0 ls" and ?d = "\<lambda>i. nth_or_0 ls (hlit + i)"
  have "list_ex (\<lambda>l. l \<noteq> 0) (drop hlit ls)" using u Some by (simp add: usual_header_def)
  then obtain i where "i < hdist" "ls ! (hlit + i) \<noteq> 0"
    using len by (auto simp: list_ex_iff in_set_conv_nth)
  then have d: "code_ok ?d hdist \<longleftrightarrow> code_fits ?d hdist"
    using len by (auto simp: code_ok_fits nth_or_0_def)
  have l: "code_ok ?l hlit \<longleftrightarrow> code_fits ?l hlit" if "?l 256 \<noteq> 0"
    using that n by (auto simp: code_ok_fits intro!: exI [of _ 256])
  show ?thesis
  proof (cases "?l 256 = 0")
    case True
    then show ?thesis using len
      by (simp add: e spec_build_def rfc_trees_def Some Let_def rfc_codes_no_end)
  next
    case False
    have "spec_codes ?l hlit ?d hdist bs os = rfc_codes ?l hlit ?d hdist bs os"
      by (rule codes_rfc) (simp_all add: match_rfc)
    then show ?thesis using len False l [OF False] d
      by (simp add: e spec_build_def rfc_trees_def Some Let_def)
  qed
qed

lemma trees_rfc:
  assumes n: "257 \<le> hlit" and c: "code_fits clens 19"
    and u: "\<And>is bs' os'. rfc_items clens (hlit + hdist) bs os = Some (is, bs', os') \<Longrightarrow> usual_header (hlit, hdist, is)"
  shows "Option.bind (if \<not> code_ok clens 19 then None
      else Option.bind (spec_lens clens (hlit + hdist) (None, []) bs os) (\<lambda>(ls, bs, os). spec_build hlit hdist ls bs os)) tree_codes =
    Option.bind (rfc_items clens (hlit + hdist) bs os) (\<lambda>(is, bs, os).
      Option.bind (rfc_trees (hlit, hdist, is)) (tree_rfc_codes bs os))"
proof (cases "code_ok clens 19")
  case False
  with c have "\<And>s. s < 19 \<Longrightarrow> clens s = 0" by (auto simp: code_ok_fits)
  then have "decode_sym clens 19 bs os = None" by (auto simp: decode_sym_def find_None_iff split: option.splits)
  then have "rfc_items clens (hlit + hdist) bs os = None" using n by (subst rfc_items.simps) simp
  with False show ?thesis by simp
next
  case True
  have "Option.bind (Option.bind (spec_lens clens (hlit + hdist) (None, []) bs os)
        (\<lambda>(ls, bs, os). spec_build hlit hdist ls bs os)) tree_codes =
      Option.bind (rfc_items clens (hlit + hdist) bs os) (\<lambda>(is, bs, os).
        Option.bind (code_expand None [] is)
          (\<lambda>ls. Option.bind (spec_build hlit hdist (take (hlit + hdist) ls) bs os) tree_codes))"
    by (simp add: lens_items case_prod_beta map_option_case split: option.split Option.bind_split)
  also have "\<dots> = Option.bind (rfc_items clens (hlit + hdist) bs os) (\<lambda>(is, bs, os).
      Option.bind (rfc_trees (hlit, hdist, is)) (tree_rfc_codes bs os))"
    by (rule Option.bind_cong [OF refl], clarify) (rule build_rfc [OF u n rfc_items_pos])
  finally show ?thesis using True by simp
qed

lemma dynamic_rfc:
  assumes "usual_block 2 bs os"
  shows "Option.bind (spec_tables bs os) tree_codes =
    Option.bind (rfc_header bs os) (\<lambda>(h, bs, os). Option.bind (rfc_trees h) (tree_rfc_codes bs os))"
proof (cases "rfc_header bs os")
  case None
  show ?thesis
  proof (cases "spec_tables bs os")
    case (Some r)
    then obtain a b c b1 o1 b2 o2 b3 o3 where r: "read_bits 5 bs os = Some (a, b1, o1)" "read_bits 5 b1 o1 = Some (b, b2, o2)"
      "read_bits 4 b2 o2 = Some (c, b3, o3)" "\<not> 286 < a + 257" "b + 1 \<le> 30"
      and t: "spec_trees (a + 257) (b + 1) (c + 4) b3 o3 = Some r"
      by (auto simp: spec_tables_def bind_eq_Some_conv Let_def split: if_splits)
    from t obtain clens b4 o4 where clc: "spec_clc (take (c + 4) rfc_order) (\<lambda>_. 0) b3 o3 = Some (clens, b4, o4)"
      and ok: "code_ok clens 19" by (auto simp: spec_trees_def order_table bind_eq_Some_conv split: if_splits)
    from None r clc ok have none: "rfc_items clens (a + 257 + (b + 1)) b4 o4 = None"
      by (auto simp: rfc_header_def code_ok_fits split: Option.bind_split_asm)
    then have "spec_lens clens (a + 257 + (b + 1)) (None, []) b4 o4 = None" by (simp add: lens_items)
    with t clc ok show ?thesis by (simp add: spec_trees_def order_table)
  qed (simp add: None)
next
  case (Some x)
  then obtain a b c clens items b1 o1 b2 o2 b3 o3 b4 o4 b5 o5 where
    r: "read_bits 5 bs os = Some (a, b1, o1)" "read_bits 5 b1 o1 = Some (b, b2, o2)"
      "read_bits 4 b2 o2 = Some (c, b3, o3)" "\<not> 286 < a + 257"
      "spec_clc (take (c + 4) rfc_order) (\<lambda>_. 0) b3 o3 = Some (clens, b4, o4)" "code_fits clens 19"
      and i: "rfc_items clens (a + 257 + (b + 1)) b4 o4 = Some (items, b5, o5)"
      and x: "x = ((a + 257, b + 1, items), b5, o5)"
    by (auto simp: rfc_header_def bind_eq_Some_conv split: if_splits)
  from assms Some x have u: "usual_header (a + 257, b + 1, items)" by (simp add: usual_block_def)
  then have "b + 1 \<le> 30" by (simp add: usual_header_def)
  then have "spec_tables bs os = (if \<not> code_ok clens 19 then None
      else Option.bind (spec_lens clens (a + 257 + (b + 1)) (None, []) b4 o4)
        (\<lambda>(ls, bs, os). spec_build (a + 257) (b + 1) ls bs os))"
    using r by (simp add: spec_tables_def spec_trees_def order_table Let_def)
  moreover note trees_rfc [of "a + 257" clens "b + 1" b4 o4, OF _ r(6)]
  ultimately have "Option.bind (spec_tables bs os) tree_codes =
      Option.bind (rfc_items clens (a + 257 + (b + 1)) b4 o4) (\<lambda>(is, bs, os).
        Option.bind (rfc_trees (a + 257, b + 1, is)) (tree_rfc_codes bs os))"
    using u i by simp
  then show ?thesis unfolding Some x i Option.bind.simps prod.case .
qed

lemma block_rfc: "usual_block ty bs os \<Longrightarrow> spec_block ty bs os = rfc_block ty bs os"
proof -
  assume u: "usual_block ty bs os"
  have fixed: "spec_codes fixed_len 288 (\<lambda>_. 5) 30 bs os = rfc_codes (nth_or_0 rfc_fixed) 288 (\<lambda>_. 5) 32 bs os"
  proof (rule codes_rfc)
    show "decode_sym fixed_len 288 = decode_sym (nth_or_0 rfc_fixed) 288"
      by (rule decode_sym_cong) (simp add: fixed_table)
  qed (simp add: match_rfc fixed_distance)
  show ?thesis
    using u dynamic_rfc [of bs os] fixed by (auto simp: spec_block_def rfc_block_def)
qed

lemma spec_inflate_rfc: "usual_stream bs os \<Longrightarrow> spec_inflate bs os = rfc_inflate bs os"
proof (induction "length bs" arbitrary: bs os rule: less_induct)
  case less
  show ?case
    unfolding spec_inflate.simps [of bs os] rfc_inflate.simps [of bs os]
  proof (rule Option.bind_cong [OF refl], clarify, rule Option.bind_cong [OF refl], clarify)
    fix final ty b1 o1 b2 o2
    assume r: "read_bits 1 bs os = Some (final, b1, o1)" "read_bits 2 b1 o1 = Some (ty, b2, o2)"
    from less.prems r have u: "usual_block ty b2 o2"
      "\<And>v b o'. rfc_block ty b2 o2 = Some (v, b, o') \<Longrightarrow> final \<noteq> 1 \<Longrightarrow> usual_stream b o'"
      by (simp_all add: usual_stream.simps [of bs os])
    have fin: "final \<noteq> 0 \<longleftrightarrow> final = 1"
      using r(1) by (auto simp: read_bits_def bits_val_def take_Suc split: if_splits)
    show "Option.bind (spec_block ty b2 o2) (\<lambda>(_, bs, os). if final \<noteq> 0 then Some ((), bs, os) else spec_inflate bs os) =
      Option.bind (rfc_block ty b2 o2) (\<lambda>(_, bs, os). if final = 1 then Some ((), bs, os) else rfc_inflate bs os)"
      unfolding block_rfc [OF u(1)] fin
    proof (rule Option.bind_cong [OF refl], clarify)
      fix b3 o3
      assume b: "rfc_block ty b2 o2 = Some ((), b3, o3)"
      have "length b3 < length bs"
        using rfc_block_shrinks [OF b] read_bits_shrinks [OF r(1)] read_bits_shrinks [OF r(2)] by simp
      from less.hyps [OF this] u(2) [OF b]
      show "(if final = 1 then Some ((), b3, o3) else spec_inflate b3 o3) =
          (if final = 1 then Some ((), b3, o3) else rfc_inflate b3 o3)" by simp
    qed
  qed
qed

text \<open>
  A header as encoders write it for a block of one literal is usual; a repeat after a run of zeros
  is where the code and the standard part.
\<close>

lemma usual_header_example:
  "usual_header (257, 1, [CL_Len 1, CL_Zeros 138, CL_Zeros 117, CL_Len 1, CL_Len 1])"
  by (simp add: usual_header_def)

lemma repeat_differs:
  "rfc_expand [] [CL_Len 8, CL_Zeros 3, CL_Prev 3] = Some [8, 0, 0, 0, 0, 0, 0]"
  "code_expand None [] [CL_Len 8, CL_Zeros 3, CL_Prev 3] = Some [8, 0, 0, 0, 8, 8, 8]"
  by code_simp+

end
