(* ===== verification/Deflate_Refine.thy ===== *)
theory Deflate_Refine
  imports Deflate_Rfc
begin

text \<open>
  The C decoder refines the decoder of the format it accepts: first the bit reader and the table
  lookup, then the sliding window, then block by block up to the whole stream, and with it, on usual
  streams, the decoder of RFC 1951.
\<close>

subsection \<open>The bit reader\<close>

definition inf_bits :: "'c inf_state_t \<Rightarrow> bool list" where
  "inf_bits s = map (bit (bitbuf s)) [0..<bitcnt s] @ bits_of (drop (in_pos s) (in_buf s))"

definition reader :: "'c inf_state_t \<Rightarrow> bool list \<Rightarrow> bool" where
  "reader s bs \<longleftrightarrow> bitcnt s \<le> 64 \<and> bitcnt s \<le> 8 * in_pos s \<and> in_pos s \<le> length (in_buf s) \<and>
     (\<forall>k\<ge>bitcnt s. \<not> bit (bitbuf s) k) \<and> inf_bits s = bs"

text \<open>Everything of the state the bit reader leaves alone.\<close>

definition frame :: "'c inf_state_t \<Rightarrow> 'c inf_state_t" where
  "frame s = s\<lparr>bitbuf := 0, bitcnt := 0, in_pos := 0\<rparr>"

lemma frame_fields:
  assumes "frame s = frame t"
  shows "in_buf s = in_buf t" "out s = out t" "out_cap s = out_cap t" "out_len s = out_len t"
    "sink s = sink t" "sink_ctx s = sink_ctx t" "flushed s = flushed t" "glob s = glob t"
  using assms unfolding frame_def by (cases s; cases t; simp)+

lemma frame_bits [simp]:
  "frame (s\<lparr>bitbuf := b, bitcnt := n\<rparr>) = frame s" "frame (s\<lparr>bitbuf := b, in_pos := p, bitcnt := n\<rparr>) = frame s"
  by (simp_all add: frame_def)

lemma length_byte_bits [simp]: "length (byte_bits b) = 8"
  by (simp add: byte_bits_def)

lemma bits_of_Cons: "bits_of (b # bs) = byte_bits b @ bits_of bs"
  by (simp add: bits_of_def)

lemma length_bits_of [simp]: "length (bits_of bs) = 8 * length bs"
  by (induction bs) (simp_all add: bits_of_def)

lemma inf_bits_nth: "reader s bs \<Longrightarrow> i < bitcnt s \<Longrightarrow> bs ! i = bit (bitbuf s) i"
  by (auto simp: reader_def inf_bits_def nth_append)

lemma inf_bits_length: "reader s bs \<Longrightarrow> length bs = bitcnt s + 8 * (length (in_buf s) - in_pos s)"
  by (auto simp: reader_def inf_bits_def)

lemma refill_step:
  assumes r: "reader s bs" and c: "bitcnt s \<le> 56" and p: "in_pos s < length (in_buf s)"
  shows "reader (s\<lparr>bitbuf := bitbuf s OR push_bit (bitcnt s) (ucast (in_buf s ! in_pos s)),
                    in_pos := in_pos s + 1, bitcnt := bitcnt s + 8\<rparr>) bs"
proof -
  let ?b = "in_buf s ! in_pos s" and ?w = "bitbuf s OR push_bit (bitcnt s) (ucast (in_buf s ! in_pos s))"
  have bit: "bit ?w k \<longleftrightarrow> bit (bitbuf s) k \<or> (bitcnt s \<le> k \<and> k < bitcnt s + 8 \<and> bit ?b (k - bitcnt s))" for k
    using c by (auto simp: bit_simps dest: bit_imp_le_length)
  have z: "\<not> bit (bitbuf s) k" if "bitcnt s \<le> k" for k using r that by (simp add: reader_def)
  have "map (bit ?w) [0..<bitcnt s + 8] = map (bit (bitbuf s)) [0..<bitcnt s] @ byte_bits ?b"
    by (rule nth_equalityI) (auto simp: bit z nth_append byte_bits_def)
  moreover have "drop (in_pos s) (in_buf s) = ?b # drop (in_pos s + 1) (in_buf s)"
    using p by (simp add: Cons_nth_drop_Suc)
  ultimately show ?thesis
    using r c p by (simp add: reader_def inf_bits_def bits_of_Cons bit z del: upt_Suc)
qed

lemma refill_reader:
  "reader s bs \<Longrightarrow> reader (refill s) bs \<and> frame (refill s) = frame s \<and>
     (57 \<le> bitcnt (refill s) \<or> bitcnt (refill s) = length bs)"
proof (induction s rule: refill.induct)
  case (1 s)
  show ?case
  proof (cases "bitcnt s \<le> 56 \<and> in_pos s < length (in_buf s)")
    case True
    with "1.IH" [OF True refill_step [OF "1.prems"]] show ?thesis
      by (subst (1 2 3 4) refill.simps) simp
  next
    case False
    then have "refill s = s" by (subst refill.simps) auto
    moreover have "57 \<le> bitcnt s \<or> bitcnt s = length bs"
      using False inf_bits_length [OF "1.prems"] by auto
    ultimately show ?thesis using "1.prems" by simp
  qed
qed

lemma reader_drop:
  assumes "reader s bs" and "n \<le> bitcnt s"
  shows "reader (s\<lparr>bitbuf := drop_bit n (bitbuf s), bitcnt := bitcnt s - n\<rparr>) (drop n bs)"
proof -
  have "map (bit (drop_bit n (bitbuf s))) [0..<bitcnt s - n] = drop n (map (bit (bitbuf s)) [0..<bitcnt s])"
    by (rule nth_equalityI) (auto simp: bit_simps add.commute)
  with assms show ?thesis by (auto simp: reader_def inf_bits_def bit_simps)
qed

lemma bits_val_bit: "bit (bits_val bs) k \<longleftrightarrow> k < length bs \<and> bs ! k"
  unfolding bits_val_def by (simp add: bit_horner_sum_bit_iff)

lemma bits_val_less: "bits_val bs < 2 ^ length bs"
  unfolding bits_val_def by (induction bs) (auto simp: of_bool_def)

lemma get_bits_reader:
  assumes r: "reader s bs" and n: "n \<le> 32"
  shows "case get_bits n s of
      Inl s' \<Rightarrow> length bs < n
    | Inr (v, s') \<Rightarrow> n \<le> length bs \<and> unat v = bits_val (take n bs) \<and> reader s' (drop n bs) \<and> frame s' = frame s"
proof -
  define t where "t = (if 0 < n then refill s else s)"
  have t: "reader t bs" "frame t = frame s" "n \<le> bitcnt t \<or> bitcnt t = length bs"
    using refill_reader [OF r] r n by (auto simp: t_def)
  have g: "get_bits n s = (if bitcnt t < n then Inl t
      else Inr (ucast (bitbuf t AND (push_bit n 1 - 1)), t\<lparr>bitbuf := drop_bit n (bitbuf t), bitcnt := bitcnt t - n\<rparr>))"
    by (simp only: get_bits_def t_def Let_def)
  have len: "bitcnt t \<le> length bs" using inf_bits_length [OF t(1)] by simp
  show ?thesis
  proof (cases "bitcnt t < n")
    case True
    with t(3) show ?thesis by (simp add: g)
  next
    case False
    let ?v = "ucast (bitbuf t AND (push_bit n 1 - 1)) :: u32"
    have "push_bit n 1 - 1 = (mask n :: u64)" by (simp add: mask_eq_exp_minus_1)
    then have "unat ?v = bits_val (take n bs)"
      using False n inf_bits_nth [OF t(1)] len
      by (intro bit_eqI) (auto simp: bit_simps bits_val_bit)
    with False t reader_drop [OF t(1), of n] len show ?thesis
      by (simp add: g)
  qed
qed

subsection \<open>Table lookup\<close>

lemma HENT_fields:
  assumes "s < 2048" and "l < 16"
  defines "e \<equiv> HENT (of_nat s) l"
  shows "HENT_VALID e" and "HENT_LEN e = l" and "HENT_SYM e = s"
proof -
  have l: "k < 4" if "bit l k" for k using nat_bit_high [of l 4 k] assms(2) that by fastforce
  have s: "k < 11" if "bit s k" for k using nat_bit_high [of s 11 k] assms(1) that by fastforce
  have F: "(0xF :: u16) = mask 4" by (simp add: mask_eq_exp_minus_1)
  have bit: "bit e k \<longleftrightarrow> k = 0 \<or> 1 \<le> k \<and> k < 16 \<and> bit l (k - 1) \<or> 5 \<le> k \<and> k < 16 \<and> bit s (k - 5)" for k
    unfolding e_def HENT_def bit_or_iff bit_push_bit_iff by (auto simp: bit_simps)
  have "bit (e AND 1) 0" by (simp add: bit_simps bit)
  then show "HENT_VALID e" unfolding HENT_VALID_def by (metis bit_0_eq bot_apply bot_bool_def)
  have "bit (HENT_LEN e) k = bit l k" for k
    unfolding HENT_LEN_def F bit_unsigned_iff bit_and_iff bit_drop_bit_eq bit_mask_iff o_def bit
    by (auto dest: l)
  then show "HENT_LEN e = l" by (rule bit_eqI)
  have "bit (HENT_SYM e) k = bit s k" for k
    unfolding HENT_SYM_def bit_unsigned_iff bit_drop_bit_eq o_def bit
    by (auto dest: l s)
  then show "HENT_SYM e = s" by (rule bit_eqI)
qed

lemma decode_sym_hits:
  assumes ok: "code_ok lens n" and lens: "\<forall>s<n. lens s < 16"
  defines "\<beta> bs \<equiv> (\<lambda>i. i < length bs \<and> bs ! i)"
  shows "decode_sym lens n bs os = Some (s, bs', os') \<longleftrightarrow>
     hits lens n (\<beta> bs) s \<and> lens s \<le> length bs \<and> bs' = drop (lens s) bs \<and> os' = os"
proof -
  have word: "lens s \<le> length bs \<Longrightarrow> s < n \<Longrightarrow> lens s \<noteq> 0 \<Longrightarrow>
      take (lens s) bs = codeword lens n s \<longleftrightarrow> cv (\<beta> bs) (lens s) = code_value lens n s" for s
  proof -
    assume *: "lens s \<le> length bs" "s < n" "lens s \<noteq> 0"
    then have "code_value lens n s < 2 ^ lens s" using code_value_less [OF ok] lens by simp
    then show ?thesis
      using * by (subst cv_eq_iff) (auto simp: list_eq_iff_nth_eq codeword_def \<beta>_def)
  qed
  show ?thesis
  proof
    assume d: "decode_sym lens n bs os = Some (s, bs', os')"
    from decode_sym_Some [OF d] word [of s] show "hits lens n (\<beta> bs) s \<and> lens s \<le> length bs \<and> bs' = drop (lens s) bs \<and> os' = os"
      by (simp add: hits_def)
  next
    assume h: "hits lens n (\<beta> bs) s \<and> lens s \<le> length bs \<and> bs' = drop (lens s) bs \<and> os' = os"
    then have c: "take (lens s) bs = codeword lens n s" "s < n" "lens s \<noteq> 0"
      using word [of s] by (auto simp: hits_def)
    then obtain t where t: "find (\<lambda>s. lens s \<noteq> 0 \<and> take (lens s) bs = codeword lens n s) [0..<n] = Some t"
      by (cases "find (\<lambda>s. lens s \<noteq> 0 \<and> take (lens s) bs = codeword lens n s) [0..<n]") (auto simp: find_None_iff)
    then have d: "decode_sym lens n bs os = Some (t, drop (lens t) bs, os)" by (simp add: decode_sym_def)
    from decode_sym_Some [OF d] word [of t] have "hits lens n (\<beta> bs) t" by (simp add: hits_def)
    with h have "t = s" using hits_unique by blast
    with d h show "decode_sym lens n bs os = Some (s, bs', os')" by simp
  qed
qed

lemma huff_decode_reader:
  assumes r: "reader s bs" and ok: "code_ok lens n" "table_ok h lens n" and lens: "\<forall>s<n. lens s < 16" and n: "n \<le> 320"
  shows "case huff_decode h s of
      Inl s' \<Rightarrow> decode_sym lens n bs os = None
    | Inr (v, s') \<Rightarrow> \<exists>bs'. decode_sym lens n bs os = Some (v, bs', os) \<and> reader s' bs' \<and> frame s' = frame s"
proof -
  define t where "t = refill s"
  have t: "reader t bs" "frame t = frame s" "57 \<le> bitcnt t \<or> bitcnt t = length bs"
    using refill_reader [OF r] by (auto simp: t_def)
  have len: "bitcnt t \<le> length bs" using inf_bits_length [OF t(1)] by simp
  define \<beta> where "\<beta> = (\<lambda>i. i < length bs \<and> bs ! i)"
  note decode = decode_sym_hits [OF ok(1) lens, of bs os, folded \<beta>_def]
  define j where "j = unat (bitbuf t AND (of_nat HTAB_SIZE - 1))"
  have mask: "of_nat HTAB_SIZE - 1 = (mask 15 :: u64)" by (simp add: HTAB_SIZE_def mask_eq_exp_minus_1)
  have z: "\<not> bit (bitbuf t) k" if "bitcnt t \<le> k" for k using t(1) that by (simp add: reader_def)
  have bit_j: "bit j k \<longleftrightarrow> k < 15 \<and> \<beta> k" for k
    unfolding j_def mask \<beta>_def using inf_bits_nth [OF t(1), of k] t(3) z [of k] len
    by (cases "k < bitcnt t") (auto simp: bit_simps)
  have j: "j < HTAB_SIZE"
  proof -
    have "j = take_bit 15 j" unfolding bit_eq_iff [of j] by (auto simp: bit_take_bit_iff bit_j)
    then show ?thesis using take_bit_nat_less_exp [of 15 j] by (simp add: HTAB_SIZE_def)
  qed
  have hits_j: "hits lens n (bit j) u \<longleftrightarrow> hits lens n \<beta> u" for u
  proof -
    have "cv (bit j) (lens u) = cv \<beta> (lens u)" if "u < n"
    proof (rule cv_cong)
      fix i assume "i < lens u"
      moreover have "lens u < 16" using lens that by simp
      ultimately show "bit j i = \<beta> i" by (simp add: bit_j)
    qed
    then show ?thesis by (auto simp: hits_def)
  qed
  show ?thesis
  proof (cases "\<exists>u. hits lens n \<beta> u")
    case False
    then have "decode_sym lens n bs os = None" using decode by (cases "decode_sym lens n bs os") auto
    moreover have "htable h j = 0" using ok(2) False j hits_j by (simp add: table_ok_def)
    ultimately show ?thesis
      by (simp add: huff_decode_def t_def [symmetric] j_def [symmetric] Let_def HENT_VALID_def)
  next
    case True
    then obtain u where u: "hits lens n \<beta> u" ..
    then have e: "htable h j = HENT (of_nat u) (lens u)" using ok(2) j hits_j by (simp add: table_ok_def)
    have ub: "u < 2048" "lens u < 16" "0 < lens u" using u n lens by (auto simp: hits_def)
    note F = HENT_fields [OF ub(1,2)]
    have d: "huff_decode h s = (if bitcnt t < 1 then Inl t else if bitcnt t < lens u then Inl t else
        Inr (u, t\<lparr>bitbuf := drop_bit (lens u) (bitbuf t), bitcnt := bitcnt t - lens u\<rparr>))"
      unfolding huff_decode_def t_def [symmetric] Let_def j_def [symmetric] e using F by simp
    show ?thesis
    proof (cases "bitcnt t < lens u")
      case True
      then have "length bs < lens u" using t(3) ub(2) by linarith
      then have "decode_sym lens n bs os \<noteq> Some (v, bs', os')" for v bs' os'
        using decode [of v bs' os'] hits_unique [OF u, of v] by auto
      then have "decode_sym lens n bs os = None" by (metis option.exhaust prod_cases3)
      then show ?thesis using True by (simp add: d)
    next
      case False
      then have "decode_sym lens n bs os = Some (u, drop (lens u) bs, os)" using decode u len by simp
      with False ub reader_drop [OF t(1), of "lens u"] t(2) show ?thesis by (simp add: d)
    qed
  qed
qed

subsection \<open>The window and the sink\<close>

text \<open>The context of the sink after it has accepted a list of chunks.\<close>

fun sink_run :: "'c sink_fn \<Rightarrow> 'c \<Rightarrow> u8 list list \<Rightarrow> 'c option" where
  "sink_run f c [] = Some c"
| "sink_run f c (d # ds) = (case f c d of (ok, c') \<Rightarrow> if ok then sink_run f c' ds else None)"

lemma sink_run_append: "sink_run f c (xs @ ys) = Option.bind (sink_run f c xs) (\<lambda>c. sink_run f c ys)"
  by (induction xs arbitrary: c) (auto split: prod.split)

text \<open>The sink was offered a prefix of \<open>os\<close> in chunks and refused the last one.\<close>

definition refused :: "'c sink_fn \<Rightarrow> 'c \<Rightarrow> u8 list \<Rightarrow> bool" where
  "refused f c0 os \<longleftrightarrow>
     (\<exists>ds c d. sink_run f c0 ds = Some c \<and> \<not> fst (f c d) \<and> prefix (concat ds @ d) os)"

lemma refused_mono: "refused f c0 os \<Longrightarrow> prefix os os' \<Longrightarrow> refused f c0 os'"
  unfolding refused_def by (blast intro: prefix_order.trans)

definition globals_ok :: "inf_globals \<Rightarrow> bool" where
  "globals_ok g \<longleftrightarrow>
     (fixed_ready g \<longrightarrow> table_ok (fixed_lit g) fixed_len 288 \<and> table_ok (fixed_dist g) (\<lambda>_. 5) 30)"

text \<open>
  The abstraction relation: \<open>bs\<close> are the bits left, and the output \<open>os\<close> is what the
  sink accepted followed by the window.
\<close>

definition win :: "u8 list \<Rightarrow> 'c sink_fn \<Rightarrow> 'c \<Rightarrow> 'c inf_state_t \<Rightarrow> bool list \<Rightarrow> u8 list \<Rightarrow> bool" where
  "win ib f c0 s bs os \<longleftrightarrow>
     reader s bs \<and> in_buf s = ib \<and> sink s = Some f \<and> out_cap s = INF_BUFSZ \<and> out_len s \<le> INF_BUFSZ \<and> globals_ok (glob s) \<and>
     (\<exists>ds. sink_run f c0 ds = Some (sink_ctx s) \<and> os = concat ds @ map (out s) [0..<out_len s] \<and>
        flushed s = length (concat ds) \<and> (ds \<noteq> [] \<longrightarrow> INF_KEEP \<le> out_len s))"

lemma win_frame:
  assumes "win ib f c0 s bs os" and "reader s' bs'" and "frame s' = frame s"
  shows "win ib f c0 s' bs' os"
  using assms(1,2) unfolding win_def by (simp add: frame_fields [OF assms(3)])

lemma win_reader: "win ib f c0 s bs os \<Longrightarrow> reader s bs"
  by (simp add: win_def)

lemma slide_down: "fold (\<lambda>i m. m(i := m (n + i))) [0..<k] m = (\<lambda>i. if i < k then m (n + i) else m i)"
  by (induction k) auto

lemma reader_out [simp]:
  "reader (s\<lparr>sink_ctx := c, out := w, flushed := fl, out_len := n\<rparr>) bs = reader s bs"
  "reader (s\<lparr>out := w, out_len := n\<rparr>) bs = reader s bs"
  "reader (s\<lparr>glob := g\<rparr>) bs = reader s bs"
  by (simp_all add: reader_def inf_bits_def)

lemma out_room_win:
  assumes w: "win ib f c0 s bs os"
  shows "case out_room s of
      Inl _ \<Rightarrow> refused f c0 os
    | Inr (slid, s') \<Rightarrow> win ib f c0 s' bs os \<and> out_len s' < INF_BUFSZ \<and>
        (if slid then INF_KEEP \<le> out_len s' else s' = s)"
proof (cases "out_cap s \<le> out_len s")
  case False
  with w show ?thesis by (simp add: out_room_def win_def)
next
  case True
  with w have full: "out_len s = INF_BUFSZ" and f: "sink s = Some f" by (auto simp: win_def)
  from w obtain ds where ds: "sink_run f c0 ds = Some (sink_ctx s)"
    "os = concat ds @ map (out s) [0..<INF_BUFSZ]" "flushed s = length (concat ds)"
    unfolding win_def full by blast
  let ?d = "map (out s) [0..<INF_KEEP]"
  obtain ok c where r: "f (sink_ctx s) ?d = (ok, c)" by fastforce
  let ?s = "s\<lparr>sink_ctx := c, out := (\<lambda>i. if i < INF_KEEP then out s (INF_KEEP + i) else out s i),
      flushed := flushed s + INF_KEEP, out_len := INF_KEEP\<rparr>"
  have eq: "out_room s = (if ok then Inr (True, ?s) else Inl (s\<lparr>sink_ctx := c\<rparr>))"
  proof -
    have "INF_BUFSZ - INF_KEEP = INF_KEEP" "\<not> INF_BUFSZ < INF_KEEP" "0 < INF_KEEP" "INF_KEEP \<noteq> INF_BUFSZ"
      by (simp_all add: INF_BUFSZ_def INF_KEEP_def)
    with True f r full show ?thesis by (simp add: out_room_def out_flush_def Let_def slide_down)
  qed
  show ?thesis
  proof (cases ok)
    case True
    have "map (out s) [0..<INF_BUFSZ] = ?d @ map (\<lambda>i. out s (INF_KEEP + i)) [0..<INF_KEEP]"
    proof -
      have "[0..<INF_BUFSZ] = [0..<INF_KEEP] @ map (\<lambda>i. INF_KEEP + i) [0..<INF_KEEP]"
        by (rule nth_equalityI) (auto simp: nth_append INF_BUFSZ_def INF_KEEP_def)
      then show ?thesis by (simp add: comp_def)
    qed
    then have "os = concat (ds @ [?d]) @ map (out ?s) [0..<out_len ?s]" by (simp add: ds(2))
    moreover have "sink_run f c0 (ds @ [?d]) = Some (sink_ctx ?s)" using True r ds(1) by (simp add: sink_run_append)
    moreover have "flushed ?s = length (concat (ds @ [?d]))" by (simp add: ds(3))
    ultimately have "\<exists>ds. sink_run f c0 ds = Some (sink_ctx ?s) \<and> os = concat ds @ map (out ?s) [0..<out_len ?s] \<and>
        flushed ?s = length (concat ds) \<and> (ds \<noteq> [] \<longrightarrow> INF_KEEP \<le> out_len ?s)" by (intro exI conjI) auto
    moreover have "reader ?s bs" "in_buf ?s = ib" "sink ?s = Some f" "out_cap ?s = INF_BUFSZ" "globals_ok (glob ?s)"
      using w by (simp_all add: win_def)
    ultimately have "win ib f c0 ?s bs os" unfolding win_def by (simp add: INF_BUFSZ_def INF_KEEP_def)
    with True show ?thesis by (simp add: eq INF_BUFSZ_def INF_KEEP_def)
  next
    case False
    with r have "\<not> fst (f (sink_ctx s) ?d)" by simp
    moreover have "INF_KEEP \<le> INF_BUFSZ" by (simp add: INF_BUFSZ_def INF_KEEP_def)
    then have "[0..<INF_BUFSZ] = [0..<INF_KEEP] @ [INF_KEEP..<INF_BUFSZ]"
      using upt_add_eq_append [of 0 INF_KEEP "INF_BUFSZ - INF_KEEP"] by simp
    then have "prefix (concat ds @ ?d) os" unfolding ds(2) by simp
    ultimately have "refused f c0 os" using ds(1) unfolding refused_def by blast
    with False show ?thesis by (simp add: eq)
  qed
qed

lemma out_put_win:
  assumes "win ib f c0 s bs os" and "out_len s < INF_BUFSZ"
  shows "win ib f c0 (out_put b s) bs (os @ [b])"
proof -
  from assms(1) obtain ds where ds: "sink_run f c0 ds = Some (sink_ctx s)"
    "os = concat ds @ map (out s) [0..<out_len s]" "flushed s = length (concat ds)" "ds \<noteq> [] \<longrightarrow> INF_KEEP \<le> out_len s"
    unfolding win_def by blast
  have "map (out (out_put b s)) [0..<out_len (out_put b s)] = map (out s) [0..<out_len s] @ [b]"
    by (simp add: out_put_def)
  with ds have "\<exists>ds. sink_run f c0 ds = Some (sink_ctx (out_put b s)) \<and>
      os @ [b] = concat ds @ map (out (out_put b s)) [0..<out_len (out_put b s)] \<and>
      flushed (out_put b s) = length (concat ds) \<and> (ds \<noteq> [] \<longrightarrow> INF_KEEP \<le> out_len (out_put b s))"
    by (intro exI [of _ ds]) (auto simp: out_put_def)
  moreover have "reader (out_put b s) bs" using assms(1) by (simp add: win_def out_put_def)
  ultimately show ?thesis using assms unfolding win_def by (simp add: out_put_def)
qed

subsection \<open>Refinement of actions\<close>

text \<open>
  A C step refines an action of the reference when success is success, with related values and
  states, and a failure is a failure of the reference or a refusal of the sink.
\<close>

definition refines :: "(u8 list \<Rightarrow> bool) \<Rightarrow> u8 list \<Rightarrow> 'c sink_fn \<Rightarrow> 'c \<Rightarrow> ('a \<Rightarrow> 'c inf_state_t \<Rightarrow> 'b \<Rightarrow> bool) \<Rightarrow>
    ('c, 'a) inf_res \<Rightarrow> ('b \<times> bool list \<times> u8 list) option \<Rightarrow> bool" where
  "refines E ib f c0 V r m \<longleftrightarrow>
     (case r of Inl _ \<Rightarrow> \<forall>v bs os. m = Some (v, bs, os) \<longrightarrow> E os
      | Inr (v, s) \<Rightarrow> \<exists>v' bs os. m = Some (v', bs, os) \<and> V v s v' \<and> win ib f c0 s bs os)"

abbreviation never :: "u8 list \<Rightarrow> bool" where
  "never os \<equiv> False"

lemma refines_Inl: "refines E ib f c0 V (Inl e) None"
  by (simp add: refines_def)

lemma refines_Inr: "V v s v' \<Longrightarrow> win ib f c0 s bs os \<Longrightarrow> refines E ib f c0 V (Inr (v, s)) (Some (v', bs, os))"
  by (simp add: refines_def)

lemma refines_cases:
  assumes "refines never ib f c0 V r m"
  obtains (fail) e where "r = Inl e" "m = None"
  | (ok) v s v' bs os where "r = Inr (v, s)" "m = Some (v', bs, os)" "V v s v'" "win ib f c0 s bs os"
  using assms by (cases r; cases m) (auto simp: refines_def)

lemma refines_bind:
  assumes "refines never ib f c0 V r m"
    and "\<And>v s v' bs os. m = Some (v', bs, os) \<Longrightarrow> V v s v' \<Longrightarrow> win ib f c0 s bs os \<Longrightarrow>
      refines E ib f c0 W (F v s) (G v' bs os)"
  shows "refines E ib f c0 W (case r of Inl e \<Rightarrow> Inl e | Inr (v, s) \<Rightarrow> F v s)
           (Option.bind m (\<lambda>(v', bs, os). G v' bs os))"
  using assms(1)
proof (cases rule: refines_cases)
  case (ok v s v' bs os)
  with assms(2) [of v' bs os v s] show ?thesis by simp
qed (simp add: refines_Inl)

text \<open>The same for steps that might not return: they do.\<close>

definition refines_opt :: "(u8 list \<Rightarrow> bool) \<Rightarrow> u8 list \<Rightarrow> 'c sink_fn \<Rightarrow> 'c \<Rightarrow> ('a \<Rightarrow> 'c inf_state_t \<Rightarrow> 'b \<Rightarrow> bool) \<Rightarrow>
    ('c, 'a) inf_res option \<Rightarrow> ('b \<times> bool list \<times> u8 list) option \<Rightarrow> bool" where
  "refines_opt E ib f c0 V r m \<longleftrightarrow> (\<exists>x. r = Some x \<and> refines E ib f c0 V x m)"

lemma refines_opt_bind:
  assumes "refines never ib f c0 V r m"
    and "\<And>v s v' bs os. m = Some (v', bs, os) \<Longrightarrow> V v s v' \<Longrightarrow> win ib f c0 s bs os \<Longrightarrow>
      refines_opt E ib f c0 W (F v s) (G v' bs os)"
  shows "refines_opt E ib f c0 W (case r of Inl e \<Rightarrow> Some (Inl e) | Inr (v, s) \<Rightarrow> F v s)
           (Option.bind m (\<lambda>(v', bs, os). G v' bs os))"
  using assms(1)
proof (cases rule: refines_cases)
  case (ok v s v' bs os)
  with assms(2) [of v' bs os v s] show ?thesis by simp
qed (simp add: refines_opt_def refines_Inl)

text \<open>After a step that may be refused, the output must only grow.\<close>

lemma refines_opt_bind_refused:
  assumes "refines (refused f c0) ib f c0 V r m"
    and "\<And>v s v' bs os. m = Some (v', bs, os) \<Longrightarrow> V v s v' \<Longrightarrow> win ib f c0 s bs os \<Longrightarrow>
      refines_opt (refused f c0) ib f c0 W (F v s) (G v' bs os)"
    and grows: "\<And>v' bs os v2 bs2 os2. m = Some (v', bs, os) \<Longrightarrow> G v' bs os = Some (v2, bs2, os2) \<Longrightarrow> prefix os os2"
  shows "refines_opt (refused f c0) ib f c0 W (case r of Inl e \<Rightarrow> Some (Inl e) | Inr (v, s) \<Rightarrow> F v s)
           (Option.bind m (\<lambda>(v', bs, os). G v' bs os))"
proof (cases r)
  case (Inl e)
  with assms(1) have "\<forall>v bs os. m = Some (v, bs, os) \<longrightarrow> refused f c0 os" by (simp add: refines_def)
  then have "refines (refused f c0) ib f c0 W (Inl e) (Option.bind m (\<lambda>(v', bs, os). G v' bs os))"
    using grows refused_mono by (fastforce simp: refines_def bind_eq_Some_conv)
  with Inl show ?thesis by (simp add: refines_opt_def)
next
  case (Inr p)
  obtain v s where p: "p = (v, s)" by fastforce
  with Inr assms(1) obtain v' bs os where "m = Some (v', bs, os)" "V v s v'" "win ib f c0 s bs os"
    by (auto simp: refines_def)
  with Inr p assms(2) [of v' bs os v s] show ?thesis by simp
qed

abbreviation same :: "'a \<Rightarrow> 'c inf_state_t \<Rightarrow> 'a \<Rightarrow> bool" where
  "same v s v' \<equiv> v = v'"

abbreviation same_nat :: "nat \<Rightarrow> u32 \<Rightarrow> 'c inf_state_t \<Rightarrow> nat \<Rightarrow> bool" where
  "same_nat n v s v' \<equiv> unat v = v' \<and> v' < 2 ^ n"

lemma refines_get_bits:
  "win ib f c0 s bs os \<Longrightarrow> n \<le> 32 \<Longrightarrow> refines E ib f c0 (same_nat n) (get_bits n s) (read_bits n bs os)"
  using get_bits_reader [OF win_reader, of ib f c0 s bs os n] win_frame [of ib f c0 s bs os]
    bits_val_less [of "take n bs"]
  by (auto simp: refines_def read_bits_def min_absorb2 split: sum.splits)

lemma refines_extra_bits:
  "win ib f c0 s bs os \<Longrightarrow> n \<le> 32 \<Longrightarrow>
     refines E ib f c0 (same_nat n) (if n \<noteq> 0 then get_bits n s else Inr (0, s)) (read_bits n bs os)"
proof (cases "n = 0")
  case True
  assume "win ib f c0 s bs os"
  with True show ?thesis by (auto simp: read_bits_def bits_val_def intro!: refines_Inr)
qed (simp add: refines_get_bits)

definition coded :: "huff_t \<Rightarrow> (nat \<Rightarrow> nat) \<Rightarrow> nat \<Rightarrow> bool" where
  "coded h lens n \<longleftrightarrow> code_ok lens n \<and> table_ok h lens n \<and> (\<forall>s<n. lens s < 16) \<and> n \<le> 320"

lemma refines_huff_decode:
  "win ib f c0 s bs os \<Longrightarrow> coded h lens n \<Longrightarrow> refines E ib f c0 same (huff_decode h s) (decode_sym lens n bs os)"
  using huff_decode_reader [OF win_reader, of ib f c0 s bs os lens n h os] win_frame [of ib f c0 s bs os]
  by (fastforce simp: refines_def coded_def split: sum.splits)

lemma bits_bytes_Suc:
  "bits_bytes (Suc n) bs = of_nat (bits_val (take 8 bs)) # bits_bytes n (drop 8 bs)"
  by (simp add: bits_bytes_def map_upt_Suc add.commute del: upt_Suc)

lemma refines_stored_loop:
  "win ib f c0 s bs os \<Longrightarrow> refines (refused f c0) ib f c0 same (stored_loop n s)
     (if length bs < 8 * n then None else Some ((), drop (8 * n) bs, os @ bits_bytes n bs))"
proof (induction n arbitrary: s bs os)
  case 0
  then show ?case by (simp add: refines_def bits_bytes_def)
next
  case (Suc n)
  show ?case
  proof (cases "out_room s")
    case (Inl e)
    with out_room_win [OF Suc.prems] show ?thesis by (auto simp: refines_def intro: refused_mono)
  next
    case (Inr p)
    obtain slid t where p: "p = (slid, t)" by fastforce
    with Inr out_room_win [OF Suc.prems] have t: "win ib f c0 t bs os" "out_len t < INF_BUFSZ" by simp_all
    show ?thesis
    proof (cases "get_bits 8 t")
      case (Inl e)
      with get_bits_reader [OF win_reader [OF t(1)], of 8] \<open>out_room s = Inr p\<close> p show ?thesis
        by (simp add: refines_def)
    next
      case (Inr q)
      obtain b u where q: "q = (b, u)" by fastforce
      with Inr get_bits_reader [OF win_reader [OF t(1)], of 8]
      have u: "8 \<le> length bs" "unat b = bits_val (take 8 bs)" "reader u (drop 8 bs)" "frame u = frame t" by simp_all
      then have "win ib f c0 (out_put (ucast b) u) (drop 8 bs) (os @ [ucast b])"
        using t frame_fields(4) [OF u(4)] by (intro out_put_win win_frame [OF t(1)]) simp_all
      moreover have "ucast b = (of_nat (bits_val (take 8 bs)) :: u8)" unfolding u(2) [symmetric] by (rule of_nat_unat [symmetric])
      ultimately have "refines (refused f c0) ib f c0 same (stored_loop n (out_put (ucast b) u))
          (if length (drop 8 bs) < 8 * n then None
           else Some ((), drop (8 * n) (drop 8 bs), (os @ [of_nat (bits_val (take 8 bs))]) @ bits_bytes n (drop 8 bs)))"
        by (intro Suc.IH) simp
      moreover have "length (drop 8 bs) < 8 * n \<longleftrightarrow> length bs < 8 * Suc n" using u(1) by auto
      ultimately show ?thesis
        using \<open>out_room s = Inr p\<close> Inr p q
        by (cases "length bs < 8 * Suc n") (simp_all add: bits_bytes_Suc add.commute)
    qed
  qed
qed

lemma xor_complement:
  fixes a b :: u32
  assumes "unat a < 2 ^ 16" and "unat b < 2 ^ 16"
  shows "a XOR 0xFFFF = b \<longleftrightarrow> unat a + unat b = 0xFFFF"
proof -
  have m: "(0xFFFF :: u32) = mask 16" by (simp add: mask_eq_exp_minus_1)
  have hi: "k < 16" if "bit a k" for k
    using nat_bit_high [OF assms(1), of k] that by (fastforce simp: bit_unsigned_iff dest: bit_imp_le_length)
  have "a + (a XOR mask 16) = a OR (a XOR mask 16)" by (rule disjunctive_add) (auto simp: bit_simps dest: hi)
  also have "\<dots> = mask 16" by (rule bit_eqI) (auto simp: bit_simps dest: hi)
  finally have "a XOR 0xFFFF = b \<longleftrightarrow> a + b = 0xFFFF" unfolding m by (metis add_left_cancel)
  also have "\<dots> \<longleftrightarrow> unat (a + b) = unat (0xFFFF :: u32)" by (rule word_unat_eq_iff)
  also have "unat (a + b) = unat a + unat b" using assms by (intro unat_add_small) simp
  finally show ?thesis by simp
qed

lemma refines_stored:
  assumes w: "win ib f c0 s bs os"
  shows "refines (refused f c0) ib f c0 same (inflate_stored s) (spec_stored bs os)"
proof -
  let ?s = "s\<lparr>bitbuf := drop_bit (bitcnt s mod 8) (bitbuf s), bitcnt := bitcnt s - bitcnt s mod 8\<rparr>"
  have r: "reader s bs" using w by (rule win_reader)
  have "length bs mod 8 = bitcnt s mod 8" by (simp add: inf_bits_length [OF r])
  then have "reader ?s (drop (length bs mod 8) bs)" using reader_drop [OF r, of "bitcnt s mod 8"] by simp
  then have w': "win ib f c0 ?s (drop (length bs mod 8) bs) os" by (intro win_frame [OF w]) simp_all
  show ?thesis
    unfolding inflate_stored_def spec_stored_def Let_def
  proof (rule refines_bind [OF refines_get_bits [OF w']], simp, rule refines_bind [OF refines_get_bits], assumption, simp)
    fix len nlen :: u32 and len' nlen' t bs os and u :: "'a inf_state_t"
    assume len: "unat len = len' \<and> len' < 2 ^ 16" and nlen: "unat nlen = nlen' \<and> nlen' < 2 ^ 16"
      and u: "win ib f c0 u bs os"
    have x: "len XOR 0xFFFF = nlen \<longleftrightarrow> len' + nlen' = 0xFFFF" using xor_complement [of len nlen] len nlen by simp
    have k: "sink u = Some f" using u by (simp add: win_def)
    show "refines (refused f c0) ib f c0 same (if len XOR 0xFFFF \<noteq> nlen then Inl u
          else if sink u = None \<and> out_cap u < out_len u + unat len then Inl u else stored_loop (unat len) u)
        (if len' + nlen' \<noteq> 0xFFFF \<or> length bs < 8 * len' then None
         else Some ((), drop (8 * len') bs, os @ bits_bytes len' bs))"
      using refines_stored_loop [OF u, of len'] len unfolding x k by (auto simp: refines_Inl)
  qed
qed

lemma lz_copy_length: "length (lz_copy n d os) = length os + n"
  by (induction n arbitrary: os) simp_all

lemma refines_copy_loop:
  "win ib f c0 s bs os \<Longrightarrow> 0 < d \<Longrightarrow> d \<le> out_len s \<Longrightarrow> d \<le> INF_KEEP \<Longrightarrow>
     refines (refused f c0) ib f c0 same (copy_loop n d (out_len s - d) s) (Some ((), bs, lz_copy n d os))"
proof (induction n arbitrary: s os)
  case 0
  then show ?case by (simp add: refines_def)
next
  case (Suc n)
  show ?case
  proof (cases "out_room s")
    case (Inl e)
    with out_room_win [OF Suc.prems(1)] lz_copy_grows [of os "Suc n" d] show ?thesis
      by (auto simp: refines_def intro: refused_mono simp del: lz_copy.simps)
  next
    case (Inr p)
    obtain slid t where p: "p = (slid, t)" by fastforce
    with Inr out_room_win [OF Suc.prems(1)] have t: "win ib f c0 t bs os" "out_len t < INF_BUFSZ"
      "if slid then INF_KEEP \<le> out_len t else t = s" by simp_all
    have d: "d \<le> out_len t" and src: "(if slid then out_len t - d else out_len s - d) = out_len t - d"
      using t(3) Suc.prems by (auto split: if_splits)
    from t(1) obtain ds where ds: "os = concat ds @ map (out t) [0..<out_len t]" unfolding win_def by blast
    then have i: "length os - d = length (concat ds) + (out_len t - d)" using d by simp
    have b: "os ! (length os - d) = out t (out_len t - d)"
      unfolding i unfolding ds nth_append_length_plus using d Suc.prems(2) by simp
    have "refines (refused f c0) ib f c0 same (copy_loop n d (out_len (out_put (out t (out_len t - d)) t) - d) (out_put (out t (out_len t - d)) t))
       (Some ((), bs, lz_copy n d (os @ [out t (out_len t - d)])))"
      using t d Suc.prems by (intro Suc.IH out_put_win) (simp_all add: out_put_def)
    moreover have "out_len (out_put x t) - d = out_len t - d + 1" for x using d by (simp add: out_put_def)
    ultimately show ?thesis using Inr p src by (simp add: b Let_def)
  qed
qed

lemma win_history: "win ib f c0 s bs os \<Longrightarrow> d \<le> INF_KEEP \<Longrightarrow> out_len s < d \<longleftrightarrow> length os < d"
  by (fastforce simp: win_def)

lemma len_ext_bound: "k < 29 \<Longrightarrow> len_ext ! k \<le> 32"
proof -
  have "list_all (\<lambda>e. e \<le> 32) len_ext" by (simp add: len_ext_def)
  then show "k < 29 \<Longrightarrow> len_ext ! k \<le> 32" by (simp add: list_all_length) (simp add: len_ext_def)
qed

lemma dist_bound: "d < 30 \<Longrightarrow> 0 < dist_base ! d \<and> dist_ext ! d \<le> 32 \<and> dist_base ! d + 2 ^ dist_ext ! d \<le> INF_KEEP + 1"
proof -
  have "list_all2 (\<lambda>b e. 0 < b \<and> e \<le> 32 \<and> b + 2 ^ e \<le> INF_KEEP + 1) dist_base dist_ext"
    by (simp add: dist_base_def dist_ext_def INF_KEEP_def)
  moreover have "length dist_base = 30" by (simp add: dist_base_def)
  ultimately show "d < 30 \<Longrightarrow> 0 < dist_base ! d \<and> dist_ext ! d \<le> 32 \<and> dist_base ! d + 2 ^ dist_ext ! d \<le> INF_KEEP + 1"
    using list_all2_nthD by fastforce
qed

lemma refines_match:
  assumes w: "win ib f c0 s bs os" and c: "coded dist dlens dn"
  shows "refines (refused f c0) ib f c0 same (inflate_match dist k s) (spec_match dlens dn k bs os)"
proof (cases "29 \<le> k")
  case True
  then show ?thesis by (simp add: inflate_match_def spec_match_def refines_Inl)
next
  case False
  then have k: "len_ext ! k \<le> 32" using len_ext_bound by simp
  show ?thesis
    unfolding inflate_match_def spec_match_def Let_def using False
    apply (simp only: if_False)
    apply (rule refines_bind [OF refines_extra_bits [OF w k]])
    apply (rule refines_bind [OF refines_huff_decode [OF _ c]], assumption)
    subgoal for e t e' bs1 os1 d u d' bs2 os2
    proof (cases "30 \<le> d'")
      case True
      assume "d = d'"
      with True show ?thesis by (simp add: refines_Inl)
    next
      case D: False
      assume e: "same_nat (len_ext ! k) e t e'" and d: "d = d'" and u: "win ib f c0 u bs2 os2"
      note b = dist_bound [of d', OF D [unfolded not_le]]
      show ?thesis
        unfolding d using D
        apply (simp only: if_False)
        apply (rule refines_bind [OF refines_extra_bits [OF u]])
        using b apply blast
        subgoal for x v x' bs3 os3
        proof -
          assume x: "same_nat (dist_ext ! d') x v x'" and v: "win ib f c0 v bs3 os3"
          have "dist_base ! d' + x' \<le> INF_KEEP" using b x by linarith
          moreover from this have "out_len v < dist_base ! d' + x' \<longleftrightarrow> length os3 < dist_base ! d' + x'"
            by (rule win_history [OF v])
          ultimately show ?thesis
            using refines_copy_loop [OF v, of "dist_base ! d' + x'" "len_base ! k + e'"] x e b
            by (auto simp: refines_Inl)
        qed
        done
    qed
    done
qed

lemma refines_opt_room:
  assumes "win ib f c0 s bs os"
    and "\<And>t. win ib f c0 t bs os \<Longrightarrow> out_len t < INF_BUFSZ \<Longrightarrow> refines_opt (refused f c0) ib f c0 W (F t) m"
    and "\<And>v bs' os'. m = Some (v, bs', os') \<Longrightarrow> prefix os os'"
  shows "refines_opt (refused f c0) ib f c0 W (case out_room s of Inl e \<Rightarrow> Some (Inl e) | Inr (_, s) \<Rightarrow> F s) m"
proof (cases "out_room s")
  case (Inl e)
  with out_room_win [OF assms(1)] assms(3) show ?thesis
    by (auto simp: refines_opt_def refines_def intro: refused_mono)
next
  case (Inr p)
  obtain slid t where "p = (slid, t)" by fastforce
  with Inr out_room_win [OF assms(1)] assms(2) [of t] show ?thesis by simp
qed

lemma refines_codes:
  assumes lit: "coded lit lens n" and dist: "coded dist dlens dn"
  shows "win ib f c0 s bs os \<Longrightarrow>
    refines_opt (refused f c0) ib f c0 same (inflate_codes lit dist s) (spec_codes lens n dlens dn bs os)"
proof (induction "length bs" arbitrary: s bs os rule: less_induct)
  case less
  show ?case
    unfolding inflate_codes.simps [of lit dist s] spec_codes.simps [of lens n dlens dn bs os]
  proof (rule refines_opt_bind [OF refines_huff_decode [OF less.prems lit]])
    fix v t v' bs1 os1
    assume d: "decode_sym lens n bs os = Some (v', bs1, os1)" and v: "v = v'" and t: "win ib f c0 t bs1 os1"
    have sh: "length bs1 < length bs" by (rule decode_sym_shrinks [OF d])
    show "refines_opt (refused f c0) ib f c0 same
       (if v < 256 then case out_room t of Inl e \<Rightarrow> Some (Inl e) | Inr (_, s) \<Rightarrow> inflate_codes lit dist (out_put (of_nat v) s)
        else if v = 256 then Some (Inr ((), t))
        else case inflate_match dist (v - 257) t of Inl e \<Rightarrow> Some (Inl e) | Inr (_, s) \<Rightarrow> inflate_codes lit dist s)
       (if v' < 256 then spec_codes lens n dlens dn bs1 (os1 @ [of_nat v'])
        else if v' = 256 then Some ((), bs1, os1)
        else Option.bind (spec_match dlens dn (v' - 257) bs1 os1) (\<lambda>(_, bs, os). spec_codes lens n dlens dn bs os))"
    proof -
      have lit_case: "refines_opt (refused f c0) ib f c0 same
          (case out_room t of Inl e \<Rightarrow> Some (Inl e) | Inr (_, s) \<Rightarrow> inflate_codes lit dist (out_put (of_nat v') s))
          (spec_codes lens n dlens dn bs1 (os1 @ [of_nat v']))"
        by (rule refines_opt_room [OF t], rule less.hyps [OF sh], rule out_put_win)
          (auto dest: spec_codes_grows append_prefixD)
      have match_case: "refines_opt (refused f c0) ib f c0 same
          (case inflate_match dist (v' - 257) t of Inl e \<Rightarrow> Some (Inl e) | Inr (_, s) \<Rightarrow> inflate_codes lit dist s)
          (Option.bind (spec_match dlens dn (v' - 257) bs1 os1) (\<lambda>(_, bs, os). spec_codes lens n dlens dn bs os))"
        by (rule refines_opt_bind_refused [OF refines_match [OF t dist]], rule less.hyps)
          (use sh in \<open>auto dest: spec_match_shrinks spec_codes_grows\<close>)
      have "refines_opt (refused f c0) ib f c0 same (Some (Inr ((), t))) (Some ((), bs1, os1))"
        using t by (simp add: refines_opt_def refines_def)
      with lit_case match_case show ?thesis unfolding v by simp
    qed
  qed
qed

subsection \<open>Preparing the tables\<close>

lemma len_count_Suc:
  "len_count lens (Suc n) l = len_count lens n l + (if lens n = l \<and> l \<noteq> 0 then 1 else 0)"
  by (simp add: len_count_def)

lemma huff_counts_len_count: "huff_counts lens n (\<lambda>_. 0) l = of_nat (len_count lens n l)"
  by (induction n) (auto simp: huff_counts_def len_count_Suc len_count_def)

definition put_sym :: "nat \<Rightarrow> (nat \<Rightarrow> u16) \<times> nat \<Rightarrow> (nat \<Rightarrow> u16) \<times> nat" where
  "put_sym s = (\<lambda>(f, i). (f(i := of_nat s), i + 1))"

lemma fold_put_sym:
  "fold put_sym xs (f, i) = ((\<lambda>k. if i \<le> k \<and> k < i + length xs then of_nat (xs ! (k - i)) else f k), i + length xs)"
proof (induction xs arbitrary: f i)
  case (Cons x xs)
  have "put_sym x (f, i) = (f(i := of_nat x), Suc i)" by (simp add: put_sym_def)
  then show ?case by (auto simp: Cons.IH fun_eq_iff nth_Cons' Suc_diff_le)
qed (auto simp: fun_eq_iff)

lemma fold_put_filter:
  "fold (\<lambda>s (f, i). if P s then (f(i := of_nat s), i + 1) else (f, i)) xs st = fold put_sym (filter P xs) st"
  by (induction xs arbitrary: st) (auto simp: put_sym_def split: prod.split)

lemma fold_concat_map: "fold f (concat (map g xs)) = fold (\<lambda>x. fold f (g x)) xs"
  by (induction xs) (auto simp: fold_append)

lemma huff_sort_eq: "huff_sort lens n syms = fst (fold put_sym (sorted_syms lens n 16) (syms, 0))"
  unfolding huff_sort_def sorted_syms_def INFLATE_MAX_BITS_def fold_put_filter fold_concat_map by simp

lemma prepared_huff:
  assumes "n \<le> 320" and "\<forall>s<n. lens s < 16" and "\<forall>l<16. cnt l = of_nat (len_count lens n l)"
  shows "prepared (huff_zero\<lparr>hcount := cnt, hsym := huff_sort lens n syms\<rparr>) lens n"
  using assms by (auto simp: prepared_def huff_sort_eq fold_put_sym)

lemma prepared_huff_from: "n \<le> 320 \<Longrightarrow> \<forall>s<n. lens s < 16 \<Longrightarrow> prepared (huff_from lens n) lens n"
  unfolding huff_from_def by (rule prepared_huff) (simp_all add: huff_zero_def huff_counts_len_count)

lemma huff_build_cases:
  assumes "prepared h lens n"
  shows "(\<not> code_ok lens n \<and> huff_build h = None) \<or> (\<exists>h'. huff_build h = Some h' \<and> coded h' lens n)"
  using huff_build_spec [OF assms] assms by (auto simp: coded_def prepared_def split: option.splits)

lemma upt_1_16: "[1..<16] = [1, 2, 3, 4, 5, 6, 7, 8, 9, 10, 11, 12, 13, 14, 15 :: nat]"
  by (simp add: upt_rec)

lemma sum_upto_15: "(\<Sum>l\<in>{1..15::nat}. F l) = F 1 + F 2 + F 3 + F 4 + F 5 + F 6 + F 7 + F 8 + F 9 + F 10 + F 11 + F 12 + F 13 + F 14 + (F 15 :: nat)"
proof -
  have "{1..15} = set [1..<16 :: nat]" by auto
  then have "(\<Sum>l\<in>{1..15::nat}. F l) = sum_list (map F [1..<16])"
    by (simp only: sum_list_distinct_conv_sum_set distinct_upt)
  then show ?thesis unfolding upt_1_16 by simp
qed

text \<open>
  C15. The direct lookup table decodes the canonical code. For any assignment of code lengths up to
  15 to at most 320 symbols, \<open>huff_build()\<close> on the counted and sorted symbols fails exactly when no
  symbol has a code or the lengths violate the Kraft inequality. Otherwise, whatever is left of the
  input, one lookup in the 32768-entry table finds the symbol whose RFC 1951 codeword starts the
  remaining bits and consumes exactly that codeword, and fails when there is none, also when fewer
  bits are left than the table index has.
\<close>

theorem huff_table_decodes:
  assumes "n \<le> 320" and "\<forall>s<n. lens s < 16" and "reader st bs"
  shows "case huff_build (huff_from lens n) of
      None \<Rightarrow> \<not> code_ok lens n
    | Some h \<Rightarrow> code_ok lens n \<and>
        (case huff_decode h st of
           Inl _ \<Rightarrow> decode_sym lens n bs os = None
         | Inr (v, st') \<Rightarrow> \<exists>bs'. decode_sym lens n bs os = Some (v, bs', os) \<and> reader st' bs' \<and> frame st' = frame st)"
  using huff_build_cases [OF prepared_huff_from [OF assms(1,2)]]
    huff_decode_reader [OF assms(3), of lens n _ os]
  by (auto simp: coded_def)

definition one_bit_lens :: "nat \<Rightarrow> nat" where
  "one_bit_lens s = (if s < 2 then 1 else 0)"

theorem huff_table_decodes_witness:
  "case huff_build (huff_from one_bit_lens 2) of None \<Rightarrow> False
   | Some h \<Rightarrow> case huff_decode h (inf_start [0x01] (\<lambda>c _. (True, c)) () (\<lambda>_. 0) inf_static) of
        Inl _ \<Rightarrow> False | Inr (v, _) \<Rightarrow> v = 1"
proof -
  let ?s = "inf_start [0x01] (\<lambda>c _. (True, c)) () (\<lambda>_. 0) inf_static"
  have b: "bits_of [0x01 :: u8] = [True, False, False, False, False, False, False, False]" by code_simp
  have r: "reader ?s (bits_of [0x01])" by (simp add: reader_def inf_start_def inf_bits_def)
  have l: "\<forall>s<2. one_bit_lens s < 16" by (simp add: one_bit_lens_def)
  have up: "[0..<2] = [0, 1 :: nat]" by (simp add: upt_rec)
  have ok: "code_ok one_bit_lens 2"
    unfolding code_ok_def sum_upto_15 len_count_def up by (simp add: one_bit_lens_def)
  have d: "decode_sym one_bit_lens 2 (bits_of [0x01]) [] = Some (1, drop 1 (bits_of [0x01]), [])"
    unfolding b decode_sym_def up by (simp add: one_bit_lens_def codeword_def code_value_def bit_0)
  show ?thesis
    using huff_table_decodes [of 2 one_bit_lens ?s "bits_of [0x01]" "[]"] l r ok d
    by (auto split: option.splits sum.splits)
qed

text \<open>
  A block whose distance alphabet is empty is refused, although RFC 1951 (3.2.7) allows it for
  blocks of literals only.
\<close>

lemma empty_distance_code: "huff_build (huff_from (\<lambda>_. 0) 1) = None"
proof -
  have "prepared (huff_from (\<lambda>_. 0) 1) (\<lambda>_. 0) 1" by (rule prepared_huff_from) simp_all
  moreover have "\<not> code_ok (\<lambda>_. 0) 1" by (simp add: code_ok_def)
  ultimately show ?thesis using huff_build_cases [of "huff_from (\<lambda>_. 0) 1" "\<lambda>_. 0" 1] by (auto simp: coded_def)
qed

text \<open>
  A repeat copies the last length sent on its own, not the previous entry of the array: after a run
  of zeros it repeats the length before the run.
\<close>

lemma repeat_after_zeros:
  assumes "get_bits 2 s = Inr (v, s')" and "cur < n"
  shows "\<exists>cur' lens'. lens_step n 16 (cur, Some l, lens) s = Inr ((cur', Some l, lens'), s') \<and> lens' cur = l"
proof -
  have keep: "cur < c \<Longrightarrow> snd (rep_loop rep l n c lens) cur = lens cur" for rep c lens
    by (induction rep arbitrary: c lens) auto
  obtain rep where rep: "3 + unat v = Suc rep" by simp
  have "snd (rep_loop (3 + unat v) l n cur lens) cur = l"
    unfolding rep using assms(2) keep [of "cur + 1" rep "lens(cur := l)"] by simp
  then show ?thesis using assms(1)
    by (cases "rep_loop (3 + unat v) l n cur lens") (simp add: lens_step_def)
qed

text \<open>The fixed codes.\<close>

lemma bump_eq: "bump l xs c = c(l := c l + of_nat (length xs))"
  unfolding bump_def by (induction xs arbitrary: c) (auto simp: fun_eq_iff)

lemma len_count_fixed:
  "len_count fixed_len 288 l = (if l = 8 then 152 else if l = 9 then 112 else if l = 7 then 24 else 0)"
proof -
  have up: "[0..<288] = [0..<144] @ [144..<256] @ [256..<280] @ [280..<288::nat]"
    using upt_add_eq_append [of 0 144 144] upt_add_eq_append [of 144 256 32] upt_add_eq_append [of 256 280 8] by simp
  have seg: "length (filter (\<lambda>s. fixed_len s = l) xs) = (if c = l then length xs else 0)"
    if "\<forall>s\<in>set xs. fixed_len s = c" for xs c
    using that by (induction xs) auto
  have "length (filter (\<lambda>s. fixed_len s = l) [0..<288]) =
      (if 8 = l then 144 else 0) + ((if 9 = l then 112 else 0) + ((if 7 = l then 24 else 0) + (if 8 = l then 8 else 0)))"
    unfolding up filter_append length_append
    by (subst seg [of _ 8], simp add: fixed_len_def, subst seg [of _ 9], simp add: fixed_len_def,
        subst seg [of _ 7], simp add: fixed_len_def, subst seg [of _ 8], simp add: fixed_len_def) simp
  then show ?thesis unfolding len_count_def by auto
qed

lemma len_count_dist: "len_count (\<lambda>_. 5) 30 l = (if l = 5 then 30 else 0)"
  by (auto simp: len_count_def)

lemma code_ok_fixed: "code_ok fixed_len 288" "code_ok (\<lambda>_. 5) 30"
  unfolding code_ok_def sum_upto_15 len_count_fixed len_count_dist
  by (auto simp: fixed_len_def intro: exI [of _ 0])

lemma build_fixed_ok:
  assumes "globals_ok g"
  shows "globals_ok (build_fixed g) \<and> fixed_ready (build_fixed g)"
proof (cases "fixed_ready g")
  case True
  with assms show ?thesis by (simp add: build_fixed_def)
next
  case False
  define lit where "lit = huff_zero\<lparr>hcount := bump 8 [280..<288] (bump 7 [256..<280]
      (bump 9 [144..<256] (bump 8 [0..<144] (hcount huff_zero)))), hsym := huff_sort fixed_len 288 (hsym huff_zero)\<rparr>"
  define dist where "dist = huff_zero\<lparr>hcount := bump 5 [0..<30] (hcount huff_zero),
      hsym := fold (\<lambda>i f. f(i := of_nat i)) [0..<30] (hsym huff_zero)\<rparr>"
  have "prepared lit fixed_len 288" unfolding lit_def
    by (rule prepared_huff) (auto simp: fixed_len_def huff_zero_def bump_eq len_count_fixed)
  then obtain lit' where lit': "huff_build lit = Some lit'" "coded lit' fixed_len 288"
    using huff_build_cases code_ok_fixed(1) by blast
  have "sorted_syms (\<lambda>_. 5) 30 16 = [0..<30]" unfolding sorted_syms_def upt_1_16 by simp
  moreover have "fold (\<lambda>i f. f(i := of_nat i)) [0..<n] m = (\<lambda>k. if k < n then of_nat k else m k)" for n and m :: "nat \<Rightarrow> u16"
    by (induction n) auto
  ultimately have "prepared dist (\<lambda>_. 5) 30"
    unfolding dist_def prepared_def by (auto simp: huff_zero_def bump_eq len_count_dist)
  then obtain dist' where dist': "huff_build dist = Some dist'" "coded dist' (\<lambda>_. 5) 30"
    using huff_build_cases code_ok_fixed(2) by blast
  have "build_fixed g = g\<lparr>fixed_lit := lit', fixed_dist := dist', fixed_ready := True\<rparr>"
    using False lit'(1) dist'(1) by (simp add: build_fixed_def Let_def lit_def dist_def)
  with lit'(2) dist'(2) show ?thesis by (simp add: globals_ok_def coded_def)
qed

lemma coded_fixed:
  "globals_ok g \<Longrightarrow> fixed_ready g \<Longrightarrow> coded (fixed_lit g) fixed_len 288 \<and> coded (fixed_dist g) (\<lambda>_. 5) 30"
  using code_ok_fixed by (auto simp: globals_ok_def coded_def fixed_len_def)

subsection \<open>Dynamic tables\<close>

lemma len_count_update:
  "k < n \<Longrightarrow> lens k = 0 \<Longrightarrow>
     len_count (lens(k := v)) n l = len_count lens n l + (if v = l \<and> l \<noteq> 0 then 1 else 0)"
proof (induction n)
  case (Suc n)
  show ?case
  proof (cases "k = n")
    case True
    have "len_count (lens(n := v)) n l = len_count lens n l"
      unfolding len_count_def by (intro if_cong refl arg_cong [of _ _ length] filter_cong) auto
    with True Suc.prems show ?thesis by (auto simp: len_count_Suc fun_upd_same simp del: fun_upd_apply)
  next
    case False
    with Suc show ?thesis by (auto simp: len_count_Suc fun_upd_other simp del: fun_upd_apply)
  qed
qed simp

definition clc_inv :: "(nat \<Rightarrow> nat) \<times> (nat \<Rightarrow> u16) \<Rightarrow> 'c inf_state_t \<Rightarrow> (nat \<Rightarrow> nat) \<Rightarrow> bool" where
  "clc_inv v s lens \<longleftrightarrow> fst v = lens \<and> (\<forall>l<16. snd v l = of_nat (len_count lens 19 l)) \<and> (\<forall>k. lens k < 16)"

lemma refines_clc:
  "win ib f c0 s bs os \<Longrightarrow> distinct ks \<Longrightarrow> \<forall>k\<in>set ks. k < 19 \<and> lens k = 0 \<Longrightarrow> clc_inv (lens, cnt) s lens \<Longrightarrow>
     refines E ib f c0 clc_inv (clc_loop ks (lens, cnt) s) (spec_clc ks lens bs os)"
proof (induction ks arbitrary: lens cnt s bs os)
  case Nil
  then show ?case by (simp add: refines_def clc_inv_def)
next
  case (Cons k ks)
  show ?case
    unfolding clc_loop.simps spec_clc.simps
  proof (rule refines_bind [OF refines_get_bits [OF Cons.prems(1)]], simp)
    fix v :: u32 and t :: "'a inf_state_t" and v' bs1 os1
    assume v: "unat v = v' \<and> v' < 2 ^ 3" and t: "win ib f c0 t bs1 os1"
    have z: "v \<noteq> 0 \<longleftrightarrow> v' \<noteq> 0" using v by (metis unsigned_eq_0_iff)
    have inv: "clc_inv (lens(k := v'), if v \<noteq> 0 then cnt(v' := cnt v' + 1) else cnt) t (lens(k := v'))"
      using Cons.prems(3,4) v len_count_update [of k 19 lens v'] unfolding z clc_inv_def by auto
    have "distinct ks" "\<forall>j\<in>set ks. j < 19 \<and> (lens(k := v')) j = 0" using Cons.prems(2,3) by auto
    from Cons.IH [OF t this inv] show "refines E ib f c0 clc_inv
        (clc_loop ks (lens(k := unat v), if v \<noteq> 0 then cnt(unat v := cnt (unat v) + 1) else cnt) t)
        (spec_clc ks (lens(k := v')) bs1 os1)"
      unfolding conjunct1 [OF v] .
  qed
qed

lemma refines_clc_order:
  assumes "win ib f c0 s bs os"
  shows "refines E ib f c0 clc_inv (clc_loop (take n clc_order) (\<lambda>_. 0, \<lambda>_. 0) s) (spec_clc (take n clc_order) (\<lambda>_. 0) bs os)"
proof (rule refines_clc [OF assms])
  show "distinct (take n clc_order)" by (rule distinct_take) (simp add: clc_order_def)
  have "set clc_order \<subseteq> {..<19}" by (simp add: clc_order_def)
  then show "\<forall>k\<in>set (take n clc_order). k < 19 \<and> 0 = (0 :: nat)" using set_take_subset [of n clc_order] by auto
  show "clc_inv (\<lambda>_. 0, \<lambda>_. 0) s (\<lambda>_. 0)" by (simp add: clc_inv_def len_count_def)
qed

text \<open>The array of code lengths and its fill index against the list of the reference.\<close>

definition lens_rel :: "nat \<Rightarrow> nat \<times> nat option \<times> (nat \<Rightarrow> nat) \<Rightarrow> 'c inf_state_t \<Rightarrow> nat option \<times> nat list \<Rightarrow> bool" where
  "lens_rel n st s st' \<longleftrightarrow>
     (case st of (cur, prev, lens) \<Rightarrow> case st' of (prev', ls) \<Rightarrow>
        prev = prev' \<and> cur = length (take n ls) \<and> lens = nth_or_0 (take n ls) \<and>
        (\<forall>l\<in>set ls. l < 16) \<and> (\<forall>l. prev' = Some l \<longrightarrow> l < 16))"

lemma nth_or_0_snoc: "(nth_or_0 ls)(length ls := v) = nth_or_0 (ls @ [v])"
  by (auto simp: fun_eq_iff nth_or_0_def nth_append)

lemma rep_loop_eq:
  "rep_loop rep v n (length (take n ls)) (nth_or_0 (take n ls)) =
     (length (take n (ls @ replicate rep v)), nth_or_0 (take n (ls @ replicate rep v)))"
proof (induction rep arbitrary: ls)
  case (Suc rep)
  show ?case
  proof (cases "length ls < n")
    case True
    then have "take n ls = ls" "take n (ls @ [v]) = ls @ [v]" by simp_all
    then show ?thesis using True Suc.IH [of "ls @ [v]"] nth_or_0_snoc [of ls v] by simp
  qed simp
qed simp

lemma refines_entry:
  assumes w: "win ib f c0 s bs os" and r: "lens_rel n st s st'" and lt: "fst st < n"
  shows "refines E ib f c0 (lens_rel n) (lens_step n k st s) (spec_entry k st' bs os)"
proof -
  obtain prev ls where st': "st' = (prev, ls)" by fastforce
  with r have st: "st = (length (take n ls), prev, nth_or_0 (take n ls))"
    and b: "\<forall>l\<in>set ls. l < 16" "\<forall>l. prev = Some l \<longrightarrow> l < 16" by (auto simp: lens_rel_def)
  with lt have ls: "length ls < n" "take n ls = ls" by auto
  have rep: "refines E ib f c0 (lens_rel n)
      (case get_bits j s of Inl e \<Rightarrow> Inl e | Inr (v, s) \<Rightarrow>
         (case rep_loop (c + unat v) l n (length (take n ls)) (nth_or_0 (take n ls)) of (cur, lens) \<Rightarrow> Inr ((cur, prev, lens), s)))
      (Option.bind (read_bits j bs os) (\<lambda>(v, bs, os). Some ((prev, ls @ replicate (c + v) l), bs, os)))"
    if "j \<le> 32" "l < 16" for j c l
  proof (rule refines_bind [OF refines_get_bits [OF w that(1)]])
    fix v :: u32 and t v' bs1 os1
    assume v: "unat v = v' \<and> v' < 2 ^ j" and t: "win ib f c0 t bs1 os1"
    have "lens_rel n (length (take n (ls @ replicate (c + v') l)), prev, nth_or_0 (take n (ls @ replicate (c + v') l))) t
        (prev, ls @ replicate (c + v') l)" using b that(2) by (auto simp: lens_rel_def)
    with t v show "refines E ib f c0 (lens_rel n)
        (case rep_loop (c + unat v) l n (length (take n ls)) (nth_or_0 (take n ls)) of (cur, lens) \<Rightarrow> Inr ((cur, prev, lens), t))
        (Some ((prev, ls @ replicate (c + v') l), bs1, os1))"
      unfolding rep_loop_eq by (auto intro!: refines_Inr)
  qed
  have lit: "lens_rel n (length ls + 1, Some k, (nth_or_0 ls)(length ls := k)) s (Some k, ls @ [k])" if "k < 16"
    using b ls that by (auto simp: lens_rel_def nth_or_0_snoc)
  show ?thesis
    unfolding st st' lens_step_def spec_entry_def prod.case
    using rep [of 2 _ 3] rep [of 3 0 3] rep [of 7 0 11] lit w b(2) ls
    by (cases prev) (auto intro!: refines_Inr simp: refines_Inl)
qed

abbreviation lens_list :: "(nat \<Rightarrow> nat) \<Rightarrow> 'c inf_state_t \<Rightarrow> nat list \<Rightarrow> bool" where
  "lens_list lens s ls \<equiv> lens = nth_or_0 ls \<and> (\<forall>l\<in>set ls. l < 16)"

lemma refines_lens:
  assumes clc: "coded clc clens 19"
  shows "win ib f c0 s bs os \<Longrightarrow> lens_rel n st s st' \<Longrightarrow>
    refines E ib f c0 lens_list (lens_loop clc n st s) (spec_lens clens n st' bs os)"
proof (induction "length bs" arbitrary: s bs os st st' rule: less_induct)
  case less
  have cur: "fst st = length (take n (snd st'))" and lens: "snd (snd st) = nth_or_0 (take n (snd st'))"
    and b: "\<forall>l\<in>set (snd st'). l < 16"
    using less.prems(2) by (auto simp: lens_rel_def split: prod.splits)
  show ?case
  proof (cases "fst st < n")
    case False
    with cur have "\<not> length (snd st') < n" by simp
    moreover have "lens_list (snd (snd st)) s (take n (snd st'))" using lens b by (auto dest: in_set_takeD)
    ultimately show ?thesis
      using False less.prems(1) by (subst lens_loop.simps, subst spec_lens.simps) (simp add: refines_def)
  next
    case True
    with cur have lt: "length (snd st') < n" by simp
    have "refines E ib f c0 lens_list
       (case huff_decode clc s of Inl e \<Rightarrow> Inl e | Inr (sy, s) \<Rightarrow>
          (case lens_step n sy st s of Inl e \<Rightarrow> Inl e | Inr (st, s) \<Rightarrow> lens_loop clc n st s))
       (Option.bind (decode_sym clens 19 bs os) (\<lambda>(k, bs, os).
          Option.bind (spec_entry k st' bs os) (\<lambda>(st, bs, os). spec_lens clens n st bs os)))"
    proof (rule refines_bind [OF refines_huff_decode [OF less.prems(1) clc]])
      fix k k' t bs1 os1
      assume d: "decode_sym clens 19 bs os = Some (k', bs1, os1)" and k: "k = k'" and t: "win ib f c0 t bs1 os1"
      have r: "lens_rel n st t st'" using less.prems(2) by (simp add: lens_rel_def)
      show "refines E ib f c0 lens_list
          (case lens_step n k st t of Inl e \<Rightarrow> Inl e | Inr (st, s) \<Rightarrow> lens_loop clc n st s)
          (Option.bind (spec_entry k' st' bs1 os1) (\<lambda>(st, bs, os). spec_lens clens n st bs os))"
        unfolding k
      proof (rule refines_bind [OF refines_entry [OF t r True]])
        fix st2 u st2' bs2 os2
        assume e: "spec_entry k' st' bs1 os1 = Some (st2', bs2, os2)" and "lens_rel n st2 u st2'" "win ib f c0 u bs2 os2"
        moreover have "length bs2 < length bs" using spec_entry_shrinks [OF e] decode_sym_shrinks [OF d] by simp
        ultimately show "refines E ib f c0 lens_list (lens_loop clc n st2 u) (spec_lens clens n st2' bs2 os2)"
          by (intro less.hyps)
      qed
    qed
    with True lt show ?thesis by (subst lens_loop.simps, subst spec_lens.simps) simp
  qed
qed

lemma win_glob: "win ib f c0 s bs os \<Longrightarrow> globals_ok g \<Longrightarrow> win ib f c0 (s\<lparr>glob := g\<rparr>) bs os"
  by (simp add: win_def)

lemma win_globals: "win ib f c0 s bs os \<Longrightarrow> globals_ok (glob s)"
  by (simp add: win_def)

lemma globals_ok_dyn [simp]:
  "globals_ok (g\<lparr>dyn_clc := h\<rparr>) = globals_ok g" "globals_ok (g\<lparr>dyn_lit := h, dyn_dist := h'\<rparr>) = globals_ok g"
  by (simp_all add: globals_ok_def)

definition trees_rel :: "unit \<Rightarrow> 'c inf_state_t \<Rightarrow> trees \<Rightarrow> bool" where
  "trees_rel u s t \<longleftrightarrow> (case t of (lens, n, dlens, dn) \<Rightarrow> coded (dyn_lit (glob s)) lens n \<and> coded (dyn_dist (glob s)) dlens dn)"

lemma refines_build:
  assumes w: "win ib f c0 s bs os" and ls: "lens_list lens s ls" and n: "n \<le> 286" "dn \<le> 30"
  shows "refines E ib f c0 trees_rel (build_trees n dn lens s) (spec_build n dn ls bs os)"
proof -
  have lens: "lens = nth_or_0 ls" and b: "nth_or_0 ls i < 16" for i using ls by (auto simp: nth_or_0_def)
  have p: "prepared (huff_from lens n) lens n" "prepared (huff_from (\<lambda>i. lens (n + i)) dn) (\<lambda>i. lens (n + i)) dn"
    using n b unfolding lens by (auto intro: prepared_huff_from)
  show ?thesis
  proof (cases "lens 256 = 0 \<or> \<not> code_ok lens n \<or> \<not> code_ok (\<lambda>i. lens (n + i)) dn")
    case True
    then show ?thesis
      using huff_build_cases [OF p(1)] huff_build_cases [OF p(2)] unfolding build_trees_def spec_build_def Let_def lens [symmetric]
      by (auto simp: refines_Inl coded_def split: option.splits)
  next
    case False
    then obtain lit dist where h: "huff_build (huff_from lens n) = Some lit" "coded lit lens n"
      "huff_build (huff_from (\<lambda>i. lens (n + i)) dn) = Some dist" "coded dist (\<lambda>i. lens (n + i)) dn"
      using huff_build_cases [OF p(1)] huff_build_cases [OF p(2)] by blast
    have "win ib f c0 (s\<lparr>glob := (glob s)\<lparr>dyn_lit := lit, dyn_dist := dist\<rparr>\<rparr>) bs os"
      using w by (intro win_glob) (simp_all add: win_globals)
    then show ?thesis
      using False h unfolding build_trees_def spec_build_def Let_def lens [symmetric] by (simp add: trees_rel_def refines_def)
  qed
qed

lemma refines_trees:
  assumes w: "win ib f c0 s bs os" and n: "hlit \<le> 286" "hdist \<le> 30"
  shows "refines E ib f c0 trees_rel (inflate_trees hlit hdist hclen s) (spec_trees hlit hdist hclen bs os)"
  unfolding inflate_trees_def spec_trees_def
proof (rule refines_bind [OF refines_clc_order [OF w]])
  fix v t clens bs1 os1
  assume v: "clc_inv v t clens" and t: "win ib f c0 t bs1 os1"
  let ?h = "huff_zero\<lparr>hcount := snd v, hsym := huff_sort (fst v) 19 (hsym huff_zero)\<rparr>"
  have "prepared ?h clens 19" using v by (auto simp: clc_inv_def intro: prepared_huff)
  from huff_build_cases [OF this]
  show "refines E ib f c0 trees_rel (case huff_build ?h of None \<Rightarrow> Inl t | Some clc \<Rightarrow>
       (case lens_loop clc (hlit + hdist) (0, None, \<lambda>_. 0) (t\<lparr>glob := (glob t)\<lparr>dyn_clc := clc\<rparr>\<rparr>) of
          Inl e \<Rightarrow> Inl e | Inr (lens, s) \<Rightarrow> build_trees hlit hdist lens s))
     (if \<not> code_ok clens 19 then None
      else Option.bind (spec_lens clens (hlit + hdist) (None, []) bs1 os1) (\<lambda>(ls, bs, os). spec_build hlit hdist ls bs os))"
  proof
    assume "\<not> code_ok clens 19 \<and> huff_build ?h = None"
    then show ?thesis by (simp add: refines_Inl)
  next
    assume "\<exists>h'. huff_build ?h = Some h' \<and> coded h' clens 19"
    then obtain clc where clc: "huff_build ?h = Some clc" "coded clc clens 19" by blast
    have "win ib f c0 (t\<lparr>glob := (glob t)\<lparr>dyn_clc := clc\<rparr>\<rparr>) bs1 os1"
      using t by (intro win_glob) (simp_all add: win_globals)
    moreover have "lens_rel (hlit + hdist) (0, None, \<lambda>_. 0) (t\<lparr>glob := (glob t)\<lparr>dyn_clc := clc\<rparr>\<rparr>) (None, [])"
      by (simp add: lens_rel_def nth_or_0_def fun_eq_iff)
    ultimately have "refines E ib f c0 trees_rel
        (case lens_loop clc (hlit + hdist) (0, None, \<lambda>_. 0) (t\<lparr>glob := (glob t)\<lparr>dyn_clc := clc\<rparr>\<rparr>) of
          Inl e \<Rightarrow> Inl e | Inr (lens, s) \<Rightarrow> build_trees hlit hdist lens s)
        (Option.bind (spec_lens clens (hlit + hdist) (None, []) bs1 os1) (\<lambda>(ls, bs, os). spec_build hlit hdist ls bs os))"
      by (intro refines_bind [OF refines_lens [OF clc(2)]] refines_build [OF _ _ n])
    moreover have "code_ok clens 19" using clc(2) by (simp add: coded_def)
    ultimately show ?thesis using clc(1) by simp
  qed
qed

lemma refines_tables:
  assumes w: "win ib f c0 s bs os"
  shows "refines E ib f c0 trees_rel (inflate_dynamic_tables s) (spec_tables bs os)"
  unfolding inflate_dynamic_tables_def spec_tables_def Let_def
proof (rule refines_bind [OF refines_get_bits [OF w]], simp, rule refines_bind [OF refines_get_bits], assumption, simp,
    rule refines_bind [OF refines_get_bits], assumption, simp)
  fix v1 v2 v3 :: u32 and v1' v2' v3' bs1 os1 and t :: "'a inf_state_t"
  assume v: "unat v1 = v1' \<and> v1' < 2 ^ 5" "unat v2 = v2' \<and> v2' < 2 ^ 5" "unat v3 = v3' \<and> v3' < 2 ^ 4"
    and t: "win ib f c0 t bs1 os1"
  show "refines E ib f c0 trees_rel
      (if 286 < unat v1 + 257 \<or> 30 < unat v2 + 1 then Inl t else inflate_trees (unat v1 + 257) (unat v2 + 1) (unat v3 + 4) t)
      (if 286 < v1' + 257 \<or> 30 < v2' + 1 then None else spec_trees (v1' + 257) (v2' + 1) (v3' + 4) bs1 os1)"
    using v refines_trees [OF t, of "v1' + 257" "v2' + 1" E "v3' + 4"] by (auto simp: refines_Inl)
qed

lemma refines_block:
  assumes w: "win ib f c0 s bs os"
  shows "refines_opt (refused f c0) ib f c0 same (inflate_block ty s) (spec_block (unat ty) bs os)"
proof -
  have ty: "ty = n \<longleftrightarrow> unat ty = unat n" for n by (rule word_unat_eq_iff)
  have stored: "refines_opt (refused f c0) ib f c0 same (Some (inflate_stored s)) (spec_stored bs os)"
    using refines_stored [OF w] by (simp add: refines_opt_def)
  define s1 where "s1 = s\<lparr>glob := build_fixed (glob s)\<rparr>"
  have g: "globals_ok (glob s1)" "fixed_ready (glob s1)"
    using build_fixed_ok [OF win_globals [OF w]] by (simp_all add: s1_def)
  have "win ib f c0 s1 bs os" unfolding s1_def using build_fixed_ok [OF win_globals [OF w]] by (intro win_glob [OF w]) simp
  then have "refines_opt (refused f c0) ib f c0 same (inflate_codes (fixed_lit (glob s1)) (fixed_dist (glob s1)) s1)
      (spec_codes fixed_len 288 (\<lambda>_. 5) 30 bs os)"
    by (rule refines_codes [OF conjunct1 [OF coded_fixed [OF g]] conjunct2 [OF coded_fixed [OF g]]])
  then have fixed: "refines_opt (refused f c0) ib f c0 same
      (if \<not> fixed_ready (glob s1) then Some (Inl s1) else inflate_codes (fixed_lit (glob s1)) (fixed_dist (glob s1)) s1)
      (spec_codes fixed_len 288 (\<lambda>_. 5) 30 bs os)"
    using g(2) by simp
  have dyn: "refines_opt (refused f c0) ib f c0 same
      (case inflate_dynamic_tables s of Inl e \<Rightarrow> Some (Inl e)
       | Inr (_, s) \<Rightarrow> inflate_codes (dyn_lit (glob s)) (dyn_dist (glob s)) s)
      (Option.bind (spec_tables bs os) (\<lambda>(t, bs, os). case t of (lens, n, dlens, dn) \<Rightarrow> spec_codes lens n dlens dn bs os))"
  proof (rule refines_opt_bind [OF refines_tables [OF w]])
    fix a t and tr :: trees and bs1 os1
    assume tr: "trees_rel a t tr" and t: "win ib f c0 t bs1 os1"
    obtain lens n dlens dn where eq: "tr = (lens, n, dlens, dn)" by (cases tr)
    with tr have "coded (dyn_lit (glob t)) lens n" "coded (dyn_dist (glob t)) dlens dn" by (simp_all add: trees_rel_def)
    from refines_codes [OF this t] show "refines_opt (refused f c0) ib f c0 same (inflate_codes (dyn_lit (glob t)) (dyn_dist (glob t)) t)
        (case tr of (lens, n, dlens, dn) \<Rightarrow> spec_codes lens n dlens dn bs1 os1)"
      unfolding eq prod.case .
  qed
  have "refines_opt (refused f c0) ib f c0 (\<lambda>v s v'. (v :: unit) = v') (Some (Inl s)) None" by (simp add: refines_opt_def refines_Inl)
  with stored fixed dyn show ?thesis
    unfolding inflate_block_def spec_block_def s1_def [symmetric] Let_def
    by (auto simp: ty)
qed

lemma refines_raw:
  "win ib f c0 s bs os \<Longrightarrow> refines_opt (refused f c0) ib f c0 same (inflate_raw s) (spec_inflate bs os)"
proof (induction "length bs" arbitrary: s bs os rule: less_induct)
  case less
  show ?case
    unfolding inflate_raw.simps [of s] spec_inflate.simps [of bs os]
  proof (rule refines_opt_bind [OF refines_get_bits [OF less.prems]], simp,
      rule refines_opt_bind [OF refines_get_bits], assumption, simp)
    fix final ty :: u32 and t u final' ty' bs1 os1 bs2 os2
    assume r1: "read_bits 1 bs os = Some (final', bs1, os1)" and fin: "unat final = final' \<and> final' < 2 ^ 1"
      and r2: "read_bits 2 bs1 os1 = Some (ty', bs2, os2)" and ty: "unat ty = ty' \<and> ty' < 2 ^ 2"
      and u: "win ib f c0 u bs2 os2"
    obtain x where x: "inflate_block ty u = Some x" "refines (refused f c0) ib f c0 same x (spec_block ty' bs2 os2)"
      using refines_block [OF u, of ty] ty by (auto simp: refines_opt_def)
    have z: "final \<noteq> 0 \<longleftrightarrow> final' \<noteq> 0" using fin by (metis unsigned_eq_0_iff)
    have "refines_opt (refused f c0) ib f c0 same
        (case x of Inl e \<Rightarrow> Some (Inl e) | Inr (_, s) \<Rightarrow> if final \<noteq> 0 then Some (Inr ((), s)) else inflate_raw s)
        (Option.bind (spec_block ty' bs2 os2) (\<lambda>(_, bs, os). if final' \<noteq> 0 then Some ((), bs, os) else spec_inflate bs os))"
    proof (rule refines_opt_bind_refused [OF x(2)])
      fix a v a' bs3 os3
      assume b: "spec_block ty' bs2 os2 = Some (a', bs3, os3)" and v: "win ib f c0 v bs3 os3"
      have "length bs3 < length bs"
        using spec_block_shrinks [OF b] read_bits_shrinks [OF r1] read_bits_shrinks [OF r2] by simp
      note rest = less.hyps [OF this v]
      have ended: "refines_opt (refused f c0) ib f c0 same (Some (Inr ((), v))) (Some ((), bs3, os3))"
        using v by (simp add: refines_opt_def refines_def)
      show "refines_opt (refused f c0) ib f c0 same
          (if final \<noteq> 0 then Some (Inr ((), v)) else inflate_raw v)
          (if final' \<noteq> 0 then Some ((), bs3, os3) else spec_inflate bs3 os3)"
        unfolding z using rest ended by (cases "final' = 0") (simp_all only: if_True if_False simp_thms)
    qed (auto split: if_splits dest: spec_inflate_grows)
    with x(1) show "refines_opt (refused f c0) ib f c0 same
        (Option.bind (inflate_block ty u) (\<lambda>r. case r of Inl e \<Rightarrow> Some (Inl e)
           | Inr (_, s) \<Rightarrow> if final \<noteq> 0 then Some (Inr ((), s)) else inflate_raw s))
        (Option.bind (spec_block ty' bs2 os2) (\<lambda>(_, bs, os). if final' \<noteq> 0 then Some ((), bs, os) else spec_inflate bs os))"
      by simp
  qed
qed

lemma inf_start_win: "globals_ok g \<Longrightarrow> win data f c (inf_start data f c window g) (bits_of data) []"
  by (auto simp: win_def inf_start_def reader_def inf_bits_def intro!: exI [of _ "[]"])

text \<open>
  The decoder against the format it accepts. From a fresh state, for every input, every sink and
  every window content, it returns; on success what the sink has accepted and what is left in the
  window are the output, on failure the input is not in the format or the sink has refused.
\<close>

lemma inflate_raw_format:
  assumes "globals_ok g"
  shows "\<exists>r. inflate_raw (inf_start data f c window g) = Some r \<and>
    (case r of
       Inl _ \<Rightarrow> \<forall>bs os. spec_inflate (bits_of data) [] = Some ((), bs, os) \<longrightarrow> refused f c os
     | Inr (_, s) \<Rightarrow> \<exists>ds. sink_run f c ds = Some (sink_ctx s) \<and> flushed s = length (concat ds) \<and>
         out_len s \<le> INF_BUFSZ \<and> globals_ok (glob s) \<and>
         spec_inflate (bits_of data) [] = Some ((), inf_bits s, concat ds @ map (out s) [0..<out_len s]))"
proof -
  from refines_raw [OF inf_start_win [OF assms, of data f c window]] obtain r where
    "inflate_raw (inf_start data f c window g) = Some r"
    and "refines (refused f c) data f c same r (spec_inflate (bits_of data) [])" unfolding refines_opt_def by blast
  then show ?thesis
    unfolding refines_def win_def reader_def by (intro exI [of _ r]) (fastforce split: sum.splits)
qed

text \<open>
  C8. \<open>inflate_raw()\<close> decodes DEFLATE. From a fresh state, for every input, every sink and every
  window content, the decoder returns. When the dynamic blocks of the stream have usual headers (no
  repeat after a run of zeros, no repeat past the last code length, one to 30 distance codes that are
  not all unused), its answer is the one of RFC 1951: if it returns 0, the bytes the sink has accepted
  followed by the bytes in the window are the output of the standard's decoder on the bits of the
  input, the bits not consumed are the ones that decoder leaves, and the byte count is right; if it
  returns -1, the input is not a valid stream or the sink has refused a chunk. The bit buffer, the
  15-bit lookup tables and the sliding window are thus invisible.
\<close>

theorem inflate_raw_refines:
  assumes "globals_ok g"
  shows "\<exists>r. inflate_raw (inf_start data f c window g) = Some r \<and>
    (usual_stream (bits_of data) [] \<longrightarrow>
      (case r of
         Inl _ \<Rightarrow> \<forall>bs os. rfc_inflate (bits_of data) [] = Some ((), bs, os) \<longrightarrow> refused f c os
       | Inr (_, s) \<Rightarrow> \<exists>ds. sink_run f c ds = Some (sink_ctx s) \<and> flushed s = length (concat ds) \<and>
           out_len s \<le> INF_BUFSZ \<and> globals_ok (glob s) \<and>
           rfc_inflate (bits_of data) [] = Some ((), inf_bits s, concat ds @ map (out s) [0..<out_len s])))"
proof (cases "usual_stream (bits_of data) []")
  case True
  then show ?thesis
    using inflate_raw_format [OF assms, of data f c window] unfolding spec_inflate_rfc [OF True] by blast
next
  case False
  then show ?thesis using inflate_raw_format [OF assms, of data f c window] by blast
qed

text \<open>One stored block with the byte \<open>0x41\<close>.\<close>

definition stored_A :: "u8 list" where
  "stored_A = [0x01, 0x01, 0x00, 0xFE, 0xFF, 0x41]"

lemma bits_stored_A:
  "bits_of stored_A =
    [True, False, False, False, False, False, False, False,
     True, False, False, False, False, False, False, False,
     False, False, False, False, False, False, False, False,
     False, True, True, True, True, True, True, True,
     True, True, True, True, True, True, True, True,
     True, False, False, False, False, False, True, False]"
  by code_simp

definition list_sink :: "u8 list sink_fn" where
  "list_sink acc d = (True, acc @ d)"

lemma usual_stored_A: "usual_stream (bits_of (stored_A @ t)) []"
proof -
  have "bits_of (stored_A @ t) = bits_of stored_A @ bits_of t" by (simp add: bits_of_def)
  then show ?thesis
    unfolding bits_stored_A
    by (subst usual_stream.simps)
      (simp add: read_bits_def bits_val_def usual_block_def split: option.splits)
qed

theorem inflate_raw_refines_witness:
  "globals_ok inf_static \<and> usual_stream (bits_of stored_A) [] \<and>
   rfc_inflate (bits_of stored_A) [] = Some ((), [], [0x41]) \<and>
   (\<exists>s. inflate_raw (inf_start stored_A list_sink [] (\<lambda>_. 0) inf_static) = Some (Inr ((), s)))"
proof -
  have g: "globals_ok inf_static" by (simp add: globals_ok_def inf_static_def)
  have u: "usual_stream (bits_of stored_A) []" using usual_stored_A [of "[]"] by simp
  have s: "rfc_inflate (bits_of stored_A) [] = Some ((), [], [0x41])"
    unfolding bits_stored_A
    by (subst rfc_inflate.simps) (simp add: read_bits_def bits_val_def rfc_block_def spec_stored_def bits_bytes_def)
  have "\<not> refused list_sink [] os" for os by (simp add: refused_def list_sink_def)
  moreover obtain r where "inflate_raw (inf_start stored_A list_sink [] (\<lambda>_. 0) inf_static) = Some r"
    and "case r of Inl _ \<Rightarrow> \<forall>bs os. rfc_inflate (bits_of stored_A) [] = Some ((), bs, os) \<longrightarrow> refused list_sink [] os
      | Inr _ \<Rightarrow> True"
    using inflate_raw_refines [OF g, of stored_A list_sink "[]" "\<lambda>_. 0"] u by (fastforce split: sum.splits)
  ultimately show ?thesis using g s u by (cases r) auto
qed

end
