(* ===== verification/Gzip_Format.thy ===== *)
theory Gzip_Format
  imports Deflate_Rfc
begin

text \<open>
  gzip files as RFC 1952 defines them: CRC-32 as a remainder of polynomials over the field of two
  elements, the member header built from its fields, a member, and a file of members with zero
  padding; with the proofs that the checksum, the header parser and the padding loop of
  \<open>pkg/inflate.c\<close> compute these. The header's own checksum, the reserved flags and the size field of
  the trailer carry no condition, as in the code.
\<close>

subsection \<open>CRC-32\<close>

text \<open>
  A polynomial is the list of its coefficients, the highest first. Long division by
  \<open>x\<^sup>3\<^sup>2 + \<dots>\<close> with the lower coefficients \<open>crc_poly\<close> removes the leading coefficient until 32
  remain.
\<close>

definition crc_poly :: "bool list" where
  "crc_poly = map (\<lambda>e. e \<in> set [26, 23, 22, 16, 12, 11, 10, 8, 7, 5, 4, 2, 1, 0]) (rev [0..<32])"

fun xor_prefix :: "bool list \<Rightarrow> bool list \<Rightarrow> bool list" where
  "xor_prefix (a # as) (b # bs) = (a \<noteq> b) # xor_prefix as bs"
| "xor_prefix as [] = []"
| "xor_prefix [] bs = bs"

lemma xor_prefix_length [simp]: "length (xor_prefix as bs) = length bs"
  by (induction as bs rule: xor_prefix.induct) auto

function crc_rem :: "bool list \<Rightarrow> bool list" where
  "crc_rem cs =
     (if length cs \<le> 32 then cs
      else crc_rem (if hd cs then xor_prefix crc_poly (tl cs) else tl cs))"
  by pat_completeness auto
termination
  by (relation "measure length") auto

declare crc_rem.simps [simp del]

text \<open>
  The checksum: the bits of the data in the order they are sent, the first 32 of them complemented,
  followed by 32 zeros; the remainder is complemented and sent in the same order.
\<close>

definition rfc_crc32 :: "u8 list \<Rightarrow> nat" where
  "rfc_crc32 d = bits_val (map Not (crc_rem (xor_prefix (replicate 32 True) (bits_of d @ replicate 32 False))))"

text \<open>The register of the code: its bit 0 is the highest coefficient.\<close>

definition crc_reg :: "u32 \<Rightarrow> bool list" where
  "crc_reg r = map (bit r) [0..<32]"

definition crc_bit :: "bool \<Rightarrow> u32 \<Rightarrow> u32" where
  "crc_bit b r = drop_bit 1 r XOR (if bit r 0 \<noteq> b then 0xEDB88320 else 0)"

lemma crc_poly_word: "crc_poly = crc_reg 0xEDB88320"
  by code_simp

lemma xor_prefix_nth:
  "i < length bs \<Longrightarrow> xor_prefix as bs ! i = (if i < length as then as ! i \<noteq> bs ! i else bs ! i)"
  by (induction as bs arbitrary: i rule: xor_prefix.induct) (auto simp: nth_Cons split: nat.split)

lemma xor_reg_nth: "i < length ms \<Longrightarrow> xor_prefix (crc_reg r) ms ! i = (bit r i \<noteq> ms ! i)"
  by (auto simp: xor_prefix_nth crc_reg_def not_less dest: bit_imp_le_length)

lemma crc_step:
  assumes "32 \<le> length ms"
  shows "crc_rem (xor_prefix (crc_reg r) (b # ms)) = crc_rem (xor_prefix (crc_reg (crc_bit b r)) ms)"
proof -
  define cs where "cs = map (bit r) [1..<32]"
  have cs: "crc_reg r = bit r 0 # cs" by (simp add: crc_reg_def upt_conv_Cons cs_def)
  have nth: "xor_prefix cs ms ! i = (bit r (Suc i) \<noteq> ms ! i)" if "i < length ms" for i
    using that by (auto simp: xor_prefix_nth cs_def not_less dest: bit_imp_le_length)
  have "(if bit r 0 \<noteq> b then xor_prefix crc_poly (xor_prefix cs ms) else xor_prefix cs ms) =
      xor_prefix (crc_reg (crc_bit b r)) ms"
    by (cases "bit r 0 = b"; rule nth_equalityI)
      (auto simp: xor_reg_nth nth crc_poly_word crc_bit_def bit_xor_iff bit_drop_bit_eq)
  moreover have "crc_rem ((bit r 0 \<noteq> b) # xor_prefix cs ms) =
      crc_rem (if bit r 0 \<noteq> b then xor_prefix crc_poly (xor_prefix cs ms) else xor_prefix cs ms)"
    using assms by (subst crc_rem.simps) (simp only: list.sel list.size xor_prefix_length, simp)
  ultimately show ?thesis by (simp only: cs xor_prefix.simps)
qed

lemma crc_fold:
  "32 \<le> length zs \<Longrightarrow> crc_rem (xor_prefix (crc_reg r) (ms @ zs)) = crc_rem (xor_prefix (crc_reg (fold crc_bit ms r)) zs)"
  by (induction ms arbitrary: r) (simp_all add: crc_step)

lemma crc_bits_word:
  "length bs \<le> 32 \<Longrightarrow> fold crc_bit bs r = (crc_bit False ^^ length bs) (r XOR horner_sum of_bool 2 bs)"
proof (induction bs arbitrary: r)
  case (Cons b bs)
  let ?w = "horner_sum of_bool 2 bs :: u32"
  have "drop_bit 1 (horner_sum of_bool 2 (b # bs) :: u32) = ?w"
    using Cons.prems by (intro bit_word_eqI) (auto simp: bit_drop_bit_eq bit_horner_sum_bit_word_iff simp del: horner_sum_simps)
  moreover have "bit (horner_sum of_bool 2 (b # bs) :: u32) 0 = b"
    by (auto simp: bit_horner_sum_bit_word_iff simp del: horner_sum_simps)
  ultimately have "crc_bit False (r XOR horner_sum of_bool 2 (b # bs)) = crc_bit b r XOR ?w"
    by (simp add: crc_bit_def bit_xor_iff ac_simps del: horner_sum_simps)
  with Cons show ?case by (simp add: funpow_swap1 del: horner_sum_simps)
qed simp

lemma crc_byte: "fold crc_bit (byte_bits b) r = crc32_byte b r"
proof -
  have "horner_sum of_bool 2 (byte_bits b) = (ucast b :: u32)"
  proof (intro bit_word_eqI)
    fix n
    show "bit (horner_sum of_bool 2 (byte_bits b) :: u32) n = bit (ucast b :: u32) n" if "n < LENGTH(32)"
      using that bit_imp_le_length [of b n]
      by (cases "n < 8") (auto simp: byte_bits_def bit_horner_sum_bit_word_iff bit_ucast_iff)
  qed
  moreover have c: "crc_bit False c = drop_bit 1 c XOR (0xEDB88320 AND (0 - (c AND 1)))" for c
    by (cases "bit c 0") (simp_all add: crc_bit_def bit_0 odd_iff_mod_2_eq_one and_one_eq even_iff_mod_2_eq_zero)
  then have "crc_bit False = (\<lambda>c. drop_bit 1 c XOR (0xEDB88320 AND (0 - (c AND 1))))" by (rule ext)
  ultimately show ?thesis
    using crc_bits_word [of "byte_bits b" r] unfolding crc32_byte_def by (simp add: byte_bits_def)
qed

lemma bits_val_word: "bits_val (map (bit (w :: u32)) [0..<32]) = unat w"
proof -
  have "map (bit w) [0..<32] = map (bit (unat w)) [0..<32]" by (simp add: bit_unsigned_iff)
  then have "bits_val (map (bit w) [0..<32]) = take_bit 32 (unat w)"
    unfolding bits_val_def by (simp only: horner_sum_bit_eq_take_bit)
  then show ?thesis using unsigned_less [of w] by (simp add: take_bit_nat_eq_self)
qed

lemma crc32_rfc: "unat (crc32_update 0 d) = rfc_crc32 d"
proof -
  have f: "fold crc_bit (bits_of d) r = fold crc32_byte d r" for r
    by (induction d arbitrary: r) (simp_all add: bits_of_def crc_byte)
  let ?r = "fold crc32_byte d (NOT 0)"
  have ones: "crc_reg (NOT 0) = replicate 32 True" by (rule nth_equalityI) (auto simp: crc_reg_def)
  have "crc_rem (xor_prefix (crc_reg (NOT 0)) (bits_of d @ replicate 32 False)) =
      crc_rem (xor_prefix (crc_reg ?r) (replicate 32 False))"
    by (simp add: crc_fold f)
  also have "xor_prefix (crc_reg ?r) (replicate 32 False) = crc_reg ?r"
    by (rule nth_equalityI) (auto simp: xor_reg_nth, auto simp: crc_reg_def)
  also have "crc_rem (crc_reg ?r) = crc_reg ?r" by (simp add: crc_rem.simps crc_reg_def)
  finally have "rfc_crc32 d = bits_val (map Not (crc_reg ?r))" unfolding rfc_crc32_def ones [symmetric] by simp
  also have "map Not (crc_reg ?r) = map (bit (NOT ?r)) [0..<32]"
    by (simp add: crc_reg_def bit_not_iff)
  also have "bits_val \<dots> = unat (NOT ?r)" by (rule bits_val_word)
  finally show ?thesis by (simp add: crc32_update_def)
qed

subsection \<open>Members and files\<close>

text \<open>The optional fields of a header: extra bytes after their length, strings that end in a zero.\<close>

definition extra_field :: "bool \<Rightarrow> u8 list \<Rightarrow> bool" where
  "extra_field flag e \<longleftrightarrow>
     (if flag then \<exists>lo hi xs. e = lo # hi # xs \<and> length xs = unat lo + 256 * unat hi else e = [])"

definition zstring :: "bool \<Rightarrow> u8 list \<Rightarrow> bool" where
  "zstring flag z \<longleftrightarrow> (if flag then \<exists>cs. z = cs @ [0] \<and> 0 \<notin> set cs else z = [])"

definition gzip_hdr :: "u8 list \<Rightarrow> bool" where
  "gzip_hdr h \<longleftrightarrow> (\<exists>flg info extra name comment hcrc.
     h = [0x1F, 0x8B, 8, flg] @ info @ extra @ name @ comment @ hcrc \<and> length info = 6 \<and>
     extra_field (bit flg 2) extra \<and> zstring (bit flg 3) name \<and> zstring (bit flg 4) comment \<and>
     length hcrc = (if bit flg 1 then 2 else 0))"

definition le_val :: "u8 list \<Rightarrow> nat" where
  "le_val bs = horner_sum unat 256 bs"

text \<open>
  A member at the start of \<open>d\<close> with content \<open>os\<close>, and what follows it: header, DEFLATE stream (which
  ends in the last byte of \<open>body\<close>), checksum and size.
\<close>

definition rfc_member :: "u8 list \<Rightarrow> u8 list \<Rightarrow> u8 list \<Rightarrow> bool" where
  "rfc_member d os rest \<longleftrightarrow> (\<exists>h body crc isize bs.
     d = h @ body @ crc @ isize @ rest \<and> gzip_hdr h \<and>
     rfc_inflate (bits_of (body @ crc @ isize @ rest)) [] = Some ((), bs, os) \<and>
     length bs div 8 = length (crc @ isize @ rest) \<and>
     length crc = 4 \<and> le_val crc = rfc_crc32 os \<and> length isize = 4)"

text \<open>A file: members one after the other, each followed by zero bytes.\<close>

inductive gzip_file :: "u8 list \<Rightarrow> u8 list \<Rightarrow> bool" where
  final: "rfc_member d os (replicate k 0) \<Longrightarrow> gzip_file d os"
| more: "rfc_member d os (replicate k 0 @ d') \<Longrightarrow> gzip_file d' os' \<Longrightarrow> gzip_file d (os @ os')"

text \<open>Every DEFLATE stream behind a member header in the file is usual.\<close>

definition usual_gzip :: "u8 list \<Rightarrow> bool" where
  "usual_gzip data \<longleftrightarrow> (\<forall>pre h d. data = pre @ h @ d \<and> gzip_hdr h \<longrightarrow> usual_stream (bits_of d) [])"

subsection \<open>The header parser\<close>

lemma flag_bits:
  fixes f :: u8
  shows "f AND 2 = 0 \<longleftrightarrow> \<not> bit f 1" "f AND 4 = 0 \<longleftrightarrow> \<not> bit f 2" "f AND 8 = 0 \<longleftrightarrow> \<not> bit f 3" "f AND 16 = 0 \<longleftrightarrow> \<not> bit f 4"
  using and_exp_eq_0_iff_not_bit [of f 1] and_exp_eq_0_iff_not_bit [of f 2] and_exp_eq_0_iff_not_bit [of f 3]
    and_exp_eq_0_iff_not_bit [of f 4] by simp_all

lemma skip_name_eq:
  "off \<le> length d \<Longrightarrow> skip_name d 0 off = off + length (takeWhile (\<lambda>c. c \<noteq> 0) (drop off d))"
proof (induction d "0 :: nat" off rule: skip_name.induct)
  case (1 d off)
  show ?case
  proof (cases "off < length d")
    case True
    then have "drop off d = d ! off # drop (Suc off) d" by (rule Cons_nth_drop_Suc [symmetric])
    with 1 True show ?thesis by (subst skip_name.simps) simp
  next
    case False
    with 1 show ?thesis by (subst skip_name.simps) simp
  qed
qed

lemma skip_name_ge: "off \<le> skip_name d pos off"
proof (induction d pos off rule: skip_name.induct)
  case (1 d pos off)
  then show ?case by (subst skip_name.simps) auto
qed

lemma skip_name_drop: "pos \<le> length data \<Longrightarrow> skip_name data pos off = skip_name (drop pos data) 0 off"
proof (induction data pos off rule: skip_name.induct)
  case (1 data pos off)
  have c: "pos + off < length data \<longleftrightarrow> 0 + off < length (drop pos data)" using "1.prems" by auto
  have "data ! (pos + off) = drop pos data ! (0 + off)" using "1.prems" by simp
  with 1 c show ?case
    unfolding skip_name.simps [of data pos off] skip_name.simps [of "drop pos data" 0 off] by metis
qed

lemma gzip_header_drop:
  assumes "18 \<le> length data - pos"
  shows "gzip_header data pos = gzip_header (drop pos data) 0"
proof -
  define d where "d = drop pos data"
  have "pos \<le> length data" using assms by simp
  note skip = skip_name_drop [OF this, folded d_def]
  have nth: "data ! pos = d ! 0" "data ! (pos + k) = d ! (0 + k)" if "k < 18" for k
    using assms that by (simp_all add: d_def)
  have len: "length data < pos + k \<longleftrightarrow> length d < 0 + k" for k using assms by (auto simp: d_def)
  have "length data < pos + 10 + 2 \<longleftrightarrow> length d < 0 + 10 + 2" using assms by (auto simp: d_def)
  then show ?thesis
    unfolding gzip_header_def d_def [symmetric] skip len
    by (simp only: nth(1) [of 0] nth(2) [of 1] nth(2) [of 2] nth(2) [of 3] nth(2) [of 10] nth(2) [of 11] zero_less_numeral
        numeral_less_iff one_less_numeral_iff rel_simps)
qed

text \<open>The end of an optional string.\<close>

definition name_end :: "bool \<Rightarrow> u8 list \<Rightarrow> nat \<Rightarrow> nat" where
  "name_end flag d off = (if flag then skip_name d 0 off + 1 else off)"

lemma name_end_ge: "off \<le> name_end flag d off"
  using skip_name_ge [of off d 0] by (simp add: name_end_def)

lemma name_end_sound:
  assumes "name_end flag d off \<le> length d"
  shows "zstring flag (take (name_end flag d off - off) (drop off d))"
proof (cases flag)
  case True
  let ?P = "\<lambda>c :: u8. c \<noteq> 0"
  let ?n = "length (takeWhile ?P (drop off d))"
  have off: "off \<le> length d" using name_end_ge [of off flag d] assms by simp
  have e: "name_end flag d off = off + ?n + 1" using True off by (simp add: name_end_def skip_name_eq)
  then have lt: "?n < length (drop off d)" using assms off by simp
  have "take (Suc ?n) (drop off d) = takeWhile ?P (drop off d) @ [drop off d ! ?n]"
    by (simp only: take_Suc_conv_app_nth [OF lt] takeWhile_eq_take [symmetric])
  moreover have "drop off d ! ?n = 0" using nth_length_takeWhile [OF lt] by simp
  ultimately show ?thesis using True e by (auto simp: zstring_def dest: set_takeWhileD)
next
  case False
  then show ?thesis by (simp add: zstring_def name_end_def)
qed

lemma name_end_complete:
  assumes "zstring flag z"
  shows "name_end flag (p @ z @ r) (length p) = length p + length z"
proof (cases flag)
  case True
  with assms obtain cs where cs: "z = cs @ [0]" "0 \<notin> set cs" by (auto simp: zstring_def)
  have "\<And>c. c \<in> set cs \<Longrightarrow> c \<noteq> 0" using cs(2) by auto
  then have "takeWhile (\<lambda>c. c \<noteq> 0) (z @ r) = cs" unfolding cs(1) by (simp add: takeWhile_append2)
  with True cs show ?thesis by (simp add: name_end_def skip_name_eq)
next
  case False
  with assms show ?thesis by (simp add: zstring_def name_end_def)
qed

lemma gzip_header_stages:
  "gzip_header d 0 =
     (if d ! 0 \<noteq> 0x1F \<or> d ! 1 \<noteq> 0x8B \<or> d ! 2 \<noteq> 8 then None
      else
        let flg = d ! 3 in
        if bit flg 2 \<and> length d < 12 then None
        else
          let o1 = (if bit flg 2 then 12 + (unat (d ! 10) + 256 * unat (d ! 11)) else 10);
              o2 = name_end (bit flg 3) d o1;
              o3 = name_end (bit flg 4) d o2;
              o4 = (if bit flg 1 then o3 + 2 else o3)
          in if length d < o4 then None else Some o4)"
  unfolding gzip_header_def Let_def name_end_def by (simp add: flag_bits add.assoc del: add_2_eq_Suc add_2_eq_Suc')

lemma gzip_header_complete:
  assumes "gzip_hdr h"
  shows "gzip_header (h @ r) 0 = Some (length h)"
proof -
  from assms obtain flg info extra name comment hcrc where
    h: "h = [0x1F, 0x8B, 8, flg] @ info @ extra @ name @ comment @ hcrc" and i: "length info = 6" and
    e: "extra_field (bit flg 2) extra" and z: "zstring (bit flg 3) name" "zstring (bit flg 4) comment" and
    c: "length hcrc = (if bit flg 1 then 2 else 0)" by (auto simp: gzip_hdr_def)
  define p where "p = [0x1F, 0x8B, 8, flg] @ info"
  define d where "d = h @ r"
  have p: "length p = 10" using i by (simp add: p_def)
  have d: "d = p @ extra @ name @ comment @ hcrc @ r" by (simp add: d_def h p_def)
  have nth: "d ! 0 = 0x1F" "d ! 1 = 0x8B" "d ! 2 = 8" "d ! 3 = flg" by (simp_all add: d p_def)
  have o1: "(if bit flg 2 then 12 + (unat (d ! 10) + 256 * unat (d ! 11)) else 10) = length (p @ extra)"
    and l1: "\<not> (bit flg 2 \<and> length d < 12)"
    using e p unfolding d by (auto simp: extra_field_def nth_append split: if_splits)
  have "name_end (bit flg 3) d (length (p @ extra)) = length (p @ extra @ name)"
    using name_end_complete [OF z(1), of "p @ extra" "comment @ hcrc @ r"] by (simp add: d)
  moreover have "name_end (bit flg 4) d (length (p @ extra @ name)) = length (p @ extra @ name @ comment)"
    using name_end_complete [OF z(2), of "p @ extra @ name" "hcrc @ r"] by (simp add: d)
  ultimately have "gzip_header d 0 = Some (length (p @ extra @ name @ comment @ hcrc))"
    unfolding gzip_header_stages nth o1 Let_def using l1 c by (simp add: d)
  then show ?thesis by (simp add: d_def h p_def)
qed

lemma take_stages:
  assumes "a \<le> b" "b \<le> length d"
  shows "take b d = take a d @ take (b - a) (drop a d)"
  using assms take_add [of a "b - a" d] by simp

lemma gzip_header_sound:
  assumes "gzip_header d 0 = Some off" and "12 \<le> length d"
  shows "off \<le> length d \<and> gzip_hdr (take off d)"
proof -
  define flg where "flg = d ! 3"
  define o1 where "o1 = (if bit flg 2 then 12 + (unat (d ! 10) + 256 * unat (d ! 11)) else 10)"
  define o2 where "o2 = name_end (bit flg 3) d o1"
  define o3 where "o3 = name_end (bit flg 4) d o2"
  define o4 where "o4 = (if bit flg 1 then o3 + 2 else o3)"
  have magic: "d ! 0 = 0x1F" "d ! 1 = 0x8B" "d ! 2 = 8" and o4: "off = o4" "o4 \<le> length d"
    using assms unfolding gzip_header_stages Let_def flg_def [symmetric] o1_def [symmetric] o2_def [symmetric]
      o3_def [symmetric] o4_def [symmetric] by (auto split: if_splits)
  have le: "10 \<le> o1" "o1 \<le> o2" "o2 \<le> o3" "o3 \<le> o4"
    by (auto simp: o1_def o2_def o3_def o4_def name_end_ge)
  let ?e = "take (o1 - 10) (drop 10 d)" and ?n = "take (o2 - o1) (drop o1 d)"
    and ?c = "take (o3 - o2) (drop o2 d)" and ?h = "take (o4 - o3) (drop o3 d)"
  have parts: "take o4 d = take 10 d @ ?e @ ?n @ ?c @ ?h"
    using le o4(2) take_stages [of o3 o4 d] take_stages [of o2 o3 d] take_stages [of o1 o2 d] take_stages [of 10 o1 d] by simp
  have ten: "take 10 d = take 4 d @ take 6 (drop 4 d)" using assms(2) take_stages [of 4 10 d] by simp
  have four: "take 4 d = [0x1F, 0x8B, 8, flg]"
    using assms(2) magic by (cases d rule: list.exhaust; cases "tl d"; cases "tl (tl d)"; cases "tl (tl (tl d))")
      (auto simp: flg_def)
  have "take o4 d = [0x1F, 0x8B, 8, flg] @ take 6 (drop 4 d) @ ?e @ ?n @ ?c @ ?h"
    unfolding parts ten four append_assoc ..
  moreover have "length (take 6 (drop 4 d)) = 6" using assms(2) by simp
  moreover have "extra_field (bit flg 2) ?e"
  proof (cases "bit flg 2")
    case True
    have "drop 10 d = d ! 10 # d ! 11 # drop 12 d"
      using assms(2) Cons_nth_drop_Suc [of 10 d] Cons_nth_drop_Suc [of 11 d] by simp
    moreover have "o1 = 12 + (unat (d ! 10) + 256 * unat (d ! 11))" "o1 \<le> length d" using True le o4 by (simp_all add: o1_def)
    ultimately show ?thesis using True by (simp add: extra_field_def)
  next
    case False
    then show ?thesis by (simp add: extra_field_def o1_def)
  qed
  moreover have "zstring (bit flg 3) ?n" "zstring (bit flg 4) ?c"
    using name_end_sound [of "bit flg 3" d o1] name_end_sound [of "bit flg 4" d o2] le o4(2)
    by (auto simp: o2_def o3_def)
  moreover have "length ?h = (if bit flg 1 then 2 else 0)" using o4(2) by (simp add: o4_def)
  ultimately have "gzip_hdr (take o4 d)" unfolding gzip_hdr_def by blast
  then show ?thesis using o4 by simp
qed

subsection \<open>Trailers, padding and lengths\<close>

lemma unat_le_word:
  fixes a b c d :: u8
  shows "unat (ucast a OR push_bit 8 (ucast b) OR push_bit 16 (ucast c) OR push_bit 24 (ucast d) :: u32) =
    unat a + 256 * (unat b + 256 * (unat c + 256 * unat d))"
proof -
  let ?a = "ucast a :: u32" and ?b = "push_bit 8 (ucast b) :: u32" and ?c = "push_bit 16 (ucast c) :: u32"
    and ?d = "push_bit 24 (ucast d) :: u32"
  have dis: "\<not> bit ?a n \<or> \<not> bit ?b n" "\<not> bit (?a OR ?b) n \<or> \<not> bit ?c n" "\<not> bit (?a OR ?b OR ?c) n \<or> \<not> bit ?d n" for n
    using bit_imp_le_length [of a n] bit_imp_le_length [of b "n - 8"] bit_imp_le_length [of c "n - 16"]
    by (auto simp: bit_simps)
  have "?a OR ?b OR ?c OR ?d = ?a + ?b + ?c + ?d"
    using disjunctive_add [OF dis(1)] disjunctive_add [OF dis(2)] disjunctive_add [OF dis(3)] by (simp add: or.assoc)
  moreover have small: "unat (ucast x :: u32) = unat x" for x :: u8
    using less_trans [OF unat_u8_less [of x], of 4294967296] by (simp add: unsigned_ucast_eq take_bit_nat_eq_self)
  moreover have "unat b * 256 < 4294967296" "unat c * 65536 < 4294967296" "unat d * 16777216 < 4294967296"
    using unat_u8_less [of b] unat_u8_less [of c] unat_u8_less [of d] by linarith+
  then have "unat ?b = 256 * unat b" "unat ?c = 65536 * unat c" "unat ?d = 16777216 * unat d"
    by (simp_all add: push_bit_eq_mult unat_word_ariths small)
  moreover have "unat a + 256 * unat b + 65536 * unat c + 16777216 * unat d < 4294967296"
    using unat_u8_less [of a] unat_u8_less [of b] unat_u8_less [of c] unat_u8_less [of d] by linarith
  ultimately show ?thesis by (simp add: unat_word_ariths mod_add_left_eq)
qed

lemma le32_val:
  assumes "i + 4 \<le> length d"
  shows "unat (le32 d i) = le_val (take 4 (drop i d))"
proof -
  have "take 4 (drop i d) = [d ! i, d ! (i + 1), d ! (i + 2), d ! (i + 3)]"
    using assms by (intro nth_equalityI) (auto simp: less_Suc_eq numeral_eq_Suc nth_Cons)
  then show ?thesis by (simp add: le32_def unat_le_word le_val_def)
qed

lemma skip_zeros_eq: "skip_zeros data pos = pos + length (takeWhile (\<lambda>c. c = 0) (drop pos data))"
proof (induction data pos rule: skip_zeros.induct)
  case (1 data pos)
  show ?case
  proof (cases "pos < length data")
    case True
    then have "drop pos data = data ! pos # drop (Suc pos) data" by (rule Cons_nth_drop_Suc [symmetric])
    with 1 True show ?thesis by (subst skip_zeros.simps) simp
  next
    case False
    then show ?thesis by (subst skip_zeros.simps) simp
  qed
qed

lemma skip_zeros_pad:
  assumes "drop pos data = replicate k 0 @ d" and "d = [] \<or> hd d \<noteq> 0"
  shows "skip_zeros data pos = pos + k"
proof -
  have "takeWhile (\<lambda>c. c = 0) (replicate k 0 @ d) = replicate k 0"
    using assms(2) by (induction k) (auto simp: takeWhile_eq_Nil_iff)
  with assms(1) show ?thesis by (simp add: skip_zeros_eq)
qed

lemma drop_skip_zeros: "\<exists>k. drop pos data = replicate k 0 @ drop (skip_zeros data pos) data"
proof -
  let ?z = "takeWhile (\<lambda>c. c = 0) (drop pos data)"
  have "?z = replicate (length ?z) 0"
    by (rule replicate_eqI) (auto dest: set_takeWhileD)
  moreover have "drop pos data = ?z @ drop (length ?z) (drop pos data)"
    by (simp only: dropWhile_eq_drop [symmetric] takeWhile_dropWhile_id)
  ultimately show ?thesis by (intro exI [of _ "length ?z"]) (simp add: skip_zeros_eq add.commute)
qed

lemma rfc_inflate_shrinks: "rfc_inflate bs os = Some (v, bs', os') \<Longrightarrow> length bs' \<le> length bs"
proof (induction "length bs" arbitrary: bs os rule: less_induct)
  case less
  from less.prems obtain final ty b1 o1 b2 o2 u b3 o3 where
    r: "read_bits 1 bs os = Some (final, b1, o1)" "read_bits 2 b1 o1 = Some (ty, b2, o2)"
    and b: "rfc_block ty b2 o2 = Some (u, b3, o3)"
    and e: "(if final = 1 then Some ((), b3, o3) else rfc_inflate b3 o3) = Some (v, bs', os')"
    by (subst (asm) rfc_inflate.simps) (auto simp: bind_eq_Some_conv)
  have "length b3 < length bs"
    using rfc_block_shrinks [OF b] read_bits_shrinks [OF r(1)] read_bits_shrinks [OF r(2)] by simp
  with e less.hyps [of b3 o3] show ?case by (auto split: if_splits)
qed

lemma gzip_hdr_start: "gzip_hdr h \<Longrightarrow> 10 \<le> length h \<and> hd h = 0x1F"
  by (auto simp: gzip_hdr_def)

lemma rfc_member_start: "rfc_member d os rest \<Longrightarrow> 18 \<le> length d \<and> hd d = 0x1F"
  by (auto simp: rfc_member_def dest!: gzip_hdr_start simp: hd_append)

lemma gzip_file_start: "gzip_file d os \<Longrightarrow> 18 \<le> length d \<and> hd d = 0x1F"
  by (auto elim: gzip_file.cases dest: rfc_member_start)

end
