(* ===== verification/Gzip.thy ===== *)
theory Gzip
  imports Deflate_Refine Gzip_Format
begin

text \<open>
  gzip files over the DEFLATE decoder: members with their headers and checksums, concatenated
  members, padding, and the one-shot \<open>gzip_inflate()\<close> into a buffer; first against the format the
  code accepts, then against RFC 1952.
\<close>

subsection \<open>The checksum of a stream delivered in chunks\<close>

lemma crc32_update_append: "crc32_update (crc32_update c a) b = crc32_update c (a @ b)"
  by (simp add: crc32_update_def)

lemma crc32_update_Nil [simp]: "crc32_update c [] = c"
  by (simp add: crc32_update_def)

lemma crc_sink_eq: "crc_sink f (crc, u) d = (fst (f u d), (crc32_update crc d, snd (f u d)))"
  by (simp add: crc_sink_def split: prod.split)

lemma crc_sink_run:
  "sink_run (crc_sink f) (crc, u) ds = map_option (\<lambda>u. (crc32_update crc (concat ds), u)) (sink_run f u ds)"
proof (induction ds arbitrary: crc u)
  case (Cons d ds)
  show ?case
    by (cases "f u d") (simp add: crc_sink_eq Cons.IH crc32_update_append)
qed simp

lemma crc_sink_refused: "refused (crc_sink f) (crc, u) os \<Longrightarrow> refused f u os"
  unfolding refused_def crc_sink_run by (auto simp: crc_sink_eq)

subsection \<open>The format the code accepts\<close>

text \<open>
  Members and files with the code's own header parser and checksum, over \<open>spec_inflate\<close>; the C loop
  refines this, and on usual files it is the format of RFC 1952 (\<open>spec_gzip_rfc\<close>).
\<close>

definition spec_member :: "u8 list \<Rightarrow> nat \<Rightarrow> (u8 list \<times> nat) option" where
  "spec_member data pos =
     (case gzip_header data pos of None \<Rightarrow> None
      | Some off \<Rightarrow>
        let rest = drop (pos + off) data in
        Option.bind (spec_inflate (bits_of rest) []) (\<lambda>(_, bs, os).
          let n = length rest - length bs div 8 in
          if length rest < n + 8 \<or> crc32_update 0 os \<noteq> le32 rest n then None
          else Some (os, pos + off + n + 8)))"

lemma skip_zeros_ge: "pos \<le> skip_zeros data pos"
proof (induction data pos rule: skip_zeros.induct)
  case (1 data pos)
  then show ?case by (subst skip_zeros.simps) auto
qed

lemma spec_member_advances: "spec_member data pos = Some (os, pos') \<Longrightarrow> pos < pos'"
  by (auto simp: spec_member_def Let_def bind_eq_Some_conv split: option.splits if_splits)

function spec_gzip :: "u8 list \<Rightarrow> nat \<Rightarrow> u8 list option" where
  "spec_gzip data pos =
     (if 18 \<le> length data - pos then
        Option.bind (spec_member data pos) (\<lambda>(os, pos').
          let pos'' = skip_zeros data pos' in
          if length data \<le> pos'' then Some os
          else if length data - pos'' < 18 then None
          else map_option (\<lambda>os'. os @ os') (spec_gzip data pos''))
      else Some [])"
  by pat_completeness auto
termination
proof (relation "measure (\<lambda>(data, pos). length data - pos)", simp, clarify)
  fix data :: "u8 list" and pos os pos'
  assume "18 \<le> length data - pos" and m: "spec_member data pos = Some (os, pos')"
  then show "((data, skip_zeros data pos'), data, pos) \<in> measure (\<lambda>(data, pos). length data - pos)"
    using spec_member_advances [OF m] skip_zeros_ge [of pos' data] by simp
qed

declare spec_gzip.simps [simp del]

subsection \<open>The C code refines it\<close>

lemma trailer_position:
  assumes "reader s bs"
  shows "(in_pos s * 8 - bitcnt s + 7) div 8 = length (in_buf s) - length bs div 8"
proof -
  have r: "bitcnt s \<le> 8 * in_pos s" "in_pos s \<le> length (in_buf s)"
    using assms by (simp_all add: reader_def)
  have "length bs div 8 = bitcnt s div 8 + (length (in_buf s) - in_pos s)"
    by (simp add: inf_bits_length [OF assms])
  moreover have q: "bitcnt s div 8 \<le> in_pos s" using r(1) by simp
  moreover have "(in_pos s * 8 - bitcnt s + 7) div 8 = in_pos s - bitcnt s div 8"
  proof -
    have "bitcnt s = 8 * (bitcnt s div 8) + bitcnt s mod 8" "bitcnt s mod 8 \<le> 7" by simp_all
    moreover define y where "y = 7 - bitcnt s mod 8"
    ultimately have "in_pos s * 8 - bitcnt s + 7 = 8 * (in_pos s - bitcnt s div 8) + y" and "y < 8"
      using r(1) q by linarith+
    then show ?thesis by simp
  qed
  ultimately show ?thesis using r(2) by simp
qed

text \<open>The context a user's sink ends in, whatever the window and the tables are.\<close>

lemma gzip_member_refines:
  assumes g: "globals_ok g"
  shows "\<exists>r. gzip_member f data pos (w, g, u) = Some r \<and>
    (case r of
       Inl _ \<Rightarrow> \<forall>os pos'. spec_member data pos = Some (os, pos') \<longrightarrow> refused f u os
     | Inr ((n, pos'), w', g', u') \<Rightarrow> globals_ok g' \<and>
         (\<exists>ds. spec_member data pos = Some (concat ds, pos') \<and> n = length (concat ds) \<and> sink_run f u ds = Some u'))"
proof (cases "gzip_header data pos")
  case None
  then show ?thesis by (simp add: gzip_member_def spec_member_def)
next
  case (Some off)
  define rest where "rest = drop (pos + off) data"
  obtain x where x: "inflate_raw (inf_start rest (crc_sink f) (0, u) w g) = Some x"
    and rx: "refines (refused (crc_sink f) (0, u)) rest (crc_sink f) (0, u) same x (spec_inflate (bits_of rest) [])"
    using refines_raw [OF inf_start_win [OF g, of rest "crc_sink f" "(0, u)" w]] by (auto simp: refines_opt_def)
  show ?thesis
  proof (cases x)
    case (Inl e)
    then have "\<forall>v bs os. spec_inflate (bits_of rest) [] = Some (v, bs, os) \<longrightarrow> refused f u os"
      using rx crc_sink_refused by (fastforce simp: refines_def)
    then have "\<forall>os pos'. spec_member data pos = Some (os, pos') \<longrightarrow> refused f u os"
      using Some by (auto simp: spec_member_def rest_def Let_def bind_eq_Some_conv split: if_splits)
    then show ?thesis using Some x Inl by (simp add: gzip_member_def rest_def)
  next
    case (Inr p)
    then obtain s where p: "p = ((), s)" by (cases p) auto
    from rx Inr p obtain bs os where sp: "spec_inflate (bits_of rest) [] = Some ((), bs, os)"
      and win: "win rest (crc_sink f) (0, u) s bs os" by (auto simp: refines_def)
    from win obtain ds where ds: "sink_run (crc_sink f) (0, u) ds = Some (sink_ctx s)"
      "os = concat ds @ map (out s) [0..<out_len s]" "flushed s = length (concat ds)"
      unfolding win_def by blast
    from win have buf: "in_buf s = rest" and g': "globals_ok (glob s)" and rd: "reader s bs" by (simp_all add: win_def)
    define n where "n = length rest - length bs div 8"
    have n: "(in_pos s * 8 - bitcnt s + 7) div 8 = n" using trailer_position [OF rd] by (simp add: n_def buf)
    from ds(1) obtain u1 where u1: "sink_run f u ds = Some u1" "sink_ctx s = (crc32_update 0 (concat ds), u1)"
      by (auto simp: crc_sink_run)
    define tail where "tail = map (out s) [0..<out_len s]"
    define ok where "ok = (out_len s = 0 \<or> fst (f u1 tail))"
    define u2 where "u2 = (if out_len s = 0 then u1 else snd (f u1 tail))"
    have crc: "crc32_update (crc32_update 0 (concat ds)) tail = crc32_update 0 os"
      unfolding crc32_update_append ds(2) tail_def ..
    have put: "(if 0 < out_len s then crc_sink f (sink_ctx s) tail else (True, sink_ctx s)) = (ok, (crc32_update 0 os, u2))"
      using crc by (auto simp: u1(2) crc_sink_eq ok_def u2_def tail_def)
    have eq: "gzip_member f data pos (w, g, u) =
      (if length rest < n + 8 then Some (Inl (out s, glob s, snd (sink_ctx s)))
       else if \<not> ok \<or> crc32_update 0 os \<noteq> le32 rest n then Some (Inl (out s, glob s, u2))
       else Some (Inr ((length os, pos + off + n + 8), out s, glob s, u2)))"
    proof -
      have len: "flushed s + out_len s = length os" by (simp add: ds(2,3))
      show ?thesis
        unfolding gzip_member_def prod.case Some option.case rest_def [symmetric] x Inr p Option.bind.simps
          sum.case Let_def n buf tail_def [symmetric] put len fst_conv snd_conv ..
    qed
    have sm: "spec_member data pos = (if length rest < n + 8 \<or> crc32_update 0 os \<noteq> le32 rest n then None
        else Some (os, pos + off + n + 8))"
      using Some sp by (simp add: spec_member_def rest_def [symmetric] Let_def n_def [symmetric])
    show ?thesis
    proof (cases "ok")
      case False
      then have "refused f u os" using u1(1) unfolding refused_def ds(2) tail_def [symmetric] ok_def by blast
      with False show ?thesis by (auto simp: eq sm)
    next
      case True
      have "sink_run f u (ds @ (if out_len s = 0 then [] else [tail])) = Some u2"
        using True u1(1) by (auto simp: sink_run_append ok_def u2_def split: prod.splits)
      moreover have "os = concat (ds @ (if out_len s = 0 then [] else [tail]))" by (simp add: ds(2) tail_def)
      ultimately show ?thesis using True g' unfolding eq sm by (auto intro!: exI [of _ "ds @ (if out_len s = 0 then [] else [tail])"])
    qed
  qed
qed

lemma refused_later:
  "sink_run f u ds = Some u' \<Longrightarrow> refused f u' os \<Longrightarrow> refused f u (concat ds @ os)"
  unfolding refused_def
proof (elim exE conjE)
  fix es c d
  assume "sink_run f u ds = Some u'" "sink_run f u' es = Some c" "\<not> fst (f c d)" "prefix (concat es @ d) os"
  then show "\<exists>ds' c d. sink_run f u ds' = Some c \<and> \<not> fst (f c d) \<and> prefix (concat ds' @ d) (concat ds @ os)"
    by (intro exI [of _ "ds @ es"] exI [of _ c] exI [of _ d]) (simp add: sink_run_append)
qed

text \<open>What the loop over the members leaves behind, from a position with \<open>tot\<close> bytes delivered.\<close>

definition gzip_result :: "'u sink_fn \<Rightarrow> 'u \<Rightarrow> nat \<Rightarrow> u8 list option \<Rightarrow>
    nat option \<times> (nat \<Rightarrow> u8) \<times> inf_globals \<times> 'u \<Rightarrow> bool" where
  "gzip_result f u tot spec res \<longleftrightarrow>
     (case res of (r, w', g', u') \<Rightarrow>
        case r of
          None \<Rightarrow> \<forall>os. spec = Some os \<longrightarrow> tot + length os = 0 \<or> refused f u os
        | Some n \<Rightarrow> n \<noteq> 0 \<and> (\<exists>ds. spec = Some (concat ds) \<and> n = tot + length (concat ds) \<and> sink_run f u ds = Some u'))"

lemma gzip_loop_refines:
  "globals_ok g \<Longrightarrow> \<exists>res. gzip_loop f data pos tot (w, g, u) = Some res \<and> gzip_result f u tot (spec_gzip data pos) res"
proof (induction "length data - pos" arbitrary: pos tot w g u rule: less_induct)
  case less
  show ?case
  proof (cases "18 \<le> length data - pos")
    case False
    then show ?thesis
      by (subst gzip_loop.simps, subst spec_gzip.simps)
        (auto simp: gzip_result_def intro!: exI [of _ "[]"])
  next
    case True
    obtain m where m: "gzip_member f data pos (w, g, u) = Some m" and rm:
      "case m of
         Inl _ \<Rightarrow> \<forall>os pos'. spec_member data pos = Some (os, pos') \<longrightarrow> refused f u os
       | Inr ((n, pos'), w', g', u') \<Rightarrow> globals_ok g' \<and>
         (\<exists>ds. spec_member data pos = Some (concat ds, pos') \<and> n = length (concat ds) \<and> sink_run f u ds = Some u')"
      using gzip_member_refines [OF less.prems, of f data pos w u] by blast
    show ?thesis
    proof (cases m)
      case (Inl e)
      then have "gzip_loop f data pos tot (w, g, u) = Some (None, e)" using True m by (subst gzip_loop.simps) simp
      moreover have "refused f u os" if "spec_gzip data pos = Some os" for os
        using that rm Inl True
        by (subst (asm) spec_gzip.simps)
          (auto simp: bind_eq_Some_conv Let_def split: if_splits intro: refused_mono)
      ultimately show ?thesis by (cases e) (auto simp: gzip_result_def)
    next
      case (Inr q)
      then obtain n pos' w' g' u' where q: "q = ((n, pos'), w', g', u')" by (metis surj_pair)
      from rm Inr q obtain ds where g': "globals_ok g'" and sm: "spec_member data pos = Some (concat ds, pos')"
        and n: "n = length (concat ds)" and run: "sink_run f u ds = Some u'" by auto
      define pos2 where "pos2 = skip_zeros data pos'"
      have adv: "pos < pos2" using spec_member_advances [OF sm] skip_zeros_ge [of pos' data] by (simp add: pos2_def)
      have L: "gzip_loop f data pos tot (w, g, u) =
        (if length data \<le> pos2 then Some (if tot + n = 0 then None else Some (tot + n), w', g', u')
         else if length data - pos2 < 18 then Some (None, w', g', u')
         else gzip_loop f data pos2 (tot + n) (w', g', u'))"
        using True m Inr q by (subst gzip_loop.simps) (simp add: Let_def pos2_def)
      have S: "spec_gzip data pos =
        (if length data \<le> pos2 then Some (concat ds) else if length data - pos2 < 18 then None
         else map_option (\<lambda>os'. concat ds @ os') (spec_gzip data pos2))"
        using True sm by (subst spec_gzip.simps) (simp add: Let_def pos2_def)
      show ?thesis
      proof (cases "length data \<le> pos2 \<or> length data - pos2 < 18")
        case True
        then show ?thesis unfolding L S using n run by (auto simp: gzip_result_def)
      next
        case False
        then have "length data - pos2 < length data - pos" using adv by linarith
        from less.hyps [OF this g', of "tot + n" w' u'] obtain res where
          res: "gzip_loop f data pos2 (tot + n) (w', g', u') = Some res" "gzip_result f u' (tot + n) (spec_gzip data pos2) res"
          by blast
        obtain r w2 g2 u2 where r: "res = (r, w2, g2, u2)" by (metis surj_pair)
        have "gzip_result f u tot (map_option (\<lambda>os'. concat ds @ os') (spec_gzip data pos2)) res"
        proof (cases r)
          case None
          with res(2) r n show ?thesis using refused_later [OF run] by (fastforce simp: gzip_result_def)
        next
          case (Some k)
          obtain es where es: "k \<noteq> 0" "spec_gzip data pos2 = Some (concat es)" "k = tot + n + length (concat es)"
            "sink_run f u' es = Some u2"
            using res(2) [unfolded r Some gzip_result_def prod.case option.case] by blast
          have "map_option (\<lambda>os'. concat ds @ os') (spec_gzip data pos2) = Some (concat (ds @ es))"
            "k = tot + length (concat (ds @ es))" "sink_run f u (ds @ es) = Some u2"
            using es n run by (simp_all add: sink_run_append)
          with es(1) show ?thesis unfolding r Some gzip_result_def prod.case option.case by blast
        qed
        with False res(1) show ?thesis unfolding L S by simp
      qed
    qed
  qed
qed

subsection \<open>Into a buffer\<close>

definition put_bytes :: "nat \<Rightarrow> u8 list \<Rightarrow> (nat \<Rightarrow> u8) \<Rightarrow> nat \<Rightarrow> u8" where
  "put_bytes k d m = (\<lambda>i. if k \<le> i \<and> i < k + length d then d ! (i - k) else m i)"

lemma put_bytes_Nil [simp]: "put_bytes k [] m = m"
  by (auto simp: put_bytes_def fun_eq_iff)

lemma put_bytes_append: "put_bytes (k + length a) c (put_bytes k a m) = put_bytes k (a @ c) m"
  by (auto simp: put_bytes_def fun_eq_iff nth_append)

lemma buf_sink_eq:
  "buf_sink b d = (if bs_cap b < bs_len b + length d then (False, b)
     else (True, b\<lparr>bs_out := put_bytes (bs_len b) d (bs_out b), bs_len := bs_len b + length d\<rparr>))"
proof -
  have "fold (\<lambda>i m. m(k + i := d ! i)) [0..<n] m = (\<lambda>i. if k \<le> i \<and> i < k + n then d ! (i - k) else m i)"
    for k n and m :: "nat \<Rightarrow> u8"
    by (induction n) (auto simp: fun_eq_iff)
  then show ?thesis by (simp add: buf_sink_def put_bytes_def)
qed

lemma buf_sink_run:
  "sink_run buf_sink b ds = Some b' \<Longrightarrow> bs_len b \<le> bs_cap b \<Longrightarrow>
     b' = b\<lparr>bs_out := put_bytes (bs_len b) (concat ds) (bs_out b), bs_len := bs_len b + length (concat ds)\<rparr> \<and>
     bs_len b + length (concat ds) \<le> bs_cap b"
proof (induction ds arbitrary: b)
  case Nil
  then show ?case by simp
next
  case (Cons d ds)
  let ?b = "b\<lparr>bs_out := put_bytes (bs_len b) d (bs_out b), bs_len := bs_len b + length d\<rparr>"
  from Cons.prems have fit: "bs_len b + length d \<le> bs_cap b" and run: "sink_run buf_sink ?b ds = Some b'"
    by (auto simp: buf_sink_eq [of b d] split: if_splits)
  from Cons.IH [OF run] fit show ?case by (simp add: put_bytes_append add.assoc)
qed

lemma buf_sink_refused: "refused buf_sink \<lparr>bs_out = buf, bs_cap = cap, bs_len = 0\<rparr> os \<Longrightarrow> cap < length os"
  unfolding refused_def
proof (elim exE conjE)
  fix ds c d
  assume run: "sink_run buf_sink \<lparr>bs_out = buf, bs_cap = cap, bs_len = 0\<rparr> ds = Some c"
    and no: "\<not> fst (buf_sink c d)" and p: "prefix (concat ds @ d) os"
  have "bs_len c = length (concat ds)" "bs_cap c = cap" using buf_sink_run [OF run] by simp_all
  with no have "cap < length (concat ds) + length d" by (simp add: buf_sink_eq [of c d] split: if_splits)
  with prefix_length_le [OF p] show "cap < length os" by simp
qed

subsection \<open>The format of RFC 1952\<close>

lemma spec_member_rfc:
  assumes len: "18 \<le> length data - pos" and u: "usual_gzip data"
  shows "spec_member data pos = Some (os, pos') \<longleftrightarrow> pos' \<le> length data \<and> rfc_member (drop pos data) os (drop pos' data)"
proof
  assume m: "spec_member data pos = Some (os, pos')"
  define d where "d = drop pos data"
  from m obtain off bs where off: "gzip_header data pos = Some off"
    and inf: "spec_inflate (bits_of (drop (pos + off) data)) [] = Some ((), bs, os)"
    and tl: "length (drop (pos + off) data) - length bs div 8 + 8 \<le> length (drop (pos + off) data)"
      "crc32_update 0 os = le32 (drop (pos + off) data) (length (drop (pos + off) data) - length bs div 8)"
      "pos' = pos + off + (length (drop (pos + off) data) - length bs div 8) + 8"
    by (auto simp: spec_member_def Let_def bind_eq_Some_conv split: option.splits if_splits)
  have "gzip_header d 0 = Some off" using off gzip_header_drop [OF len] by (simp add: d_def)
  from gzip_header_sound [OF this] have h: "off \<le> length d" "gzip_hdr (take off d)" using len by (auto simp: d_def)
  define r where "r = drop off d"
  have r: "drop (pos + off) data = r" by (simp add: r_def d_def add.commute)
  have "data = take pos data @ take off d @ r" by (simp only: r_def d_def append_take_drop_id)
  with u h(2) have "usual_stream (bits_of r) []" unfolding usual_gzip_def by blast
  with inf r have inf: "rfc_inflate (bits_of r) [] = Some ((), bs, os)" by (simp add: spec_inflate_rfc)
  define n where "n = length r - length bs div 8"
  note tl = tl [unfolded r, folded n_def]
  have "length bs div 8 \<le> length r"
    using rfc_inflate_shrinks [OF inf] by simp
  then have n: "length bs div 8 = length r - n" "n + 8 \<le> length r" using tl(1) by (simp_all add: n_def)
  let ?c = "take 4 (drop n r)" and ?i = "take 4 (drop (n + 4) r)" and ?x = "drop (n + 8) r"
  have parts: "r = take n r @ ?c @ ?i @ ?x"
    using append_take_drop_id [of 4 "drop n r"] append_take_drop_id [of 4 "drop (n + 4) r"] by (simp add: add.commute)
  have x: "drop pos' data = ?x" by (simp add: tl(3) r_def d_def ac_simps)
  have "d = take off d @ take n r @ ?c @ ?i @ ?x" using parts by (simp add: r_def)
  moreover have "le_val ?c = rfc_crc32 os" using le32_val [of n r] n(2) tl(2) crc32_rfc [of os] by simp
  moreover have "rfc_inflate (bits_of (take n r @ ?c @ ?i @ ?x)) [] = Some ((), bs, os)" using inf parts by simp
  moreover have "length bs div 8 = length (?c @ ?i @ ?x)" "length ?c = 4" "length ?i = 4" using n by simp_all
  ultimately have "rfc_member d os ?x" using h(2) unfolding rfc_member_def by blast
  moreover have "pos' \<le> length data" using n(2) h(1) len unfolding tl(3) r_def d_def by simp
  ultimately show "pos' \<le> length data \<and> rfc_member (drop pos data) os (drop pos' data)" by (simp add: x d_def)
next
  assume a: "pos' \<le> length data \<and> rfc_member (drop pos data) os (drop pos' data)"
  define x where "x = drop pos' data"
  from a obtain h body crc isize bs where
    d: "drop pos data = h @ body @ crc @ isize @ x" and h: "gzip_hdr h"
    and inf: "rfc_inflate (bits_of (body @ crc @ isize @ x)) [] = Some ((), bs, os)"
    and l: "length bs div 8 = length (crc @ isize @ x)" "length crc = 4" "length isize = 4"
    and c: "le_val crc = rfc_crc32 os" by (auto simp: rfc_member_def x_def)
  have off: "gzip_header data pos = Some (length h)"
    unfolding gzip_header_drop [OF len] d by (rule gzip_header_complete [OF h])
  define r where "r = body @ crc @ isize @ x"
  have r: "drop (pos + length h) data = r"
    using arg_cong [OF d, of "drop (length h)"] by (simp add: r_def add.commute)
  have "data = take pos data @ h @ r" unfolding r_def d [symmetric] by simp
  with u h have "usual_stream (bits_of r) []" unfolding usual_gzip_def by blast
  with inf have inf: "spec_inflate (bits_of r) [] = Some ((), bs, os)" by (simp add: spec_inflate_rfc r_def)
  have n: "length r - length bs div 8 = length body" using l by (simp add: r_def)
  have "unat (le32 r (length body)) = le_val crc"
    using le32_val [of "length body" r] l by (simp add: r_def)
  then have "crc32_update 0 os = le32 r (length body)"
    using c crc32_rfc [of os] by (simp add: word_unat_eq_iff)
  moreover have "pos' = pos + length h + length body + 8"
  proof -
    have "length x = length data - pos'" by (simp add: x_def)
    moreover have "length data - pos = length h + length body + 8 + length x"
      using arg_cong [OF d, of length] l by simp
    ultimately show ?thesis using a len by linarith
  qed
  ultimately show "spec_member data pos = Some (os, pos')"
    unfolding spec_member_def off option.case r Let_def inf using n l by (simp add: r_def)
qed

lemma rfc_member_suffix:
  assumes "rfc_member (drop pos data) os rest"
  obtains pos' where "drop pos' data = rest" "pos' \<le> length data" "pos' + length rest = length data"
proof -
  from assms obtain xs where d: "drop pos data = xs @ rest" unfolding rfc_member_def by (metis append_assoc)
  then have "drop (length xs) (drop pos data) = rest" by simp
  then have "drop (length xs + pos) data = rest" by simp
  moreover have "length data - pos = length xs + length rest" using arg_cong [OF d, of length] by simp
  moreover have "18 \<le> length data - pos" using rfc_member_start [OF assms] by simp
  ultimately show thesis using that [of "length xs + pos"] by simp
qed

lemma spec_gzip_rfc:
  assumes u: "usual_gzip data"
  shows "18 \<le> length data - pos \<Longrightarrow> spec_gzip data pos = Some os \<longleftrightarrow> gzip_file (drop pos data) os"
proof (induction "length data - pos" arbitrary: pos os rule: less_induct)
  case less
  note member = spec_member_rfc [OF less.prems u]
  show ?case
  proof
    assume s: "spec_gzip data pos = Some os"
    then obtain os1 pos1 where m: "spec_member data pos = Some (os1, pos1)"
      using less.prems by (subst (asm) spec_gzip.simps) (auto simp: bind_eq_Some_conv)
    define pos2 where "pos2 = skip_zeros data pos1"
    have adv: "pos < pos2" using spec_member_advances [OF m] skip_zeros_ge [of pos1 data] by (simp add: pos2_def)
    obtain k where k: "drop pos1 data = replicate k 0 @ drop pos2 data" using drop_skip_zeros pos2_def by blast
    have r: "rfc_member (drop pos data) os1 (replicate k 0 @ drop pos2 data)" using member [of os1 pos1] m k by simp
    show "gzip_file (drop pos data) os"
    proof (cases "length data \<le> pos2")
      case True
      then have "os = os1" using s m less.prems by (subst (asm) spec_gzip.simps) (simp add: Let_def pos2_def)
      then show ?thesis using r True gzip_file.final [of "drop pos data" os1 k] by simp
    next
      case False
      with s m less.prems obtain os2 where "18 \<le> length data - pos2" "spec_gzip data pos2 = Some os2" "os = os1 @ os2"
        by (subst (asm) spec_gzip.simps) (auto simp: Let_def pos2_def split: if_splits)
      then show ?thesis using less.hyps [of pos2 os2] adv False r gzip_file.more by auto
    qed
  next
    assume "gzip_file (drop pos data) os"
    then show "spec_gzip data pos = Some os"
    proof cases
      case (final k)
      obtain pos1 where p: "drop pos1 data = replicate k 0" "pos1 \<le> length data" "pos1 + k = length data"
        by (rule rfc_member_suffix [OF final]) simp
      have "spec_member data pos = Some (os, pos1)" using member [of os pos1] final p by simp
      moreover have "skip_zeros data pos1 = length data" using skip_zeros_pad [of pos1 data k "[]"] p by simp
      ultimately show ?thesis using less.prems by (subst spec_gzip.simps) simp
    next
      case (more os1 k d' os2)
      obtain pos1 where p: "drop pos1 data = replicate k 0 @ d'" "pos1 \<le> length data" "pos1 + (k + length d') = length data"
        by (rule rfc_member_suffix [OF more(2)]) simp
      have m: "spec_member data pos = Some (os1, pos1)" using member [of os1 pos1] more(2) p by simp
      have d': "18 \<le> length d'" "hd d' = 0x1F" using gzip_file_start [OF more(3)] by simp_all
      then have z: "skip_zeros data pos1 = pos1 + k" using skip_zeros_pad [of pos1 data k d'] p by simp
      have dr: "drop (pos1 + k) data = d'" using arg_cong [OF p(1), of "drop k"] by (simp add: add.commute)
      have "length data - (pos1 + k) < length data - pos" "18 \<le> length data - (pos1 + k)"
        using spec_member_advances [OF m] p(3) d'(1) by linarith+
      from less.hyps [OF this] dr more(3) have "spec_gzip data (pos1 + k) = Some os2" by simp
      then show ?thesis using m z p(3) d'(1) less.prems more(1) by (subst spec_gzip.simps) (auto simp: Let_def simp flip: p(3))
    qed
  qed
qed

subsection \<open>Properties\<close>

text \<open>The one-shot decoder against the format the code accepts.\<close>

lemma gzip_inflate_format:
  assumes "globals_ok g"
  shows "\<exists>r w g' buf'. gzip_inflate data buf cap window g = Some (r, w, g', buf') \<and>
    (case r of
       None \<Rightarrow> \<forall>os. spec_gzip data 0 = Some os \<longrightarrow> os = [] \<or> cap < length os
     | Some n \<Rightarrow> \<exists>os. spec_gzip data 0 = Some os \<and> os \<noteq> [] \<and> n = length os \<and> length os \<le> cap \<and>
         buf' = (\<lambda>i. if i < length os then os ! i else buf i))"
proof -
  let ?b = "\<lparr>bs_out = buf, bs_cap = cap, bs_len = 0\<rparr>"
  obtain r w g' b' where L: "gzip_loop buf_sink data 0 0 (window, g, ?b) = Some (r, w, g', b')"
    and R: "gzip_result buf_sink ?b 0 (spec_gzip data 0) (r, w, g', b')"
    using gzip_loop_refines [OF assms, of buf_sink data 0 0 window ?b] by (metis surj_pair)
  have "gzip_inflate data buf cap window g = Some (r, w, g', bs_out b')"
    by (simp add: gzip_inflate_def gzip_inflate_cb_def L)
  moreover have "case r of
       None \<Rightarrow> \<forall>os. spec_gzip data 0 = Some os \<longrightarrow> os = [] \<or> cap < length os
     | Some n \<Rightarrow> \<exists>os. spec_gzip data 0 = Some os \<and> os \<noteq> [] \<and> n = length os \<and> length os \<le> cap \<and>
         bs_out b' = (\<lambda>i. if i < length os then os ! i else buf i)"
  proof (cases r)
    case None
    with R show ?thesis by (auto simp: gzip_result_def dest: buf_sink_refused)
  next
    case (Some n)
    obtain ds where ds: "n \<noteq> 0" "spec_gzip data 0 = Some (concat ds)" "n = 0 + length (concat ds)"
      "sink_run buf_sink ?b ds = Some b'"
      using R [unfolded Some gzip_result_def prod.case option.case] by blast
    have "concat ds \<noteq> []" using ds(1,3) by (simp del: concat_eq_Nil_conv)
    moreover have "bs_out b' = put_bytes 0 (concat ds) buf" "length (concat ds) \<le> cap"
      using buf_sink_run [OF ds(4)] by simp_all
    ultimately have "spec_gzip data 0 = Some (concat ds) \<and> concat ds \<noteq> [] \<and> n = length (concat ds) \<and> length (concat ds) \<le> cap \<and>
        bs_out b' = (\<lambda>i. if i < length (concat ds) then concat ds ! i else buf i)"
      using ds(2,3) by (simp add: put_bytes_def del: concat_eq_Nil_conv cong: if_cong)
    then show ?thesis unfolding Some option.case by blast
  qed
  ultimately show ?thesis by blast
qed

text \<open>
  C6. \<open>gzip_inflate()\<close> is exact. For every input it returns. When the dynamic blocks of the streams
  behind the member headers of the file have usual headers (as in the claim on \<open>inflate_raw\<close>), it returns 0
  exactly when the input is a gzip file of RFC 1952: a sequence of members, each with a header, a
  DEFLATE stream of RFC 1951 and the CRC-32 of its content (the remainder of polynomials of the
  standard), followed by zero bytes or nothing, whose contents together are not empty and fit the
  buffer. The buffer then starts with those contents, \<open>*out_len\<close> is their length, and no byte of the
  buffer after them has changed. The size field of a trailer, the checksum of a header and reserved
  flags are not looked at.
\<close>

theorem gzip_inflate_exact:
  assumes "globals_ok g"
  shows "\<exists>r w g' buf'. gzip_inflate data buf cap window g = Some (r, w, g', buf') \<and>
    (usual_gzip data \<longrightarrow>
      (case r of
         None \<Rightarrow> \<forall>os. gzip_file data os \<longrightarrow> os = [] \<or> cap < length os
       | Some n \<Rightarrow> \<exists>os. gzip_file data os \<and> os \<noteq> [] \<and> n = length os \<and> length os \<le> cap \<and>
           buf' = (\<lambda>i. if i < length os then os ! i else buf i)))"
proof (cases "usual_gzip data \<and> 18 \<le> length data")
  case True
  then have eq: "spec_gzip data 0 = Some os \<longleftrightarrow> gzip_file data os" for os
    using spec_gzip_rfc [of data 0 os] by simp
  show ?thesis using gzip_inflate_format [OF assms, of data buf cap window] unfolding eq by blast
next
  case False
  obtain r w g' buf' where r: "gzip_inflate data buf cap window g = Some (r, w, g', buf')"
    and f: "case r of
       None \<Rightarrow> \<forall>os. spec_gzip data 0 = Some os \<longrightarrow> os = [] \<or> cap < length os
     | Some n \<Rightarrow> \<exists>os. spec_gzip data 0 = Some os \<and> os \<noteq> [] \<and> n = length os \<and> length os \<le> cap \<and>
         buf' = (\<lambda>i. if i < length os then os ! i else buf i)"
    using gzip_inflate_format [OF assms, of data buf cap window] by blast
  have "case r of
       None \<Rightarrow> \<forall>os. gzip_file data os \<longrightarrow> os = [] \<or> cap < length os
     | Some n \<Rightarrow> \<exists>os. gzip_file data os \<and> os \<noteq> [] \<and> n = length os \<and> length os \<le> cap \<and>
         buf' = (\<lambda>i. if i < length os then os ! i else buf i)" if "usual_gzip data"
  proof -
    have "length data < 18" using False that by simp
    then have "spec_gzip data 0 = Some []" "\<not> gzip_file data os" for os
      by (simp_all add: spec_gzip.simps) (auto dest: gzip_file_start)
    with f show ?thesis by (cases r) auto
  qed
  with r show ?thesis by blast
qed

text \<open>A file with the single byte \<open>0x41\<close>.\<close>

definition gzip_A :: "u8 list" where
  "gzip_A = [0x1F, 0x8B, 8, 0, 0, 0, 0, 0, 0, 3] @ stored_A @ [0x8B, 0x9E, 0xD9, 0xD3, 1, 0, 0, 0]"

lemma spec_inflate_stored_A:
  "spec_inflate (bits_of (stored_A @ t)) [] = Some ((), bits_of t, [0x41])"
proof -
  have "bits_of (stored_A @ t) = bits_of stored_A @ bits_of t" by (simp add: bits_of_def)
  then show ?thesis
    unfolding bits_stored_A
    by (subst spec_inflate.simps)
      (simp add: read_bits_def bits_val_def spec_block_def spec_stored_def bits_bytes_def)
qed

lemma spec_gzip_A: "spec_gzip gzip_A 0 = Some [0x41]"
proof -
  have crc: "crc32_update 0 [0x41] = 0xD3D99E8B" by code_simp
  have le: "le32 (stored_A @ [0x8B, 0x9E, 0xD9, 0xD3, 1, 0, 0, 0]) 6 = 0xD3D99E8B" by code_simp
  have h: "gzip_header gzip_A 0 = Some 10" by (simp add: gzip_header_def gzip_A_def stored_A_def)
  have d: "drop 10 gzip_A = stored_A @ [0x8B, 0x9E, 0xD9, 0xD3, 1, 0, 0, 0]" by (simp add: gzip_A_def)
  have len: "length stored_A = 6" "length gzip_A = 24" by (simp_all add: stored_A_def gzip_A_def)
  have "spec_member gzip_A 0 = Some ([0x41], 24)"
    by (simp add: spec_member_def h d spec_inflate_stored_A Let_def len crc le)
  then show ?thesis
    by (subst spec_gzip.simps) (simp add: len skip_zeros.simps [of gzip_A 24])
qed

lemma usual_gzip_A: "usual_gzip gzip_A"
  unfolding usual_gzip_def
proof (intro allI impI, elim conjE)
  fix pre h d
  assume eq: "gzip_A = pre @ h @ d" and h: "gzip_hdr h"
  from h obtain h' where h': "h = 0x1F # h'" using gzip_hdr_start [of h] by (cases h) auto
  have "0x1F \<notin> set (tl gzip_A)" by (simp add: gzip_A_def stored_A_def)
  then have pre: "pre = []" using arg_cong [OF eq, of tl] by (cases pre) (auto simp: h')
  have "gzip_header gzip_A 0 = Some (length h)" using gzip_header_complete [OF h, of d] by (simp add: eq pre)
  moreover have "gzip_header gzip_A 0 = Some 10" by (simp add: gzip_header_def gzip_A_def stored_A_def)
  ultimately have "d = drop 10 gzip_A" by (simp add: eq pre)
  then show "usual_stream (bits_of d) []" by (simp add: gzip_A_def usual_stored_A)
qed

theorem gzip_inflate_exact_witness:
  "globals_ok inf_static \<and> usual_gzip gzip_A \<and> gzip_file gzip_A [0x41] \<and>
   (\<exists>w g'. gzip_inflate gzip_A (\<lambda>_. 0) 100 (\<lambda>_. 0) inf_static = Some (Some 1, w, g', (\<lambda>i. if i < 1 then 0x41 else 0)))"
proof -
  have g: "globals_ok inf_static" by (simp add: globals_ok_def inf_static_def)
  have spec: "gzip_file gzip_A os \<longleftrightarrow> os = [0x41]" for os
    using spec_gzip_rfc [OF usual_gzip_A, of 0 os] spec_gzip_A by (auto simp: gzip_A_def stored_A_def)
  obtain r w g' buf' where 1: "gzip_inflate gzip_A (\<lambda>_. 0) 100 (\<lambda>_. 0) inf_static = Some (r, w, g', buf')"
    and 2: "case r of
       None \<Rightarrow> \<forall>os. gzip_file gzip_A os \<longrightarrow> os = [] \<or> 100 < length os
     | Some n \<Rightarrow> \<exists>os. gzip_file gzip_A os \<and> os \<noteq> [] \<and> n = length os \<and> length os \<le> 100 \<and>
         buf' = (\<lambda>i. if i < length os then os ! i else 0)"
    using gzip_inflate_exact [OF g, of gzip_A "\<lambda>_. 0" 100 "\<lambda>_. 0"] usual_gzip_A by blast
  from 2 have "r = Some 1" "buf' = (\<lambda>i. if i < 1 then 0x41 else 0)"
    by (auto simp: spec fun_eq_iff split: option.splits)
  with 1 g usual_gzip_A spec show ?thesis by blast
qed

end
