(* ===== verification/Fat.thy ===== *)
theory Fat
  imports Kernel_Prelude
begin

unbundle bit_operations_syntax

text \<open>
  The FAT32 layer of \<open>fs/fs.c\<close> below the directory tree: the RAM disk of \<open>drivers/disk.c\<close>, the
  geometry in the boot sector, the file allocation table with its memory copy, the allocation and
  release of clusters, and the reading and writing of the data of a cluster chain. The disk and the
  sector buffers are functions from byte positions. The FAT layer only ever runs on the RAM disk
  (\<open>fs_init\<close>), so the device path of the two sector operations is left out: they fail beyond the
  end of the disk or when no disk is present.
\<close>

section \<open>Bytes\<close>

type_synonym bytes = "nat \<Rightarrow> u8"

definition get16 :: "bytes \<Rightarrow> nat \<Rightarrow> u16" where
  "get16 d a = ucast (d a) OR push_bit 8 (ucast (d (a + 1)))"

definition put16 :: "nat \<Rightarrow> u16 \<Rightarrow> bytes \<Rightarrow> bytes" where
  "put16 a v d = d(a := ucast v, a + 1 := ucast (drop_bit 8 v))"

definition get32 :: "bytes \<Rightarrow> nat \<Rightarrow> u32" where
  "get32 d a = ucast (d a) OR push_bit 8 (ucast (d (a + 1))) OR push_bit 16 (ucast (d (a + 2)))
     OR push_bit 24 (ucast (d (a + 3)))"

definition put32 :: "nat \<Rightarrow> u32 \<Rightarrow> bytes \<Rightarrow> bytes" where
  "put32 a v d = d(a := ucast v, a + 1 := ucast (drop_bit 8 v), a + 2 := ucast (drop_bit 16 v),
     a + 3 := ucast (drop_bit 24 v))"

section \<open>State\<close>

definition DISK_SECTOR_SIZE :: nat where "DISK_SECTOR_SIZE = 512"
definition DISK_MAX_SECTORS :: nat where "DISK_MAX_SECTORS = 65536"
definition FAT32_EOC_MARK :: u32 where "FAT32_EOC_MARK = 0x0FFFFFFF"
definition FAT32_IO_ERROR :: u32 where "FAT32_IO_ERROR = 0xFFFFFFFF"
definition MAX_FILE_SIZE :: nat where "MAX_FILE_SIZE = 32 * 1024 * 1024"

datatype fs_error = FS_ERR_EXISTS | FS_ERR_FULL | FS_ERR_INVALID | FS_ERR_NOT_FOUND | FS_ERR_IO

record fat32_bpb_t =
  jump :: "u8 list"
  oem_name :: "u8 list"
  bytes_per_sector :: u16
  sectors_per_cluster :: u8
  reserved_sectors :: u16
  fat_count :: u8
  root_entries :: u16
  total_sectors_16 :: u16
  media_type :: u8
  sectors_per_fat_16 :: u16
  sectors_per_track :: u16
  heads :: u16
  hidden_sectors :: u32
  total_sectors_32 :: u32

record fat32_boot_sector_t =
  bpb :: fat32_bpb_t
  sectors_per_fat_32 :: u32
  extended_flags :: u16
  fs_version :: u16
  root_cluster :: u32
  fs_info_sector :: u16
  backup_boot_sector :: u16
  bs_reserved :: "u8 list"
  drive_number :: u8
  bs_reserved1 :: u8
  boot_signature :: u8
  volume_id :: u32
  volume_label :: "u8 list"
  fs_type :: "u8 list"
  boot_code :: "u8 list"
  boot_signature_word :: u16

record fat_state =
  disk_present :: bool
  ram_disk :: bytes
  boot_sector :: fat32_boot_sector_t
  fat_buffer :: bytes
  fat_cache_ready :: bool
  fat_alloc_hint :: u32

type_synonym 'a fat = "'a fat_state_scheme"

section \<open>The RAM disk\<close>

definition disk_read_sector :: "u32 \<Rightarrow> 'a fat \<Rightarrow> bytes option" where
  "disk_read_sector sector s =
     (if \<not> disk_present s \<or> DISK_MAX_SECTORS \<le> unat sector then None
      else Some (\<lambda>i. ram_disk s (unat sector * DISK_SECTOR_SIZE + i)))"

definition disk_write_sector :: "u32 \<Rightarrow> bytes \<Rightarrow> 'a fat \<Rightarrow> 'a fat option" where
  "disk_write_sector sector buffer s =
     (if \<not> disk_present s \<or> DISK_MAX_SECTORS \<le> unat sector then None
      else Some (s\<lparr>ram_disk := (\<lambda>a. if a div DISK_SECTOR_SIZE = unat sector
                                    then buffer (a mod DISK_SECTOR_SIZE) else ram_disk s a)\<rparr>))"

section \<open>Geometry\<close>

definition get_sectors_per_fat :: "'a fat \<Rightarrow> u32" where
  "get_sectors_per_fat s = sectors_per_fat_32 (boot_sector s)"

definition get_first_fat_sector :: "'a fat \<Rightarrow> u32" where
  "get_first_fat_sector s = ucast (reserved_sectors (bpb (boot_sector s)))"

definition get_first_data_sector :: "'a fat \<Rightarrow> u32" where
  "get_first_data_sector s =
     get_first_fat_sector s + ucast (fat_count (bpb (boot_sector s))) * get_sectors_per_fat s"

definition cluster_to_sector :: "'a fat \<Rightarrow> u32 \<Rightarrow> u32" where
  "cluster_to_sector s cluster =
     get_first_data_sector s + (cluster - 2) * ucast (sectors_per_cluster (bpb (boot_sector s)))"

definition get_fat_entry_sector :: "'a fat \<Rightarrow> u32 \<Rightarrow> u32" where
  "get_fat_entry_sector s cluster =
     get_first_fat_sector s + (cluster * 4) div ucast (bytes_per_sector (bpb (boot_sector s)))"

definition get_fat_entry_offset :: "'a fat \<Rightarrow> u32 \<Rightarrow> u32" where
  "get_fat_entry_offset s cluster =
     (cluster * 4) mod ucast (bytes_per_sector (bpb (boot_sector s)))"

definition fat_entry_count :: "'a fat \<Rightarrow> u32" where
  "fat_entry_count s = (get_sectors_per_fat s * of_nat DISK_SECTOR_SIZE) div 4"

section \<open>The file allocation table\<close>

definition fat_read_entry :: "u32 \<Rightarrow> 'a fat \<Rightarrow> u32" where
  "fat_read_entry cluster s =
     (if fat_cache_ready s \<and> cluster < fat_entry_count s then get32 (fat_buffer s) (unat (cluster * 4))
      else case disk_read_sector (get_fat_entry_sector s cluster) s of
             None \<Rightarrow> FAT32_IO_ERROR
           | Some buffer \<Rightarrow> get32 buffer (unat (get_fat_entry_offset s cluster)))"

text \<open>The memory copy is updated first, so it changes even when the disk access fails.\<close>

definition fat_write_entry :: "u32 \<Rightarrow> u32 \<Rightarrow> 'a fat \<Rightarrow> bool \<times> 'a fat" where
  "fat_write_entry cluster value s =
     (let s = (if fat_cache_ready s \<and> cluster < fat_entry_count s
               then s\<lparr>fat_buffer := put32 (unat (cluster * 4)) value (fat_buffer s)\<rparr> else s);
          sector = get_fat_entry_sector s cluster
      in case disk_read_sector sector s of
           None \<Rightarrow> (False, s)
         | Some buffer \<Rightarrow>
             (case disk_write_sector sector (put32 (unat (get_fat_entry_offset s cluster)) value buffer) s of
                None \<Rightarrow> (False, s)
              | Some s \<Rightarrow> (True, s)))"

section \<open>Cluster allocation\<close>

definition alloc_max_cluster :: "'a fat \<Rightarrow> u32" where
  "alloc_max_cluster s =
     (let data_sectors = of_nat DISK_MAX_SECTORS - get_first_data_sector s;
          max_cluster = 2 + data_sectors div ucast (sectors_per_cluster (bpb (boot_sector s)))
      in if max_cluster > fat_entry_count s then fat_entry_count s else max_cluster)"

definition count_free :: "u32 \<Rightarrow> 'a fat \<Rightarrow> u32" where
  "count_free max_cluster s =
     of_nat (length (filter (\<lambda>c. fat_read_entry (of_nat c) s = 0) [2..<unat max_cluster]))"

text \<open>The update of the FSInfo sector: \<open>free_count\<close> at offset 0, \<open>next_free\<close> at offset 4.\<close>

definition fsinfo_taken :: "u32 \<Rightarrow> u32 \<Rightarrow> 'a fat \<Rightarrow> 'a fat" where
  "fsinfo_taken max_cluster cluster s =
     (let sector = ucast (fs_info_sector (boot_sector s)) in
      case disk_read_sector sector s of
        None \<Rightarrow> s
      | Some buffer \<Rightarrow>
          (let buffer = put32 4 cluster buffer;
               buffer = (if get32 buffer 0 = 0xFFFFFFFF then put32 0 (count_free max_cluster s) buffer
                         else if get32 buffer 0 > 0 then put32 0 (get32 buffer 0 - 1) buffer
                         else buffer)
           in case disk_write_sector sector buffer s of None \<Rightarrow> s | Some s \<Rightarrow> s))"

partial_function (option) alloc_scan ::
  "u32 \<Rightarrow> u32 \<Rightarrow> u32 \<Rightarrow> 'a fat \<Rightarrow> (u32 \<times> 'a fat) option" where
  "alloc_scan max_cluster start cluster s =
     (let (taken, s) = (if fat_read_entry cluster s = 0 then fat_write_entry cluster FAT32_EOC_MARK s
                        else (False, s))
      in if taken then
           Some (cluster, (fsinfo_taken max_cluster cluster s)
             \<lparr>fat_alloc_hint := (if cluster + 1 \<ge> max_cluster then 2 else cluster + 1)\<rparr>)
         else
           (let cluster = cluster + 1;
                cluster = (if cluster \<ge> max_cluster then 2 else cluster)
            in if cluster = start then Some (0, s) else alloc_scan max_cluster start cluster s))"

definition fat_alloc_cluster :: "'a fat \<Rightarrow> (u32 \<times> 'a fat) option" where
  "fat_alloc_cluster s =
     (let max_cluster = alloc_max_cluster s;
          start = fat_alloc_hint s;
          start = (if start < 2 \<or> start \<ge> max_cluster then 2 else start)
      in alloc_scan max_cluster start start s)"

partial_function (option) free_loop ::
  "u32 \<Rightarrow> u32 \<Rightarrow> 'a fat \<Rightarrow> (bool \<times> u32 \<times> 'a fat) option" where
  "free_loop cluster freed_count s =
     (if cluster \<noteq> 0 \<and> cluster \<noteq> FAT32_EOC_MARK \<and> cluster \<noteq> FAT32_IO_ERROR then
        (let nxt = fat_read_entry cluster s;
             (written, s) = fat_write_entry cluster 0 s
         in if nxt = FAT32_IO_ERROR \<or> \<not> written then Some (False, freed_count, s)
            else free_loop nxt (freed_count + 1) s)
      else Some (True, freed_count, s))"

definition fsinfo_freed :: "u32 \<Rightarrow> 'a fat \<Rightarrow> 'a fat" where
  "fsinfo_freed freed_count s =
     (let sector = ucast (fs_info_sector (boot_sector s)) in
      case disk_read_sector sector s of
        None \<Rightarrow> s
      | Some buffer \<Rightarrow>
          (let buffer = (if get32 buffer 0 \<noteq> 0xFFFFFFFF
                         then put32 0 (get32 buffer 0 + freed_count) buffer else buffer);
               buffer = put32 4 2 buffer
           in case disk_write_sector sector buffer s of None \<Rightarrow> s | Some s \<Rightarrow> s))"

definition fat_free_cluster_chain :: "u32 \<Rightarrow> 'a fat \<Rightarrow> (bool \<times> 'a fat) option" where
  "fat_free_cluster_chain first_cluster s =
     (let s = (if first_cluster \<ge> 2 \<and> first_cluster < fat_alloc_hint s
               then s\<lparr>fat_alloc_hint := first_cluster\<rparr> else s)
      in Option.bind (free_loop first_cluster 0 s) (\<lambda>(done_ok, freed_count, s).
           if \<not> done_ok then Some (False, s)
           else Some (True, if freed_count > 0 then fsinfo_freed freed_count s else s)))"

section \<open>The data of a chain\<close>

text \<open>The FAT part of \<open>fs_write_file\<close>: the sectors of one cluster, then cluster by cluster.\<close>

function write_sectors ::
  "u32 \<Rightarrow> nat \<Rightarrow> nat \<Rightarrow> nat \<Rightarrow> nat \<Rightarrow> bytes \<Rightarrow> 'a fat \<Rightarrow> bool \<times> nat \<times> 'a fat" where
  "write_sectors sector spc k offset sz data s =
     (if k < spc \<and> offset < sz then
        (let copy_size = (if offset + DISK_SECTOR_SIZE > sz then sz - offset else DISK_SECTOR_SIZE);
             buffer = (\<lambda>i. if i < copy_size then data (offset + i) else 0)
         in case disk_write_sector (sector + of_nat k) buffer s of
              None \<Rightarrow> (False, offset, s)
            | Some s \<Rightarrow> write_sectors sector spc (k + 1) (offset + copy_size) sz data s)
      else (True, offset, s))"
  by pat_completeness auto
termination
  by (relation "measure (\<lambda>(sector, spc, k, offset, sz, data, s). spc - k)") auto

declare write_sectors.simps [simp del]

definition undo_write :: "fs_error \<Rightarrow> u32 \<Rightarrow> 'a fat \<Rightarrow> (fs_error option \<times> 'a fat) option" where
  "undo_write e first_cluster s =
     map_option (\<lambda>(_, s). (Some e, s)) (fat_free_cluster_chain first_cluster s)"

partial_function (option) write_clusters ::
  "u32 \<Rightarrow> u32 \<Rightarrow> nat \<Rightarrow> nat \<Rightarrow> bytes \<Rightarrow> 'a fat \<Rightarrow> (fs_error option \<times> 'a fat) option" where
  "write_clusters first_cluster current_cluster offset sz data s =
     (if offset < sz then
        (let (ok, offset, s) = write_sectors (cluster_to_sector s current_cluster)
               (unat (sectors_per_cluster (bpb (boot_sector s)))) 0 offset sz data s
         in if \<not> ok then undo_write FS_ERR_IO first_cluster s
            else if offset < sz then
              Option.bind (fat_alloc_cluster s) (\<lambda>(next_cluster, s).
                if next_cluster = 0 then undo_write FS_ERR_FULL first_cluster s
                else
                  (let (ok, s) = fat_write_entry current_cluster next_cluster s
                   in if \<not> ok then undo_write FS_ERR_IO first_cluster s
                      else write_clusters first_cluster next_cluster offset sz data s))
            else write_clusters first_cluster current_cluster offset sz data s)
      else Some (None, s))"

definition fat_write_data :: "nat \<Rightarrow> bytes \<Rightarrow> 'a fat \<Rightarrow> ((fs_error + u32) \<times> 'a fat) option" where
  "fat_write_data sz data s =
     Option.bind (fat_alloc_cluster s) (\<lambda>(first_cluster, s).
       if first_cluster = 0 then Some (Inl FS_ERR_FULL, s)
       else Option.bind (write_clusters first_cluster first_cluster 0 sz data s) (\<lambda>(e, s).
         Some (case e of None \<Rightarrow> Inr first_cluster | Some e \<Rightarrow> Inl e, s)))"

text \<open>The FAT part of \<open>fs_read_file\<close>. \<open>False\<close> means that a sector could not be read.\<close>

definition memcpy_at :: "nat \<Rightarrow> nat \<Rightarrow> bytes \<Rightarrow> bytes \<Rightarrow> bytes" where
  "memcpy_at offset n source buffer =
     (\<lambda>i. if offset \<le> i \<and> i < offset + n then source (i - offset) else buffer i)"

function read_sectors ::
  "u32 \<Rightarrow> nat \<Rightarrow> nat \<Rightarrow> nat \<Rightarrow> nat \<Rightarrow> 'a fat \<Rightarrow> bytes \<Rightarrow> bool \<times> nat \<times> bytes" where
  "read_sectors sector spc k offset sz s buffer =
     (if k < spc \<and> offset < sz then
        (case disk_read_sector (sector + of_nat k) s of
           None \<Rightarrow> (False, offset, buffer)
         | Some sector_buffer \<Rightarrow>
             (let copy_size = (if offset + DISK_SECTOR_SIZE > sz then sz - offset else DISK_SECTOR_SIZE)
              in read_sectors sector spc (k + 1) (offset + copy_size) sz s
                   (memcpy_at offset copy_size sector_buffer buffer)))
      else (True, offset, buffer))"
  by pat_completeness auto
termination
  by (relation "measure (\<lambda>(sector, spc, k, offset, sz, s, buffer). spc - k)") auto

declare read_sectors.simps [simp del]

partial_function (option) read_clusters ::
  "u32 \<Rightarrow> nat \<Rightarrow> nat \<Rightarrow> 'a fat \<Rightarrow> bytes \<Rightarrow> (bool \<times> nat \<times> bytes) option" where
  "read_clusters current_cluster offset sz s buffer =
     (if offset < sz \<and> current_cluster \<noteq> FAT32_EOC_MARK \<and> current_cluster \<noteq> FAT32_IO_ERROR then
        (let (ok, offset, buffer) = read_sectors (cluster_to_sector s current_cluster)
               (unat (sectors_per_cluster (bpb (boot_sector s)))) 0 offset sz s buffer
         in if \<not> ok then Some (False, offset, buffer)
            else read_clusters (fat_read_entry current_cluster s) offset sz s buffer)
      else Some (True, offset, buffer))"

end
