(* ===== verification/Fat_Chain.thy ===== *)
theory Fat_Chain
  imports Fat
begin

unbundle bit_operations_syntax

text \<open>
  Clusters and chains: what the FAT operations do to the table and to the data area, and that a
  chain written by \<open>write_clusters\<close> reads back.
\<close>

section \<open>Bytes\<close>

lemma bit_get32: "bit (get32 d a) k \<longleftrightarrow> k < 32 \<and> bit (d (a + k div 8)) (k mod 8)"
proof (cases "k < 32")
  case True
  then consider "k < 8" | "8 \<le> k" "k < 16" | "16 \<le> k" "k < 24" | "24 \<le> k" "k < 32" by linarith
  then show ?thesis
  proof cases
    case 1
    then show ?thesis by (auto simp: get32_def bit_simps)
  next
    case 2
    then have "k div 8 = 1" "k mod 8 = k - 8" by (auto simp: div_nat_eqI mod_if le_mod_geq)
    with 2 show ?thesis by (auto simp: get32_def bit_simps dest: bit_imp_le_length)
  next
    case 3
    then have "k div 8 = 2" by (auto intro!: div_nat_eqI)
    moreover from this have "k mod 8 = k - 16" by (simp add: modulo_nat_def)
    ultimately show ?thesis using 3 by (auto simp: get32_def bit_simps dest: bit_imp_le_length)
  next
    case 4
    then have "k div 8 = 3" by (auto intro!: div_nat_eqI)
    moreover from this have "k mod 8 = k - 24" by (simp add: modulo_nat_def)
    ultimately show ?thesis using 4 by (auto simp: get32_def bit_simps dest: bit_imp_le_length)
  qed
qed (auto dest: bit_imp_le_length)

lemma get32_put32_same [simp]: "get32 (put32 a v d) a = v"
proof (rule bit_word_eqI)
  fix k assume k: "k < LENGTH(32)"
  then consider "k < 8" | "8 \<le> k" "k < 16" | "16 \<le> k" "k < 24" | "24 \<le> k" by linarith
  then show "bit (get32 (put32 a v d) a) k = bit v k"
    using k by cases (auto simp: get32_def put32_def bit_simps dest: bit_imp_le_length)
qed

lemma get32_put32_other: "a + 4 \<le> b \<or> b + 4 \<le> a \<Longrightarrow> get32 (put32 a v d) b = get32 d b"
  by (auto simp: get32_def put32_def)

lemma put32_apply_other: "i < a \<or> a + 4 \<le> i \<Longrightarrow> put32 a v d i = d i"
  by (auto simp: put32_def)

lemma get32_cong:
  assumes "\<And>i. i < 4 \<Longrightarrow> d (a + i) = d' (b + i)"
  shows "get32 d a = get32 d' b"
  using assms [of 0] assms [of 1] assms [of 2] assms [of 3] by (simp add: get32_def)

lemma get32_shift: "get32 (\<lambda>i. d (b + i)) a = get32 d (b + a)"
  by (simp add: get32_def add.assoc)

lemma unat_ucast_u16_u32 [simp]: "unat (ucast (w :: u16) :: u32) = unat w"
  by (simp add: unsigned_ucast_eq take_bit_nat_eq_self less_trans [OF unat_u16_less])

lemma unat_ucast_u8_u32 [simp]: "unat (ucast (w :: u8) :: u32) = unat w"
  by (simp add: unsigned_ucast_eq take_bit_nat_eq_self less_trans [OF unat_u8_less])

section \<open>Geometry\<close>

definition spc_of :: "'a fat \<Rightarrow> nat" where
  "spc_of s = unat (sectors_per_cluster (bpb (boot_sector s)))"

definition fat_start :: "'a fat \<Rightarrow> nat" where
  "fat_start s = unat (reserved_sectors (bpb (boot_sector s)))"

definition fat_sectors :: "'a fat \<Rightarrow> nat" where
  "fat_sectors s = unat (sectors_per_fat_32 (boot_sector s))"

definition data_start :: "'a fat \<Rightarrow> nat" where
  "data_start s = fat_start s + unat (fat_count (bpb (boot_sector s))) * fat_sectors s"

definition max_cl :: "'a fat \<Rightarrow> nat" where
  "max_cl s = min (2 + (DISK_MAX_SECTORS - data_start s) div spc_of s) (128 * fat_sectors s)"

definition geom :: "'a fat \<Rightarrow> bool" where
  "geom s \<longleftrightarrow> disk_present s \<and> bytes_per_sector (bpb (boot_sector s)) = 512 \<and> 0 < spc_of s
     \<and> fat_count (bpb (boot_sector s)) \<noteq> 0 \<and> data_start s \<le> DISK_MAX_SECTORS \<and> 2 < max_cl s
     \<and> 0 < fs_info_sector (boot_sector s) \<and> unat (fs_info_sector (boot_sector s)) < fat_start s"

definition valid :: "'a fat \<Rightarrow> u32 \<Rightarrow> bool" where
  "valid s c \<longleftrightarrow> 2 \<le> unat c \<and> unat c < max_cl s"

lemma fat_sectors_le: "geom s \<Longrightarrow> fat_start s + fat_sectors s \<le> data_start s"
  by (cases "unat (fat_count (bpb (boot_sector s)))")
    (auto simp: geom_def data_start_def unat_eq_0)

lemma fat_sectors_bound: "geom s \<Longrightarrow> fat_sectors s \<le> 65536"
  using fat_sectors_le [of s] by (simp add: geom_def DISK_MAX_SECTORS_def)

lemma unat_first_fat: "unat (get_first_fat_sector s) = fat_start s"
  by (simp add: get_first_fat_sector_def fat_start_def)

lemma unat_first_data: "geom s \<Longrightarrow> unat (get_first_data_sector s) = data_start s"
  by (simp add: get_first_data_sector_def get_sectors_per_fat_def unat_word_ariths unat_first_fat
      data_start_def fat_sectors_def geom_def DISK_MAX_SECTORS_def)

lemma unat_entry_count: "geom s \<Longrightarrow> unat (fat_entry_count s) = 128 * fat_sectors s"
  using fat_sectors_bound [of s]
  by (simp add: fat_entry_count_def get_sectors_per_fat_def unat_div unat_word_ariths fat_sectors_def
      DISK_SECTOR_SIZE_def)

lemma unat_max_cluster:
  assumes "geom s"
  shows "unat (alloc_max_cluster s) = max_cl s"
proof -
  have "unat (of_nat DISK_MAX_SECTORS - get_first_data_sector s) = DISK_MAX_SECTORS - data_start s"
    using assms by (subst unat_sub) (auto simp: word_le_nat_alt unat_first_data geom_def DISK_MAX_SECTORS_def)
  moreover have "(DISK_MAX_SECTORS - data_start s) div spc_of s \<le> 65536"
    by (rule le_trans [OF div_le_dividend]) (simp add: DISK_MAX_SECTORS_def)
  ultimately show ?thesis
    using assms by (auto simp: alloc_max_cluster_def Let_def word_less_nat_alt unat_entry_count max_cl_def
        unat_word_ariths unat_div spc_of_def)
qed

lemma max_cl_bound: "max_cl s \<le> 65538" "max_cl s \<le> 128 * fat_sectors s"
  using div_le_dividend [of "65536 - data_start s" "spc_of s"]
  unfolding max_cl_def DISK_MAX_SECTORS_def by linarith+

lemma cluster_room:
  assumes "geom s" "valid s c" "k < spc_of s"
  shows "data_start s + (unat c - 2) * spc_of s + k < DISK_MAX_SECTORS"
proof -
  have "unat c - 2 < (DISK_MAX_SECTORS - data_start s) div spc_of s"
    using assms(2) by (auto simp: valid_def max_cl_def)
  then have "(unat c - 2 + 1) * spc_of s \<le> (DISK_MAX_SECTORS - data_start s) div spc_of s * spc_of s"
    by (intro mult_le_mono1) simp
  also have "\<dots> \<le> DISK_MAX_SECTORS - data_start s" by (rule div_times_less_eq_dividend)
  finally show ?thesis using assms(1,3) by (auto simp: geom_def)
qed

lemma unat_cluster_sector:
  assumes "geom s" "valid s c" "k < spc_of s"
  shows "unat (cluster_to_sector s c + of_nat k) = data_start s + (unat c - 2) * spc_of s + k"
proof -
  note room = cluster_room [OF assms, unfolded DISK_MAX_SECTORS_def]
  have c: "unat (c - 2) = unat c - 2"
    using assms(2) by (subst unat_sub) (auto simp: valid_def word_le_nat_alt)
  have "unat (of_nat k :: u32) = k"
    using room by (intro unat_of_nat_small) simp
  then show ?thesis
    using room by (simp add: cluster_to_sector_def unat_word_ariths c unat_first_data [OF assms(1)]
        spc_of_def)
qed

lemma unat_entry_place:
  assumes "geom s" "unat c < 128 * fat_sectors s"
  shows "unat (get_fat_entry_sector s c) = fat_start s + unat c div 128"
    and "unat (get_fat_entry_offset s c) = 4 * (unat c mod 128)"
    and "fat_start s + unat c div 128 < data_start s"
    and "unat (c * 4) = 4 * unat c"
proof -
  have c: "unat c < 8388608" using assms fat_sectors_bound [of s] by simp
  then show c4: "unat (c * 4) = 4 * unat c" by (simp add: unat_word_ariths)
  have d: "unat c div 128 < fat_sectors s" using assms(2) by (simp add: div_less_iff_less_mult mult.commute)
  then show "fat_start s + unat c div 128 < data_start s" using fat_sectors_le [OF assms(1)] by simp
  then show "unat (get_fat_entry_sector s c) = fat_start s + unat c div 128"
    using assms(1) c4 by (simp add: get_fat_entry_sector_def geom_def unat_word_ariths unat_div unat_first_fat
        DISK_MAX_SECTORS_def)
  show "unat (get_fat_entry_offset s c) = 4 * (unat c mod 128)"
    using assms(1) c4 mult_mod_right [of 4 "unat c" 128]
    by (simp add: get_fat_entry_offset_def geom_def unat_mod)
qed

section \<open>The table\<close>

text \<open>Entry \<open>c\<close> of FAT number 1 on the disk.\<close>

definition ent :: "'a fat \<Rightarrow> u32 \<Rightarrow> u32" where
  "ent s c = get32 (ram_disk s) (512 * fat_start s + 4 * unat c)"

definition in_table :: "'a fat \<Rightarrow> u32 \<Rightarrow> bool" where
  "in_table s c \<longleftrightarrow> unat c < 128 * fat_sectors s"

definition cache_ok :: "'a fat \<Rightarrow> bool" where
  "cache_ok s \<longleftrightarrow> (fat_cache_ready s \<longrightarrow>
     (\<forall>c. in_table s c \<longrightarrow> get32 (fat_buffer s) (4 * unat c) = ent s c))"

definition fat_inv :: "'a fat \<Rightarrow> bool" where
  "fat_inv s \<longleftrightarrow> geom s \<and> cache_ok s"

lemma valid_in_table: "valid s c \<Longrightarrow> in_table s c"
  using max_cl_bound(2) [of s] by (simp add: valid_def in_table_def)

lemma read_sector_ok:
  "disk_present s \<Longrightarrow> unat n < DISK_MAX_SECTORS \<Longrightarrow>
     disk_read_sector n s = Some (\<lambda>i. ram_disk s (512 * unat n + i))"
  by (simp add: disk_read_sector_def DISK_SECTOR_SIZE_def mult.commute)

lemma write_sector_ok:
  "disk_present s \<Longrightarrow> unat n < DISK_MAX_SECTORS \<Longrightarrow>
     disk_write_sector n b s =
       Some (s\<lparr>ram_disk := (\<lambda>a. if a div 512 = unat n then b (a mod 512) else ram_disk s a)\<rparr>)"
  unfolding disk_write_sector_def DISK_SECTOR_SIZE_def by simp

text \<open>A read, a change inside the buffer and a write change the disk in place.\<close>

lemma in_place:
  assumes "off + 4 \<le> 512"
  shows "(\<lambda>a. if a div 512 = n then put32 off v (\<lambda>i. d (512 * n + i)) (a mod 512) else d a)
    = put32 (512 * n + off) v d"
proof
  fix a :: nat
  show "(if a div 512 = n then put32 off v (\<lambda>i. d (512 * n + i)) (a mod 512) else d a)
      = put32 (512 * n + off) v d a"
  proof (cases "a div 512 = n")
    case True
    then obtain i where "a = 512 * n + i" "i < 512" by (metis mult_div_mod_eq mod_less_divisor zero_less_numeral)
    then show ?thesis using assms by (auto simp: put32_def)
  next
    case False
    then have "a < 512 * n \<or> 512 * n + 512 \<le> a" by auto
    then show ?thesis using assms False by (auto simp: put32_apply_other)
  qed
qed

lemma entry_address: "512 * (f + n div 128) + 4 * (n mod 128) = 512 * f + 4 * (n :: nat)"
proof -
  define q r where "q = n div 128" and "r = n mod 128"
  then have "n = 128 * q + r" by simp
  then have "512 * (f + q) + 4 * r = 512 * f + 4 * n" by simp
  then show ?thesis unfolding q_def r_def .
qed

lemma fat_read_entry_eq:
  assumes "fat_inv s" "in_table s c"
  shows "fat_read_entry c s = ent s c"
proof -
  have g: "geom s" "unat c < 128 * fat_sectors s" using assms by (simp_all add: fat_inv_def in_table_def)
  note p = unat_entry_place [OF g]
  note eq = entry_address [of "fat_start s" "unat c"]
  have "unat (get_fat_entry_sector s c) < DISK_MAX_SECTORS"
    using p(1,3) g(1) by (simp add: geom_def)
  then have "disk_read_sector (get_fat_entry_sector s c) s =
      Some (\<lambda>i. ram_disk s (512 * (fat_start s + unat c div 128) + i))"
    using g(1) p(1) by (simp add: read_sector_ok geom_def)
  moreover have "c < fat_entry_count s" using g by (simp add: word_less_nat_alt unat_entry_count)
  moreover have "get32 (\<lambda>i. ram_disk s (512 * (fat_start s + unat c div 128) + i)) (4 * (unat c mod 128)) = ent s c"
    by (simp only: get32_shift eq ent_def)
  ultimately show ?thesis
    using assms by (simp add: fat_read_entry_def fat_inv_def cache_ok_def p(2,4) del: mult_Suc_right)
qed

definition set_entry :: "u32 \<Rightarrow> u32 \<Rightarrow> 'a fat \<Rightarrow> 'a fat" where
  "set_entry c v s = s\<lparr>ram_disk := put32 (512 * fat_start s + 4 * unat c) v (ram_disk s),
     fat_buffer := (if fat_cache_ready s then put32 (4 * unat c) v (fat_buffer s) else fat_buffer s)\<rparr>"

lemma set_entry_fields [simp]:
  "ram_disk (set_entry c v s) = put32 (512 * fat_start s + 4 * unat c) v (ram_disk s)"
  "fat_buffer (set_entry c v s) = (if fat_cache_ready s then put32 (4 * unat c) v (fat_buffer s) else fat_buffer s)"
  "boot_sector (set_entry c v s) = boot_sector s" "disk_present (set_entry c v s) = disk_present s"
  "fat_cache_ready (set_entry c v s) = fat_cache_ready s" "fat_alloc_hint (set_entry c v s) = fat_alloc_hint s"
  "fat_state.more (set_entry c v s) = fat_state.more s"
  by (simp_all add: set_entry_def)

lemma fat_write_entry_eq:
  assumes "fat_inv s" "in_table s c"
  shows "fat_write_entry c v s = (True, set_entry c v s)"
proof -
  have g: "geom s" "unat c < 128 * fat_sectors s" using assms by (simp_all add: fat_inv_def in_table_def)
  note p = unat_entry_place [OF g]
  note eq = entry_address [of "fat_start s" "unat c"]
  have m: "unat (get_fat_entry_sector s c) < DISK_MAX_SECTORS"
    using p(1,3) g(1) by (simp add: geom_def)
  have c: "c < fat_entry_count s" using g by (simp add: word_less_nat_alt unat_entry_count)
  define t where "t = (if fat_cache_ready s then s\<lparr>fat_buffer := put32 (4 * unat c) v (fat_buffer s)\<rparr> else s)"
  have t: "get_fat_entry_sector t c = get_fat_entry_sector s c" "get_fat_entry_offset t c = get_fat_entry_offset s c"
    "disk_present t" "ram_disk t = ram_disk s"
    using g(1) by (simp_all add: t_def get_fat_entry_sector_def get_fat_entry_offset_def get_first_fat_sector_def geom_def)
  have o: "4 * (unat c mod 128) + 4 \<le> 512"
    using mod_less_divisor [of 128 "unat c"] by simp
  have "disk_read_sector (get_fat_entry_sector s c) t = Some (\<lambda>i. ram_disk s (512 * (fat_start s + unat c div 128) + i))"
    using m t by (simp add: read_sector_ok p(1))
  moreover have "disk_write_sector (get_fat_entry_sector s c)
      (put32 (4 * (unat c mod 128)) v (\<lambda>i. ram_disk s (512 * (fat_start s + unat c div 128) + i))) t
      = Some (t\<lparr>ram_disk := put32 (512 * fat_start s + 4 * unat c) v (ram_disk s)\<rparr>)"
    by (simp only: write_sector_ok [OF t(3) m] t(4) p(1) in_place [OF o, of "fat_start s + unat c div 128" v "ram_disk s"]) (simp only: eq)
  moreover have "fat_write_entry c v s = (case disk_read_sector (get_fat_entry_sector t c) t of
        None \<Rightarrow> (False, t)
      | Some buffer \<Rightarrow> (case disk_write_sector (get_fat_entry_sector t c)
          (put32 (unat (get_fat_entry_offset t c)) v buffer) t of None \<Rightarrow> (False, t) | Some s \<Rightarrow> (True, s)))"
    using c unfolding fat_write_entry_def Let_def p(4) t_def by simp
  ultimately show ?thesis
    by (simp only: t(1,2) p(2) option.case) (simp add: set_entry_def t_def)
qed

text \<open>
  \<open>fat_step f s s'\<close>: the table of \<open>s'\<close> is \<open>f\<close>, and apart from the table, the sectors before it
  (the FSInfo sector is one of them) and the hint nothing has changed.
\<close>

definition fat_step :: "(u32 \<Rightarrow> u32) \<Rightarrow> 'a fat \<Rightarrow> 'a fat \<Rightarrow> bool" where
  "fat_step f s s' \<longleftrightarrow> fat_inv s' \<and> boot_sector s' = boot_sector s \<and> fat_cache_ready s' = fat_cache_ready s
     \<and> fat_state.more s' = fat_state.more s
     \<and> (\<forall>c. in_table s c \<longrightarrow> ent s' c = f c)
     \<and> (\<forall>a. a < 512 \<or> 512 * data_start s \<le> a \<longrightarrow> ram_disk s' a = ram_disk s a)"

lemma same_geometry:
  assumes "boot_sector s' = boot_sector s"
  shows "spc_of s' = spc_of s" "fat_start s' = fat_start s" "fat_sectors s' = fat_sectors s"
    "data_start s' = data_start s" "max_cl s' = max_cl s" "valid s' = valid s" "in_table s' = in_table s"
    "alloc_max_cluster s' = alloc_max_cluster s" "cluster_to_sector s' = cluster_to_sector s"
    "fat_entry_count s' = fat_entry_count s"
  by (simp_all only: spc_of_def fat_start_def fat_sectors_def data_start_def max_cl_def valid_def [abs_def]
      in_table_def [abs_def] alloc_max_cluster_def get_first_data_sector_def get_first_fat_sector_def
      get_sectors_per_fat_def cluster_to_sector_def [abs_def] fat_entry_count_def assms)

lemma fat_step_refl: "fat_inv s \<Longrightarrow> fat_step (ent s) s s"
  by (simp add: fat_step_def)

lemma fat_step_trans:
  assumes "fat_step f s s'" "fat_step g s' s''"
  shows "fat_step g s s''"
proof -
  have "boot_sector s' = boot_sector s" using assms(1) by (simp add: fat_step_def)
  note geo = same_geometry [OF this]
  show ?thesis using assms by (simp add: fat_step_def geo)
qed

lemma fat_step_cong:
  "fat_step f s s' \<Longrightarrow> (\<And>c. in_table s c \<Longrightarrow> f c = g c) \<Longrightarrow> fat_step g s s'"
  by (simp add: fat_step_def)

lemma fat_step_same:
  assumes "fat_step f s s'"
  shows "fat_inv s'" "boot_sector s' = boot_sector s" "valid s' = valid s" "in_table s' = in_table s"
    "spc_of s' = spc_of s" "data_start s' = data_start s" "max_cl s' = max_cl s"
    "fat_start s' = fat_start s"
proof -
  show "fat_inv s'" and b: "boot_sector s' = boot_sector s" using assms by (simp_all add: fat_step_def)
  note geo = same_geometry [OF b]
  show "valid s' = valid s" "in_table s' = in_table s" "spc_of s' = spc_of s" "data_start s' = data_start s"
    "max_cl s' = max_cl s" "fat_start s' = fat_start s"
    by (fact geo)+
qed

lemma fat_step_ent: "fat_step f s s' \<Longrightarrow> in_table s c \<Longrightarrow> ent s' c = f c"
  by (simp add: fat_step_def)

lemma ent_inject:
  "in_table s c \<Longrightarrow> in_table s d \<Longrightarrow> c \<noteq> d \<Longrightarrow>
     4 * unat c + 4 \<le> 4 * unat d \<or> 4 * unat d + 4 \<le> 4 * unat c"
  using word_eq_iff_unsigned [of c d, where ?'a = nat] by auto

lemma set_entry_step:
  assumes "fat_inv s" "in_table s c"
  shows "fat_step ((ent s)(c := v)) s (set_entry c v s)"
proof -
  let ?s = "set_entry c v s"
  have same: "boot_sector ?s = boot_sector s" by simp
  note geo = same_geometry [OF same]
  have g: "geom s" using assms by (simp add: fat_inv_def)
  have c: "512 * fat_start s + 4 * unat c + 4 \<le> 512 * data_start s"
    using assms(2) fat_sectors_le [OF g] by (simp add: in_table_def)
  have f: "512 \<le> 512 * fat_start s" using g by (auto simp: geom_def)
  have e: "ent ?s d = ((ent s)(c := v)) d" if "in_table s d" for d
    using ent_inject [OF assms(2) that]
    by (auto simp: ent_def geo get32_put32_other)
  moreover have "cache_ok ?s"
    unfolding cache_ok_def
  proof (intro impI allI)
    fix d assume r: "fat_cache_ready ?s" and d: "in_table ?s d"
    have "get32 (fat_buffer ?s) (4 * unat d) = ((ent s)(c := v)) d"
      using assms(1) r d ent_inject [OF assms(2), of d]
      by (auto simp: get32_put32_other fat_inv_def cache_ok_def geo)
    then show "get32 (fat_buffer ?s) (4 * unat d) = ent ?s d" using e d by (simp add: geo)
  qed
  moreover have "geom ?s" using g by (simp add: geom_def geo)
  ultimately show ?thesis
    using c f by (auto simp: fat_step_def fat_inv_def put32_apply_other)
qed

lemma fat_write_entry_step:
  assumes "fat_inv s" "in_table s c"
  obtains s' where "fat_write_entry c v s = (True, s')" "fat_step ((ent s)(c := v)) s s'"
    "\<And>a. a < 512 * fat_start s \<Longrightarrow> ram_disk s' a = ram_disk s a" "fat_alloc_hint s' = fat_alloc_hint s"
  using fat_write_entry_eq [OF assms] set_entry_step [OF assms] that [of "set_entry c v s"]
  by (simp add: put32_apply_other)

section \<open>The free count\<close>

definition frees :: "'a fat \<Rightarrow> u32 set" where
  "frees s = {c. valid s c \<and> ent s c = 0}"

definition free_count :: "'a fat \<Rightarrow> u32" where
  "free_count s = get32 (ram_disk s) (512 * unat (fs_info_sector (boot_sector s)))"

text \<open>The FSInfo sector knows the number of free clusters, or knows that it does not.\<close>

definition fsinfo_ok :: "'a fat \<Rightarrow> bool" where
  "fsinfo_ok s \<longleftrightarrow> free_count s = 0xFFFFFFFF \<or> unat (free_count s) = card (frees s)"

lemma info_sector_ok: "geom s \<Longrightarrow> unat (ucast (fs_info_sector (boot_sector s)) :: u32) < DISK_MAX_SECTORS"
  by (auto simp: geom_def data_start_def)

lemma write_info_step:
  fixes s :: "'a fat" and buffer :: bytes
  assumes inv: "fat_inv s"
  defines "s' \<equiv> s\<lparr>ram_disk := (\<lambda>a. if a div 512 = unat (fs_info_sector (boot_sector s))
                                  then buffer (a mod 512) else ram_disk s a)\<rparr>"
  shows "fat_step (ent s) s s'" and "free_count s' = get32 buffer 0" and "fat_alloc_hint s' = fat_alloc_hint s"
proof -
  let ?F = "unat (fs_info_sector (boot_sector s))"
  have same: "boot_sector s' = boot_sector s" by (simp add: s'_def)
  note geo = same_geometry [OF same]
  have g: "geom s" using inv by (simp add: fat_inv_def)
  have F: "0 < ?F" "?F < fat_start s" using g by (auto simp: geom_def word_less_nat_alt)
  have out: "ram_disk s' a = ram_disk s a" if "a < 512 \<or> 512 * fat_start s \<le> a" for a
    using that F by (auto simp: s'_def)
  then have e: "ent s' c = ent s c" for c
    unfolding ent_def geo by (intro get32_cong) simp
  have "geom s'" using g by (simp add: geom_def geo same) (simp add: s'_def)
  moreover have "cache_ok s'"
    using inv by (simp add: cache_ok_def fat_inv_def geo e) (simp add: s'_def)
  moreover have "512 * fat_start s \<le> 512 * data_start s" by (simp add: data_start_def)
  ultimately show "fat_step (ent s) s s'"
    using out by (auto simp: fat_step_def fat_inv_def e) (simp_all add: s'_def)
  show "free_count s' = get32 buffer 0"
    unfolding free_count_def same by (rule get32_cong) (simp add: s'_def)
  show "fat_alloc_hint s' = fat_alloc_hint s" by (simp add: s'_def)
qed

lemma card_frees: "fat_inv s \<Longrightarrow> count_free (alloc_max_cluster s) s = of_nat (card (frees s))"
proof -
  assume inv: "fat_inv s"
  then have m: "unat (alloc_max_cluster s) = max_cl s" by (simp add: fat_inv_def unat_max_cluster)
  have small: "unat (of_nat n :: u32) = n" if "n < max_cl s" for n
    using that max_cl_bound(1) [of s] by (intro unat_of_nat_small) simp
  let ?P = "\<lambda>n. fat_read_entry (of_nat n) s = 0"
  have P: "?P n \<longleftrightarrow> ent s (of_nat n) = 0" if "n \<in> {2..<max_cl s}" for n
    using that inv small [of n] by (subst fat_read_entry_eq) (auto intro!: valid_in_table simp: valid_def)
  have "frees s = of_nat ` {n \<in> {2..<max_cl s}. ?P n}"
  proof
    show "frees s \<subseteq> of_nat ` {n \<in> {2..<max_cl s}. ?P n}"
    proof
      fix c assume "c \<in> frees s"
      then have "unat c \<in> {n \<in> {2..<max_cl s}. ?P n}"
        using P [of "unat c"] by (auto simp: frees_def valid_def)
      then have "of_nat (unat c) \<in> (of_nat :: nat \<Rightarrow> u32) ` {n \<in> {2..<max_cl s}. ?P n}" by (rule imageI)
      then show "c \<in> of_nat ` {n \<in> {2..<max_cl s}. ?P n}" by simp
    qed
    show "of_nat ` {n \<in> {2..<max_cl s}. ?P n} \<subseteq> frees s"
      using P small by (auto simp: frees_def valid_def)
  qed
  moreover have "inj_on (of_nat :: nat \<Rightarrow> u32) {n \<in> {2..<max_cl s}. ?P n}"
    by (rule inj_on_inverseI [where g = unat]) (auto simp: small)
  moreover have "length (filter ?P [2..<max_cl s]) = card {n \<in> {2..<max_cl s}. ?P n}"
    by (subst distinct_card [symmetric]) (auto intro!: arg_cong [where f = card])
  ultimately show ?thesis by (simp add: count_free_def m card_image)
qed

lemma card_frees_bound: "card (frees s) \<le> 65538"
proof -
  have "frees s \<subseteq> of_nat ` {..<max_cl s}"
  proof
    fix c assume "c \<in> frees s"
    then have "of_nat (unat c) \<in> (of_nat :: nat \<Rightarrow> u32) ` {..<max_cl s}"
      by (intro imageI) (simp add: frees_def valid_def)
    then show "c \<in> of_nat ` {..<max_cl s}" by simp
  qed
  then have "card (frees s) \<le> card {..<max_cl s}" by (rule surj_card_le [OF finite_lessThan])
  then show ?thesis using max_cl_bound(1) [of s] by simp
qed

section \<open>Allocation\<close>

lemma fsinfo_taken_step:
  fixes s :: "'a fat" and c :: u32
  assumes inv: "fat_inv s"
  defines "s' \<equiv> fsinfo_taken (alloc_max_cluster s) c s"
  shows "fat_step (ent s) s s'"
    and "free_count s' = (if free_count s = 0xFFFFFFFF then of_nat (card (frees s))
           else if free_count s > 0 then free_count s - 1 else free_count s)"
proof -
  let ?F = "fs_info_sector (boot_sector s)"
  have g: "geom s" "disk_present s" using inv by (auto simp: fat_inv_def geom_def)
  define b0 where "b0 = put32 4 c (\<lambda>i. ram_disk s (512 * unat ?F + i))"
  define b where "b = (if get32 b0 0 = 0xFFFFFFFF then put32 0 (count_free (alloc_max_cluster s) s) b0
                       else if get32 b0 0 > 0 then put32 0 (get32 b0 0 - 1) b0 else b0)"
  have b0: "get32 b0 0 = free_count s"
    by (simp add: b0_def get32_put32_other free_count_def get32_shift)
  have "s' = s\<lparr>ram_disk := (\<lambda>a. if a div 512 = unat ?F then b (a mod 512) else ram_disk s a)\<rparr>"
    unfolding s'_def fsinfo_taken_def Let_def read_sector_ok [OF g(2) info_sector_ok [OF g(1)]] option.case
      unat_ucast_u16_u32 b0_def [symmetric] b_def [symmetric]
    by (simp add: write_sector_ok [OF g(2) info_sector_ok [OF g(1)]])
  then show "fat_step (ent s) s s'"
    and "free_count s' = (if free_count s = 0xFFFFFFFF then of_nat (card (frees s))
           else if free_count s > 0 then free_count s - 1 else free_count s)"
    using write_info_step [OF inv, of b] by (simp_all add: b_def b0 card_frees [OF inv])
qed

text \<open>The clusters a scan still has to look at.\<close>

definition to_scan :: "nat \<Rightarrow> nat \<Rightarrow> nat \<Rightarrow> nat set" where
  "to_scan m start n = (if start \<le> n then {n..<m} \<union> {2..<start} else {n..<start})"

lemma to_scan_next:
  assumes "2 \<le> start" "start < m" "2 \<le> n" "n < m" and "n' = (if m \<le> n + 1 then 2 else n + 1)"
  shows "n' = start \<Longrightarrow> to_scan m start n = {n}" and "n' \<noteq> start \<Longrightarrow> to_scan m start n = insert n (to_scan m start n')"
    and "n' \<noteq> start \<Longrightarrow> n \<notin> to_scan m start n'"
  using assms by (auto simp: to_scan_def split: if_splits)

lemma alloc_scan_spec:
  assumes inv: "fat_inv s" and m: "m = alloc_max_cluster s" and st: "valid s start"
  shows "valid s c \<Longrightarrow>
    (\<exists>x. x \<in> frees s \<and> unat x \<in> to_scan (max_cl s) (unat start) (unat c)
        \<and> alloc_scan m start c s = Some (x, (fsinfo_taken m x (set_entry x FAT32_EOC_MARK s))
            \<lparr>fat_alloc_hint := (if x + 1 \<ge> m then 2 else x + 1)\<rparr>))
    \<or> (\<forall>x. unat x \<in> to_scan (max_cl s) (unat start) (unat c) \<longrightarrow> x \<notin> frees s) \<and> alloc_scan m start c s = Some (0, s)"
proof (induction "card (to_scan (max_cl s) (unat start) (unat c))" arbitrary: c rule: less_induct)
  case less
  let ?M = "max_cl s"
  have um: "unat m = ?M" using inv m by (simp add: unat_max_cluster fat_inv_def)
  have c: "2 \<le> unat c" "unat c < ?M" using less.prems by (auto simp: valid_def)
  have r: "fat_read_entry c s = ent s c"
    using fat_read_entry_eq [OF inv valid_in_table [OF less.prems]] .
  show ?case
  proof (cases "ent s c = 0")
    case True
    then have "c \<in> frees s" using less.prems by (simp add: frees_def)
    moreover have "unat c \<in> to_scan ?M (unat start) (unat c)" using c by (simp add: to_scan_def)
    moreover have "alloc_scan m start c s = Some (c, (fsinfo_taken m c (set_entry c FAT32_EOC_MARK s))
            \<lparr>fat_alloc_hint := (if c + 1 \<ge> m then 2 else c + 1)\<rparr>)"
      using True fat_write_entry_eq [OF inv valid_in_table [OF less.prems]]
      by (simp add: alloc_scan.simps [of m start c s] r)
    ultimately show ?thesis by blast
  next
    case False
    define c' where "c' = (if c + 1 \<ge> m then 2 else c + 1)"
    have "unat (c + 1) = unat c + 1"
      using c max_cl_bound(1) [of s] by (simp add: unat_word_ariths)
    then have uc': "unat c' = (if ?M \<le> unat c + 1 then 2 else unat c + 1)"
      by (simp add: c'_def word_le_nat_alt um)
    have vc': "valid s c'" using c inv uc' by (auto simp: valid_def fat_inv_def geom_def)
    have eq: "alloc_scan m start c s = (if c' = start then Some (0, s) else alloc_scan m start c' s)"
      using False by (simp add: alloc_scan.simps [of m start c s] r Let_def c'_def)
    have iff: "c' = start \<longleftrightarrow> unat c' = unat start" by (simp add: word_eq_iff_unsigned [where ?'a = nat])
    have start: "2 \<le> unat start" "unat start < ?M" using st by (auto simp: valid_def)
    note nx = to_scan_next [OF start c uc']
    have nofree: "x \<notin> frees s" if "unat x = unat c" for x
      using that False word_eq_iff_unsigned [of x c, where ?'a = nat] by (simp add: frees_def)
    show ?thesis
    proof (cases "c' = start")
      case True
      then show ?thesis using nx(1) eq nofree iff by simp
    next
      case False
      then have ts: "to_scan ?M (unat start) (unat c) = insert (unat c) (to_scan ?M (unat start) (unat c'))"
        "unat c \<notin> to_scan ?M (unat start) (unat c')" using nx(2,3) iff by blast+
      have "card (to_scan ?M (unat start) (unat c')) < card (to_scan ?M (unat start) (unat c))"
        using ts by (simp add: to_scan_def)
      from less.hyps [OF this vc'] show ?thesis
        using eq False ts(1) nofree by auto
    qed
  qed
qed

lemma frees_step:
  assumes "fat_step f s s'"
  shows "frees s' = {c. valid s c \<and> f c = 0}"
  using assms fat_step_same(3) [OF assms] by (auto simp: frees_def fat_step_ent valid_in_table)

lemma fat_step_hint:
  assumes "fat_step f s s'"
  shows "fat_step f s (s'\<lparr>fat_alloc_hint := h\<rparr>)"
proof -
  let ?t = "s'\<lparr>fat_alloc_hint := h\<rparr>"
  have "boot_sector ?t = boot_sector s'" by simp
  note geo = same_geometry [OF this]
  have "ent ?t c = ent s' c" for c by (simp add: ent_def geo)
  moreover from this have "fat_inv ?t"
    using fat_step_same(1) [OF assms] by (simp add: fat_inv_def geom_def cache_ok_def geo)
  ultimately show ?thesis
    using assms by (simp add: fat_step_def)
qed

lemma free_count_hint [simp]: "free_count (s\<lparr>fat_alloc_hint := h\<rparr>) = free_count s"
  by (simp add: free_count_def)

lemma EOC_nonzero [simp]: "FAT32_EOC_MARK \<noteq> 0" "FAT32_EOC_MARK \<noteq> FAT32_IO_ERROR"
  by (simp_all add: FAT32_EOC_MARK_def FAT32_IO_ERROR_def)

lemma free_count_step:
  assumes "fat_step f s s'" and "\<And>a. a < 512 * fat_start s \<Longrightarrow> ram_disk s' a = ram_disk s a" and "geom s"
  shows "free_count s' = free_count s"
  unfolding free_count_def fat_step_same(2) [OF assms(1)]
  using assms(3) by (intro get32_cong assms(2)) (auto simp: geom_def)

lemma fat_alloc_cluster_spec:
  assumes inv: "fat_inv s"
  shows "frees s = {} \<Longrightarrow> fat_alloc_cluster s = Some (0, s)"
    and "frees s \<noteq> {} \<Longrightarrow> \<exists>c\<in>frees s. \<exists>s'. fat_alloc_cluster s = Some (c, s')
           \<and> fat_step ((ent s)(c := FAT32_EOC_MARK)) s s' \<and> (fsinfo_ok s \<longrightarrow> fsinfo_ok s')"
proof -
  let ?m = "alloc_max_cluster s"
  define start where "start = (if fat_alloc_hint s < 2 \<or> fat_alloc_hint s \<ge> ?m then 2 else fat_alloc_hint s)"
  have um: "unat ?m = max_cl s" "2 < max_cl s" using inv by (simp_all add: unat_max_cluster fat_inv_def geom_def)
  then have v: "valid s start"
    by (auto simp: start_def valid_def word_less_nat_alt word_le_nat_alt)
  have all: "unat x \<in> to_scan (max_cl s) (unat start) (unat start)" if "valid s x" for x
    using that v by (auto simp: valid_def to_scan_def)
  have eq: "fat_alloc_cluster s = alloc_scan ?m start start s"
    by (simp add: fat_alloc_cluster_def Let_def start_def)
  note spec = alloc_scan_spec [OF inv refl v v]
  show "fat_alloc_cluster s = Some (0, s)" if "frees s = {}"
    using spec that eq by auto
  show "\<exists>c\<in>frees s. \<exists>s'. fat_alloc_cluster s = Some (c, s')
           \<and> fat_step ((ent s)(c := FAT32_EOC_MARK)) s s' \<and> (fsinfo_ok s \<longrightarrow> fsinfo_ok s')"
    if ne: "frees s \<noteq> {}"
  proof -
    obtain h c where c: "c \<in> frees s" "fat_alloc_cluster s =
        Some (c, (fsinfo_taken ?m c (set_entry c FAT32_EOC_MARK s))\<lparr>fat_alloc_hint := h\<rparr>)"
      using spec ne all eq by (fastforce simp: frees_def)
    let ?t = "set_entry c FAT32_EOC_MARK s" and ?f = "(ent s)(c := FAT32_EOC_MARK)"
    have tab: "valid s c" "in_table s c" "ent s c = 0" using c by (auto simp: frees_def intro: valid_in_table)
    note st = set_entry_step [OF inv tab(2), of FAT32_EOC_MARK]
    have m: "alloc_max_cluster ?t = ?m" by (rule same_geometry) simp
    note info = fsinfo_taken_step [OF fat_step_same(1) [OF st], of c, unfolded m]
    have step: "fat_step ?f s (fsinfo_taken ?m c ?t)"
      by (rule fat_step_cong [OF fat_step_trans [OF st info(1)]]) (simp add: fat_step_ent [OF st])
    have fr: "frees (fsinfo_taken ?m c ?t) = frees s - {c}" "frees ?t = frees s - {c}"
      by (auto simp: frees_step [OF step] frees_step [OF st]) (auto simp: frees_def)
    have fc: "free_count ?t = free_count s"
      using inv by (intro free_count_step [OF st]) (auto simp: put32_apply_other fat_inv_def)
    have card: "card (frees s - {c}) = card (frees s) - 1" "0 < card (frees s)" "card (frees s) - 1 < 2 ^ LENGTH(32)"
      using c(1) card_frees_bound [of s] by (auto simp: card_gt_0_iff)
    have "fsinfo_ok (fsinfo_taken ?m c ?t)" if "fsinfo_ok s"
    proof (cases "free_count s = 0xFFFFFFFF")
      case True
      moreover have "unat (of_nat (card (frees s - {c})) :: u32) = card (frees s - {c})"
        using card by (intro unat_of_nat_small) simp
      ultimately show ?thesis unfolding fsinfo_ok_def fr info(2) fc by simp
    next
      case False
      then have "unat (free_count s) = card (frees s)" using that by (simp add: fsinfo_ok_def)
      then show ?thesis unfolding fsinfo_ok_def fr info(2) fc
        using False card(1,2) by (simp add: unat_sub word_le_nat_alt word_less_nat_alt)
    qed
    then have "fsinfo_ok ((fsinfo_taken ?m c ?t)\<lparr>fat_alloc_hint := h\<rparr>)" if "fsinfo_ok s"
      using that fr frees_step [OF fat_step_hint [OF step]] frees_step [OF step] by (simp add: fsinfo_ok_def)
    then show ?thesis using c fat_step_hint [OF step] by blast
  qed
qed

section \<open>Chains\<close>

fun links :: "(u32 \<Rightarrow> u32) \<Rightarrow> u32 list \<Rightarrow> bool" where
  "links f [] = False"
| "links f [c] = (f c = FAT32_EOC_MARK)"
| "links f (c # d # cs) = (f c = d \<and> links f (d # cs))"

definition fchain :: "'a fat \<Rightarrow> u32 list \<Rightarrow> bool" where
  "fchain s cs \<longleftrightarrow> links (ent s) cs \<and> (\<forall>c\<in>set cs. valid s c)"

lemma links_cong: "(\<And>c. c \<in> set cs \<Longrightarrow> f c = g c) \<Longrightarrow> links f cs = links g cs"
  by (induction f cs rule: links.induct) auto

lemma links_Cons: "links f (c # cs) \<longleftrightarrow> (if cs = [] then f c = FAT32_EOC_MARK else f c = hd cs \<and> links f cs)"
  by (cases cs) auto

lemma links_append: "links f (xs @ y # ys) \<Longrightarrow> links f (y # ys)"
  by (induction xs) (auto simp: links_Cons split: if_splits)

lemma links_next:
  "links f cs \<Longrightarrow> c \<in> set cs \<Longrightarrow> f c = FAT32_EOC_MARK \<or> f c \<in> set cs"
  by (induction f cs rule: links.induct) auto

lemma valid_not_mark: "valid s c \<Longrightarrow> c \<noteq> 0 \<and> c \<noteq> FAT32_EOC_MARK \<and> c \<noteq> FAT32_IO_ERROR"
  using max_cl_bound(1) [of s] by (auto simp: valid_def FAT32_EOC_MARK_def FAT32_IO_ERROR_def)

lemma links_unique:
  assumes "\<And>c. c \<in> set xs \<union> set ys \<Longrightarrow> c \<noteq> FAT32_EOC_MARK"
  shows "links f (c # xs) \<Longrightarrow> links f (c # ys) \<Longrightarrow> xs = ys"
  using assms
proof (induction xs arbitrary: c ys)
  case Nil
  then show ?case by (cases ys) auto
next
  case (Cons x xs)
  then obtain z zs where "ys = z # zs" by (cases ys) auto
  with Cons show ?case by auto
qed

lemma chain_distinct: "fchain s cs \<Longrightarrow> distinct cs"
proof (induction cs)
  case (Cons c cs)
  have "c \<notin> set cs"
  proof
    assume "c \<in> set cs"
    then obtain xs ys where cs: "cs = xs @ c # ys" by (meson split_list)
    with Cons.prems have "links (ent s) (c # ys)"
      using links_append [of "ent s" "c # xs" c ys] by (simp add: fchain_def)
    moreover have "links (ent s) (c # cs)" using Cons.prems by (simp add: fchain_def)
    moreover have "d \<noteq> FAT32_EOC_MARK" if "d \<in> set ys \<union> set cs" for d
      using that Cons.prems valid_not_mark [of s d] by (auto simp: fchain_def cs)
    ultimately have "ys = cs" using links_unique [of ys cs "ent s" c] by blast
    then show False by (simp add: cs)
  qed
  moreover have "distinct cs"
  proof (cases cs)
    case (Cons d ds)
    with Cons.prems Cons.IH show ?thesis by (simp add: fchain_def)
  qed simp
  ultimately show ?case by simp
qed simp

lemma chain_step:
  assumes "fat_step f s s'" "fchain s cs" "\<And>c. c \<in> set cs \<Longrightarrow> f c = ent s c"
  shows "fchain s' cs"
proof -
  have "links (ent s') cs = links (ent s) cs"
    using assms by (intro links_cong) (simp add: fat_step_ent fchain_def valid_in_table)
  then show ?thesis using assms(2) fat_step_same(3) [OF assms(1)] by (simp add: fchain_def)
qed

lemma chain_not_free: "fchain s cs \<Longrightarrow> set cs \<inter> frees s = {}"
  using links_next [of "ent s" cs] valid_not_mark [of s] by (fastforce simp: fchain_def frees_def)

lemma free_loop_spec:
  "fat_inv s \<Longrightarrow> fchain s (c # cs) \<Longrightarrow> \<exists>s'. free_loop c n s = Some (True, n + of_nat (length (c # cs)), s')
     \<and> fat_step (\<lambda>d. if d \<in> set (c # cs) then 0 else ent s d) s s'
     \<and> (\<forall>a < 512 * fat_start s. ram_disk s' a = ram_disk s a) \<and> fat_alloc_hint s' = fat_alloc_hint s"
proof (induction cs arbitrary: c n s)
  case Nil
  have v: "valid s c" "ent s c = FAT32_EOC_MARK" using Nil.prems by (auto simp: fchain_def)
  obtain s1 where s1: "fat_write_entry c 0 s = (True, s1)" "fat_step ((ent s)(c := 0)) s s1"
    "\<And>a. a < 512 * fat_start s \<Longrightarrow> ram_disk s1 a = ram_disk s a" "fat_alloc_hint s1 = fat_alloc_hint s"
    using fat_write_entry_step [OF Nil.prems(1) valid_in_table [OF v(1)]] by metis
  have "free_loop c n s = Some (True, n + 1, s1)"
    using valid_not_mark [OF v(1)] v s1(1) fat_read_entry_eq [OF Nil.prems(1) valid_in_table [OF v(1)]]
    by (simp add: free_loop.simps [of c n s] free_loop.simps [of FAT32_EOC_MARK])
  moreover have "fat_step (\<lambda>d. if d \<in> set [c] then 0 else ent s d) s s1"
    by (rule fat_step_cong [OF s1(2)]) simp
  ultimately show ?case using s1(3,4) by simp
next
  case (Cons e cs)
  have v: "valid s c" "ent s c = e" "fchain s (e # cs)" using Cons.prems by (auto simp: fchain_def)
  obtain s1 where s1: "fat_write_entry c 0 s = (True, s1)" "fat_step ((ent s)(c := 0)) s s1"
    "\<And>a. a < 512 * fat_start s \<Longrightarrow> ram_disk s1 a = ram_disk s a" "fat_alloc_hint s1 = fat_alloc_hint s"
    using fat_write_entry_step [OF Cons.prems(1) valid_in_table [OF v(1)]] by metis
  have dist: "c \<notin> set (e # cs)" using chain_distinct [OF Cons.prems(2)] by simp
  have ch: "fchain s1 (e # cs)"
    by (rule chain_step [OF s1(2) v(3)]) (use dist in auto)
  obtain s2 where s2: "free_loop e (n + 1) s1 = Some (True, n + 1 + of_nat (length (e # cs)), s2)"
    "fat_step (\<lambda>d. if d \<in> set (e # cs) then 0 else ent s1 d) s1 s2"
    "\<forall>a < 512 * fat_start s1. ram_disk s2 a = ram_disk s1 a" "fat_alloc_hint s2 = fat_alloc_hint s1"
    using Cons.IH [OF fat_step_same(1) [OF s1(2)] ch] by blast
  have "e \<noteq> FAT32_IO_ERROR" using valid_not_mark [of s e] v(3) by (simp add: fchain_def)
  then have "free_loop c n s = free_loop e (n + 1) s1"
    using valid_not_mark [OF v(1)] v s1(1) fat_read_entry_eq [OF Cons.prems(1) valid_in_table [OF v(1)]]
    by (simp add: free_loop.simps [of c n s])
  moreover have "fat_step (\<lambda>d. if d \<in> set (c # e # cs) then 0 else ent s d) s s2"
    by (rule fat_step_cong [OF fat_step_trans [OF s1(2) s2(2)]]) (use fat_step_ent [OF s1(2)] in auto)
  ultimately show ?case
    using s2 s1(3,4) fat_step_same(8) [OF s1(2)] by (simp add: algebra_simps)
qed

lemma fsinfo_freed_step:
  fixes s :: "'a fat" and n :: u32
  assumes inv: "fat_inv s"
  defines "s' \<equiv> fsinfo_freed n s"
  shows "fat_step (ent s) s s'"
    and "free_count s' = (if free_count s = 0xFFFFFFFF then free_count s else free_count s + n)"
proof -
  let ?F = "fs_info_sector (boot_sector s)"
  have g: "geom s" "disk_present s" using inv by (auto simp: fat_inv_def geom_def)
  define b0 where "b0 = (\<lambda>i. ram_disk s (512 * unat ?F + i))"
  define b where "b = put32 4 2 (if get32 b0 0 \<noteq> 0xFFFFFFFF then put32 0 (get32 b0 0 + n) b0 else b0)"
  have b0: "get32 b0 0 = free_count s"
    by (simp add: b0_def free_count_def get32_shift)
  have "s' = s\<lparr>ram_disk := (\<lambda>a. if a div 512 = unat ?F then b (a mod 512) else ram_disk s a)\<rparr>"
    unfolding s'_def fsinfo_freed_def Let_def read_sector_ok [OF g(2) info_sector_ok [OF g(1)]] option.case
      unat_ucast_u16_u32 b0_def [symmetric] b_def [symmetric]
    by (simp add: write_sector_ok [OF g(2) info_sector_ok [OF g(1)]])
  then show "fat_step (ent s) s s'"
    and "free_count s' = (if free_count s = 0xFFFFFFFF then free_count s else free_count s + n)"
    using write_info_step [OF inv, of b] by (simp_all add: b_def b0 get32_put32_other)
qed

lemma fat_free_cluster_chain_spec:
  assumes inv: "fat_inv s" and ch: "fchain s (c # cs)"
  shows "\<exists>s'. fat_free_cluster_chain c s = Some (True, s')
    \<and> fat_step (\<lambda>d. if d \<in> set (c # cs) then 0 else ent s d) s s' \<and> (fsinfo_ok s \<longrightarrow> fsinfo_ok s')"
proof -
  let ?f = "\<lambda>d. if d \<in> set (c # cs) then 0 else ent s d" and ?n = "of_nat (length (c # cs)) :: u32"
  define h where "h = (if c \<ge> 2 \<and> c < fat_alloc_hint s then c else fat_alloc_hint s)"
  let ?t = "s\<lparr>fat_alloc_hint := h\<rparr>"
  have ht: "(if c \<ge> 2 \<and> c < fat_alloc_hint s then s\<lparr>fat_alloc_hint := c\<rparr> else s) = ?t" by (simp add: h_def)
  have t: "fat_step (ent s) s ?t" by (rule fat_step_hint [OF fat_step_refl [OF inv]])
  have "fchain ?t (c # cs)" by (rule chain_step [OF t ch]) simp
  then obtain s1 where s1: "free_loop c 0 ?t = Some (True, ?n, s1)"
    "fat_step (\<lambda>d. if d \<in> set (c # cs) then 0 else ent ?t d) ?t s1"
    "\<forall>a < 512 * fat_start ?t. ram_disk s1 a = ram_disk ?t a"
    using free_loop_spec [OF fat_step_same(1) [OF t], of c cs 0] by auto
  have st: "fat_step ?f s s1"
    by (rule fat_step_cong [OF fat_step_trans [OF t s1(2)]]) (simp add: fat_step_ent [OF t])
  have dist: "distinct (c # cs)" by (rule chain_distinct [OF ch])
  have sub: "set (c # cs) \<subseteq> {d. valid s d}" using ch by (auto simp: fchain_def)
  have fr: "{d. valid s d \<and> ?f d = 0} = set (c # cs) \<union> frees s"
    using sub by (auto simp: frees_def)
  have card: "card (set (c # cs) \<union> frees s) = length (c # cs) + card (frees s)"
    using chain_not_free [OF ch] distinct_card [OF dist] by (subst card_Un_disjoint) auto
  have le: "length (c # cs) + card (frees s) \<le> 65538"
    using card_frees_bound [of s1] by (simp only: frees_step [OF st] fr card)
  then have n: "unat ?n = length (c # cs)" by (intro unat_of_nat_small) simp
  then have "?n > 0" by (simp add: word_less_nat_alt)
  then have "fat_free_cluster_chain c s = Some (True, fsinfo_freed ?n s1)"
    unfolding fat_free_cluster_chain_def Let_def ht s1(1) by simp
  note info = fsinfo_freed_step [OF fat_step_same(1) [OF st], of ?n]
  have step: "fat_step ?f s (fsinfo_freed ?n s1)"
    by (rule fat_step_cong [OF fat_step_trans [OF st info(1)]]) (simp add: fat_step_ent [OF st])
  have "free_count s1 = free_count ?t"
    using s1(3) fat_step_same(1) [OF t] by (intro free_count_step [OF s1(2)]) (auto simp: fat_inv_def)
  then have fc: "free_count s1 = free_count s" by simp
  have "fsinfo_ok (fsinfo_freed ?n s1)" if "fsinfo_ok s"
  proof (cases "free_count s = 0xFFFFFFFF")
    case True
    then show ?thesis unfolding fsinfo_ok_def info(2) fc by simp
  next
    case False
    then have "unat (free_count s) = card (frees s)" using that by (simp add: fsinfo_ok_def)
    then have "unat (free_count s + ?n) = length (c # cs) + card (frees s)"
      using le n by (subst unat_add_small) auto
    then show ?thesis
      using False unfolding fsinfo_ok_def frees_step [OF step] fr card info(2) fc by simp
  qed
  then show ?thesis using step \<open>fat_free_cluster_chain c s = Some (True, fsinfo_freed ?n s1)\<close> by blast
qed

end
