(* ===== verification/Fat_Data.thy ===== *)
theory Fat_Data
  imports Fat_Chain
begin

unbundle bit_operations_syntax

text \<open>
  The data area: what writing a fchain stores, what reading it returns, and that neither touches the
  clusters of anybody else.
\<close>

section \<open>Where the bytes of a cluster are\<close>

definition cbytes :: "'a fat \<Rightarrow> nat" where
  "cbytes s = 512 * spc_of s"

definition caddr :: "'a fat \<Rightarrow> u32 \<Rightarrow> nat" where
  "caddr s c = 512 * data_start s + (unat c - 2) * cbytes s"

definition cluster_at :: "'a fat \<Rightarrow> u32 \<Rightarrow> nat set" where
  "cluster_at s c = {caddr s c ..< caddr s c + cbytes s}"

lemma cluster_at_disjoint:
  assumes "valid s c" "valid s d" "c \<noteq> d"
  shows "cluster_at s c \<inter> cluster_at s d = {}"
proof -
  have *: "caddr s x + cbytes s \<le> caddr s y" if "unat x < unat y" "valid s x" for x y
  proof -
    have "unat x - 2 + 1 \<le> unat y - 2" using that by (auto simp: valid_def)
    then have "(unat x - 2 + 1) * cbytes s \<le> (unat y - 2) * cbytes s" by (rule mult_le_mono1)
    then show ?thesis by (simp add: caddr_def)
  qed
  have "unat c < unat d \<or> unat d < unat c"
    using assms(3) word_eq_iff_unsigned [of c d, where ?'a = nat] by auto
  then show ?thesis using * [of c d] * [of d c] assms(1,2) by (auto simp: cluster_at_def)
qed

text \<open>
  \<open>fs_frame C s s'\<close>: of the table and of the data area only clusters in \<open>C\<close> have changed; the
  boot sector is as it was.
\<close>

definition fs_frame :: "u32 set \<Rightarrow> 'a fat \<Rightarrow> 'a fat \<Rightarrow> bool" where
  "fs_frame C s s' \<longleftrightarrow> fat_inv s' \<and> boot_sector s' = boot_sector s \<and> fat_cache_ready s' = fat_cache_ready s
     \<and> fat_state.more s' = fat_state.more s
     \<and> (\<forall>c. in_table s c \<and> c \<notin> C \<longrightarrow> ent s' c = ent s c)
     \<and> (\<forall>a. a < 512 \<or> 512 * data_start s \<le> a \<and> (\<forall>c\<in>C. a \<notin> cluster_at s c) \<longrightarrow> ram_disk s' a = ram_disk s a)"

lemma same_places:
  assumes "boot_sector s' = boot_sector s"
  shows "cbytes s' = cbytes s" "caddr s' = caddr s" "cluster_at s' = cluster_at s"
  by (simp_all only: cbytes_def caddr_def [abs_def] cluster_at_def [abs_def] same_geometry [OF assms])

lemma fs_frame_same:
  assumes "fs_frame C s s'"
  shows "fat_inv s'" "boot_sector s' = boot_sector s" "valid s' = valid s" "in_table s' = in_table s"
    "cbytes s' = cbytes s" "caddr s' = caddr s" "cluster_at s' = cluster_at s" "data_start s' = data_start s"
    "spc_of s' = spc_of s"
proof -
  show "fat_inv s'" and b: "boot_sector s' = boot_sector s" using assms by (simp_all add: fs_frame_def)
  note geo = same_geometry [OF b] same_places [OF b]
  show "valid s' = valid s" "in_table s' = in_table s" "cbytes s' = cbytes s" "caddr s' = caddr s"
    "cluster_at s' = cluster_at s" "data_start s' = data_start s" "spc_of s' = spc_of s"
    by (fact geo)+
qed

lemma fs_frame_refl: "fat_inv s \<Longrightarrow> fs_frame C s s"
  by (simp add: fs_frame_def)

lemma fs_frame_trans:
  assumes "fs_frame C s s'" "fs_frame C s' s''"
  shows "fs_frame C s s''"
  using assms fs_frame_same [OF assms(1)] by (simp add: fs_frame_def)

lemma fs_frame_mono: "fs_frame C s s' \<Longrightarrow> C \<subseteq> D \<Longrightarrow> fs_frame D s s'"
  unfolding fs_frame_def by blast

lemma fs_frame_step:
  assumes "fat_step f s s'" "\<And>c. in_table s c \<Longrightarrow> c \<notin> C \<Longrightarrow> f c = ent s c"
  shows "fs_frame C s s'"
  using assms by (auto simp: fs_frame_def fat_step_def)

lemma fs_frame_ent: "fs_frame C s s' \<Longrightarrow> in_table s c \<Longrightarrow> c \<notin> C \<Longrightarrow> ent s' c = ent s c"
  by (simp add: fs_frame_def)

lemma caddr_ge: "512 * data_start s \<le> caddr s c"
  by (simp add: caddr_def)

lemma fs_frame_byte:
  assumes "fs_frame C s s'" "valid s c" "c \<notin> C" "\<And>d. d \<in> C \<Longrightarrow> valid s d" "a \<in> cluster_at s c"
  shows "ram_disk s' a = ram_disk s a"
proof -
  have "a \<notin> cluster_at s d" if "d \<in> C" for d
    using cluster_at_disjoint [OF assms(2) assms(4) [OF that]] that assms(3,5) by auto
  moreover have "512 * data_start s \<le> a" using assms(5) caddr_ge [of s c] by (simp add: cluster_at_def)
  ultimately show ?thesis using assms(1) by (simp add: fs_frame_def)
qed

text \<open>Byte \<open>i\<close> of the data of a chain.\<close>

definition chain_byte :: "'a fat \<Rightarrow> u32 list \<Rightarrow> nat \<Rightarrow> u8" where
  "chain_byte s cs i = ram_disk s (caddr s (cs ! (i div cbytes s)) + i mod cbytes s)"

definition content :: "'a fat \<Rightarrow> u32 list \<Rightarrow> nat \<Rightarrow> u8 list" where
  "content s cs n = map (chain_byte s cs) [0..<n]"

lemma cbytes_pos: "geom s \<Longrightarrow> 0 < cbytes s"
  by (simp add: geom_def cbytes_def)

lemma chain_byte_frame:
  assumes "fs_frame C s s'" "\<forall>c\<in>set cs. valid s c" "set cs \<inter> C = {}" "\<And>d. d \<in> C \<Longrightarrow> valid s d"
    "i < cbytes s * length cs"
  shows "chain_byte s' cs i = chain_byte s cs i"
proof -
  have k: "i div cbytes s < length cs" using assms(5) by (simp add: div_less_iff_less_mult mult.commute less_mult_imp_div_less)
  have "0 < cbytes s" using assms(5) by (cases "cbytes s") auto
  then have "caddr s (cs ! (i div cbytes s)) + i mod cbytes s \<in> cluster_at s (cs ! (i div cbytes s))"
    by (simp add: cluster_at_def)
  moreover have "cs ! (i div cbytes s) \<notin> C" "valid s (cs ! (i div cbytes s))"
    using nth_mem [OF k] assms(2,3) by blast+
  ultimately show ?thesis
    unfolding chain_byte_def fs_frame_same(5,6) [OF assms(1)]
    by (intro fs_frame_byte [OF assms(1) _ _ assms(4)])
qed

lemma content_frame:
  assumes "fs_frame C s s'" "fchain s cs" "set cs \<inter> C = {}" "\<And>d. d \<in> C \<Longrightarrow> valid s d" "n \<le> cbytes s * length cs"
  shows "content s' cs n = content s cs n"
  using chain_byte_frame [OF assms(1) _ assms(3,4)] assms(2,5) by (simp add: content_def fchain_def)

lemma chain_frame:
  assumes "fs_frame C s s'" "fchain s cs" "set cs \<inter> C = {}"
  shows "fchain s' cs"
proof -
  have "links (ent s') cs = links (ent s) cs"
    using assms(2,3) by (intro links_cong fs_frame_ent [OF assms(1)]) (auto simp: fchain_def valid_in_table)
  then show ?thesis using assms(2) fs_frame_same(3) [OF assms(1)] by (simp add: fchain_def)
qed

section \<open>Writing\<close>

lemma write_sectors_spec:
  assumes g: "geom s" and v: "valid s c" and k: "k \<le> spc_of s" and o: "off \<le> sz"
  shows "\<exists>d. write_sectors (cluster_to_sector s c) (spc_of s) k off sz data s
      = (True, min (off + 512 * (spc_of s - k)) sz, s\<lparr>ram_disk := d\<rparr>)
    \<and> (\<forall>a. a \<notin> cluster_at s c \<longrightarrow> d a = ram_disk s a)
    \<and> (\<forall>i < 512 * k. d (caddr s c + i) = ram_disk s (caddr s c + i))
    \<and> (\<forall>i. off + i < sz \<and> i < 512 * (spc_of s - k) \<longrightarrow> d (caddr s c + 512 * k + i) = data (off + i))"
  using g v k o
proof (induction "spc_of s - k" arbitrary: k off s)
  case 0
  then show ?case
    by (intro exI [of _ "ram_disk s"]) (simp add: write_sectors.simps [of _ _ k])
next
  case (Suc m)
  note g = Suc.prems(1) and v = Suc.prems(2)
  have k: "k < spc_of s" using Suc.hyps(2) by simp
  show ?case
  proof (cases "off < sz")
    case False
    then show ?thesis using Suc.prems(4)
      by (intro exI [of _ "ram_disk s"]) (simp add: write_sectors.simps [of _ _ k])
  next
    case True
    let ?n = "data_start s + (unat c - 2) * spc_of s + k"
    define cs where "cs = (if off + 512 > sz then sz - off else 512)"
    let ?b = "\<lambda>i. if i < cs then data (off + i) else 0"
    let ?t = "s\<lparr>ram_disk := (\<lambda>a. if a div 512 = ?n then ?b (a mod 512) else ram_disk s a)\<rparr>"
    have bt: "boot_sector ?t = boot_sector s" by simp
    note geo = same_geometry [OF bt] same_places [OF bt]
    have w: "disk_write_sector (cluster_to_sector s c + of_nat k) ?b s = Some ?t"
      using write_sector_ok [of s "cluster_to_sector s c + of_nat k" ?b] g cluster_room [OF g v k]
      by (simp add: unat_cluster_sector [OF g v k] geom_def)
    have at: "512 * ?n = caddr s c + 512 * k"
      by (simp add: caddr_def cbytes_def algebra_simps)
    have div: "a div 512 = ?n \<longleftrightarrow> caddr s c + 512 * k \<le> a \<and> a < caddr s c + 512 * k + 512" for a
      unfolding at [symmetric] by auto
    have inC: "caddr s c + 512 * k + 512 \<le> caddr s c + cbytes s" using k by (simp add: cbytes_def)
    have eq: "write_sectors (cluster_to_sector s c) (spc_of s) k off sz data s =
        write_sectors (cluster_to_sector ?t c) (spc_of ?t) (k + 1) (off + cs) sz data ?t"
      unfolding write_sectors.simps [of _ _ k] Let_def DISK_SECTOR_SIZE_def cs_def [symmetric] w geo
      using k True by simp
    have "m = spc_of ?t - (k + 1)" "geom ?t" "valid ?t c" "k + 1 \<le> spc_of ?t" "off + cs \<le> sz"
      using Suc.hyps(2) g v k True unfolding geom_def geo by (auto simp: cs_def)
    from Suc.hyps(1) [OF this] obtain d where d: "write_sectors (cluster_to_sector ?t c) (spc_of ?t) (k + 1) (off + cs) sz data ?t
        = (True, min (off + cs + 512 * (spc_of s - (k + 1))) sz, ?t\<lparr>ram_disk := d\<rparr>)"
      "\<forall>a. a \<notin> cluster_at s c \<longrightarrow> d a = ram_disk ?t a"
      "\<forall>i < 512 * (k + 1). d (caddr s c + i) = ram_disk ?t (caddr s c + i)"
      "\<forall>i. off + cs + i < sz \<and> i < 512 * (spc_of s - (k + 1)) \<longrightarrow>
        d (caddr s c + 512 * (k + 1) + i) = data (off + cs + i)"
      unfolding geo by blast
    have "min (off + cs + 512 * (spc_of s - (k + 1))) sz = min (off + 512 * (spc_of s - k)) sz"
      using k by (auto simp: cs_def)
    moreover have "d a = ram_disk s a" if "a \<notin> cluster_at s c" for a
      using d(2) that inC div [of a] by (auto simp: cluster_at_def)
    moreover have "d (caddr s c + i) = ram_disk s (caddr s c + i)" if "i < 512 * k" for i
      using d(3) that div [of "caddr s c + i"] by simp
    moreover have "d (caddr s c + 512 * k + i) = data (off + i)"
      if "off + i < sz" "i < 512 * (spc_of s - k)" for i
    proof (cases "i < 512")
      case True
      then have "(caddr s c + 512 * k + i) mod 512 = i"
        using mod_mult_self4 [of 512 ?n i] unfolding at by simp
      moreover have "d (caddr s c + (512 * k + i)) = ram_disk ?t (caddr s c + (512 * k + i))"
        using d(3) True by simp
      moreover have "i < cs" using that True by (auto simp: cs_def)
      ultimately show ?thesis using div [of "caddr s c + 512 * k + i"] True by (simp add: add.assoc)
    next
      case False
      then have "cs = 512" using that by (auto simp: cs_def)
      then show ?thesis
        using d(4) [rule_format, of "i - 512"] that False k by (simp add: algebra_simps)
    qed
    ultimately show ?thesis
      using d(1) eq by (intro exI [of _ d]) auto
  qed
qed

text \<open>A change of the bytes of one cluster leaves the table, the free count and everything else alone.\<close>

lemma data_write_frame:
  assumes inv: "fat_inv s" and d: "\<forall>a. a \<notin> cluster_at s c \<longrightarrow> d a = ram_disk s a"
  shows "fs_frame {c} s (s\<lparr>ram_disk := d\<rparr>)" "\<forall>x. in_table s x \<longrightarrow> ent (s\<lparr>ram_disk := d\<rparr>) x = ent s x"
    "fsinfo_ok s \<longrightarrow> fsinfo_ok (s\<lparr>ram_disk := d\<rparr>)"
proof -
  let ?s = "s\<lparr>ram_disk := d\<rparr>"
  have g: "geom s" using inv by (simp add: fat_inv_def)
  have b: "boot_sector ?s = boot_sector s" by simp
  note geo = same_geometry [OF b]
  have low: "d a = ram_disk s a" if "a < 512 * data_start s" for a
    using d that caddr_ge [of s c] by (simp add: cluster_at_def)
  have tab: "ent ?s x = ent s x" if "in_table s x" for x
    unfolding ent_def geo using that fat_sectors_le [OF g]
    by (intro get32_cong) (simp add: low in_table_def)
  have "geom ?s" using g unfolding geom_def geo by simp
  moreover have "cache_ok ?s" using inv by (simp add: cache_ok_def fat_inv_def geo tab)
  moreover have "512 \<le> 512 * data_start s" using g by (auto simp: geom_def data_start_def)
  ultimately show "fs_frame {c} s ?s"
    using d tab low by (auto simp: fs_frame_def fat_inv_def)
  show "\<forall>x. in_table s x \<longrightarrow> ent ?s x = ent s x" using tab by blast
  have "free_count ?s = free_count s"
    unfolding free_count_def b using g by (intro get32_cong) (auto simp: geom_def data_start_def intro!: low)
  moreover have "frees ?s = frees s" by (auto simp: frees_def geo tab valid_in_table)
  ultimately show "fsinfo_ok s \<longrightarrow> fsinfo_ok ?s" by (simp add: fsinfo_ok_def)
qed

lemma write_cluster_spec:
  assumes inv: "fat_inv s" and v: "valid s c" and o: "off \<le> sz"
  shows "\<exists>s'. write_sectors (cluster_to_sector s c) (unat (sectors_per_cluster (bpb (boot_sector s)))) 0 off sz data s
      = (True, min (off + cbytes s) sz, s')
    \<and> fs_frame {c} s s' \<and> (\<forall>x. in_table s x \<longrightarrow> ent s' x = ent s x) \<and> (fsinfo_ok s \<longrightarrow> fsinfo_ok s')
    \<and> (\<forall>i. off + i < sz \<and> i < cbytes s \<longrightarrow> ram_disk s' (caddr s c + i) = data (off + i))"
proof -
  have g: "geom s" using inv by (simp add: fat_inv_def)
  obtain d where d: "write_sectors (cluster_to_sector s c) (spc_of s) 0 off sz data s
      = (True, min (off + 512 * spc_of s) sz, s\<lparr>ram_disk := d\<rparr>)"
    "\<forall>a. a \<notin> cluster_at s c \<longrightarrow> d a = ram_disk s a"
    "\<forall>i. off + i < sz \<and> i < 512 * spc_of s \<longrightarrow> d (caddr s c + i) = data (off + i)"
    using write_sectors_spec [OF g v _ o, of 0 data] by auto
  show ?thesis
    using d(1,3) data_write_frame [OF inv d(2)]
    by (intro exI [of _ "s\<lparr>ram_disk := d\<rparr>"]) (simp add: cbytes_def spc_of_def)
qed

lemma links_snoc:
  "links f (xs @ [y]) \<Longrightarrow> c \<notin> set (xs @ [y]) \<Longrightarrow> distinct (xs @ [y]) \<Longrightarrow> links (f(y := c, c := FAT32_EOC_MARK)) (xs @ [y, c])"
proof (induction xs)
  case (Cons x xs)
  then show ?case by (cases xs) (auto simp: links_Cons)
qed simp

text \<open>A chain grows by one cluster: allocate it and link it.\<close>

lemma grow_chain:
  assumes inv: "fat_inv s" and ch: "fchain s (pre @ [cur])" and ne: "frees s \<noteq> {}"
  shows "\<exists>c\<in>frees s. \<exists>s2 s3. fat_alloc_cluster s = Some (c, s2) \<and> fat_write_entry cur c s2 = (True, s3)
    \<and> fat_step ((ent s)(cur := c, c := FAT32_EOC_MARK)) s s3 \<and> fchain s3 (pre @ [cur, c])
    \<and> frees s3 = frees s - {c} \<and> (fsinfo_ok s \<longrightarrow> fsinfo_ok s3)"
proof -
  obtain c s2 where c: "c \<in> frees s" "fat_alloc_cluster s = Some (c, s2)"
    "fat_step ((ent s)(c := FAT32_EOC_MARK)) s s2" "fsinfo_ok s \<longrightarrow> fsinfo_ok s2"
    using fat_alloc_cluster_spec(2) [OF inv ne] by blast
  have cur: "valid s cur" "in_table s cur" and vc: "valid s c"
    using ch c(1) by (auto simp: fchain_def frees_def intro: valid_in_table)
  note same = fat_step_same [OF c(3)]
  obtain s3 where s3: "fat_write_entry cur c s2 = (True, s3)" "fat_step ((ent s2)(cur := c)) s2 s3"
    "\<And>a. a < 512 * fat_start s2 \<Longrightarrow> ram_disk s3 a = ram_disk s2 a"
    using fat_write_entry_step [OF same(1), of cur c] cur(2) same(4) by metis
  have notin: "c \<notin> set (pre @ [cur])" using chain_not_free [OF ch] c(1) by auto
  let ?f = "(ent s)(cur := c, c := FAT32_EOC_MARK)"
  have step: "fat_step ?f s s3"
    by (rule fat_step_cong [OF fat_step_trans [OF c(3) s3(2)]])
      (use notin fat_step_ent [OF c(3)] in auto)
  have "links ?f (pre @ [cur, c])"
    using links_snoc [of "ent s" pre cur c] ch notin chain_distinct [OF ch] by (simp add: fchain_def)
  moreover have "links (ent s3) (pre @ [cur, c]) = links ?f (pre @ [cur, c])"
    using ch vc by (intro links_cong fat_step_ent [OF step]) (auto simp: fchain_def intro: valid_in_table)
  ultimately have "fchain s3 (pre @ [cur, c])"
    using ch vc fat_step_same(3) [OF step] by (auto simp: fchain_def)
  moreover have cz: "c \<noteq> 0" using valid_not_mark [OF vc] by simp
  have "ent s cur \<noteq> 0" using chain_not_free [OF ch] cur by (auto simp: frees_def)
  then have fr: "frees s3 = frees s - {c}" "frees s2 = frees s - {c}"
    using notin cz by (auto simp: frees_step [OF step] frees_step [OF c(3)]) (auto simp: frees_def)
  moreover have "free_count s3 = free_count s2"
    using s3(3) same(1) by (intro free_count_step [OF s3(2)]) (auto simp: fat_inv_def)
  then have "fsinfo_ok s \<longrightarrow> fsinfo_ok s3" using c(4) fr by (simp add: fsinfo_ok_def)
  ultimately show ?thesis using c(1,2) s3(1) step by blast
qed

text \<open>The step of the loop in \<open>fs_write_file\<close> up to the next allocation.\<close>

lemma write_clusters_unfold:
  assumes inv: "fat_inv s" and v: "valid s cur" and o: "off < sz"
  shows "\<exists>s1. fs_frame {cur} s s1 \<and> (\<forall>x. in_table s x \<longrightarrow> ent s1 x = ent s x) \<and> (fsinfo_ok s \<longrightarrow> fsinfo_ok s1)
    \<and> (\<forall>i. off + i < sz \<and> i < cbytes s \<longrightarrow> ram_disk s1 (caddr s cur + i) = data (off + i))
    \<and> write_clusters first_cluster cur off sz data s =
        (if off + cbytes s < sz then
           Option.bind (fat_alloc_cluster s1) (\<lambda>(next_cluster, t).
                if next_cluster = 0 then undo_write FS_ERR_FULL first_cluster t
                else
                  (let (ok, t) = fat_write_entry cur next_cluster t
                   in if \<not> ok then undo_write FS_ERR_IO first_cluster t
                      else write_clusters first_cluster next_cluster (off + cbytes s) sz data t))
         else Some (None, s1))"
proof -
  obtain s1 where s1: "write_sectors (cluster_to_sector s cur) (unat (sectors_per_cluster (bpb (boot_sector s)))) 0 off sz data s
      = (True, min (off + cbytes s) sz, s1)"
    "fs_frame {cur} s s1" "\<forall>x. in_table s x \<longrightarrow> ent s1 x = ent s x" "fsinfo_ok s \<longrightarrow> fsinfo_ok s1"
    "\<forall>i. off + i < sz \<and> i < cbytes s \<longrightarrow> ram_disk s1 (caddr s cur + i) = data (off + i)"
    using write_cluster_spec [OF inv v less_imp_le [OF o]] by blast
  have "min (off + cbytes s) sz = (if off + cbytes s < sz then off + cbytes s else sz)" by auto
  then have "write_clusters first_cluster cur off sz data s =
        (if off + cbytes s < sz then
           Option.bind (fat_alloc_cluster s1) (\<lambda>(next_cluster, t).
                if next_cluster = 0 then undo_write FS_ERR_FULL first_cluster t
                else
                  (let (ok, t) = fat_write_entry cur next_cluster t
                   in if \<not> ok then undo_write FS_ERR_IO first_cluster t
                      else write_clusters first_cluster next_cluster (off + cbytes s) sz data t))
         else Some (None, s1))"
    using o s1(1) fs_frame_same(5) [OF s1(2)]
    by (simp add: write_clusters.simps [of first_cluster cur off sz] write_clusters.simps [of first_cluster cur sz sz])
  with s1 show ?thesis by blast
qed

lemma same_table:
  assumes "fs_frame C s s'" "\<forall>x. in_table s x \<longrightarrow> ent s' x = ent s x"
  shows "frees s' = frees s" and "fchain s cs \<Longrightarrow> fchain s' cs"
proof -
  note same = fs_frame_same [OF assms(1)]
  show "frees s' = frees s"
    using assms(2) by (auto simp: frees_def same(3) valid_in_table)
  assume ch: "fchain s cs"
  then have "links (ent s') cs = links (ent s) cs"
    by (intro links_cong) (simp add: assms(2) fchain_def valid_in_table)
  with ch show "fchain s' cs" by (simp add: fchain_def same(3))
qed

lemma chain_byte_at:
  assumes "j < cbytes s"
  shows "chain_byte s (pre @ cur # ext) (length pre * cbytes s + j) = ram_disk s (caddr s cur + j)"
proof -
  have "(length pre * cbytes s + j) div cbytes s = length pre"
    using assms by (intro div_nat_eqI) (auto simp: algebra_simps)
  moreover have "(length pre * cbytes s + j) mod cbytes s = j" using assms by simp
  ultimately show ?thesis by (simp add: chain_byte_def)
qed

lemma write_clusters_next:
  assumes inv: "fat_inv s" and ch: "fchain s (pre @ [cur])" and lt: "off + cbytes s < sz" and ne: "frees s \<noteq> {}"
  obtains c s3 where "c \<in> frees s" "fs_frame {cur, c} s s3" "fchain s3 (pre @ [cur, c])"
    "frees s3 = frees s - {c}" "fsinfo_ok s \<longrightarrow> fsinfo_ok s3"
    "\<forall>j<cbytes s. ram_disk s3 (caddr s cur + j) = data (off + j)"
    "write_clusters first_cluster cur off sz data s = write_clusters first_cluster c (off + cbytes s) sz data s3"
proof -
  have v: "valid s cur" and o: "off < sz" using ch lt by (simp_all add: fchain_def)
  obtain s1 where s1: "fs_frame {cur} s s1" "\<forall>x. in_table s x \<longrightarrow> ent s1 x = ent s x" "fsinfo_ok s \<longrightarrow> fsinfo_ok s1"
    "\<forall>i. off + i < sz \<and> i < cbytes s \<longrightarrow> ram_disk s1 (caddr s cur + i) = data (off + i)"
    and eq: "write_clusters first_cluster cur off sz data s =
        Option.bind (fat_alloc_cluster s1) (\<lambda>(next_cluster, t).
                if next_cluster = 0 then undo_write FS_ERR_FULL first_cluster t
                else
                  (let (ok, t) = fat_write_entry cur next_cluster t
                   in if \<not> ok then undo_write FS_ERR_IO first_cluster t
                      else write_clusters first_cluster next_cluster (off + cbytes s) sz data t))"
    using write_clusters_unfold [OF inv v o, of data first_cluster]
    unfolding if_P [OF lt] by (elim exE conjE) (rule that)
  note tab = same_table [OF s1(1,2)]
  obtain c s2 s3 where c: "c \<in> frees s" "fat_alloc_cluster s1 = Some (c, s2)" "fat_write_entry cur c s2 = (True, s3)"
    "fat_step ((ent s1)(cur := c, c := FAT32_EOC_MARK)) s1 s3" "fchain s3 (pre @ [cur, c])"
    "frees s3 = frees s - {c}" "fsinfo_ok s1 \<longrightarrow> fsinfo_ok s3"
    using grow_chain [OF fs_frame_same(1) [OF s1(1)] tab(2) [OF ch]] tab(1) ne by auto
  have frame: "fs_frame {cur, c} s s3"
    by (rule fs_frame_trans [OF fs_frame_mono [OF s1(1)] fs_frame_step [OF c(4)]]) auto
  have "c \<noteq> 0" using c(1) valid_not_mark [of s c] by (simp add: frees_def)
  then have res: "write_clusters first_cluster cur off sz data s = write_clusters first_cluster c (off + cbytes s) sz data s3"
    using c(2,3) by (simp add: eq)
  have "ram_disk s3 (caddr s cur + j) = ram_disk s1 (caddr s cur + j)" for j
    using c(4) caddr_ge [of s cur] fs_frame_same(8) [OF s1(1)] by (simp add: fat_step_def)
  then have dat: "\<forall>j<cbytes s. ram_disk s3 (caddr s cur + j) = data (off + j)"
    using s1(4) lt by simp
  show thesis
    by (rule that [OF c(1) frame c(5,6) _ dat res]) (use c(7) s1(3) in blast)
qed

lemma write_clusters_last:
  assumes inv: "fat_inv s" and ch: "fchain s (pre @ [cur])" and o: "off < sz" and le: "\<not> off + cbytes s < sz"
  obtains s1 where "fs_frame {cur} s s1" "fchain s1 (pre @ [cur])" "frees s1 = frees s" "fsinfo_ok s \<longrightarrow> fsinfo_ok s1"
    "\<forall>j. off + j < sz \<longrightarrow> ram_disk s1 (caddr s cur + j) = data (off + j)"
    "write_clusters first_cluster cur off sz data s = Some (None, s1)"
proof -
  have v: "valid s cur" using ch by (simp add: fchain_def)
  obtain s1 where s1: "fs_frame {cur} s s1" "\<forall>x. in_table s x \<longrightarrow> ent s1 x = ent s x" "fsinfo_ok s \<longrightarrow> fsinfo_ok s1"
    "\<forall>i. off + i < sz \<and> i < cbytes s \<longrightarrow> ram_disk s1 (caddr s cur + i) = data (off + i)"
    "write_clusters first_cluster cur off sz data s = Some (None, s1)"
    using write_clusters_unfold [OF inv v o, of data first_cluster]
    unfolding if_not_P [OF le] by (elim exE conjE) (rule that)
  have "\<forall>j. off + j < sz \<longrightarrow> ram_disk s1 (caddr s cur + j) = data (off + j)"
    using s1(4) le by simp
  from that [OF s1(1) same_table(2) [OF s1(1,2) ch] same_table(1) [OF s1(1,2)] s1(3) this s1(5)] show thesis .
qed

lemma clusters_left:
  assumes "0 < b" "off < sz"
  shows "(sz - off - 1) div b = 0 \<longleftrightarrow> \<not> off + b < (sz :: nat)"
    and "(sz - off - 1) div b = Suc n \<Longrightarrow> n = (sz - (off + b) - 1) div b"
proof -
  show "(sz - off - 1) div b = 0 \<longleftrightarrow> \<not> off + b < sz" using assms by (auto simp: div_eq_0_iff)
  assume n: "(sz - off - 1) div b = Suc n"
  then have "b \<le> sz - off - 1" by (metis div_less linorder_not_le nat.distinct(1))
  from le_div_geq [OF assms(1) this] n show "n = (sz - (off + b) - 1) div b" by (simp add: add.commute)
qed

lemma write_clusters_ok:
  assumes "fat_inv s" "fchain s (pre @ [cur])" "off = length pre * cbytes s" "off < sz"
    "(sz - off - 1) div cbytes s \<le> card (frees s)"
  shows "\<exists>ext s'. write_clusters first_cluster cur off sz data s = Some (None, s')
    \<and> length ext = (sz - off - 1) div cbytes s \<and> set ext \<subseteq> frees s \<and> fchain s' (pre @ cur # ext)
    \<and> fs_frame (set (cur # ext)) s s' \<and> (fsinfo_ok s \<longrightarrow> fsinfo_ok s') \<and> frees s' = frees s - set ext
    \<and> (\<forall>j. off + j < sz \<longrightarrow> chain_byte s' (pre @ cur # ext) (off + j) = data (off + j))"
  using assms
proof (induction "(sz - off - 1) div cbytes s" arbitrary: pre cur off s)
  case 0
  have pos: "0 < cbytes s" using 0 by (simp add: fat_inv_def cbytes_pos)
  have le: "\<not> off + cbytes s < sz" using clusters_left(1) [OF pos "0.prems"(4)] "0.hyps" by simp
  obtain s1 where s1: "fs_frame {cur} s s1" "fchain s1 (pre @ [cur])" "frees s1 = frees s" "fsinfo_ok s \<longrightarrow> fsinfo_ok s1"
    "\<forall>j. off + j < sz \<longrightarrow> ram_disk s1 (caddr s cur + j) = data (off + j)"
    "write_clusters first_cluster cur off sz data s = Some (None, s1)"
    by (rule write_clusters_last [OF "0.prems"(1,2,4) le])
  have "chain_byte s1 (pre @ [cur]) (off + j) = data (off + j)" if "off + j < sz" for j
  proof -
    have "j < cbytes s1" unfolding fs_frame_same(5) [OF s1(1)] using that le by simp
    from chain_byte_at [OF this, of pre cur "[]"] s1(5) that show ?thesis
      unfolding "0.prems"(3) fs_frame_same(5,6) [OF s1(1)] by simp
  qed
  then show ?case
    using s1 "0.hyps" by (intro exI [of _ "[]"] exI [of _ s1]) simp
next
  case (Suc n)
  have pos: "0 < cbytes s" using Suc.prems by (simp add: fat_inv_def cbytes_pos)
  have lt: "off + cbytes s < sz" using clusters_left(1) [OF pos Suc.prems(4)] Suc.hyps(2) by auto
  have ne: "frees s \<noteq> {}" using Suc.hyps(2) Suc.prems(5) by auto
  obtain c s3 where c: "c \<in> frees s" "fs_frame {cur, c} s s3" "fchain s3 (pre @ [cur, c])"
    "frees s3 = frees s - {c}" "fsinfo_ok s \<longrightarrow> fsinfo_ok s3"
    "\<forall>j<cbytes s. ram_disk s3 (caddr s cur + j) = data (off + j)"
    "write_clusters first_cluster cur off sz data s = write_clusters first_cluster c (off + cbytes s) sz data s3"
    by (rule write_clusters_next [OF Suc.prems(1,2) lt ne])
  note same = fs_frame_same [OF c(2)]
  have n: "n = (sz - (off + cbytes s) - 1) div cbytes s"
    by (rule clusters_left(2) [OF pos Suc.prems(4) Suc.hyps(2) [symmetric]])
  have "n = (sz - (off + cbytes s) - 1) div cbytes s3" "fchain s3 ((pre @ [cur]) @ [c])"
    "off + cbytes s = length (pre @ [cur]) * cbytes s3" "(sz - (off + cbytes s) - 1) div cbytes s3 \<le> card (frees s3)"
    using n c(1,3,4) Suc.prems(3,5) Suc.hyps(2) by (simp_all add: same(5))
  from Suc.hyps(1) [OF this(1) same(1) this(2,3) lt this(4)]
  obtain ext s' where e: "write_clusters first_cluster c (off + cbytes s) sz data s3 = Some (None, s')"
    "length ext = n" "set ext \<subseteq> frees s3" "fchain s' ((pre @ [cur]) @ c # ext)"
    "fs_frame (set (c # ext)) s3 s'" "fsinfo_ok s3 \<longrightarrow> fsinfo_ok s'" "frees s' = frees s3 - set ext"
    "\<forall>j. off + cbytes s + j < sz \<longrightarrow> chain_byte s' ((pre @ [cur]) @ c # ext) (off + cbytes s + j) = data (off + cbytes s + j)"
    unfolding same(5) n [symmetric] by (elim exE conjE) (rule that)
  have frame: "fs_frame (set (cur # c # ext)) s s'"
    by (rule fs_frame_trans [OF fs_frame_mono [OF c(2)] fs_frame_mono [OF e(5)]]) auto
  have cur: "cur \<notin> set (c # ext)" "valid s3 cur" "\<And>d. d \<in> set (c # ext) \<Longrightarrow> valid s3 d"
    using chain_distinct [OF e(4)] c(3) e(3) by (auto simp: fchain_def frees_def)
  have "chain_byte s' (pre @ cur # c # ext) (off + j) = data (off + j)" if "off + j < sz" for j
  proof (cases "j < cbytes s")
    case True
    then have "caddr s cur + j \<in> cluster_at s3 cur" by (simp add: cluster_at_def same(5,6))
    from fs_frame_byte [OF e(5) cur(2,1,3) this] True show ?thesis
      using chain_byte_at [of j s' pre cur "c # ext"] c(6)
      unfolding Suc.prems(3) fs_frame_same(5,6) [OF frame] by simp
  next
    case False
    then show ?thesis using e(8) [rule_format, of "j - cbytes s"] that by simp
  qed
  moreover have "length (c # ext) = (sz - off - 1) div cbytes s" "set (c # ext) \<subseteq> frees s"
    "frees s' = frees s - set (c # ext)" "fsinfo_ok s \<longrightarrow> fsinfo_ok s'" "fchain s' (pre @ cur # c # ext)"
    using e(2,3,4,6,7) Suc.hyps(2) c(1,4,5) by auto
  ultimately show ?case using frame e(1) c(7) by (intro exI [of _ "c # ext"] exI [of _ s']) simp
qed

text \<open>When the disk fills up, everything taken so far is given back.\<close>

lemma write_clusters_stuck:
  assumes inv: "fat_inv s" and ch: "fchain s (pre @ [cur])" and lt: "off + cbytes s < sz" and e: "frees s = {}"
  obtains s' where "write_clusters (hd (pre @ [cur])) cur off sz data s = Some (Some FS_ERR_FULL, s')"
    "fs_frame (set (pre @ [cur])) s s'" "fsinfo_ok s \<longrightarrow> fsinfo_ok s'"
    "\<forall>d. in_table s d \<longrightarrow> ent s' d = (if d \<in> set (pre @ [cur]) then 0 else ent s d)"
proof -
  let ?f = "hd (pre @ [cur])"
  have v: "valid s cur" and o: "off < sz" using ch lt by (simp_all add: fchain_def)
  obtain s1 where s1: "fs_frame {cur} s s1" "\<forall>x. in_table s x \<longrightarrow> ent s1 x = ent s x" "fsinfo_ok s \<longrightarrow> fsinfo_ok s1"
    and eq: "write_clusters ?f cur off sz data s =
        Option.bind (fat_alloc_cluster s1) (\<lambda>(next_cluster, t).
                if next_cluster = 0 then undo_write FS_ERR_FULL ?f t
                else
                  (let (ok, t) = fat_write_entry cur next_cluster t
                   in if \<not> ok then undo_write FS_ERR_IO ?f t
                      else write_clusters ?f next_cluster (off + cbytes s) sz data t))"
    using write_clusters_unfold [OF inv v o, of data ?f]
    unfolding if_P [OF lt] by (elim exE conjE) (rule that)
  note tab = same_table [OF s1(1,2)] and same = fs_frame_same [OF s1(1)]
  have "fat_alloc_cluster s1 = Some (0, s1)"
    using fat_alloc_cluster_spec(1) [OF same(1)] tab(1) e by simp
  moreover obtain c cs where cs: "pre @ [cur] = c # cs" by (cases pre) auto
  then obtain s2 where s2: "fat_free_cluster_chain c s1 = Some (True, s2)"
    "fat_step (\<lambda>d. if d \<in> set (c # cs) then 0 else ent s1 d) s1 s2" "fsinfo_ok s1 \<longrightarrow> fsinfo_ok s2"
    using fat_free_cluster_chain_spec [OF same(1), of c cs] tab(2) [OF ch] by auto
  ultimately have "write_clusters ?f cur off sz data s = Some (Some FS_ERR_FULL, s2)"
    unfolding eq by (simp add: undo_write_def cs)
  moreover have "fs_frame (set (pre @ [cur])) s s2"
    unfolding cs using cs
    by (intro fs_frame_trans [OF fs_frame_mono [OF s1(1)] fs_frame_step [OF s2(2)]]) (auto simp: append_eq_Cons_conv)
  moreover have "\<forall>d. in_table s d \<longrightarrow> ent s2 d = (if d \<in> set (pre @ [cur]) then 0 else ent s d)"
    unfolding cs using fat_step_ent [OF s2(2)] s1(2) same(4) by simp
  moreover have "fsinfo_ok s \<longrightarrow> fsinfo_ok s2" using s1(3) s2(3) by blast
  ultimately show thesis using that by blast
qed

lemma write_clusters_full:
  assumes "fat_inv s" "fchain s (pre @ [cur])" "off < sz" "card (frees s) < (sz - off - 1) div cbytes s"
  shows "\<exists>s'. write_clusters (hd (pre @ [cur])) cur off sz data s = Some (Some FS_ERR_FULL, s')
    \<and> fs_frame (set (pre @ [cur]) \<union> frees s) s s' \<and> (fsinfo_ok s \<longrightarrow> fsinfo_ok s')
    \<and> (\<forall>d. in_table s d \<longrightarrow> ent s' d = (if d \<in> set (pre @ [cur]) then 0 else ent s d))"
  using assms
proof (induction "card (frees s)" arbitrary: pre cur off s)
  case 0
  have pos: "0 < cbytes s" using 0 by (simp add: fat_inv_def cbytes_pos)
  have lt: "off + cbytes s < sz" using clusters_left(1) [OF pos "0.prems"(3)] "0.prems"(4) by auto
  have e: "frees s = {}" using "0.hyps" by simp
  show ?case
    by (rule write_clusters_stuck [OF "0.prems"(1,2) lt e, of data]) (use e in auto)
next
  case (Suc n)
  have pos: "0 < cbytes s" using Suc.prems by (simp add: fat_inv_def cbytes_pos)
  have lt: "off + cbytes s < sz" using clusters_left(1) [OF pos Suc.prems(3)] Suc.prems(4) by auto
  have ne: "frees s \<noteq> {}" using Suc.hyps(2) by auto
  let ?f = "hd (pre @ [cur])"
  obtain c s3 where c: "c \<in> frees s" "fs_frame {cur, c} s s3" "fchain s3 (pre @ [cur, c])"
    "frees s3 = frees s - {c}" "fsinfo_ok s \<longrightarrow> fsinfo_ok s3"
    "write_clusters ?f cur off sz data s = write_clusters ?f c (off + cbytes s) sz data s3"
    by (rule write_clusters_next [OF Suc.prems(1,2) lt ne, of data ?f])
  note same = fs_frame_same [OF c(2)]
  have hd: "hd ((pre @ [cur]) @ [c]) = ?f" by (cases pre) auto
  obtain m where m: "(sz - off - 1) div cbytes s = Suc m" using Suc.prems(4) by (cases "(sz - off - 1) div cbytes s") auto
  have "n = card (frees s3)" using c(1,4) Suc.hyps(2) by simp
  moreover have "card (frees s3) < (sz - (off + cbytes s) - 1) div cbytes s3"
    using clusters_left(2) [OF pos Suc.prems(3) m] Suc.prems(4) m c(1,4) Suc.hyps(2) by (simp add: same(5))
  ultimately obtain s' where s': "write_clusters ?f c (off + cbytes s) sz data s3 = Some (Some FS_ERR_FULL, s')"
    "fs_frame (set ((pre @ [cur]) @ [c]) \<union> frees s3) s3 s'" "fsinfo_ok s3 \<longrightarrow> fsinfo_ok s'"
    "\<forall>d. in_table s3 d \<longrightarrow> ent s' d = (if d \<in> set ((pre @ [cur]) @ [c]) then 0 else ent s3 d)"
    using Suc.hyps(1) [of s3 "pre @ [cur]" c "off + cbytes s"] same(1) c(3) lt unfolding hd by auto
  have "fs_frame (set (pre @ [cur]) \<union> frees s) s s'"
    by (rule fs_frame_trans [OF fs_frame_mono [OF c(2)] fs_frame_mono [OF s'(2)]]) (use c(1,4) in auto)
  moreover have "ent s' d = (if d \<in> set (pre @ [cur]) then 0 else ent s d)" if "in_table s d" for d
    using s'(4) that same(4) c(1) fs_frame_ent [OF c(2) that] by (auto simp: frees_def)
  ultimately show ?case using s'(1,3) c(5,6) by simp
qed

section \<open>The FAT part of \<open>fs_write_file\<close>\<close>

definition clusters_for :: "'a fat \<Rightarrow> nat \<Rightarrow> nat" where
  "clusters_for s sz = Suc ((sz - 1) div cbytes s)"

lemma fat_write_data_ok:
  assumes inv: "fat_inv s" and room: "clusters_for s sz \<le> card (frees s)"
  shows "\<exists>cs s'. fat_write_data sz data s = Some (Inr (hd cs), s') \<and> length cs = clusters_for s sz
    \<and> set cs \<subseteq> frees s \<and> fchain s' cs \<and> fs_frame (set cs) s s' \<and> frees s' = frees s - set cs
    \<and> content s' cs sz = map data [0..<sz] \<and> (fsinfo_ok s \<longrightarrow> fsinfo_ok s')"
proof -
  have "frees s \<noteq> {}" using room by (auto simp: clusters_for_def)
  then obtain c s1 where c: "c \<in> frees s" "fat_alloc_cluster s = Some (c, s1)"
    "fat_step ((ent s)(c := FAT32_EOC_MARK)) s s1" "fsinfo_ok s \<longrightarrow> fsinfo_ok s1"
    using fat_alloc_cluster_spec(2) [OF inv] by blast
  have v: "valid s c" using c(1) by (simp add: frees_def)
  have frame1: "fs_frame {c} s s1" by (rule fs_frame_step [OF c(3)]) simp
  note same = fs_frame_same [OF frame1]
  have ch: "fchain s1 ([] @ [c])"
    using v fat_step_ent [OF c(3) valid_in_table [OF v]] same(3) by (simp add: fchain_def)
  have fr: "frees s1 = frees s - {c}" by (auto simp: frees_step [OF c(3)]) (auto simp: frees_def)
  have c0: "c \<noteq> 0" using valid_not_mark [OF v] by simp
  show ?thesis
  proof (cases "sz = 0")
    case True
    then have "fat_write_data sz data s = Some (Inr c, s1)"
      using c(2) c0 by (simp add: fat_write_data_def write_clusters.simps [of c c 0 0])
    then show ?thesis using True c(1,4) ch frame1 fr
      by (intro exI [of _ "[c]"] exI [of _ s1]) (simp add: clusters_for_def content_def)
  next
    case False
    have "(sz - 0 - 1) div cbytes s1 \<le> card (frees s1)"
      using room c(1) fr same(5) by (simp add: clusters_for_def)
    then obtain ext s' where e: "write_clusters c c 0 sz data s1 = Some (None, s')"
      "length ext = (sz - 1) div cbytes s" "set ext \<subseteq> frees s1" "fchain s' (c # ext)"
      "fs_frame (set (c # ext)) s1 s'" "fsinfo_ok s1 \<longrightarrow> fsinfo_ok s'" "frees s' = frees s1 - set ext"
      "\<forall>j < sz. chain_byte s' (c # ext) j = data j"
      using write_clusters_ok [OF same(1) ch, of 0 sz c data] False same(5) by auto
    have "fs_frame (set (c # ext)) s s'"
      by (rule fs_frame_trans [OF fs_frame_mono [OF frame1] e(5)]) simp
    moreover have "fat_write_data sz data s = Some (Inr (hd (c # ext)), s')"
      using c(2) c0 e(1) by (simp add: fat_write_data_def)
    ultimately show ?thesis
      using e c(1,4) fr by (intro exI [of _ "c # ext"] exI [of _ s']) (auto simp: clusters_for_def content_def)
  qed
qed

lemma fat_write_data_full:
  assumes inv: "fat_inv s" and room: "card (frees s) < clusters_for s sz"
  shows "\<exists>s'. fat_write_data sz data s = Some (Inl FS_ERR_FULL, s') \<and> fs_frame (frees s) s s'
    \<and> (\<forall>d. in_table s d \<longrightarrow> ent s' d = ent s d) \<and> (fsinfo_ok s \<longrightarrow> fsinfo_ok s')"
proof (cases "frees s = {}")
  case True
  then have "fat_write_data sz data s = Some (Inl FS_ERR_FULL, s)"
    using fat_alloc_cluster_spec(1) [OF inv] by (simp add: fat_write_data_def)
  then show ?thesis using fs_frame_refl [OF inv] by blast
next
  case False
  then obtain c s1 where c: "c \<in> frees s" "fat_alloc_cluster s = Some (c, s1)"
    "fat_step ((ent s)(c := FAT32_EOC_MARK)) s s1" "fsinfo_ok s \<longrightarrow> fsinfo_ok s1"
    using fat_alloc_cluster_spec(2) [OF inv] by blast
  have v: "valid s c" using c(1) by (simp add: frees_def)
  have frame1: "fs_frame {c} s s1" by (rule fs_frame_step [OF c(3)]) simp
  note same = fs_frame_same [OF frame1]
  have ch: "fchain s1 ([] @ [c])"
    using v fat_step_ent [OF c(3) valid_in_table [OF v]] same(3) by (simp add: fchain_def)
  have fr: "frees s1 = frees s - {c}" by (auto simp: frees_step [OF c(3)]) (auto simp: frees_def)
  have c0: "c \<noteq> 0" using valid_not_mark [OF v] by simp
  have lt: "card (frees s1) < (sz - 0 - 1) div cbytes s1"
    using room card_Suc_Diff1 [OF _ c(1)] unfolding fr same(5) clusters_for_def by simp
  have "0 < sz" using lt by (cases sz) simp_all
  then obtain s' where s': "write_clusters c c 0 sz data s1 = Some (Some FS_ERR_FULL, s')"
    "fs_frame ({c} \<union> frees s1) s1 s'" "fsinfo_ok s1 \<longrightarrow> fsinfo_ok s'"
    "\<forall>d. in_table s d \<longrightarrow> ent s' d = (if d = c then 0 else ent s1 d)"
    using write_clusters_full [OF same(1) ch _ lt, of data] same(4) by auto
  have "fs_frame (frees s) s s'"
    by (rule fs_frame_trans [OF fs_frame_mono [OF frame1] fs_frame_mono [OF s'(2)]]) (use c(1) fr in auto)
  moreover have "ent s' d = ent s d" if "in_table s d" for d
    using s'(4) that c(1) fat_step_ent [OF c(3) that] by (simp add: frees_def)
  moreover have "fat_write_data sz data s = Some (Inl FS_ERR_FULL, s')"
    using c(2) c0 s'(1) by (simp add: fat_write_data_def)
  ultimately show ?thesis using c(4) s'(3) by blast
qed

section \<open>Reading\<close>

lemma read_sectors_spec:
  assumes g: "geom s" and v: "valid s c" and "k \<le> spc_of s" "off \<le> sz"
  shows "\<exists>b. read_sectors (cluster_to_sector s c) (spc_of s) k off sz s buffer
      = (True, min (off + 512 * (spc_of s - k)) sz, b)
    \<and> (\<forall>i. b i = (if off \<le> i \<and> i < min (off + 512 * (spc_of s - k)) sz
               then ram_disk s (caddr s c + 512 * k + (i - off)) else buffer i))"
  using assms(3,4)
proof (induction "spc_of s - k" arbitrary: k off buffer)
  case 0
  then show ?case
    by (intro exI [of _ buffer]) (auto simp: read_sectors.simps [of _ _ k])
next
  case (Suc m)
  have k: "k < spc_of s" using Suc.hyps(2) by simp
  show ?case
  proof (cases "off < sz")
    case False
    then show ?thesis using Suc.prems(2)
      by (intro exI [of _ buffer]) (auto simp: read_sectors.simps [of _ _ k])
  next
    case True
    let ?n = "data_start s + (unat c - 2) * spc_of s + k"
    define cs where "cs = (if off + 512 > sz then sz - off else 512)"
    have at: "512 * ?n = caddr s c + 512 * k"
      by (simp add: caddr_def cbytes_def algebra_simps)
    let ?d = "\<lambda>i. ram_disk s (caddr s c + 512 * k + i)"
    have r: "disk_read_sector (cluster_to_sector s c + of_nat k) s = Some ?d"
      using read_sector_ok [of s "cluster_to_sector s c + of_nat k"] g cluster_room [OF g v k]
      unfolding unat_cluster_sector [OF g v k] at by (simp add: geom_def)
    have eq: "read_sectors (cluster_to_sector s c) (spc_of s) k off sz s buffer =
        read_sectors (cluster_to_sector s c) (spc_of s) (k + 1) (off + cs) sz s (memcpy_at off cs ?d buffer)"
      unfolding read_sectors.simps [of _ _ k] Let_def DISK_SECTOR_SIZE_def cs_def [symmetric] r
      using k True by simp
    have "m = spc_of s - (k + 1)" "k + 1 \<le> spc_of s" "off + cs \<le> sz"
      using Suc.hyps(2) k True by (auto simp: cs_def)
    from Suc.hyps(1) [OF this] obtain b where b:
      "read_sectors (cluster_to_sector s c) (spc_of s) (k + 1) (off + cs) sz s (memcpy_at off cs ?d buffer)
        = (True, min (off + cs + 512 * (spc_of s - (k + 1))) sz, b)"
      "\<forall>i. b i = (if off + cs \<le> i \<and> i < min (off + cs + 512 * (spc_of s - (k + 1))) sz
               then ram_disk s (caddr s c + 512 * (k + 1) + (i - (off + cs))) else memcpy_at off cs ?d buffer i)"
      by blast
    have m: "min (off + cs + 512 * (spc_of s - (k + 1))) sz = min (off + 512 * (spc_of s - k)) sz"
      using k by (auto simp: cs_def)
    have "b i = (if off \<le> i \<and> i < min (off + 512 * (spc_of s - k)) sz
               then ram_disk s (caddr s c + 512 * k + (i - off)) else buffer i)" for i
    proof (cases "off + cs \<le> i \<and> i < min (off + 512 * (spc_of s - k)) sz")
      case True
      then have "cs = 512" by (auto simp: cs_def split: if_splits)
      with True have "caddr s c + 512 * (k + 1) + (i - (off + cs)) = caddr s c + 512 * k + (i - off)" by simp
      with True b(2) [unfolded m, rule_format, of i] show ?thesis by simp
    next
      case False
      moreover have "off + cs \<le> min (off + 512 * (spc_of s - k)) sz" using True k by (auto simp: cs_def)
      ultimately show ?thesis using b(2) [unfolded m, rule_format, of i] by (auto simp: memcpy_at_def)
    qed
    then show ?thesis using b(1) eq m by (intro exI [of _ b]) simp
  qed
qed

lemma chain_byte_Cons:
  assumes "0 < cbytes s"
  shows "chain_byte s (c # cs) i =
    (if i < cbytes s then ram_disk s (caddr s c + i) else chain_byte s cs (i - cbytes s))"
  using assms by (simp add: chain_byte_def le_div_geq le_mod_geq not_less)

lemma read_cluster_step:
  assumes inv: "fat_inv s" and v: "valid s c" and o: "off < sz"
  obtains b where "read_clusters c off sz s buffer = read_clusters (ent s c) (min (off + cbytes s) sz) sz s b"
    "\<forall>i. b i = (if off \<le> i \<and> i < min (off + cbytes s) sz then ram_disk s (caddr s c + (i - off)) else buffer i)"
proof -
  have g: "geom s" using inv by (simp add: fat_inv_def)
  obtain b where b: "read_sectors (cluster_to_sector s c) (unat (sectors_per_cluster (bpb (boot_sector s)))) 0 off sz s buffer
      = (True, min (off + cbytes s) sz, b)"
    "\<forall>i. b i = (if off \<le> i \<and> i < min (off + cbytes s) sz then ram_disk s (caddr s c + (i - off)) else buffer i)"
    using read_sectors_spec [OF g v _ less_imp_le [OF o], of 0 buffer]
    by (auto simp: cbytes_def spc_of_def)
  have "read_clusters c off sz s buffer = read_clusters (ent s c) (min (off + cbytes s) sz) sz s b"
    using o valid_not_mark [OF v] b(1) fat_read_entry_eq [OF inv valid_in_table [OF v]]
    by (simp add: read_clusters.simps [of c off sz s buffer])
  with b(2) show thesis by (rule that [rotated])
qed

lemma read_clusters_spec:
  assumes inv: "fat_inv s"
  shows "fchain s (c # cs) \<Longrightarrow> off \<le> sz \<Longrightarrow> sz \<le> off + cbytes s * length (c # cs) \<Longrightarrow>
    \<exists>b. read_clusters c off sz s buffer = Some (True, sz, b)
      \<and> (\<forall>i. b i = (if off \<le> i \<and> i < sz then chain_byte s (c # cs) (i - off) else buffer i))"
proof (induction cs arbitrary: c off buffer)
  case (Nil c off buffer)
  have pos: "0 < cbytes s" using inv by (simp add: fat_inv_def cbytes_pos)
  have v: "valid s c" "ent s c = FAT32_EOC_MARK" using Nil by (auto simp: fchain_def)
  show ?case
  proof (cases "off < sz")
    case True
    obtain b where b: "read_clusters c off sz s buffer = read_clusters FAT32_EOC_MARK sz sz s b"
      "\<forall>i. b i = (if off \<le> i \<and> i < sz then ram_disk s (caddr s c + (i - off)) else buffer i)"
      using read_cluster_step [OF inv v(1) True, of buffer]
      unfolding min_absorb2 [OF Nil.prems(3) [simplified]] v(2) by metis
    show ?thesis
      using b Nil.prems(3) by (intro exI [of _ b]) (auto simp: read_clusters.simps [of _ sz sz] chain_byte_Cons pos)
  next
    case False
    then show ?thesis using Nil.prems by (intro exI [of _ buffer]) (auto simp: read_clusters.simps [of c])
  qed
next
  case (Cons d cs)
  have pos: "0 < cbytes s" using inv by (simp add: fat_inv_def cbytes_pos)
  have v: "valid s c" "ent s c = d" "fchain s (d # cs)" using Cons.prems by (auto simp: fchain_def)
  show ?case
  proof (cases "off < sz")
    case True
    let ?o = "min (off + cbytes s) sz"
    obtain b where b: "read_clusters c off sz s buffer = read_clusters d ?o sz s b"
      "\<forall>i. b i = (if off \<le> i \<and> i < ?o then ram_disk s (caddr s c + (i - off)) else buffer i)"
      using read_cluster_step [OF inv v(1) True, of buffer] v(2) by metis
    have "sz \<le> ?o + cbytes s * length (d # cs)" using Cons.prems(3) by (auto simp: min_def)
    then obtain b' where b': "read_clusters d ?o sz s b = Some (True, sz, b')"
      "\<forall>i. b' i = (if ?o \<le> i \<and> i < sz then chain_byte s (d # cs) (i - ?o) else b i)"
      using Cons.IH [OF v(3) min.cobounded2, of "off + cbytes s" b] by blast
    have "b' i = (if off \<le> i \<and> i < sz then chain_byte s (c # d # cs) (i - off) else buffer i)" for i
    proof (cases "?o \<le> i \<and> i < sz")
      case True
      then have "?o = off + cbytes s" "cbytes s \<le> i - off" by auto
      with True b'(2) show ?thesis by (simp add: chain_byte_Cons [OF pos, of c] del: min_le_iff_disj)
    next
      case False
      then show ?thesis using b(2) b'(2) [rule_format, of i] by (auto simp: chain_byte_Cons [OF pos, of c])
    qed
    then show ?thesis unfolding b(1) b'(1) by blast
  next
    case False
    then show ?thesis using Cons.prems by (intro exI [of _ buffer]) (auto simp: read_clusters.simps [of c])
  qed
qed

end
