(* ===== verification/Fat_Dir.thy ===== *)
theory Fat_Dir
  imports Fat_Data
begin

unbundle bit_operations_syntax

text \<open>
  Directories on the FAT disk (\<open>fs/fs.c\<close>): the 32-byte entries, the 8.3 names, the search for a name,
  the insertion of an entry and the formatting of a disk. A name is the list of its bytes without
  the terminator. A loop over the sectors of a cluster is a \<open>flow\<close>: it goes on, leaves the sectors
  of this cluster, or returns from the function.
\<close>

section \<open>Directory entries\<close>

definition ATTR_VOLUME_ID :: u8 where "ATTR_VOLUME_ID = 0x08"
definition ATTR_DIRECTORY :: u8 where "ATTR_DIRECTORY = 0x10"
definition ATTR_ARCHIVE :: u8 where "ATTR_ARCHIVE = 0x20"
definition ATTR_LONG_NAME :: u8 where "ATTR_LONG_NAME = 0x0F"

record fat32_dir_entry_t =
  de_name :: "u8 list"
  de_attributes :: u8
  de_reserved :: u8
  creation_time_tenths :: u8
  creation_time :: u16
  creation_date :: u16
  last_access_date :: u16
  first_cluster_high :: u16
  last_modified_time :: u16
  last_modified_date :: u16
  first_cluster_low :: u16
  de_file_size :: u32

definition dir_entry_zero :: fat32_dir_entry_t where
  "dir_entry_zero = \<lparr>de_name = replicate 11 0, de_attributes = 0, de_reserved = 0, creation_time_tenths = 0,
     creation_time = 0, creation_date = 0, last_access_date = 0, first_cluster_high = 0,
     last_modified_time = 0, last_modified_date = 0, first_cluster_low = 0, de_file_size = 0\<rparr>"

text \<open>\<open>dir_entries[i]\<close> of a sector buffer, read and written.\<close>

definition dir_entries :: "bytes \<Rightarrow> nat \<Rightarrow> fat32_dir_entry_t" where
  "dir_entries b i = (let a = 32 * i in
     \<lparr>de_name = map (\<lambda>j. b (a + j)) [0..<11], de_attributes = b (a + 11), de_reserved = b (a + 12),
      creation_time_tenths = b (a + 13), creation_time = get16 b (a + 14), creation_date = get16 b (a + 16),
      last_access_date = get16 b (a + 18), first_cluster_high = get16 b (a + 20),
      last_modified_time = get16 b (a + 22), last_modified_date = get16 b (a + 24),
      first_cluster_low = get16 b (a + 26), de_file_size = get32 b (a + 28)\<rparr>)"

definition put_name :: "nat \<Rightarrow> u8 list \<Rightarrow> bytes \<Rightarrow> bytes" where
  "put_name a name b = (\<lambda>x. if a \<le> x \<and> x < a + 11 then name ! (x - a) else b x)"

definition put_dir_entry :: "nat \<Rightarrow> fat32_dir_entry_t \<Rightarrow> bytes \<Rightarrow> bytes" where
  "put_dir_entry i e b = (let a = 32 * i in
     put32 (a + 28) (de_file_size e) (put16 (a + 26) (first_cluster_low e)
       (put16 (a + 24) (last_modified_date e) (put16 (a + 22) (last_modified_time e)
         (put16 (a + 20) (first_cluster_high e) (put16 (a + 18) (last_access_date e)
           (put16 (a + 16) (creation_date e) (put16 (a + 14) (creation_time e)
             ((put_name a (de_name e) b)(a + 11 := de_attributes e, a + 12 := de_reserved e,
                a + 13 := creation_time_tenths e))))))))))"

section \<open>8.3 names\<close>

definition illegal_chars :: "u8 list" where
  "illegal_chars = [0x2A, 0x3F, 0x3A, 0x22, 0x3C, 0x3E, 0x7C, 0x2F, 0x5C]"

definition to_upper :: "u8 \<Rightarrow> u8" where
  "to_upper c = (if 0x61 \<le> c \<and> c \<le> 0x7A then c - 32 else c)"

definition legal_upper :: "u8 list \<Rightarrow> u8 list" where
  "legal_upper cs = map to_upper (filter (\<lambda>c. c \<notin> set illegal_chars) cs)"

text \<open>The parts before and after the first dot.\<close>

definition name_stem :: "u8 list \<Rightarrow> u8 list" where
  "name_stem name = takeWhile (\<lambda>c. c \<noteq> 0x2E) name"

definition name_ext :: "u8 list \<Rightarrow> u8 list" where
  "name_ext name = tl (dropWhile (\<lambda>c. c \<noteq> 0x2E) name)"

definition pad_to :: "nat \<Rightarrow> u8 list \<Rightarrow> u8 list" where
  "pad_to n cs = take n (cs @ replicate n 0x20)"

definition fix_e5 :: "u8 list \<Rightarrow> u8 list" where
  "fix_e5 cs = (if cs ! 0 = 0xE5 then cs[0 := 0x05] else cs)"

definition format_short_name :: "u8 list \<Rightarrow> u8 list" where
  "format_short_name name =
     fix_e5 (pad_to 8 (legal_upper (take 8 (name_stem name)))) @ pad_to 3 (legal_upper (take 3 (name_ext name)))"

definition parse_short_name :: "u8 list \<Rightarrow> u8 list" where
  "parse_short_name n =
     takeWhile (\<lambda>c. c \<noteq> 0x20) (take 8 n)
     @ (if n ! 8 \<noteq> 0x20 then 0x2E # takeWhile (\<lambda>c. c \<noteq> 0x20) (take 3 (drop 8 n)) else [])"

section \<open>Searching a directory\<close>

datatype ('r, 'a) flow = Continue 'a | Break 'a | Return 'r

fun sector_loop ::
  "(u32 \<Rightarrow> bytes option \<Rightarrow> 'b \<Rightarrow> ('r, 'b) flow) \<Rightarrow> u32 \<Rightarrow> nat list \<Rightarrow> 'a fat \<Rightarrow> 'b \<Rightarrow> ('r, 'b) flow" where
  "sector_loop body sector [] s acc = Continue acc"
| "sector_loop body sector (k # ks) s acc =
     (case body (sector + of_nat k) (disk_read_sector (sector + of_nat k) s) acc of
        Continue acc \<Rightarrow> sector_loop body sector ks s acc
      | Break acc \<Rightarrow> Break acc
      | Return r \<Rightarrow> Return r)"

definition cluster_sectors :: "'a fat \<Rightarrow> nat list" where
  "cluster_sectors s = [0..<unat (sectors_per_cluster (bpb (boot_sector s)))]"

text \<open>The first slot of a sector with a property, \<open>for (int i = 0; i < 16; i++)\<close>.\<close>

definition find_slot :: "(fat32_dir_entry_t \<Rightarrow> bool) \<Rightarrow> bytes \<Rightarrow> nat option" where
  "find_slot P b = scan_from (\<lambda>i. P (dir_entries b i)) 0 16"

definition dir_cluster :: "'a fat \<Rightarrow> u32 \<Rightarrow> u32" where
  "dir_cluster s cluster = (if cluster = 0 then root_cluster (boot_sector s) else cluster)"

definition exists_body :: "u8 list \<Rightarrow> u32 \<Rightarrow> bytes option \<Rightarrow> unit \<Rightarrow> (bool, unit) flow" where
  "exists_body sn sector rd acc =
     (case rd of
        None \<Rightarrow> Return False
      | Some buffer \<Rightarrow>
          (case find_slot (\<lambda>e. hd (de_name e) = 0 \<or> hd (de_name e) \<noteq> 0xE5 \<and> de_name e = sn) buffer of
             None \<Rightarrow> Continue acc
           | Some i \<Rightarrow> Return (hd (de_name (dir_entries buffer i)) \<noteq> 0)))"

partial_function (option) exists_loop :: "u8 list \<Rightarrow> u32 \<Rightarrow> 'a fat \<Rightarrow> bool option" where
  "exists_loop sn cur s =
     (if cur \<noteq> 0 \<and> cur \<noteq> FAT32_EOC_MARK \<and> cur \<noteq> FAT32_IO_ERROR then
        (case sector_loop (exists_body sn) (cluster_to_sector s cur) (cluster_sectors s) s () of
           Return r \<Rightarrow> Some r
         | _ \<Rightarrow> exists_loop sn (fat_read_entry cur s) s)
      else Some False)"

definition fat_short_name_exists :: "u32 \<Rightarrow> u8 list \<Rightarrow> 'a fat \<Rightarrow> bool option" where
  "fat_short_name_exists cluster sn s = exists_loop sn (dir_cluster s cluster) s"

fun dec_digits :: "nat \<Rightarrow> u8 list" where
  "dec_digits n = (if n < 10 then [0x30 + of_nat n] else dec_digits (n div 10) @ [0x30 + of_nat (n mod 10)])"

declare dec_digits.simps [simp del]

definition mangled_name :: "u8 list \<Rightarrow> nat \<Rightarrow> u8 list" where
  "mangled_name name n =
     (let stem = take 6 (legal_upper (name_stem name)); ext = take 3 (legal_upper (name_ext name));
          num = dec_digits n; stem_use = min (6 - length num) (length stem)
      in fix_e5 (pad_to 8 (take stem_use stem @ [0x7E] @ num)) @ pad_to 3 ext)"

partial_function (option) mangle_loop :: "u8 list \<Rightarrow> u32 \<Rightarrow> nat \<Rightarrow> 'a fat \<Rightarrow> u8 list option" where
  "mangle_loop name cluster n s =
     Option.bind (fat_short_name_exists cluster (mangled_name name n) s) (\<lambda>taken.
       if \<not> taken \<or> n = 999999 then Some (mangled_name name n) else mangle_loop name cluster (n + 1) s)"

definition format_short_name_unique :: "u8 list \<Rightarrow> u32 \<Rightarrow> 'a fat \<Rightarrow> u8 list option" where
  "format_short_name_unique name cluster s =
     (let cluster = dir_cluster s cluster in
      Option.bind (fat_short_name_exists cluster (format_short_name name) s) (\<lambda>taken.
        if \<not> taken then Some (format_short_name name) else mangle_loop name cluster 1 s))"

section \<open>Inserting an entry\<close>

definition free_body :: "u32 \<Rightarrow> bytes option \<Rightarrow> unit \<Rightarrow> ((u32 \<times> bytes \<times> nat) option, unit) flow" where
  "free_body sector rd acc =
     (case rd of
        None \<Rightarrow> Return None
      | Some buffer \<Rightarrow>
          (case find_slot (\<lambda>e. hd (de_name e) = 0 \<or> hd (de_name e) = 0xE5) buffer of
             None \<Rightarrow> Continue acc
           | Some i \<Rightarrow> Return (Some (sector, buffer, i))))"

text \<open>The search for a free slot; without one, the last cluster of the directory.\<close>

partial_function (option) free_slot_loop ::
  "u32 \<Rightarrow> u32 \<Rightarrow> 'a fat \<Rightarrow> ((u32 \<times> bytes \<times> nat) option + u32) option" where
  "free_slot_loop prev_cluster current_cluster s =
     (if current_cluster \<noteq> 0 \<and> current_cluster \<noteq> FAT32_EOC_MARK \<and> current_cluster \<noteq> FAT32_IO_ERROR then
        (case sector_loop free_body (cluster_to_sector s current_cluster) (cluster_sectors s) s () of
           Return r \<Rightarrow> Some (Inl r)
         | _ \<Rightarrow> free_slot_loop current_cluster (fat_read_entry current_cluster s) s)
      else Some (Inr prev_cluster))"

fun fill_sectors :: "u32 \<Rightarrow> nat list \<Rightarrow> bytes \<Rightarrow> 'a fat \<Rightarrow> bool \<times> 'a fat" where
  "fill_sectors sector [] buffer s = (True, s)"
| "fill_sectors sector (k # ks) buffer s =
     (case disk_write_sector (sector + of_nat k) buffer s of
        None \<Rightarrow> (False, s)
      | Some s \<Rightarrow> fill_sectors sector ks (\<lambda>_. 0) s)"

definition append_dir_cluster :: "u32 \<Rightarrow> fat32_dir_entry_t \<Rightarrow> 'a fat \<Rightarrow> (bool \<times> 'a fat) option" where
  "append_dir_cluster prev_cluster e s =
     Option.bind (fat_alloc_cluster s) (\<lambda>(new_cluster, s).
       if new_cluster = 0 then Some (False, s)
       else if prev_cluster = 0 then Some (False, snd (fat_write_entry new_cluster 0 s))
       else
         (let (ok, s) = fat_write_entry prev_cluster new_cluster s
          in if \<not> ok then Some (False, snd (fat_write_entry new_cluster 0 s))
             else
               (let (ok, s) = fill_sectors (cluster_to_sector s new_cluster) (cluster_sectors s)
                                (put_dir_entry 0 e (\<lambda>_. 0)) s
                in if \<not> ok
                   then Some (False, snd (fat_write_entry prev_cluster FAT32_EOC_MARK
                                            (snd (fat_write_entry new_cluster 0 s))))
                   else Some (True, s))))"

definition fs_write_directory_entry :: "u32 \<Rightarrow> fat32_dir_entry_t \<Rightarrow> 'a fat \<Rightarrow> (bool \<times> 'a fat) option" where
  "fs_write_directory_entry cluster e s =
     Option.bind (free_slot_loop 0 (dir_cluster s cluster) s) (\<lambda>r.
       case r of
         Inl None \<Rightarrow> Some (False, s)
       | Inl (Some (sector, buffer, i)) \<Rightarrow>
           (case disk_write_sector sector (put_dir_entry i e buffer) s of
              None \<Rightarrow> Some (False, s)
            | Some s \<Rightarrow> Some (True, s))
       | Inr prev_cluster \<Rightarrow> append_dir_cluster prev_cluster e s)"

section \<open>Finding and listing entries\<close>

text \<open>The search for the directory entry of a file by its stored name.\<close>

definition entry_body :: "(fat32_dir_entry_t \<Rightarrow> bool) \<Rightarrow> u32 \<Rightarrow> bytes option \<Rightarrow> unit \<Rightarrow> (u32 \<times> bytes \<times> nat, unit) flow" where
  "entry_body P sector rd acc =
     (case rd of
        None \<Rightarrow> Break acc
      | Some buffer \<Rightarrow>
          (case find_slot P buffer of None \<Rightarrow> Continue acc | Some j \<Rightarrow> Return (sector, buffer, j)))"

partial_function (option) find_entry_loop ::
  "(fat32_dir_entry_t \<Rightarrow> bool) \<Rightarrow> u32 \<Rightarrow> 'a fat \<Rightarrow> ((u32 \<times> bytes \<times> nat) option) option" where
  "find_entry_loop P cluster s =
     (if cluster \<noteq> 0 \<and> cluster \<noteq> FAT32_EOC_MARK \<and> cluster \<noteq> FAT32_IO_ERROR then
        (case sector_loop (entry_body P) (cluster_to_sector s cluster) (cluster_sectors s) s () of
           Return r \<Rightarrow> Some (Some r)
         | _ \<Rightarrow> find_entry_loop P (fat_read_entry cluster s) s)
      else Some None)"

definition is_listed :: "fat32_dir_entry_t \<Rightarrow> bool" where
  "is_listed e \<longleftrightarrow> hd (de_name e) \<noteq> 0xE5 \<and> de_attributes e AND ATTR_LONG_NAME \<noteq> ATTR_LONG_NAME
     \<and> de_attributes e \<noteq> ATTR_VOLUME_ID \<and> hd (de_name e) \<noteq> 0x2E"

definition collect_body ::
  "u32 \<Rightarrow> bytes option \<Rightarrow> fat32_dir_entry_t list \<Rightarrow> (fat32_dir_entry_t list option, fat32_dir_entry_t list) flow" where
  "collect_body sector rd acc =
     (case rd of
        None \<Rightarrow> Return None
      | Some buffer \<Rightarrow>
          (let es = map (dir_entries buffer) [0..<16];
               live = takeWhile (\<lambda>e. hd (de_name e) \<noteq> 0) es;
               acc = acc @ filter is_listed live
           in if length live < 16 then Return (Some acc) else Continue acc))"

text \<open>Both passes of \<open>read_directory_entries\<close>; only the second one tests its first cluster for the error mark.\<close>

partial_function (option) collect_loop ::
  "bool \<Rightarrow> u32 \<Rightarrow> fat32_dir_entry_t list \<Rightarrow> 'a fat \<Rightarrow> (fat32_dir_entry_t list option) option" where
  "collect_loop second cluster acc s =
     (if cluster \<noteq> 0 \<and> cluster \<noteq> FAT32_EOC_MARK \<and> (second \<longrightarrow> cluster \<noteq> FAT32_IO_ERROR) then
        (case sector_loop collect_body (cluster_to_sector s cluster) (cluster_sectors s) s acc of
           Return r \<Rightarrow> Some r
         | Break acc \<Rightarrow> Some (Some acc)
         | Continue acc \<Rightarrow>
             (let nxt = fat_read_entry cluster s in
              if nxt = FAT32_IO_ERROR then Some (Some acc) else collect_loop second nxt acc s))
      else Some (Some acc))"

end
