(* ===== verification/Fat_Slots.thy ===== *)
theory Fat_Slots
  imports Fat_Dir
begin

unbundle bit_operations_syntax

text \<open>
  What the loops over the sectors of a directory find and change: a directory is its list of
  32-byte slots, in the order of the chain.
\<close>

section \<open>Entries in a sector\<close>

lemma get16_put16_same [simp]: "get16 (put16 a v d) a = v"
proof (rule bit_word_eqI)
  fix k assume k: "k < LENGTH(16)"
  then consider "k < 8" | "8 \<le> k" by linarith
  then show "bit (get16 (put16 a v d) a) k = bit v k"
    using k by cases (auto simp: get16_def put16_def bit_simps dest: bit_imp_le_length)
qed

lemma put16_other: "x \<noteq> a \<Longrightarrow> x \<noteq> a + 1 \<Longrightarrow> put16 a v d x = d x"
  by (simp add: put16_def)

lemma put32_other: "x < a \<or> a + 4 \<le> x \<Longrightarrow> put32 a v d x = d x"
  by (rule put32_apply_other)

lemma get16_other: "a + 2 \<le> b \<or> b + 2 \<le> a \<Longrightarrow> get16 (put16 a v d) b = get16 d b"
  by (auto simp: get16_def put16_def)

lemma get16_put32: "a + 4 \<le> b \<or> b + 2 \<le> a \<Longrightarrow> get16 (put32 a v d) b = get16 d b"
  by (auto simp: get16_def put32_apply_other)

lemma get32_put16: "a + 2 \<le> b \<or> b + 4 \<le> a \<Longrightarrow> get32 (put16 a v d) b = get32 d b"
  by (auto simp: get32_def put16_def)

lemma get16_cong:
  assumes "d a = d' b" "d (a + 1) = d' (b + 1)"
  shows "get16 d a = get16 d' b"
  using assms by (simp add: get16_def)

lemma get16_upd: "x < b \<or> b + 2 \<le> x \<Longrightarrow> get16 (d(x := v)) b = get16 d b"
  by (auto simp: get16_def)

lemma dir_entries_put_same:
  assumes "length (de_name e) = 11"
  shows "dir_entries (put_dir_entry j e b) j = e"
proof -
  let ?a = "32 * j"
  let ?b = "put_dir_entry j e b"
  have n: "?b (?a + i) = de_name e ! i" if "i < 11" for i
    using that by (simp add: put_dir_entry_def Let_def put16_other put32_other put_name_def)
  then have "map (\<lambda>i. ?b (?a + i)) [0..<11] = map (\<lambda>i. de_name e ! i) [0..<11]" by simp
  also have "\<dots> = de_name e" using assms by (metis map_nth)
  finally have name: "map (\<lambda>i. ?b (?a + i)) [0..<11] = de_name e" .
  have "?b (?a + 11) = de_attributes e" "?b (?a + 12) = de_reserved e" "?b (?a + 13) = creation_time_tenths e"
    by (simp_all add: put_dir_entry_def Let_def put16_other put32_other)
  moreover have "get16 ?b (?a + 14) = creation_time e" "get16 ?b (?a + 16) = creation_date e"
    "get16 ?b (?a + 18) = last_access_date e" "get16 ?b (?a + 20) = first_cluster_high e"
    "get16 ?b (?a + 22) = last_modified_time e" "get16 ?b (?a + 24) = last_modified_date e"
    "get16 ?b (?a + 26) = first_cluster_low e" "get32 ?b (?a + 28) = de_file_size e"
    by (simp_all add: put_dir_entry_def Let_def get16_other get16_put32)
  ultimately show ?thesis by (simp add: dir_entries_def Let_def name del: upt_rec_numeral)
qed

lemma put_dir_entry_other: "x < 32 * j \<or> 32 * j + 32 \<le> x \<Longrightarrow> put_dir_entry j e b x = b x"
  by (auto simp: put_dir_entry_def Let_def put16_other put32_other put_name_def)

lemma dir_entries_cong:
  assumes "\<And>i. i < 32 \<Longrightarrow> b (32 * j + i) = b' (32 * j' + i)"
  shows "dir_entries b j = dir_entries b' j'"
proof -
  have "map (\<lambda>i. b (32 * j + i)) [0..<11] = map (\<lambda>i. b' (32 * j' + i)) [0..<11]"
    using assms by (simp del: upt_rec_numeral)
  moreover have "get16 b (32 * j + k) = get16 b' (32 * j' + k)" if "k + 1 < 32" for k
    using assms [of k] assms [of "k + 1"] that by (intro get16_cong) (simp_all add: add.assoc)
  moreover have "get32 b (32 * j + 28) = get32 b' (32 * j' + 28)"
    using assms by (intro get32_cong) (simp add: add.assoc)
  ultimately show ?thesis
    using assms by (simp add: dir_entries_def Let_def del: upt_rec_numeral)
qed

lemma dir_entries_put_other:
  assumes "i \<noteq> j"
  shows "dir_entries (put_dir_entry j e b) i = dir_entries b i"
  using assms by (intro dir_entries_cong put_dir_entry_other) (cases "i < j"; simp)

lemma length_de_name [simp]: "length (de_name (dir_entries b j)) = 11"
  by (simp add: dir_entries_def Let_def del: upt_rec_numeral)

section \<open>The slots of a directory\<close>

text \<open>A slot is a cluster, a sector of it and one of the sixteen entries of the sector.\<close>

type_synonym slot_pos = "u32 \<times> nat \<times> nat"

definition sector_buf :: "'a fat \<Rightarrow> u32 \<Rightarrow> nat \<Rightarrow> bytes" where
  "sector_buf s c k = (\<lambda>i. ram_disk s (caddr s c + 512 * k + i))"

definition slot :: "'a fat \<Rightarrow> slot_pos \<Rightarrow> fat32_dir_entry_t" where
  "slot s p = (case p of (c, k, j) \<Rightarrow> dir_entries (sector_buf s c k) j)"

definition sector_slots :: "u32 \<Rightarrow> nat \<Rightarrow> slot_pos list" where
  "sector_slots c k = map (\<lambda>j. (c, k, j)) [0..<16]"

definition cluster_slots :: "u32 \<Rightarrow> nat list \<Rightarrow> slot_pos list" where
  "cluster_slots c ks = concat (map (sector_slots c) ks)"

definition slots :: "'a fat \<Rightarrow> u32 list \<Rightarrow> slot_pos list" where
  "slots s cs = concat (map (\<lambda>c. cluster_slots c [0..<spc_of s]) cs)"

lemma set_slots: "set (slots s cs) = set cs \<times> {..<spc_of s} \<times> {..<16}"
  by (auto simp: slots_def cluster_slots_def sector_slots_def image_iff simp del: upt_rec_numeral)

lemma read_cluster_sector:
  assumes "geom s" "valid s c" "k < spc_of s"
  shows "disk_read_sector (cluster_to_sector s c + of_nat k) s = Some (sector_buf s c k)"
proof -
  have "512 * (data_start s + (unat c - 2) * spc_of s + k) = caddr s c + 512 * k"
    by (simp add: caddr_def cbytes_def algebra_simps)
  then show ?thesis
    using read_sector_ok [of s "cluster_to_sector s c + of_nat k"] assms(1) cluster_room [OF assms]
    unfolding unat_cluster_sector [OF assms] by (simp add: geom_def sector_buf_def)
qed

lemma find_append: "List.find P (xs @ ys) = (case List.find P xs of None \<Rightarrow> List.find P ys | Some x \<Rightarrow> Some x)"
  by (induction xs) auto

lemma find_map: "List.find P (map f xs) = map_option f (List.find (\<lambda>x. P (f x)) xs)"
  by (induction xs) auto

lemma scan_from_find: "scan_from test lo hi = List.find test [lo..<hi]"
proof (induction test lo hi rule: scan_from.induct)
  case (1 test lo hi)
  then show ?case by (simp add: scan_from.simps [of test lo hi] upt_rec)
qed

lemma find_slot_sector:
  "List.find (\<lambda>p. P (slot s p)) (sector_slots c k) = map_option (\<lambda>j. (c, k, j)) (find_slot P (sector_buf s c k))"
  by (simp add: sector_slots_def find_map find_slot_def scan_from_find slot_def del: upt_rec_numeral)

text \<open>What a search reports of a slot: the sector, its content and the entry.\<close>

definition slot_ref :: "'a fat \<Rightarrow> slot_pos \<Rightarrow> u32 \<times> bytes \<times> nat" where
  "slot_ref s p = (case p of (c, k, j) \<Rightarrow> (cluster_to_sector s c + of_nat k, sector_buf s c k, j))"

definition find_pos :: "(fat32_dir_entry_t \<Rightarrow> bool) \<Rightarrow> 'a fat \<Rightarrow> slot_pos list \<Rightarrow> slot_pos option" where
  "find_pos P s ps = List.find (\<lambda>p. P (slot s p)) ps"

lemma find_pos_append:
  "find_pos P s (xs @ ys) = (case find_pos P s xs of None \<Rightarrow> find_pos P s ys | Some x \<Rightarrow> Some x)"
  unfolding find_pos_def find_append ..

lemma find_pos_Nil [simp]: "find_pos P s [] = None"
  by (simp add: find_pos_def)

lemma find_pos_Some:
  assumes "find_pos P s ps = Some p"
  shows "p \<in> set ps" and "P (slot s p)"
  using assms by (auto simp: find_pos_def find_Some_iff)

lemma find_pos_None: "find_pos P s ps = None \<longleftrightarrow> (\<forall>p\<in>set ps. \<not> P (slot s p))"
  by (auto simp: find_pos_def find_None_iff)

text \<open>A loop that looks for the first slot with a property, over the sectors of a cluster.\<close>

lemma sector_loop_find:
  assumes body: "\<And>sector buffer. body sector (Some buffer) () =
      (case find_slot P buffer of None \<Rightarrow> Continue () | Some j \<Rightarrow> Return (g (sector, buffer, j)))"
    and g: "geom s" "valid s c"
  shows "set ks \<subseteq> {..<spc_of s} \<Longrightarrow> sector_loop body (cluster_to_sector s c) ks s () =
    (case find_pos P s (cluster_slots c ks) of None \<Rightarrow> Continue () | Some p \<Rightarrow> Return (g (slot_ref s p)))"
proof (induction ks)
  case (Cons k ks)
  have r: "disk_read_sector (cluster_to_sector s c + of_nat k) s = Some (sector_buf s c k)"
    using Cons.prems by (intro read_cluster_sector g) simp
  have "find_pos P s (sector_slots c k) = map_option (\<lambda>j. (c, k, j)) (find_slot P (sector_buf s c k))"
    by (simp add: find_pos_def find_slot_sector)
  then show ?case
    using Cons by (cases "find_slot P (sector_buf s c k)")
      (simp_all add: r body cluster_slots_def find_pos_append slot_ref_def)
qed (simp add: cluster_slots_def)

lemma cluster_sectors_upt: "cluster_sectors s = [0..<spc_of s]"
  by (simp add: cluster_sectors_def spc_of_def)

lemma slots_Cons: "slots s (c # cs) = cluster_slots c [0..<spc_of s] @ slots s cs"
  by (simp add: slots_def)

lemma chain_next:
  assumes "fat_inv s" "fchain s (c # cs)"
  shows "fat_read_entry c s = (if cs = [] then FAT32_EOC_MARK else hd cs)" and "cs \<noteq> [] \<Longrightarrow> fchain s cs"
    and "c \<noteq> 0 \<and> c \<noteq> FAT32_EOC_MARK \<and> c \<noteq> FAT32_IO_ERROR" and "valid s c"
proof -
  show v: "valid s c" using assms(2) by (simp add: fchain_def)
  then show "c \<noteq> 0 \<and> c \<noteq> FAT32_EOC_MARK \<and> c \<noteq> FAT32_IO_ERROR" by (rule valid_not_mark)
  show "fat_read_entry c s = (if cs = [] then FAT32_EOC_MARK else hd cs)"
    using fat_read_entry_eq [OF assms(1) valid_in_table [OF v]] assms(2) by (simp add: fchain_def links_Cons)
  show "fchain s cs" if "cs \<noteq> []" using assms(2) that by (simp add: fchain_def links_Cons)
qed

section \<open>The searches\<close>

definition ends_or_has :: "u8 list \<Rightarrow> fat32_dir_entry_t \<Rightarrow> bool" where
  "ends_or_has sn e \<longleftrightarrow> hd (de_name e) = 0 \<or> hd (de_name e) \<noteq> 0xE5 \<and> de_name e = sn"

lemma exists_loop_spec:
  assumes inv: "fat_inv s"
  shows "fchain s (c # cs) \<Longrightarrow> exists_loop sn c s = Some
    (case find_pos (ends_or_has sn) s (slots s (c # cs)) of None \<Rightarrow> False | Some p \<Rightarrow> hd (de_name (slot s p)) \<noteq> 0)"
proof (induction cs arbitrary: c)
  have step: "sector_loop (exists_body sn) (cluster_to_sector s c) (cluster_sectors s) s () =
    (case find_pos (ends_or_has sn) s (cluster_slots c [0..<spc_of s]) of None \<Rightarrow> Continue ()
     | Some p \<Rightarrow> Return (hd (de_name (slot s p)) \<noteq> 0))" if "valid s c" for c
    using sector_loop_find [where body = "exists_body sn" and P = "ends_or_has sn" and ks = "[0..<spc_of s]"
        and g = "\<lambda>(sector, buffer, j). hd (de_name (dir_entries buffer j)) \<noteq> 0" and s = s, OF _ _ that] inv
    by (simp add: exists_body_def ends_or_has_def [abs_def] fat_inv_def cluster_sectors_upt slot_ref_def slot_def
        atLeast0LessThan split: option.split prod.split)
  {
    case (Nil c)
    note nx = chain_next [OF inv Nil]
    show ?case
      using nx(1,3) by (simp add: exists_loop.simps [of sn c] exists_loop.simps [of sn FAT32_EOC_MARK]
          step [OF nx(4)] slots_Cons find_pos_append slots_def split: option.split)
  next
    case (Cons d cs)
    note nx = chain_next [OF inv Cons.prems]
    show ?case
      using nx(1,3) Cons.IH [OF nx(2)]
      by (simp add: exists_loop.simps [of sn c] step [OF nx(4)] slots_Cons [of s c] find_pos_append split: option.split)
  }
qed

lemma find_entry_loop_spec:
  assumes inv: "fat_inv s"
  shows "fchain s (c # cs) \<Longrightarrow>
    find_entry_loop P c s = Some (map_option (slot_ref s) (find_pos P s (slots s (c # cs))))"
proof (induction cs arbitrary: c)
  have step: "sector_loop (entry_body P) (cluster_to_sector s c) (cluster_sectors s) s () =
    (case find_pos P s (cluster_slots c [0..<spc_of s]) of None \<Rightarrow> Continue ()
     | Some p \<Rightarrow> Return (slot_ref s p))" if "valid s c" for c
    using sector_loop_find [where body = "entry_body P" and P = P and ks = "[0..<spc_of s]"
        and g = "\<lambda>r. r" and s = s, OF _ _ that] inv
    by (simp add: entry_body_def fat_inv_def cluster_sectors_upt atLeast0LessThan)
  {
    case (Nil c)
    note nx = chain_next [OF inv Nil]
    show ?case
      using nx(1,3) by (simp add: find_entry_loop.simps [of P c] find_entry_loop.simps [of P FAT32_EOC_MARK]
          step [OF nx(4)] slots_Cons find_pos_append slots_def split: option.split)
  next
    case (Cons d cs)
    note nx = chain_next [OF inv Cons.prems]
    show ?case
      using nx(1,3) Cons.IH [OF nx(2)]
      by (simp add: find_entry_loop.simps [of P c] step [OF nx(4)] slots_Cons [of s c] find_pos_append split: option.split)
  }
qed

definition slot_free :: "fat32_dir_entry_t \<Rightarrow> bool" where
  "slot_free e \<longleftrightarrow> hd (de_name e) = 0 \<or> hd (de_name e) = 0xE5"

lemma free_slot_loop_spec:
  assumes inv: "fat_inv s"
  shows "fchain s (c # cs) \<Longrightarrow> free_slot_loop prev c s = Some
    (case find_pos slot_free s (slots s (c # cs)) of None \<Rightarrow> Inr (last (c # cs)) | Some p \<Rightarrow> Inl (Some (slot_ref s p)))"
proof (induction cs arbitrary: c prev)
  have step: "sector_loop free_body (cluster_to_sector s c) (cluster_sectors s) s () =
    (case find_pos slot_free s (cluster_slots c [0..<spc_of s]) of None \<Rightarrow> Continue ()
     | Some p \<Rightarrow> Return (Some (slot_ref s p)))" if "valid s c" for c
    using sector_loop_find [where body = free_body and P = slot_free and ks = "[0..<spc_of s]"
        and g = Some and s = s, OF _ _ that] inv
    by (simp add: free_body_def fat_inv_def cluster_sectors_upt atLeast0LessThan slot_free_def [abs_def])
  {
    case (Nil c)
    note nx = chain_next [OF inv Nil]
    show ?case
      using nx(1,3) by (simp add: free_slot_loop.simps [of _ c] free_slot_loop.simps [of _ FAT32_EOC_MARK]
          step [OF nx(4)] slots_Cons find_pos_append slots_def split: option.split)
  next
    case (Cons d cs)
    note nx = chain_next [OF inv Cons.prems]
    show ?case
      using nx(1,3) Cons.IH [OF nx(2)]
      by (simp add: free_slot_loop.simps [of _ c] step [OF nx(4)] slots_Cons [of s c] find_pos_append split: option.split)
  }
qed

section \<open>Changing a slot\<close>

lemma block_div:
  "(if a div 512 = n then b (a mod 512) else x) =
   (if 512 * n \<le> a \<and> a < 512 * n + 512 then b (a - 512 * n) else x)" for a n :: nat
proof (cases "a div 512 = n")
  case True
  then have "a mod 512 = a - 512 * n" by (simp add: minus_mult_div_eq_mod [symmetric])
  moreover have "512 * n \<le> a \<and> a < 512 * n + 512" unfolding True [symmetric] by auto
  ultimately show ?thesis using True by simp
next
  case False
  then have "\<not> (512 * n \<le> a \<and> a < 512 * n + 512)" by auto
  then show ?thesis using False by auto
qed

lemma write_cluster_sector:
  assumes "geom s" "valid s c" "k < spc_of s"
  shows "disk_write_sector (cluster_to_sector s c + of_nat k) b s = Some (s\<lparr>ram_disk := (\<lambda>a.
    if caddr s c + 512 * k \<le> a \<and> a < caddr s c + 512 * k + 512 then b (a - (caddr s c + 512 * k)) else ram_disk s a)\<rparr>)"
proof -
  let ?n = "data_start s + (unat c - 2) * spc_of s + k"
  have at: "512 * ?n = caddr s c + 512 * k"
    by (simp add: caddr_def cbytes_def algebra_simps)
  show ?thesis
    using write_sector_ok [of s "cluster_to_sector s c + of_nat k" b] assms(1) cluster_room [OF assms]
    unfolding unat_cluster_sector [OF assms] block_div at by (simp add: geom_def)
qed

text \<open>Writing back a sector in which entry \<open>j\<close> was replaced.\<close>

definition put_slot :: "slot_pos \<Rightarrow> fat32_dir_entry_t \<Rightarrow> 'a fat \<Rightarrow> 'a fat" where
  "put_slot p e s = (case p of (c, k, j) \<Rightarrow> s\<lparr>ram_disk := (\<lambda>a.
     if caddr s c + 512 * k \<le> a \<and> a < caddr s c + 512 * k + 512
     then put_dir_entry j e (sector_buf s c k) (a - (caddr s c + 512 * k)) else ram_disk s a)\<rparr>)"

lemma write_slot_ref:
  assumes "geom s" "p \<in> set (slots s cs)" "\<forall>c\<in>set cs. valid s c" "slot_ref s p = (sector, buffer, j)"
  shows "disk_write_sector sector (put_dir_entry j e buffer) s = Some (put_slot p e s)"
proof -
  obtain c k where p: "p = (c, k, j)" "c \<in> set cs" "k < spc_of s"
    "sector = cluster_to_sector s c + of_nat k" "buffer = sector_buf s c k"
    using assms(2,4) prod_cases3 [of p] by (auto simp: set_slots slot_ref_def)
  then show ?thesis
    using write_cluster_sector [OF assms(1) _ p(3), of c] assms(3) by (simp add: put_slot_def)
qed

lemma put_slot_frame:
  assumes "fat_inv s" "k < spc_of s"
  shows "fs_frame {c} s (put_slot (c, k, j) e s)" "\<forall>x. in_table s x \<longrightarrow> ent (put_slot (c, k, j) e s) x = ent s x"
    "fsinfo_ok s \<longrightarrow> fsinfo_ok (put_slot (c, k, j) e s)"
proof -
  have "512 * k + 512 \<le> cbytes s" using assms(2) by (simp add: cbytes_def)
  then have *: "\<forall>a. a \<notin> cluster_at s c \<longrightarrow> ram_disk (put_slot (c, k, j) e s) a = ram_disk s a"
    by (auto simp: put_slot_def cluster_at_def)
  have eq: "s\<lparr>ram_disk := ram_disk (put_slot (c, k, j) e s)\<rparr> = put_slot (c, k, j) e s"
    by (simp add: put_slot_def)
  show "fs_frame {c} s (put_slot (c, k, j) e s)" "\<forall>x. in_table s x \<longrightarrow> ent (put_slot (c, k, j) e s) x = ent s x"
    "fsinfo_ok s \<longrightarrow> fsinfo_ok (put_slot (c, k, j) e s)"
    using data_write_frame [OF assms(1) *] unfolding eq by blast+
qed

lemma slot_put_same:
  assumes "j < 16" "length (de_name e) = 11"
  shows "slot (put_slot (c, k, j) e s) (c, k, j) = e"
proof -
  let ?s = "put_slot (c, k, j) e s"
  have "boot_sector ?s = boot_sector s" by (simp add: put_slot_def)
  note pl = same_places [OF this]
  have "slot ?s (c, k, j) = dir_entries (put_dir_entry j e (sector_buf s c k)) j"
    unfolding slot_def prod.case using assms(1)
    by (intro dir_entries_cong) (simp add: sector_buf_def [of ?s] pl, simp add: put_slot_def)
  then show ?thesis by (simp add: dir_entries_put_same [OF assms(2)])
qed

lemma slot_put_other:
  assumes "valid s c" "valid s c'" "k < spc_of s" "k' < spc_of s" "j < 16" "j' < 16" "(c', k', j') \<noteq> (c, k, j)"
  shows "slot (put_slot (c, k, j) e s) (c', k', j') = slot s (c', k', j')"
proof -
  let ?s = "put_slot (c, k, j) e s"
  have "boot_sector ?s = boot_sector s" by (simp add: put_slot_def)
  note pl = same_places [OF this]
  show ?thesis
    unfolding slot_def prod.case
  proof (rule dir_entries_cong)
    fix i :: nat assume i: "i < 32"
    define A where "A = caddr s c' + 512 * k' + (32 * j' + i)"
    have lhs: "sector_buf ?s c' k' (32 * j' + i) = ram_disk ?s A" "sector_buf s c' k' (32 * j' + i) = ram_disk s A"
      by (simp_all add: sector_buf_def pl A_def)
    have "ram_disk ?s A = ram_disk s A"
    proof (cases "caddr s c + 512 * k \<le> A \<and> A < caddr s c + 512 * k + 512")
      case True
      have in': "A \<in> cluster_at s c'" using i assms(4,6) by (auto simp: A_def cluster_at_def cbytes_def)
      have "A \<in> cluster_at s c" using True assms(3) by (auto simp: cluster_at_def cbytes_def)
      then have c: "c' = c" using cluster_at_disjoint [OF assms(1,2)] in' by blast
      then have k: "k' = k" using True i assms(6) by (auto simp: A_def)
      then have "j' \<noteq> j" using c assms(7) by blast
      then have "A - (caddr s c + 512 * k) < 32 * j \<or> 32 * j + 32 \<le> A - (caddr s c + 512 * k)"
        using i c k by (auto simp: A_def)
      then have "put_dir_entry j e (sector_buf s c k) (A - (caddr s c + 512 * k)) = sector_buf s c k (A - (caddr s c + 512 * k))"
        by (rule put_dir_entry_other)
      then show ?thesis using True by (simp add: put_slot_def sector_buf_def)
    qed (auto simp: put_slot_def)
    then show "sector_buf ?s c' k' (32 * j' + i) = sector_buf s c' k' (32 * j' + i)" by (simp add: lhs)
  qed
qed

section \<open>Listing\<close>

definition dir_of :: "'a fat \<Rightarrow> u32 list \<Rightarrow> fat32_dir_entry_t list" where
  "dir_of s cs = map (slot s) (slots s cs)"

definition live_entries :: "fat32_dir_entry_t list \<Rightarrow> fat32_dir_entry_t list" where
  "live_entries es = takeWhile (\<lambda>e. hd (de_name e) \<noteq> 0) es"

definition listing :: "'a fat \<Rightarrow> u32 list \<Rightarrow> fat32_dir_entry_t list" where
  "listing s cs = filter is_listed (live_entries (dir_of s cs))"

text \<open>Behind the end mark of a directory there are only end marks.\<close>

definition wf_dir :: "'a fat \<Rightarrow> u32 list \<Rightarrow> bool" where
  "wf_dir s cs \<longleftrightarrow> (\<forall>e\<in>set (dropWhile (\<lambda>e. hd (de_name e) \<noteq> 0) (dir_of s cs)). hd (de_name e) = 0)"

lemma live_Nil [simp]: "live_entries [] = []"
  by (simp add: live_entries_def)

lemma live_append: "live_entries (xs @ ys) = (if length (live_entries xs) < length xs then live_entries xs else xs @ live_entries ys)"
proof (induction xs)
  case (Cons x xs)
  then show ?case by (simp add: live_entries_def)
qed (simp add: live_entries_def)

lemma live_all: "\<not> length (live_entries xs) < length xs \<Longrightarrow> live_entries xs = xs"
  by (metis live_entries_def length_takeWhile_le linorder_not_less nth_equalityI order_antisym takeWhile_nth)

lemma collect_sectors:
  assumes g: "geom s" "valid s c"
  shows "set ks \<subseteq> {..<spc_of s} \<Longrightarrow> sector_loop collect_body (cluster_to_sector s c) ks s acc =
    (let es = map (slot s) (cluster_slots c ks) in
     if length (live_entries es) < length es then Return (Some (acc @ filter is_listed (live_entries es)))
     else Continue (acc @ filter is_listed es))"
proof (induction ks arbitrary: acc)
  case (Cons k ks)
  let ?x = "map (slot s) (sector_slots c k)" and ?y = "map (slot s) (cluster_slots c ks)"
  have r: "disk_read_sector (cluster_to_sector s c + of_nat k) s = Some (sector_buf s c k)"
    using Cons.prems by (intro read_cluster_sector g) simp
  have x: "map (dir_entries (sector_buf s c k)) [0..<16] = ?x" "length ?x = 16"
    by (simp_all add: sector_slots_def slot_def del: upt_rec_numeral)
  have "collect_body (cluster_to_sector s c + of_nat k) (Some (sector_buf s c k)) acc =
    (if length (live_entries ?x) < length ?x then Return (Some (acc @ filter is_listed (live_entries ?x)))
     else Continue (acc @ filter is_listed ?x))"
    unfolding collect_body_def Let_def option.case x live_entries_def [symmetric]
    using live_all [of ?x] x(2) by (cases "length (live_entries ?x) < 16") simp_all
  moreover have "map (slot s) (cluster_slots c (k # ks)) = ?x @ ?y"
    by (simp add: cluster_slots_def)
  moreover have "length (live_entries ?x) \<le> length ?x" "length (live_entries ?y) \<le> length ?y"
    by (simp_all only: live_entries_def length_takeWhile_le)
  ultimately show ?case
    using Cons by (simp add: r live_append Let_def)
qed (simp add: cluster_slots_def live_entries_def)

lemma collect_loop_spec:
  assumes inv: "fat_inv s"
  shows "fchain s (c # cs) \<Longrightarrow> collect_loop second c acc s = Some (Some (acc @ listing s (c # cs)))"
proof (induction cs arbitrary: c acc)
  have step: "sector_loop collect_body (cluster_to_sector s c) (cluster_sectors s) s acc =
    (let es = map (slot s) (cluster_slots c [0..<spc_of s]) in
     if length (live_entries es) < length es then Return (Some (acc @ filter is_listed (live_entries es)))
     else Continue (acc @ filter is_listed es))" if "valid s c" for c acc
    using collect_sectors [OF _ that, of "[0..<spc_of s]" acc] inv
    by (simp add: fat_inv_def cluster_sectors_upt atLeast0LessThan)
  {
    case (Nil c acc)
    note nx = chain_next [OF inv Nil]
    show ?case
      using nx(1,3) live_append [of "map (slot s) (cluster_slots c [0..<spc_of s])" "[]"]
      by (simp add: collect_loop.simps [of _ c] collect_loop.simps [of _ FAT32_EOC_MARK] step [OF nx(4)] Let_def
          listing_def dir_of_def slots_def split: if_splits)
  next
    case (Cons d cs)
    note nx = chain_next [OF inv Cons.prems]
    have "d \<noteq> FAT32_IO_ERROR" using chain_next(3) [OF inv nx(2)] by simp
    then show ?case
      using nx(1,3) Cons.IH [OF nx(2)] live_all [of "map (slot s) (cluster_slots c [0..<spc_of s])"]
      by (simp add: collect_loop.simps [of _ c] step [OF nx(4)] Let_def listing_def dir_of_def slots_Cons [of s c]
          live_append)
  }
qed

section \<open>Inserting\<close>

text \<open>A usable new entry.\<close>

definition entry_ok :: "fat32_dir_entry_t \<Rightarrow> bool" where
  "entry_ok e \<longleftrightarrow> length (de_name e) = 11 \<and> \<not> slot_free e \<and> is_listed e"

text \<open>Replacing the first free slot of a list of slots adds the entry to what is listed.\<close>

lemma listed_replace:
  assumes es: "es = pre @ f # post" and pre: "\<forall>x\<in>set pre. \<not> slot_free x" and f: "slot_free f" and e: "entry_ok e"
    and wf: "\<forall>x\<in>set (dropWhile (\<lambda>x. hd (de_name x) \<noteq> 0) es). hd (de_name x) = 0"
  shows "\<exists>xs ys. filter is_listed (live_entries es) = xs @ ys \<and> filter is_listed (live_entries (pre @ e # post)) = xs @ e # ys"
    and "\<forall>x\<in>set (dropWhile (\<lambda>x. hd (de_name x) \<noteq> 0) (pre @ e # post)). hd (de_name x) = 0"
    and "set (live_entries (pre @ e # post)) \<subseteq> insert e (set (live_entries es))"
proof -
  let ?nz = "\<lambda>x. hd (de_name x) \<noteq> 0"
  have pz: "\<forall>x\<in>set pre. ?nz x" using pre by (auto simp: slot_free_def)
  have ez: "?nz e" using e by (auto simp: entry_ok_def slot_free_def)
  have live: "live_entries es = pre @ live_entries (f # post)" "live_entries (pre @ e # post) = pre @ e # live_entries post"
    using pz ez by (simp_all add: es live_entries_def)
  have dw: "dropWhile ?nz es = dropWhile ?nz (f # post)" "dropWhile ?nz (pre @ e # post) = dropWhile ?nz post"
    using pz ez by (simp_all add: es)
  have l: "is_listed e" using e by (simp add: entry_ok_def)
  show "set (live_entries (pre @ e # post)) \<subseteq> insert e (set (live_entries es))"
  proof (cases "?nz f")
    case False
    then have dwf: "dropWhile ?nz (f # post) = f # post" by simp
    have "\<forall>x\<in>set post. \<not> ?nz x" using wf unfolding dw(1) dwf by (simp only: list.set insert_iff) blast
    then have "live_entries post = []" by (cases post) (simp_all add: live_entries_def)
    then show ?thesis unfolding live by auto
  qed (use live in \<open>auto simp: live_entries_def\<close>)
  show "\<exists>xs ys. filter is_listed (live_entries es) = xs @ ys \<and> filter is_listed (live_entries (pre @ e # post)) = xs @ e # ys"
  proof (cases "?nz f")
    case True
    then have "\<not> is_listed f" using f by (auto simp: slot_free_def is_listed_def)
    then have "filter is_listed (live_entries es) = filter is_listed pre @ filter is_listed (live_entries post)"
      using live(1) True by (simp add: live_entries_def)
    moreover have "filter is_listed (live_entries (pre @ e # post)) = filter is_listed pre @ e # filter is_listed (live_entries post)"
      using live(2) l by simp
    ultimately show ?thesis by blast
  next
    case False
    then have dwf: "dropWhile ?nz (f # post) = f # post" by simp
    have "\<forall>x\<in>set post. \<not> ?nz x" using wf unfolding dw(1) dwf by (simp only: list.set insert_iff) blast
    then have "live_entries post = []" by (cases post) (simp_all add: live_entries_def)
    moreover have "live_entries (f # post) = []" using False by (simp add: live_entries_def)
    ultimately have "filter is_listed (live_entries es) = filter is_listed pre @ []"
      "filter is_listed (live_entries (pre @ e # post)) = filter is_listed pre @ [e]"
      using live l by simp_all
    then show ?thesis by blast
  qed
  show "\<forall>x\<in>set (dropWhile ?nz (pre @ e # post)). hd (de_name x) = 0"
    unfolding dw(2)
  proof (cases "?nz f")
    case True
    then have dwt: "dropWhile ?nz (f # post) = dropWhile ?nz post" by simp
    show "\<forall>x\<in>set (dropWhile ?nz post). hd (de_name x) = 0" using wf unfolding dw(1) dwt .
  next
    case False
    then have dwf: "dropWhile ?nz (f # post) = f # post" by simp
    have "\<forall>x\<in>set post. hd (de_name x) = 0" using wf unfolding dw(1) dwf by (simp only: list.set insert_iff) blast
    then show "\<forall>x\<in>set (dropWhile ?nz post). hd (de_name x) = 0" by (auto dest: set_dropWhileD)
  qed
qed

lemma distinct_slots: "distinct cs \<Longrightarrow> distinct (slots s cs)"
proof (induction cs)
  case (Cons c cs)
  have "distinct (cluster_slots c ks)" if "distinct ks" for ks
    using that
    by (induction ks) (auto simp: cluster_slots_def sector_slots_def distinct_map inj_on_def simp del: upt_rec_numeral)
  then have "distinct (cluster_slots c [0..<spc_of s])" by simp
  moreover have "set (cluster_slots c [0..<spc_of s]) \<inter> set (slots s cs) = {}"
    using Cons.prems by (auto simp: cluster_slots_def sector_slots_def set_slots)
  ultimately show ?case using Cons by (simp add: slots_Cons)
qed (simp add: slots_def)

lemma slots_same: "spc_of s' = spc_of s \<Longrightarrow> slots s' cs = slots s cs"
  by (simp add: slots_def)

lemma find_pos_split:
  assumes "find_pos P s ps = Some p"
  obtains pre post where "ps = pre @ p # post" "\<forall>q\<in>set pre. \<not> P (slot s q)"
proof -
  obtain i where i: "i < length ps" "P (slot s p)" "p = ps ! i" "\<forall>j<i. \<not> P (slot s (ps ! j))"
    using assms by (auto simp: find_pos_def find_Some_iff)
  have "ps = take i ps @ p # drop (Suc i) ps" using i(1,3) by (simp add: id_take_nth_drop)
  moreover have "\<forall>q\<in>set (take i ps). \<not> P (slot s q)"
  proof
    fix q assume "q \<in> set (take i ps)"
    then obtain j where "j < i" "q = ps ! j" unfolding in_set_conv_nth by auto
    then show "\<not> P (slot s q)" using i(4) by blast
  qed
  ultimately show thesis using that by blast
qed

text \<open>A write into the first slot with a property replaces one element of the directory.\<close>

lemma put_slot_dir:
  assumes inv: "fat_inv s" and ch: "fchain s cs" and e: "length (de_name e) = 11"
    and p: "find_pos P s (slots s cs) = Some p"
  defines "s' \<equiv> put_slot p e s"
  shows "fchain s' cs" "fs_frame (set cs) s s'" "fsinfo_ok s \<longrightarrow> fsinfo_ok s'" "frees s' = frees s"
    "\<exists>pre post. dir_of s cs = pre @ slot s p # post \<and> dir_of s' cs = pre @ e # post \<and> (\<forall>x\<in>set pre. \<not> P x)"
proof -
  obtain c k j where pp: "p = (c, k, j)" "c \<in> set cs" "k < spc_of s" "j < 16"
    using find_pos_Some(1) [OF p] prod_cases3 [of p] by (auto simp: set_slots)
  note fr = put_slot_frame [OF inv pp(3), of c j e, folded pp(1) s'_def]
  show "fchain s' cs" by (rule same_table(2) [OF fr(1,2) ch])
  show "frees s' = frees s" by (rule same_table(1) [OF fr(1,2)])
  show "fsinfo_ok s \<longrightarrow> fsinfo_ok s'" by (fact fr(3))
  show "fs_frame (set cs) s s'" by (rule fs_frame_mono [OF fr(1)]) (use pp(2) in simp)
  obtain pre post where sp: "slots s cs = pre @ p # post" "\<forall>q\<in>set pre. \<not> P (slot s q)"
    using find_pos_split [OF p] by blast
  have v: "valid s x" if "x \<in> set cs" for x using ch that by (simp add: fchain_def)
  have other: "slot s' q = slot s q" if "q \<in> set (slots s cs)" "q \<noteq> p" for q
    using that prod_cases3 [of q] pp v unfolding s'_def by (auto simp: set_slots intro!: slot_put_other)
  have same: "slot s' p = e" using slot_put_same [OF pp(4), of e c k s] e by (simp add: s'_def pp(1))
  have "p \<notin> set pre" "p \<notin> set post" using distinct_slots [OF chain_distinct [OF ch], of s] sp(1) by auto
  then have "dir_of s' cs = map (slot s) pre @ e # map (slot s) post"
    using other same sp(1) slots_same [OF fs_frame_same(9) [OF fr(1)], of cs] by (auto simp: dir_of_def)
  moreover have "dir_of s cs = map (slot s) pre @ slot s p # map (slot s) post" by (simp add: dir_of_def sp(1))
  moreover have "\<forall>x\<in>set (map (slot s) pre). \<not> P x" using sp(2) by simp
  ultimately show "\<exists>pre post. dir_of s cs = pre @ slot s p # post \<and> dir_of s' cs = pre @ e # post \<and> (\<forall>x\<in>set pre. \<not> P x)"
    by blast
qed

lemma put_first_free:
  assumes inv: "fat_inv s" and ch: "fchain s cs" and wf: "wf_dir s cs" and e: "entry_ok e"
    and p: "find_pos slot_free s (slots s cs) = Some p"
  defines "s' \<equiv> put_slot p e s"
  shows "wf_dir s' cs" "\<exists>xs ys. listing s cs = xs @ ys \<and> listing s' cs = xs @ e # ys"
    "set (live_entries (dir_of s' cs)) \<subseteq> insert e (set (live_entries (dir_of s cs)))"
proof -
  obtain pre post where d: "dir_of s cs = pre @ slot s p # post" "dir_of s' cs = pre @ e # post" "\<forall>x\<in>set pre. \<not> slot_free x"
    using put_slot_dir(5) [OF inv ch _ p, of e] e by (auto simp: entry_ok_def s'_def)
  note rep = listed_replace [OF d(1,3) find_pos_Some(2) [OF p] e wf [unfolded wf_dir_def]]
  show "wf_dir s' cs" unfolding wf_dir_def d(2) by (rule rep(2))
  show "\<exists>xs ys. listing s cs = xs @ ys \<and> listing s' cs = xs @ e # ys"
    unfolding listing_def d(2) by (rule rep(1))
  show "set (live_entries (dir_of s' cs)) \<subseteq> insert e (set (live_entries (dir_of s cs)))"
    unfolding d(2) by (rule rep(3))
qed

text \<open>A new cluster for a full directory: the entry, then end marks.\<close>

lemma fill_sectors_spec:
  assumes "geom s" "valid s c" "k \<le> spc_of s"
  shows "\<exists>d. fill_sectors (cluster_to_sector s c) [k..<spc_of s] b s = (True, s\<lparr>ram_disk := d\<rparr>)
    \<and> (\<forall>a. a < caddr s c + 512 * k \<or> caddr s c + cbytes s \<le> a \<longrightarrow> d a = ram_disk s a)
    \<and> (\<forall>i < 512 * (spc_of s - k). d (caddr s c + 512 * k + i) = (if i < 512 then b i else 0))"
  using assms
proof (induction "spc_of s - k" arbitrary: k b s)
  case 0
  then show ?case by (intro exI [of _ "ram_disk s"]) simp
next
  case (Suc m)
  have k: "k < spc_of s" using Suc.hyps(2) by simp
  let ?A = "caddr s c + 512 * k"
  let ?t = "s\<lparr>ram_disk := (\<lambda>a. if ?A \<le> a \<and> a < ?A + 512 then b (a - ?A) else ram_disk s a)\<rparr>"
  have bt: "boot_sector ?t = boot_sector s" by simp
  note geo = same_geometry [OF bt] same_places [OF bt]
  have "m = spc_of ?t - (k + 1)" "geom ?t" "valid ?t c" "k + 1 \<le> spc_of ?t"
    using Suc.hyps(2) Suc.prems k unfolding geom_def geo by auto
  from Suc.hyps(1) [OF this, of "\<lambda>_. 0"] obtain d where
    d: "fill_sectors (cluster_to_sector s c) [k + 1..<spc_of s] (\<lambda>_. 0) ?t = (True, ?t\<lparr>ram_disk := d\<rparr>)"
    "\<forall>a. a < caddr s c + 512 * (k + 1) \<or> caddr s c + cbytes s \<le> a \<longrightarrow> d a = ram_disk ?t a"
    "\<forall>i < 512 * (spc_of s - (k + 1)). d (caddr s c + 512 * (k + 1) + i) = 0"
    unfolding geo by auto
  have "[k..<spc_of s] = k # [k + 1..<spc_of s]" using k by (simp add: upt_rec)
  then have "fill_sectors (cluster_to_sector s c) [k..<spc_of s] b s = (True, s\<lparr>ram_disk := d\<rparr>)"
    using write_cluster_sector [OF Suc.prems(1,2) k, of b] d(1) by simp
  moreover have "d a = ram_disk s a" if "a < ?A \<or> caddr s c + cbytes s \<le> a" for a
    using d(2) that k by (auto simp: cbytes_def)
  moreover have "d (?A + i) = (if i < 512 then b i else 0)" if "i < 512 * (spc_of s - k)" for i
  proof (cases "i < 512")
    case True
    then show ?thesis using d(2) [rule_format, of "?A + i"] by simp
  next
    case False
    then show ?thesis using d(3) [rule_format, of "i - 512"] that k by (simp add: algebra_simps)
  qed
  ultimately show ?case by (intro exI [of _ d]) simp
qed

lemma new_cluster_dir:
  assumes g: "0 < spc_of s" and d: "\<forall>i < cbytes s. ram_disk s (caddr s c + i) = (if i < 512 then put_dir_entry 0 e (\<lambda>_. 0) i else 0)"
    and e: "length (de_name e) = 11"
  shows "\<exists>zs. map (slot s) (cluster_slots c [0..<spc_of s]) = e # zs \<and> (\<forall>z\<in>set zs. hd (de_name z) = 0)"
proof -
  have byte: "sector_buf s c k i = (if k = 0 then put_dir_entry 0 e (\<lambda>_. 0) i else 0)" if "k < spc_of s" "i < 512" for k i
    using d [rule_format, of "512 * k + i"] that by (cases k) (simp_all add: sector_buf_def cbytes_def add.assoc)
  have first: "slot s (c, 0, 0) = e"
  proof -
    have "slot s (c, 0, 0) = dir_entries (put_dir_entry 0 e (\<lambda>_. 0)) 0"
      unfolding slot_def prod.case by (rule dir_entries_cong) (simp add: byte g)
    then show ?thesis by (simp add: dir_entries_put_same [OF e])
  qed
  have zero: "hd (de_name (slot s (c, k, j))) = 0" if "k < spc_of s" "j < 16" "(k, j) \<noteq> (0, 0)" for k j
  proof -
    have "slot s (c, k, j) = dir_entries (\<lambda>_. 0) j"
      unfolding slot_def prod.case
      by (rule dir_entries_cong) (use that in \<open>auto simp: byte put_dir_entry_other\<close>)
    then show ?thesis by (simp add: dir_entries_def Let_def hd_map del: upt_rec_numeral)
  qed
  have "[0..<16] = 0 # [1..<16]" "[0..<spc_of s] = 0 # [1..<spc_of s]" using g by (simp_all add: upt_rec)
  then have "cluster_slots c [0..<spc_of s] = (c, 0, 0) # map (\<lambda>j. (c, 0, j)) [1..<16] @ cluster_slots c [1..<spc_of s]"
    by (simp add: cluster_slots_def sector_slots_def del: upt_rec_numeral)
  then show ?thesis
    using first zero g by (auto simp: cluster_slots_def sector_slots_def simp del: upt_rec_numeral)
qed

lemma slot_frame:
  assumes "boot_sector s' = boot_sector s" "\<And>a. a \<in> cluster_at s c \<Longrightarrow> ram_disk s' a = ram_disk s a"
    "k < spc_of s" "j < 16"
  shows "slot s' (c, k, j) = slot s (c, k, j)"
  unfolding slot_def prod.case
proof (rule dir_entries_cong)
  fix i :: nat assume i: "i < 32"
  have "caddr s c + 512 * k + (32 * j + i) \<in> cluster_at s c"
    using i assms(3,4) by (auto simp: cluster_at_def cbytes_def)
  then show "sector_buf s' c k (32 * j + i) = sector_buf s c k (32 * j + i)"
    using assms(2) by (simp add: sector_buf_def same_places [OF assms(1)])
qed

lemma dir_of_frame:
  assumes "boot_sector s' = boot_sector s" "\<And>c a. c \<in> set cs \<Longrightarrow> a \<in> cluster_at s c \<Longrightarrow> ram_disk s' a = ram_disk s a"
  shows "dir_of s' cs = dir_of s cs"
proof -
  have "slots s' cs = slots s cs" by (rule slots_same) (rule same_geometry [OF assms(1)])
  then show ?thesis
    using assms(2) by (auto simp: dir_of_def set_slots intro!: slot_frame [OF assms(1)])
qed

lemma dir_of_append: "dir_of s (cs @ ds) = dir_of s cs @ dir_of s ds"
  by (simp add: dir_of_def slots_def)

lemma append_dir_cluster_spec:
  assumes inv: "fat_inv s" and ch: "fchain s cs" and ne: "frees s \<noteq> {}" and e: "length (de_name e) = 11"
  obtains c s' zs where "append_dir_cluster (last cs) e s = Some (True, s')" "c \<in> frees s" "fchain s' (cs @ [c])"
    "fs_frame (set (cs @ [c])) s s'" "fsinfo_ok s \<longrightarrow> fsinfo_ok s'"
    "dir_of s' (cs @ [c]) = dir_of s cs @ e # zs" "\<forall>z\<in>set zs. hd (de_name z) = 0"
proof -
  obtain pre l where cs: "cs = pre @ [l]" using ch by (cases cs rule: rev_cases) (auto simp: fchain_def)
  obtain c s2 s3 where c: "c \<in> frees s" "fat_alloc_cluster s = Some (c, s2)" "fat_write_entry l c s2 = (True, s3)"
    "fat_step ((ent s)(l := c, c := FAT32_EOC_MARK)) s s3" "fchain s3 (pre @ [l, c])" "fsinfo_ok s \<longrightarrow> fsinfo_ok s3"
    using grow_chain [OF inv ch [unfolded cs] ne] by blast
  note same = fat_step_same [OF c(4)]
  have v: "valid s3 c" "valid s l" "c \<notin> set cs" and l0: "l \<noteq> 0" "c \<noteq> 0"
    using c(5) ch chain_distinct [OF c(5)] valid_not_mark [of s l] valid_not_mark [of s3 c] by (auto simp: fchain_def cs)
  have g: "geom s3" using same(1) by (simp add: fat_inv_def)
  obtain d where d: "fill_sectors (cluster_to_sector s3 c) (cluster_sectors s3) (put_dir_entry 0 e (\<lambda>_. 0)) s3
      = (True, s3\<lparr>ram_disk := d\<rparr>)"
    "\<forall>a. a < caddr s3 c \<or> caddr s3 c + cbytes s3 \<le> a \<longrightarrow> d a = ram_disk s3 a"
    "\<forall>i < cbytes s3. d (caddr s3 c + i) = (if i < 512 then put_dir_entry 0 e (\<lambda>_. 0) i else 0)"
    using fill_sectors_spec [OF g v(1), of 0 "put_dir_entry 0 e (\<lambda>_. 0)"]
    unfolding cluster_sectors_upt by (auto simp: cbytes_def)
  let ?s = "s3\<lparr>ram_disk := d\<rparr>"
  have out: "\<forall>a. a \<notin> cluster_at s3 c \<longrightarrow> d a = ram_disk s3 a" using d(2) by (auto simp: cluster_at_def)
  note fr = data_write_frame [OF same(1) out]
  have bs: "boot_sector ?s = boot_sector s" using same(2) by simp
  note pl = same_places [OF same(2)] same_places [OF bs]
  have res: "append_dir_cluster (last cs) e s = Some (True, ?s)"
    using c(2,3) l0 d(1) by (simp add: append_dir_cluster_def cs)
  have "fs_frame {l, c} s s3" by (rule fs_frame_step [OF c(4)]) simp
  then have frame: "fs_frame (set (cs @ [c])) s ?s"
    by (rule fs_frame_trans [OF fs_frame_mono fs_frame_mono [OF fr(1)]]) (auto simp: cs)
  have same_dir: "dir_of ?s cs = dir_of s cs"
  proof (rule dir_of_frame [OF bs])
    fix x a assume x: "x \<in> set cs" "a \<in> cluster_at s x"
    then have "valid s x" "valid s c" "x \<noteq> c" using ch v(1,3) same(3) by (auto simp: fchain_def)
    then have "a \<notin> cluster_at s3 c" using cluster_at_disjoint [of s x c] x(2) by (auto simp: pl)
    then have "ram_disk ?s a = ram_disk s3 a" using out by simp
    also have "\<dots> = ram_disk s a"
      using c(4) x(2) caddr_ge [of s x] by (auto simp: fat_step_def cluster_at_def)
    finally show "ram_disk ?s a = ram_disk s a" .
  qed
  have "0 < spc_of ?s" using g fs_frame_same(9) [OF fr(1)] by (simp add: geom_def)
  moreover have "\<forall>i < cbytes ?s. ram_disk ?s (caddr ?s c + i) = (if i < 512 then put_dir_entry 0 e (\<lambda>_. 0) i else 0)"
    using d(3) fs_frame_same(5,6) [OF fr(1)] by simp
  ultimately obtain zs where zs: "dir_of ?s [c] = e # zs" "\<forall>z\<in>set zs. hd (de_name z) = 0"
    using new_cluster_dir [of ?s c e] e by (auto simp: dir_of_def slots_def)
  have "fchain ?s (cs @ [c])" using same_table(2) [OF fr(1,2) c(5)] by (simp add: cs)
  from that [OF res c(1) this frame _ _ zs(2)] show thesis
    using fr(3) c(6) same_dir zs(1) by (simp add: dir_of_append)
qed

lemma fs_write_directory_entry_spec:
  assumes inv: "fat_inv s" and ch: "fchain s cs" and wf: "wf_dir s cs" and e: "entry_ok e"
    and room: "(\<exists>p\<in>set (slots s cs). slot_free (slot s p)) \<or> frees s \<noteq> {}"
  shows "\<exists>s' cs'. fs_write_directory_entry (hd cs) e s = Some (True, s') \<and> (cs' = cs \<or> (\<exists>c\<in>frees s. cs' = cs @ [c]))
    \<and> fchain s' cs' \<and> wf_dir s' cs' \<and> fs_frame (set cs') s s' \<and> (fsinfo_ok s \<longrightarrow> fsinfo_ok s')
    \<and> (\<exists>xs ys. listing s cs = xs @ ys \<and> listing s' cs' = xs @ e # ys)
    \<and> set (live_entries (dir_of s' cs')) \<subseteq> insert e (set (live_entries (dir_of s cs)))"
proof -
  obtain c ds where cs: "cs = c # ds" using ch by (cases cs) (auto simp: fchain_def)
  have v: "\<forall>c\<in>set cs. valid s c" using ch by (simp add: fchain_def)
  then have "c \<noteq> 0" using valid_not_mark [of s c] by (simp add: cs)
  then have loop: "free_slot_loop 0 (dir_cluster s (hd cs)) s = Some
    (case find_pos slot_free s (slots s cs) of None \<Rightarrow> Inr (last cs) | Some p \<Rightarrow> Inl (Some (slot_ref s p)))"
    using free_slot_loop_spec [OF inv, of c ds 0] ch unfolding cs by (simp add: dir_cluster_def)
  show ?thesis
  proof (cases "find_pos slot_free s (slots s cs)")
    case (Some p)
    obtain sector buffer j where r: "slot_ref s p = (sector, buffer, j)" by (rule prod_cases3)
    have g: "geom s" using inv by (simp add: fat_inv_def)
    have "fs_write_directory_entry (hd cs) e s = Some (True, put_slot p e s)"
      using write_slot_ref [OF g find_pos_Some(1) [OF Some] v r, of e] loop
      by (simp add: fs_write_directory_entry_def Some r)
    then show ?thesis
      using put_first_free [OF inv ch wf e Some] put_slot_dir(1-3) [OF inv ch _ Some, of e] e
      by (intro exI [of _ "put_slot p e s"] exI [of _ cs]) (simp add: entry_ok_def)
  next
    case None
    then have nf: "\<forall>x\<in>set (dir_of s cs). \<not> slot_free x" and ne: "frees s \<noteq> {}"
      using room by (auto simp: find_pos_None dir_of_def)
    obtain c' s' zs where a: "append_dir_cluster (last cs) e s = Some (True, s')" "c' \<in> frees s" "fchain s' (cs @ [c'])"
      "fs_frame (set (cs @ [c'])) s s'" "fsinfo_ok s \<longrightarrow> fsinfo_ok s'"
      "dir_of s' (cs @ [c']) = dir_of s cs @ e # zs" "\<forall>z\<in>set zs. hd (de_name z) = 0"
      using append_dir_cluster_spec [OF inv ch ne e [unfolded entry_ok_def, THEN conjunct1]] by metis
    have nz: "\<forall>x\<in>set (dir_of s cs). hd (de_name x) \<noteq> 0" "hd (de_name e) \<noteq> 0" "is_listed e"
      using nf e by (auto simp: slot_free_def entry_ok_def)
    have lz: "live_entries zs = []" "\<forall>x\<in>set (dropWhile (\<lambda>e. hd (de_name e) \<noteq> 0) zs). hd (de_name x) = 0"
      using a(7) by (cases zs; simp add: live_entries_def) (use a(7) in \<open>auto dest: set_dropWhileD\<close>)
    have all: "live_entries (dir_of s cs) = dir_of s cs" unfolding live_entries_def takeWhile_eq_all_conv using nz(1) by blast
    have "live_entries (dir_of s cs @ e # zs) = dir_of s cs @ [e]"
      using nz(2) lz(1) all by (simp add: live_append) (simp add: live_entries_def)
    then have "set (live_entries (dir_of s' (cs @ [c']))) \<subseteq> insert e (set (live_entries (dir_of s cs)))"
      unfolding a(6) all by auto
    moreover from all have "listing s cs = filter is_listed (dir_of s cs) @ []"
      "listing s' (cs @ [c']) = filter is_listed (dir_of s cs) @ e # []"
      using nz(2,3) lz(1) by (simp_all add: listing_def a(6) live_append) (simp add: live_entries_def)
    moreover have "dropWhile (\<lambda>e. hd (de_name e) \<noteq> 0) (dir_of s cs @ e # zs) = dropWhile (\<lambda>e. hd (de_name e) \<noteq> 0) zs"
      by (subst dropWhile_append2) (use nz in simp_all)
    then have "wf_dir s' (cs @ [c'])" unfolding wf_dir_def a(6) using lz(2) by argo
    moreover have "fs_write_directory_entry (hd cs) e s = Some (True, s')"
      using loop a(1) by (simp add: fs_write_directory_entry_def None)
    ultimately show ?thesis using a(2-5) by blast
  qed
qed

text \<open>Without a free slot and without a free cluster the directory stays as it is.\<close>

lemma fs_write_directory_entry_full:
  assumes inv: "fat_inv s" and ch: "fchain s cs"
    and room: "\<forall>p\<in>set (slots s cs). \<not> slot_free (slot s p)" "frees s = {}"
  shows "fs_write_directory_entry (hd cs) e s = Some (False, s)"
proof -
  obtain c ds where cs: "cs = c # ds" using ch by (cases cs) (auto simp: fchain_def)
  have "c \<noteq> 0" using ch valid_not_mark [of s c] by (simp add: cs fchain_def)
  then have "free_slot_loop 0 (dir_cluster s (hd cs)) s = Some (Inr (last cs))"
    using free_slot_loop_spec [OF inv, of c ds 0] ch room(1) find_pos_None [of slot_free s "slots s cs"]
    by (simp add: cs dir_cluster_def)
  then show ?thesis
    using fat_alloc_cluster_spec(1) [OF inv room(2)]
    by (simp add: fs_write_directory_entry_def append_dir_cluster_def)
qed

end
