(* ===== verification/Fs.thy ===== *)
theory Fs
  imports Fat_Slots Heap
begin

unbundle bit_operations_syntax

text \<open>
  The file system of \<open>fs/fs.c\<close> above the FAT: the tree of \<open>fs_entry_t\<close> nodes in the kernel heap, path
  look-up, creation, deletion, reading and writing of files, and the formatting and mounting of the
  RAM disk. Nodes and child tables are typed stores by heap address; \<open>kmalloc\<close> and \<open>kfree\<close> are those
  of the heap theory, so a fresh node holds whatever was there before. The content of a memory
  file is in the payload of its heap block. The ext2 driver, which serves nodes with the ext2
  backend, is a parameter. \<open>None\<close> is a call that does not return.
\<close>

section \<open>State\<close>

definition MAX_DIR_ENTRIES :: nat where "MAX_DIR_ENTRIES = 2048"
definition MAX_PATH_LENGTH :: nat where "MAX_PATH_LENGTH = 260"

datatype fs_entry_type_t = FS_TYPE_FILE | FS_TYPE_DIRECTORY

datatype fs_backend_t = FS_BACKEND_FAT | FS_BACKEND_EXT2 | FS_BACKEND_MEM

record fs_entry =
  fe_name :: "u8 list"
  fe_type :: fs_entry_type_t
  fe_size :: u32
  fe_first_cluster :: u32
  fe_attributes :: u32
  fe_backend :: fs_backend_t
  fe_inode_no :: u32
  fe_mem_data :: u64
  fe_mnt :: u64
  fe_disk_name :: "u8 list"
  fe_parent :: u64
  fe_children :: u64

record fs_state = fat_state +
  fs_heap :: heap
  ents :: "u64 \<Rightarrow> fs_entry"
  kids :: "u64 \<Rightarrow> nat \<Rightarrow> u64"
  fs_root :: u64
  fs_current :: u64
  fs_last_error :: "fs_error option"
  ext2_mode :: bool

text \<open>The ext2 driver: mount handles and inode numbers are its own.\<close>

record ext2_driver =
  x_writable :: "u64 \<Rightarrow> fs_state \<Rightarrow> bool"
  x_create_file :: "u64 \<Rightarrow> u32 \<Rightarrow> u8 list \<Rightarrow> fs_state \<Rightarrow> u32 \<times> fs_state"
  x_create_dir :: "u64 \<Rightarrow> u32 \<Rightarrow> u8 list \<Rightarrow> fs_state \<Rightarrow> u32 \<times> fs_state"
  x_write_file :: "u64 \<Rightarrow> u32 \<Rightarrow> nat \<Rightarrow> bytes \<Rightarrow> fs_state \<Rightarrow> int \<times> fs_state"
  x_read_file :: "u64 \<Rightarrow> u32 \<Rightarrow> nat \<Rightarrow> fs_state \<Rightarrow> bytes \<Rightarrow> int \<times> bytes"

definition upd_ent :: "u64 \<Rightarrow> (fs_entry \<Rightarrow> fs_entry) \<Rightarrow> fs_state \<Rightarrow> fs_state" where
  "upd_ent p f s = s\<lparr>ents := (ents s)(p := f (ents s p))\<rparr>"

definition set_kid :: "u64 \<Rightarrow> nat \<Rightarrow> u64 \<Rightarrow> fs_state \<Rightarrow> fs_state" where
  "set_kid table i p s = s\<lparr>kids := (kids s)(table := (kids s table)(i := p))\<rparr>"

definition fs_kmalloc :: "nat \<Rightarrow> fs_state \<Rightarrow> (u64 \<times> fs_state) option" where
  "fs_kmalloc n s = map_option (\<lambda>(p, h). (p, s\<lparr>fs_heap := h\<rparr>)) (kmalloc (of_nat n) (fs_heap s))"

definition fs_kfree :: "u64 \<Rightarrow> fs_state \<Rightarrow> fs_state option" where
  "fs_kfree p s = map_option (\<lambda>h. s\<lparr>fs_heap := h\<rparr>) (kfree p (fs_heap s))"

definition fs_fail :: "fs_error \<Rightarrow> fs_state \<Rightarrow> u64 \<times> fs_state" where
  "fs_fail e s = (0, s\<lparr>fs_last_error := Some e\<rparr>)"

definition SIZEOF_FS_ENTRY :: nat where "SIZEOF_FS_ENTRY = 328"

section \<open>Paths\<close>

text \<open>The components \<open>strtok(path, "/")\<close> yields.\<close>

fun path_tokens :: "u8 list \<Rightarrow> u8 list \<Rightarrow> u8 list list" where
  "path_tokens tok [] = (if tok = [] then [] else [tok])"
| "path_tokens tok (c # cs) =
     (if c = 0x2F then (if tok = [] then path_tokens [] cs else tok # path_tokens [] cs)
      else path_tokens (tok @ [c]) cs)"

definition child_at :: "fs_state \<Rightarrow> u64 \<Rightarrow> nat \<Rightarrow> u64" where
  "child_at s dir i = kids s (fe_children (ents s dir)) i"

definition find_child :: "fs_state \<Rightarrow> u64 \<Rightarrow> u8 list \<Rightarrow> nat option" where
  "find_child s dir name =
     scan_from (\<lambda>i. child_at s dir i \<noteq> 0 \<and> fe_name (ents s (child_at s dir i)) = name) 0 MAX_DIR_ENTRIES"

fun walk_path :: "fs_state \<Rightarrow> u64 \<Rightarrow> u8 list list \<Rightarrow> u64" where
  "walk_path s e [] = e"
| "walk_path s e (t # ts) =
     (if t = [0x2E] then walk_path s e ts
      else if t = [0x2E, 0x2E] then walk_path s (if fe_parent (ents s e) \<noteq> 0 then fe_parent (ents s e) else e) ts
      else case find_child s e t of
             None \<Rightarrow> 0
           | Some i \<Rightarrow> walk_path s (child_at s e i) ts)"

definition fs_resolve_path :: "u8 list \<Rightarrow> fs_state \<Rightarrow> (u64 \<times> fs_state) option" where
  "fs_resolve_path path s =
     (if path = [] then Some (fs_current s, s)
      else
        (let start = (if hd path = 0x2F then fs_root s else fs_current s);
             path = (if hd path = 0x2F then tl path else path)
         in if path = [] then Some (fs_root s, s)
            else Option.bind (fs_kmalloc (length path + 1) s) (\<lambda>(path_copy, s).
              if path_copy = 0 then Some (0, s)
              else Option.bind (fs_kfree path_copy s) (\<lambda>s. Some (walk_path s start (path_tokens [] path), s)))))"

definition fs_set_current :: "u64 \<Rightarrow> fs_state \<Rightarrow> fs_state" where
  "fs_set_current dir s =
     (if dir \<noteq> 0 \<and> fe_type (ents s dir) = FS_TYPE_DIRECTORY then s\<lparr>fs_current := dir\<rparr> else s)"

text \<open>The position of the last slash.\<close>

definition last_slash :: "u8 list \<Rightarrow> nat option" where
  "last_slash name =
     (if 0x2F \<in> set name then Some (length name - 1 - length (takeWhile (\<lambda>c. c \<noteq> 0x2F) (rev name))) else None)"

definition resolve_parent_and_name ::
  "u8 list \<Rightarrow> fs_state \<Rightarrow> (u64 \<times> u8 list \<times> fs_state) option" where
  "resolve_parent_and_name name s =
     (case last_slash name of
        None \<Rightarrow> Some (fs_current s, name, s)
      | Some dir_len \<Rightarrow>
          if 0 < dir_len \<and> dir_len < MAX_PATH_LENGTH - 1 then
            map_option (\<lambda>(parent, s). (parent, drop (dir_len + 1) name, s)) (fs_resolve_path (take dir_len name) s)
          else if dir_len = 0 then Some (fs_root s, drop 1 name, s)
          else Some (fs_current s, name, s))"

section \<open>Creating nodes\<close>

definition free_kid :: "fs_state \<Rightarrow> u64 \<Rightarrow> nat option" where
  "free_kid s dir = scan_from (\<lambda>i. child_at s dir i = 0) 0 MAX_DIR_ENTRIES"

definition add_child :: "u64 \<Rightarrow> u64 \<Rightarrow> fs_state \<Rightarrow> fs_state" where
  "add_child dir p s =
     (case free_kid s dir of None \<Rightarrow> s | Some i \<Rightarrow> set_kid (fe_children (ents s dir)) i p s)"

text \<open>The checks both creations start with: an error, or the parent and the base name.\<close>

definition create_checks :: "u8 list \<Rightarrow> fs_state \<Rightarrow> ((fs_error + u64 \<times> u8 list) \<times> fs_state) option" where
  "create_checks name s =
     (let s = s\<lparr>fs_last_error := None\<rparr> in
      if 256 \<le> length name then Some (Inl FS_ERR_INVALID, s)
      else Option.bind (resolve_parent_and_name name s) (\<lambda>(parent_dir, base_name, s).
        if parent_dir = 0 \<or> base_name = [] then Some (Inl FS_ERR_INVALID, s)
        else if find_child s parent_dir base_name \<noteq> None then Some (Inl FS_ERR_EXISTS, s)
        else if free_kid s parent_dir = None then Some (Inl FS_ERR_FULL, s)
        else Some (Inr (parent_dir, base_name), s)))"

definition fs_children_init :: "u64 \<Rightarrow> fs_state \<Rightarrow> (bool \<times> fs_state) option" where
  "fs_children_init e s =
     (if fe_type (ents s e) \<noteq> FS_TYPE_DIRECTORY then Some (True, upd_ent e (fe_children_update (\<lambda>_. 0)) s)
      else Option.bind (fs_kmalloc (8 * MAX_DIR_ENTRIES) s) (\<lambda>(table, s).
        let s = upd_ent e (fe_children_update (\<lambda>_. table)) s in
        if table = 0 then Some (False, s)
        else Some (True, s\<lparr>kids := (kids s)(table := (\<lambda>i. if i < MAX_DIR_ENTRIES then 0 else kids s table i))\<rparr>)))"

text \<open>The fields that every creation sets first.\<close>

definition init_entry :: "u8 list \<Rightarrow> fs_entry_type_t \<Rightarrow> u32 \<Rightarrow> u32 \<Rightarrow> u64 \<Rightarrow> fs_entry \<Rightarrow> fs_entry" where
  "init_entry name type cluster attrs parent e =
     e\<lparr>fe_name := name, fe_type := type, fe_size := 0, fe_first_cluster := cluster, fe_attributes := attrs,
       fe_parent := parent, fe_mnt := 0\<rparr>"

definition short_entry :: "u8 list \<Rightarrow> u8 \<Rightarrow> u32 \<Rightarrow> fat32_dir_entry_t" where
  "short_entry sn attrs cluster =
     dir_entry_zero\<lparr>de_name := sn, de_attributes := attrs, first_cluster_low := ucast (cluster AND 0xFFFF),
       first_cluster_high := ucast (drop_bit 16 cluster AND 0xFFFF)\<rparr>"

text \<open>The end of \<open>fs_create_file\<close> and \<open>fs_create_dir\<close> below a directory that is not on the FAT disk.\<close>

definition create_overlay ::
  "ext2_driver \<Rightarrow> (u64 \<Rightarrow> u32 \<Rightarrow> u8 list \<Rightarrow> fs_state \<Rightarrow> u32 \<times> fs_state) \<Rightarrow> u64 \<Rightarrow> u64 \<Rightarrow> u8 list \<Rightarrow> fs_state
    \<Rightarrow> (u64 \<times> fs_state) option" where
  "create_overlay x create e parent_dir base_name s =
     (let d = ents s parent_dir in
      if fe_backend d = FS_BACKEND_EXT2 \<and> fe_mnt d \<noteq> 0 \<and> x_writable x (fe_mnt d) s then
        (let (ino, s) = create (fe_mnt d) (fe_inode_no d) base_name s
         in if ino = 0 then map_option (fs_fail FS_ERR_IO) (fs_kfree e s)
            else Some (e, add_child parent_dir e (upd_ent e
              (\<lambda>n. n\<lparr>fe_backend := FS_BACKEND_EXT2, fe_inode_no := ino, fe_mnt := fe_mnt d,
                    fe_disk_name := replicate 11 0\<rparr>) s)))
      else Some (e, add_child parent_dir e (upd_ent e
             (\<lambda>n. n\<lparr>fe_backend := FS_BACKEND_MEM, fe_inode_no := 0, fe_mem_data := 0,
                   fe_disk_name := replicate 11 0\<rparr>) s)))"

definition fs_create_file :: "ext2_driver \<Rightarrow> u8 list \<Rightarrow> fs_state \<Rightarrow> (u64 \<times> fs_state) option" where
  "fs_create_file x name s =
     Option.bind (create_checks name s) (\<lambda>(r, s). case r of Inl err \<Rightarrow> Some (fs_fail err s)
     | Inr (parent_dir, base_name) \<Rightarrow>
       Option.bind (fs_kmalloc SIZEOF_FS_ENTRY s) (\<lambda>(e, s).
       if e = 0 then Some (fs_fail FS_ERR_FULL s)
       else Option.bind (fs_children_init e (upd_ent e
              (init_entry base_name FS_TYPE_FILE 0 (ucast ATTR_ARCHIVE) parent_dir) s)) (\<lambda>(ok, s).
       if \<not> ok then map_option (fs_fail FS_ERR_FULL) (fs_kfree e s)
       else if fe_backend (ents s parent_dir) \<noteq> FS_BACKEND_FAT
       then create_overlay x (x_create_file x) e parent_dir base_name s
       else
         Option.bind (format_short_name_unique base_name (fe_first_cluster (ents s parent_dir)) s) (\<lambda>sn.
           let s = upd_ent e (\<lambda>n. n\<lparr>fe_backend := FS_BACKEND_FAT, fe_inode_no := 0, fe_mem_data := 0,
                                    fe_disk_name := sn\<rparr>) s
           in Option.bind (fs_write_directory_entry (fe_first_cluster (ents s parent_dir))
                             (short_entry sn ATTR_ARCHIVE 0) s) (\<lambda>(ok, s).
                if \<not> ok then map_option (fs_fail FS_ERR_IO) (fs_kfree e s)
                else Some (e, add_child parent_dir e s))))))"

text \<open>The two first entries of a new directory.\<close>

definition dot_sector :: "u32 \<Rightarrow> u32 \<Rightarrow> bytes" where
  "dot_sector cluster parent =
     put_dir_entry 1 (short_entry ([0x2E, 0x2E] @ replicate 9 0) ATTR_DIRECTORY parent)
       (put_dir_entry 0 (short_entry ([0x2E] @ replicate 10 0) ATTR_DIRECTORY cluster) (\<lambda>_. 0))"

definition disk_put :: "u32 \<Rightarrow> bytes \<Rightarrow> 'a fat \<Rightarrow> 'a fat" where
  "disk_put sector buffer s = (case disk_write_sector sector buffer s of None \<Rightarrow> s | Some s \<Rightarrow> s)"

definition clear_cluster :: "u32 \<Rightarrow> 'a fat \<Rightarrow> 'a fat" where
  "clear_cluster cluster s =
     fold (\<lambda>k s. disk_put (cluster_to_sector s cluster + of_nat k) (\<lambda>_. 0) s) (cluster_sectors s) s"

text \<open>The FAT part of \<open>fs_create_dir\<close>; \<open>new_cluster\<close> is freshly allocated.\<close>

definition create_fat_dir :: "u64 \<Rightarrow> u8 list \<Rightarrow> u32 \<Rightarrow> fs_state \<Rightarrow> (u64 \<times> fs_state) option" where
  "create_fat_dir parent_dir base_name new_cluster s =
     (let s = snd (fat_write_entry new_cluster FAT32_EOC_MARK s);
          s = clear_cluster new_cluster s;
          parent_cluster = dir_cluster s (fe_first_cluster (ents s parent_dir));
          s = disk_put (cluster_to_sector s new_cluster) (dot_sector new_cluster parent_cluster) s
      in Option.bind (format_short_name_unique base_name (fe_first_cluster (ents s parent_dir)) s) (\<lambda>sn.
         Option.bind (fs_kmalloc SIZEOF_FS_ENTRY s) (\<lambda>(e, s).
         if e = 0 then Some (fs_fail FS_ERR_FULL (snd (fat_write_entry new_cluster 0 s)))
         else Option.bind (fs_children_init e (upd_ent e (\<lambda>n. (init_entry base_name FS_TYPE_DIRECTORY new_cluster
                  (ucast ATTR_DIRECTORY) parent_dir n)\<lparr>fe_backend := FS_BACKEND_FAT, fe_inode_no := 0,
                  fe_mem_data := 0, fe_disk_name := sn\<rparr>) s)) (\<lambda>(ok, s).
         if \<not> ok then map_option (fs_fail FS_ERR_FULL) (fs_kfree e s)
         else Option.bind (fs_write_directory_entry (fe_first_cluster (ents s parent_dir))
                             (short_entry sn ATTR_DIRECTORY new_cluster) s) (\<lambda>(ok, s).
           if \<not> ok then map_option (fs_fail FS_ERR_IO) (fs_kfree e (snd (fat_write_entry new_cluster 0 s)))
           else Some (e, add_child parent_dir e s))))))"

definition fs_create_dir :: "ext2_driver \<Rightarrow> u8 list \<Rightarrow> fs_state \<Rightarrow> (u64 \<times> fs_state) option" where
  "fs_create_dir x name s =
     Option.bind (create_checks name s) (\<lambda>(r, s). case r of Inl err \<Rightarrow> Some (fs_fail err s)
     | Inr (parent_dir, base_name) \<Rightarrow>
       if fe_backend (ents s parent_dir) \<noteq> FS_BACKEND_FAT then
         Option.bind (fs_kmalloc SIZEOF_FS_ENTRY s) (\<lambda>(e, s).
         if e = 0 then Some (fs_fail FS_ERR_FULL s)
         else Option.bind (fs_children_init e (upd_ent e (\<lambda>n. (init_entry base_name FS_TYPE_DIRECTORY 0
                  (ucast ATTR_DIRECTORY) parent_dir n)\<lparr>fe_disk_name := replicate 11 0\<rparr>) s)) (\<lambda>(ok, s).
         if \<not> ok then map_option (fs_fail FS_ERR_FULL) (fs_kfree e s)
         else create_overlay x (x_create_dir x) e parent_dir base_name s))
       else
         Option.bind (fat_alloc_cluster s) (\<lambda>(new_cluster, s).
           if new_cluster = 0 then Some (fs_fail FS_ERR_FULL s)
           else create_fat_dir parent_dir base_name new_cluster s))"

text \<open>\<open>fs_mkdir_p\<close>: every prefix of the path that ends at a slash or at the end of the path.\<close>

fun mkdir_prefixes :: "ext2_driver \<Rightarrow> u8 list \<Rightarrow> nat list \<Rightarrow> fs_state \<Rightarrow> (bool \<times> fs_state) option" where
  "mkdir_prefixes x path [] s = Some (True, s)"
| "mkdir_prefixes x path (i # is) s =
     (if i = length path \<or> path ! i = 0x2F then
        Option.bind (fs_resolve_path (take i path) s) (\<lambda>(e, s).
          if e \<noteq> 0 then mkdir_prefixes x path is s
          else Option.bind (fs_create_dir x (take i path) s) (\<lambda>(e, s).
            if e \<noteq> 0 then mkdir_prefixes x path is s
            else Option.bind (fs_resolve_path (take i path) s) (\<lambda>(e, s).
              if e \<noteq> 0 then mkdir_prefixes x path is s else Some (False, s))))
      else mkdir_prefixes x path is s)"

definition fs_mkdir_p :: "ext2_driver \<Rightarrow> u8 list \<Rightarrow> fs_state \<Rightarrow> (bool \<times> fs_state) option" where
  "fs_mkdir_p x path s =
     (if path = [] \<or> hd path \<noteq> 0x2F then Some (False, s)
      else Option.bind (fs_resolve_path path s) (\<lambda>(e, s).
        if e \<noteq> 0 then Some (True, s)
        else if MAX_PATH_LENGTH \<le> length path then Some (False, s)
        else Option.bind (mkdir_prefixes x path [1..<length path + 1] s) (\<lambda>(ok, s).
          if \<not> ok then Some (False, s)
          else Option.bind (fs_resolve_path path s) (\<lambda>(e, s). Some (e \<noteq> 0, s)))))"

section \<open>Writing and reading files\<close>

text \<open>Results are the C return values: the number of bytes, or -1.\<close>

definition fs_write_file_mem :: "u64 \<Rightarrow> nat \<Rightarrow> bytes \<Rightarrow> fs_state \<Rightarrow> (int \<times> fs_state) option" where
  "fs_write_file_mem file sz data s =
     Option.bind (fs_kmalloc (if sz > 0 then sz else 1) s) (\<lambda>(buf, s).
       if buf = 0 then Some (-1, s\<lparr>fs_last_error := Some FS_ERR_FULL\<rparr>)
       else
         (let h = fs_heap s;
              s = s\<lparr>fs_heap := h\<lparr>payload := (\<lambda>a. if a - buf < of_nat sz then data (unat (a - buf)) else payload h a)\<rparr>\<rparr>
          in Option.bind (if fe_mem_data (ents s file) \<noteq> 0 then fs_kfree (fe_mem_data (ents s file)) s else Some s) (\<lambda>s.
               Some (int sz, upd_ent file (\<lambda>n. n\<lparr>fe_mem_data := buf, fe_size := of_nat sz\<rparr>) s))))"

definition set_entry_file :: "u32 \<Rightarrow> nat \<Rightarrow> fat32_dir_entry_t \<Rightarrow> fat32_dir_entry_t" where
  "set_entry_file cluster sz e = e\<lparr>first_cluster_low := ucast (cluster AND 0xFFFF),
     first_cluster_high := ucast (drop_bit 16 cluster AND 0xFFFF), de_file_size := of_nat sz\<rparr>"

text \<open>The update of the parent directory; \<open>False\<close> is a failing write.\<close>

definition update_parent :: "u64 \<Rightarrow> u32 \<Rightarrow> nat \<Rightarrow> fs_state \<Rightarrow> (bool \<times> fs_state) option" where
  "update_parent file first_cluster sz s =
     (if fe_parent (ents s file) = 0 then Some (True, s)
      else Option.bind (find_entry_loop (\<lambda>e. de_name e = fe_disk_name (ents s file) \<and> hd (de_name e) \<noteq> 0xE5)
             (fe_first_cluster (ents s (fe_parent (ents s file)))) s) (\<lambda>r. case r of
          None \<Rightarrow> Some (True, s)
        | Some (sector, buffer, j) \<Rightarrow>
            (case disk_write_sector sector
                    (put_dir_entry j (set_entry_file first_cluster sz (dir_entries buffer j)) buffer) s of
               None \<Rightarrow> map_option (\<lambda>(_, s). (False, s)) (fat_free_cluster_chain first_cluster s)
             | Some s \<Rightarrow> Some (True, s))))"

definition fs_write_file_fat :: "u64 \<Rightarrow> nat \<Rightarrow> bytes \<Rightarrow> fs_state \<Rightarrow> (int \<times> fs_state) option" where
  "fs_write_file_fat file sz data s =
     Option.bind (fat_write_data sz data s) (\<lambda>(r, s). case r of
       Inl err \<Rightarrow> Some (-1, s\<lparr>fs_last_error := Some err\<rparr>)
     | Inr first_cluster \<Rightarrow>
         Option.bind (update_parent file first_cluster sz s) (\<lambda>(ok, s).
           if \<not> ok then Some (-1, s)
           else
             (let old_first_cluster = fe_first_cluster (ents s file);
                  s = upd_ent file (\<lambda>n. n\<lparr>fe_first_cluster := first_cluster, fe_size := of_nat sz\<rparr>) s
              in if old_first_cluster \<noteq> 0
                 then map_option (\<lambda>(_, s). (int sz, s)) (fat_free_cluster_chain old_first_cluster s)
                 else Some (int sz, s))))"

text \<open>The caller's buffer is \<open>None\<close> for \<open>NULL\<close>.\<close>

definition fs_write_file :: "ext2_driver \<Rightarrow> u64 \<Rightarrow> nat \<Rightarrow> bytes option \<Rightarrow> fs_state \<Rightarrow> (int \<times> fs_state) option" where
  "fs_write_file x file sz buf s =
     (if file = 0 \<or> fe_type (ents s file) \<noteq> FS_TYPE_FILE \<or> buf = None
      then Some (-1, s\<lparr>fs_last_error := Some FS_ERR_INVALID\<rparr>)
      else
        (let data = the buf;
             sz = (if sz > MAX_FILE_SIZE then MAX_FILE_SIZE else sz) in
         case fe_backend (ents s file) of
           FS_BACKEND_MEM \<Rightarrow> fs_write_file_mem file sz data s
         | FS_BACKEND_EXT2 \<Rightarrow>
             if fe_mnt (ents s file) \<noteq> 0 \<and> x_writable x (fe_mnt (ents s file)) s then
               (let (r, s) = x_write_file x (fe_mnt (ents s file)) (fe_inode_no (ents s file)) sz data s
                in if r < 0 then Some (-1, s\<lparr>fs_last_error := Some FS_ERR_IO\<rparr>)
                   else Some (r, upd_ent file (fe_size_update (\<lambda>_. of_int r)) s))
             else fs_write_file_mem file sz data (upd_ent file (fe_backend_update (\<lambda>_. FS_BACKEND_MEM)) s)
         | FS_BACKEND_FAT \<Rightarrow> fs_write_file_fat file sz data s))"

definition fs_read_file :: "ext2_driver \<Rightarrow> u64 \<Rightarrow> nat \<Rightarrow> fs_state \<Rightarrow> bytes \<Rightarrow> (int \<times> bytes) option" where
  "fs_read_file x file sz s buffer =
     (if file = 0 \<or> fe_type (ents s file) \<noteq> FS_TYPE_FILE then Some (-1, buffer)
      else
        (let sz = (if sz > unat (fe_size (ents s file)) then unat (fe_size (ents s file)) else sz) in
         case fe_backend (ents s file) of
           FS_BACKEND_MEM \<Rightarrow>
             Some (int sz, if fe_mem_data (ents s file) \<noteq> 0
                           then memcpy_at 0 sz (\<lambda>i. payload (fs_heap s) (fe_mem_data (ents s file) + of_nat i)) buffer
                           else buffer)
         | FS_BACKEND_EXT2 \<Rightarrow> Some (x_read_file x (fe_mnt (ents s file)) (fe_inode_no (ents s file)) sz s buffer)
         | FS_BACKEND_FAT \<Rightarrow>
             if fe_first_cluster (ents s file) = 0 then Some (0, buffer)
             else Option.bind (read_clusters (fe_first_cluster (ents s file)) 0 sz s buffer) (\<lambda>(ok, offset, buffer).
               Some (if \<not> ok \<and> offset = 0 then -1 else int offset, buffer))))"

section \<open>Deleting\<close>

text \<open>What \<open>fs_delete_entry_recursive\<close> does to a node once its children are gone.\<close>

definition release_node :: "u64 \<Rightarrow> fs_state \<Rightarrow> fs_state option" where
  "release_node e s =
     Option.bind (if fe_type (ents s e) = FS_TYPE_DIRECTORY \<and> fe_children (ents s e) \<noteq> 0
                  then map_option (upd_ent e (fe_children_update (\<lambda>_. 0))) (fs_kfree (fe_children (ents s e)) s)
                  else Some s) (\<lambda>s.
     Option.bind (if fe_backend (ents s e) = FS_BACKEND_FAT \<and> fe_first_cluster (ents s e) \<noteq> 0
                  then map_option snd (fat_free_cluster_chain (fe_first_cluster (ents s e)) s) else Some s) (\<lambda>s.
     Option.bind (if fe_mem_data (ents s e) \<noteq> 0
                  then map_option (upd_ent e (fe_mem_data_update (\<lambda>_. 0))) (fs_kfree (fe_mem_data (ents s e)) s)
                  else Some s) (\<lambda>s.
     fs_kfree e s)))"

text \<open>\<open>i\<close> is the index of the loop over the children.\<close>

partial_function (option) delete_from :: "u64 \<Rightarrow> nat \<Rightarrow> fs_state \<Rightarrow> fs_state option" where
  "delete_from e i s =
     (if fe_type (ents s e) = FS_TYPE_DIRECTORY \<and> fe_children (ents s e) \<noteq> 0 \<and> i < MAX_DIR_ENTRIES then
        (if child_at s e i \<noteq> 0 then
           Option.bind (delete_from (child_at s e i) 0 s) (\<lambda>s.
             delete_from e (i + 1) (set_kid (fe_children (ents s e)) i 0 s))
         else delete_from e (i + 1) s)
      else release_node e s)"

definition fs_delete_entry_recursive :: "u64 \<Rightarrow> fs_state \<Rightarrow> fs_state option" where
  "fs_delete_entry_recursive e s = (if e = 0 then Some s else delete_from e 0 s)"

text \<open>The mark 0xE5 in the directory on the disk.\<close>

definition mark_deleted :: "u32 \<Rightarrow> u8 list \<Rightarrow> fs_state \<Rightarrow> fs_state option" where
  "mark_deleted cluster sn s =
     map_option (\<lambda>r. case r of
         None \<Rightarrow> s
       | Some (sector, buffer, j) \<Rightarrow> disk_put sector (buffer(32 * j := 0xE5)) s)
       (find_entry_loop (\<lambda>e. de_name e = sn) cluster s)"

definition fs_delete_entry :: "u8 list \<Rightarrow> fs_state \<Rightarrow> (bool \<times> fs_state) option" where
  "fs_delete_entry name s =
     Option.bind (resolve_parent_and_name name s) (\<lambda>(parent_dir, base_name, s).
       if parent_dir = 0 \<or> base_name = [] then Some (False, s)
       else case find_child s parent_dir base_name of
         None \<Rightarrow> Some (False, s)
       | Some i \<Rightarrow>
           (let c = child_at s parent_dir i in
            Option.bind (if fe_backend (ents s c) \<noteq> FS_BACKEND_FAT then Some s
                         else mark_deleted (fe_first_cluster (ents s parent_dir)) (fe_disk_name (ents s c)) s) (\<lambda>s.
            Option.bind (fs_delete_entry_recursive c s) (\<lambda>s.
              Some (True, set_kid (fe_children (ents s parent_dir)) i 0 s)))))"

section \<open>Formatting and mounting\<close>

definition put_list :: "nat \<Rightarrow> u8 list \<Rightarrow> bytes \<Rightarrow> bytes" where
  "put_list a xs b = (\<lambda>i. if a \<le> i \<and> i < a + length xs then xs ! (i - a) else b i)"

definition get_list :: "bytes \<Rightarrow> nat \<Rightarrow> nat \<Rightarrow> u8 list" where
  "get_list b a n = map (\<lambda>i. b (a + i)) [0..<n]"

text \<open>The packed layout of the boot sector.\<close>

definition bpb_bytes :: "fat32_bpb_t \<Rightarrow> bytes" where
  "bpb_bytes p =
     put_list 0 (jump p) (put_list 3 (oem_name p) (put16 11 (bytes_per_sector p)
       (put16 14 (reserved_sectors p) (put16 17 (root_entries p) (put16 19 (total_sectors_16 p)
         (put16 22 (sectors_per_fat_16 p) (put16 24 (sectors_per_track p) (put16 26 (heads p)
           (put32 28 (hidden_sectors p) (put32 32 (total_sectors_32 p)
             ((\<lambda>_. 0)(13 := sectors_per_cluster p, 16 := fat_count p, 21 := media_type p))))))))))))"

definition boot_bytes :: "fat32_boot_sector_t \<Rightarrow> bytes" where
  "boot_bytes b =
     put32 36 (sectors_per_fat_32 b) (put16 40 (extended_flags b) (put16 42 (fs_version b)
       (put32 44 (root_cluster b) (put16 48 (fs_info_sector b) (put16 50 (backup_boot_sector b)
         (put_list 52 (bs_reserved b) (put32 67 (volume_id b) (put_list 71 (volume_label b)
           (put_list 82 (fs_type b) (put_list 90 (boot_code b) (put16 510 (boot_signature_word b)
             ((bpb_bytes (bpb b))(64 := drive_number b, 65 := bs_reserved1 b, 66 := boot_signature b)))))))))))))"

definition boot_of_bytes :: "bytes \<Rightarrow> fat32_boot_sector_t" where
  "boot_of_bytes d =
     \<lparr>bpb = \<lparr>jump = get_list d 0 3, oem_name = get_list d 3 8, bytes_per_sector = get16 d 11,
        sectors_per_cluster = d 13, reserved_sectors = get16 d 14, fat_count = d 16, root_entries = get16 d 17,
        total_sectors_16 = get16 d 19, media_type = d 21, sectors_per_fat_16 = get16 d 22,
        sectors_per_track = get16 d 24, heads = get16 d 26, hidden_sectors = get32 d 28,
        total_sectors_32 = get32 d 32\<rparr>,
      sectors_per_fat_32 = get32 d 36, extended_flags = get16 d 40, fs_version = get16 d 42,
      root_cluster = get32 d 44, fs_info_sector = get16 d 48, backup_boot_sector = get16 d 50,
      bs_reserved = get_list d 52 12, drive_number = d 64, bs_reserved1 = d 65, boot_signature = d 66,
      volume_id = get32 d 67, volume_label = get_list d 71 11, fs_type = get_list d 82 8,
      boot_code = get_list d 90 420, boot_signature_word = get16 d 510\<rparr>"

definition FAT32_TYPE :: "u8 list" where
  "FAT32_TYPE = [0x46, 0x41, 0x54, 0x33, 0x32, 0x20, 0x20, 0x20]"

text \<open>One round of the computation of the FAT size.\<close>

definition fat_size_round :: "u32 \<Rightarrow> u32" where
  "fat_size_round sectors_per_fat =
     (let data_sectors = of_nat DISK_MAX_SECTORS - 32 - 1 * sectors_per_fat;
          clusters = data_sectors div 1 + 2
      in (clusters * 4 + of_nat DISK_SECTOR_SIZE - 1) div of_nat DISK_SECTOR_SIZE)"

definition format_boot_sector :: fat32_boot_sector_t where
  "format_boot_sector =
     \<lparr>bpb = \<lparr>jump = [0xEB, 0x58, 0x90], oem_name = [0x4B, 0x49, 0x4C, 0x30, 0x59, 0x4F, 0x53, 0x20],
        bytes_per_sector = of_nat DISK_SECTOR_SIZE, sectors_per_cluster = 1, reserved_sectors = 32, fat_count = 1,
        root_entries = 0, total_sectors_16 = 0, media_type = 0xF8, sectors_per_fat_16 = 0,
        sectors_per_track = 1, heads = 1, hidden_sectors = 0, total_sectors_32 = of_nat DISK_MAX_SECTORS\<rparr>,
      sectors_per_fat_32 = (fat_size_round ^^ 4) 1, extended_flags = 0, fs_version = 0, root_cluster = 2,
      fs_info_sector = 1, backup_boot_sector = 0, bs_reserved = replicate 12 0, drive_number = 0x80,
      bs_reserved1 = 0, boot_signature = 0x29, volume_id = 0x12345678,
      volume_label = [0x4B, 0x49, 0x4C, 0x30, 0x59, 0x4F, 0x53, 0x20, 0x20, 0x20, 0x20],
      fs_type = FAT32_TYPE, boot_code = replicate 420 0, boot_signature_word = 0xAA55\<rparr>"

definition clear_sectors :: "u32 \<Rightarrow> u32 \<Rightarrow> 'a fat \<Rightarrow> 'a fat" where
  "clear_sectors lo hi s = fold (\<lambda>i s. disk_put (of_nat i) (\<lambda>_. 0) s) [unat lo..<unat hi] s"

text \<open>
  \<open>disk_is_ram\<close>: the only disk of the model is the RAM disk, present once
  \<open>disk_init_ram_fallback\<close> has found memory for it.
\<close>

definition disk_is_ram :: "'a fat \<Rightarrow> bool" where
  "disk_is_ram s \<longleftrightarrow> disk_present s"

definition fs_format :: "'a fat \<Rightarrow> 'a fat" where
  "fs_format s =
     (if \<not> disk_is_ram s then s else
      let s = s\<lparr>boot_sector := format_boot_sector\<rparr>;
          reserved = ucast (reserved_sectors (bpb (boot_sector s)));
          spf = sectors_per_fat_32 (boot_sector s);
          s = disk_put 0 (boot_bytes (boot_sector s)) s;
          s = disk_put 1 (put32 0 0xFFFFFFFF (put32 4 0xFFFFFFFF (\<lambda>i. if i < 488 then 0 else boot_bytes (boot_sector s) i))) s;
          s = clear_sectors reserved (reserved + spf) s;
          s = disk_put reserved (put32 0 0x0FFFFFF8 (put32 4 FAT32_EOC_MARK (\<lambda>_. 0))) s;
          s = clear_sectors (reserved + 1) (reserved + spf) s
      in disk_put (cluster_to_sector s 2) (\<lambda>_. 0) s)"

text \<open>Loading the FAT into memory; the copy is a store of its own.\<close>

fun read_fat_sectors :: "u32 \<Rightarrow> nat list \<Rightarrow> bytes \<Rightarrow> 'a fat \<Rightarrow> bytes option" where
  "read_fat_sectors first [] buf s = Some buf"
| "read_fat_sectors first (k # ks) buf s =
     (case disk_read_sector (first + of_nat k) s of
        None \<Rightarrow> None
      | Some d \<Rightarrow> read_fat_sectors first ks (memcpy_at (k * DISK_SECTOR_SIZE) DISK_SECTOR_SIZE d buf) s)"

definition fat_cache_load :: "fs_state \<Rightarrow> (bool \<times> fs_state) option" where
  "fat_cache_load s =
     (let fat_sectors = get_sectors_per_fat s in
      Option.bind (fs_kmalloc (unat (fat_sectors * of_nat DISK_SECTOR_SIZE)) s) (\<lambda>(buf, s).
        if buf = 0 then Some (False, s)
        else case read_fat_sectors (get_first_fat_sector s) [0..<unat fat_sectors] (fat_buffer s) s of
               None \<Rightarrow> map_option (\<lambda>s. (False, s)) (fs_kfree buf s)
             | Some b \<Rightarrow> Some (True, s\<lparr>fat_buffer := b, fat_cache_ready := True\<rparr>)))"

definition read_directory_entries ::
  "u32 \<Rightarrow> fs_state \<Rightarrow> ((fat32_dir_entry_t list \<times> u64) option \<times> fs_state) option" where
  "read_directory_entries cluster s =
     (let cluster = dir_cluster s cluster in
      Option.bind (collect_loop False cluster [] s) (\<lambda>r. case r of None \<Rightarrow> Some (None, s)
      | Some counted \<Rightarrow>
          Option.bind (if counted \<noteq> [] then fs_kmalloc (length counted * 32) s else Some (0, s)) (\<lambda>(p, s).
            if counted \<noteq> [] \<and> p = 0 then Some (None, s)
            else Option.bind (collect_loop True cluster [] s) (\<lambda>r. case r of
              None \<Rightarrow> map_option (\<lambda>s. (None, s)) (fs_kfree p s)
            | Some es \<Rightarrow> Some (Some (es, p), s)))))"

definition fs_create_entry_from_dir ::
  "fat32_dir_entry_t \<Rightarrow> u64 \<Rightarrow> fs_state \<Rightarrow> (u64 \<times> fs_state) option" where
  "fs_create_entry_from_dir d parent s =
     Option.bind (fs_kmalloc SIZEOF_FS_ENTRY s) (\<lambda>(e, s).
       if e = 0 then Some (0, s)
       else Option.bind (fs_children_init e (upd_ent e (\<lambda>n.
              n\<lparr>fe_name := parse_short_name (de_name d),
                fe_type := (if de_attributes d AND ATTR_DIRECTORY \<noteq> 0 then FS_TYPE_DIRECTORY else FS_TYPE_FILE),
                fe_size := de_file_size d,
                fe_first_cluster := push_bit 16 (ucast (first_cluster_high d)) OR ucast (first_cluster_low d),
                fe_attributes := ucast (de_attributes d), fe_parent := parent, fe_backend := FS_BACKEND_FAT,
                fe_inode_no := 0, fe_mem_data := 0, fe_mnt := 0, fe_disk_name := de_name d\<rparr>) s)) (\<lambda>(ok, s).
         if ok then Some (e, s) else map_option (\<lambda>s. (0, s)) (fs_kfree e s)))"

text \<open>
  The loop of \<open>fs_load_directory\<close> over the entries of \<open>dir\<close>; for a directory among them the
  recursive call is written out.
\<close>

partial_function (option) load_children ::
  "u64 \<Rightarrow> fat32_dir_entry_t list \<Rightarrow> nat \<Rightarrow> fs_state \<Rightarrow> fs_state option" where
  "load_children dir ds idx s =
     (if ds = [] \<or> MAX_DIR_ENTRIES \<le> idx then Some s
      else Option.bind (fs_create_entry_from_dir (hd ds) dir s) (\<lambda>(child, s).
        if child = 0 then load_children dir (tl ds) idx s
        else
          (let s = set_kid (fe_children (ents s dir)) idx child s in
           if fe_type (ents s child) \<noteq> FS_TYPE_DIRECTORY then load_children dir (tl ds) (idx + 1) s
           else Option.bind (read_directory_entries (fe_first_cluster (ents s child)) s) (\<lambda>(r, s).
             case r of
               None \<Rightarrow> load_children dir (tl ds) (idx + 1) s
             | Some (es, p) \<Rightarrow>
                 Option.bind (load_children child es 0 s) (\<lambda>s.
                 Option.bind (fs_kfree p s) (\<lambda>s. load_children dir (tl ds) (idx + 1) s))))))"

definition fs_load_directory :: "u64 \<Rightarrow> fs_state \<Rightarrow> fs_state option" where
  "fs_load_directory dir s =
     (if fe_type (ents s dir) \<noteq> FS_TYPE_DIRECTORY then Some s
      else Option.bind (read_directory_entries (fe_first_cluster (ents s dir)) s) (\<lambda>(r, s).
        case r of None \<Rightarrow> Some s | Some (es, p) \<Rightarrow> Option.bind (load_children dir es 0 s) (fs_kfree p)))"

text \<open>The result is true where the C function returns 0.\<close>

definition fs_load :: "fs_state \<Rightarrow> (bool \<times> fs_state) option" where
  "fs_load s =
     (case disk_read_sector 0 s of None \<Rightarrow> Some (False, s)
      | Some buffer \<Rightarrow>
        (let bs = boot_of_bytes buffer; s = s\<lparr>boot_sector := bs\<rparr> in
         if fs_type bs \<noteq> FAT32_TYPE \<or> boot_signature_word bs \<noteq> 0xAA55 then Some (False, s)
         else if bytes_per_sector (bpb bs) \<noteq> of_nat DISK_SECTOR_SIZE \<or> sectors_per_cluster (bpb bs) = 0
           \<or> sectors_per_cluster (bpb bs) > 128 \<or> fat_count (bpb bs) = 0 then Some (False, s)
         else
           Option.bind (if \<not> fat_cache_ready s then map_option snd (fat_cache_load s) else Some s) (\<lambda>s.
           Option.bind (fs_kmalloc SIZEOF_FS_ENTRY s) (\<lambda>(r, s).
             let s = s\<lparr>fs_root := r\<rparr> in
             if r = 0 then Some (False, s)
             else Option.bind (fs_children_init r (upd_ent r (\<lambda>n.
                    (init_entry [0x2F] FS_TYPE_DIRECTORY (root_cluster bs) (ucast ATTR_DIRECTORY) 0 n)
                    \<lparr>fe_backend := FS_BACKEND_FAT, fe_inode_no := 0, fe_mem_data := 0,
                     fe_disk_name := replicate 11 0\<rparr>) s)) (\<lambda>(ok, s).
               if \<not> ok then map_option (\<lambda>s. (True, s\<lparr>fs_last_error := Some FS_ERR_FULL\<rparr>)) (fs_kfree r s)
               else map_option (\<lambda>s. (True, s\<lparr>fs_current := r\<rparr>)) (fs_load_directory r s))))))"

definition fs_save :: "fs_state \<Rightarrow> fs_state" where
  "fs_save s = (if ext2_mode s then s else disk_put 0 (boot_bytes (boot_sector s)) s)"

text \<open>The end of \<open>fs_init\<close>: no ext2 root, the RAM disk in place.\<close>

definition fs_init_live :: "ext2_driver \<Rightarrow> fs_state \<Rightarrow> fs_state option" where
  "fs_init_live x s =
     Option.bind (fs_load s) (\<lambda>(ok, s).
       if ok then Some s
       else
         Option.bind (fs_load (fs_format s)) (\<lambda>(_, s).
         Option.bind (fs_create_dir x [0x68, 0x6F, 0x6D, 0x65] s) (\<lambda>(_, s).
         Option.bind (fs_create_dir x [0x62, 0x69, 0x6E] s) (\<lambda>(_, s).
         Option.bind (fs_create_dir x [0x65, 0x74, 0x63] s) (\<lambda>(_, s).
         Option.bind (fs_create_dir x [0x74, 0x6D, 0x70] s) (\<lambda>(_, s).
         Option.bind (fs_resolve_path [0x2F, 0x68, 0x6F, 0x6D, 0x65] s) (\<lambda>(home, s).
           if home = 0 then Some s
           else map_option (\<lambda>(_, s). fs_set_current (fs_root s) s)
                  (fs_create_dir x [0x75, 0x73, 0x65, 0x72] (fs_set_current home s)))))))))"

end
