(* ===== verification/Fs_Format.thy ===== *)
theory Fs_Format
  imports Fs
begin

unbundle bit_operations_syntax

text \<open>
  The formatted RAM disk: the geometry \<open>fs_format\<close> chooses, what is on the disk afterwards, and the
  first cluster the allocator hands out on it.
\<close>

section \<open>The geometry\<close>

lemma fat_size_rounds: "fat_size_round 1 = 512" "fat_size_round 512 = 508" "fat_size_round 508 = 508"
  by (simp_all add: fat_size_round_def DISK_MAX_SECTORS_def DISK_SECTOR_SIZE_def)

lemma format_fat_size: "(fat_size_round ^^ 4) 1 = 508"
proof -
  have "(4 :: nat) = Suc (Suc (Suc (Suc 0)))" by simp
  then show ?thesis by (simp only: funpow.simps comp_apply id_apply fat_size_rounds)
qed

lemma format_geometry:
  assumes "boot_sector s = format_boot_sector"
  shows "spc_of s = 1" "fat_start s = 32" "fat_sectors s = 508" "data_start s = 540" "max_cl s = 64998" "cbytes s = 512"
    "geom s \<longleftrightarrow> disk_present s"
proof -
  show a: "spc_of s = 1" "fat_start s = 32" "fat_sectors s = 508"
    by (simp_all only: spc_of_def fat_start_def fat_sectors_def assms format_boot_sector_def format_fat_size
        fat32_boot_sector_t.simps fat32_bpb_t.simps) simp_all
  show b: "data_start s = 540"
    unfolding data_start_def a assms by (simp add: format_boot_sector_def)
  show c: "max_cl s = 64998" by (simp add: max_cl_def a b DISK_MAX_SECTORS_def)
  show "cbytes s = 512" by (simp add: cbytes_def a)
  show "geom s \<longleftrightarrow> disk_present s"
    unfolding geom_def a b c assms by (simp add: format_boot_sector_def DISK_MAX_SECTORS_def DISK_SECTOR_SIZE_def)
qed

section \<open>What is on the disk\<close>

lemma disk_put_fields [simp]:
  "disk_present (disk_put n b s) = disk_present s" "boot_sector (disk_put n b s) = boot_sector s"
  "fat_cache_ready (disk_put n b s) = fat_cache_ready s" "fat_alloc_hint (disk_put n b s) = fat_alloc_hint s"
  by (auto simp: disk_put_def disk_write_sector_def)

lemma disk_put_byte:
  "disk_present s \<Longrightarrow> unat n < DISK_MAX_SECTORS \<Longrightarrow>
     ram_disk (disk_put n b s) a = (if a div 512 = unat n then b (a mod 512) else ram_disk s a)"
  by (auto simp: disk_put_def disk_write_sector_def DISK_SECTOR_SIZE_def)

lemma clear_fold:
  assumes "disk_present s" "hi \<le> DISK_MAX_SECTORS"
  shows "let t = fold (\<lambda>i s. disk_put (of_nat i) (\<lambda>_. 0) s) [lo..<hi] s in
    disk_present t = disk_present s \<and> boot_sector t = boot_sector s \<and> fat_cache_ready t = fat_cache_ready s
      \<and> fat_alloc_hint t = fat_alloc_hint s
      \<and> (\<forall>a. ram_disk t a = (if lo \<le> a div 512 \<and> a div 512 < hi then 0 else ram_disk s a))"
  using assms(2)
proof (induction hi)
  case (Suc hi)
  have u: "unat (of_nat hi :: u32) = hi" using Suc.prems by (simp add: unat_of_nat DISK_MAX_SECTORS_def)
  show ?case
  proof (cases "lo \<le> hi")
    case True
    then show ?thesis using Suc assms(1)
      by (auto simp: Let_def disk_put_byte u)
  qed (auto simp: Let_def)
qed (simp add: Let_def)

lemma clear_sectors_spec:
  assumes "disk_present s" "unat hi \<le> DISK_MAX_SECTORS"
  shows "disk_present (clear_sectors lo hi s)" "boot_sector (clear_sectors lo hi s) = boot_sector s"
    "fat_cache_ready (clear_sectors lo hi s) = fat_cache_ready s" "fat_alloc_hint (clear_sectors lo hi s) = fat_alloc_hint s"
    "ram_disk (clear_sectors lo hi s) a = (if unat lo \<le> a div 512 \<and> a div 512 < unat hi then 0 else ram_disk s a)"
  using clear_fold [OF assms, of "unat lo"] assms(1) by (simp_all add: clear_sectors_def Let_def)

definition root_fat :: bytes where
  "root_fat = put32 0 0x0FFFFFF8 (put32 4 FAT32_EOC_MARK (\<lambda>_. 0))"

definition info_bytes :: bytes where
  "info_bytes = put32 0 0xFFFFFFFF (put32 4 0xFFFFFFFF (\<lambda>i. if i < 488 then 0 else boot_bytes format_boot_sector i))"

lemma fs_format_disk:
  assumes "disk_present s"
  shows "disk_present (fs_format s)" "boot_sector (fs_format s) = format_boot_sector"
    "fat_cache_ready (fs_format s) = fat_cache_ready s" "fat_alloc_hint (fs_format s) = fat_alloc_hint s"
    "ram_disk (fs_format s) a = (if 32 < a div 512 \<and> a div 512 \<le> 540 then 0 else if a div 512 = 32 then root_fat (a mod 512)
       else if a div 512 = 1 then info_bytes (a mod 512) else if a div 512 = 0 then boot_bytes format_boot_sector (a mod 512)
       else ram_disk s a)"
proof -
  let ?a = "s\<lparr>boot_sector := format_boot_sector\<rparr>"
  let ?b = "disk_put 1 info_bytes (disk_put 0 (boot_bytes format_boot_sector) ?a)"
  let ?c = "disk_put 32 root_fat (clear_sectors 32 540 ?b)"
  let ?d = "clear_sectors 33 540 ?c"
  note cl = clear_sectors_spec [where hi = 540]
  have m: "540 \<le> DISK_MAX_SECTORS" by (simp add: DISK_MAX_SECTORS_def)
  have d: "disk_present ?d" "boot_sector ?d = format_boot_sector" "fat_cache_ready ?d = fat_cache_ready s"
    "fat_alloc_hint ?d = fat_alloc_hint s" using assms m by (simp_all add: cl)
  have root: "cluster_to_sector ?d 2 = 540"
    by (simp add: cluster_to_sector_def get_first_data_sector_def get_first_fat_sector_def get_sectors_per_fat_def d(2))
      (simp add: format_boot_sector_def format_fat_size)
  have "ucast (reserved_sectors (bpb format_boot_sector)) = (32 :: u32)" "sectors_per_fat_32 format_boot_sector = 508"
    by (simp_all add: format_boot_sector_def format_fat_size)
  then have eq: "fs_format s = disk_put 540 (\<lambda>_. 0) ?d"
    using root assms by (simp add: fs_format_def disk_is_ram_def Let_def info_bytes_def root_fat_def cong: if_cong)
  show "disk_present (fs_format s)" "boot_sector (fs_format s) = format_boot_sector"
    "fat_cache_ready (fs_format s) = fat_cache_ready s" "fat_alloc_hint (fs_format s) = fat_alloc_hint s"
    using d by (simp_all add: eq)
  show "ram_disk (fs_format s) a = (if 32 < a div 512 \<and> a div 512 \<le> 540 then 0 else if a div 512 = 32 then root_fat (a mod 512)
       else if a div 512 = 1 then info_bytes (a mod 512) else if a div 512 = 0 then boot_bytes format_boot_sector (a mod 512)
       else ram_disk s a)"
    unfolding eq using d(1) assms m by (simp add: disk_put_byte cl DISK_MAX_SECTORS_def)
qed

section \<open>The boot sector on disk\<close>

named_theorems layout \<open>reading a field past the write of another\<close>

lemma get16_put_list [layout]: "b + 2 \<le> a \<or> a + length xs \<le> b \<Longrightarrow> get16 (put_list a xs d) b = get16 d b"
  by (auto simp: get16_def put_list_def)

lemma get32_put_list [layout]: "b + 4 \<le> a \<or> a + length xs \<le> b \<Longrightarrow> get32 (put_list a xs d) b = get32 d b"
  by (auto simp: get32_def put_list_def)

lemma get32_upd [layout]: "x < b \<or> b + 4 \<le> x \<Longrightarrow> get32 (d(x := v)) b = get32 d b"
  by (auto simp: get32_def)

lemma get_list_upd [layout]: "x < b \<or> b + n \<le> x \<Longrightarrow> get_list (d(x := v)) b n = get_list d b n"
  by (auto simp: get_list_def)

lemma get_list_put16 [layout]: "b + n \<le> a \<or> a + 2 \<le> b \<Longrightarrow> get_list (put16 a v d) b n = get_list d b n"
  by (auto simp: get_list_def put16_def)

lemma get_list_put32 [layout]: "b + n \<le> a \<or> a + 4 \<le> b \<Longrightarrow> get_list (put32 a v d) b n = get_list d b n"
  by (auto simp: get_list_def put32_def)

lemma get_list_put_list [layout]: "b + n \<le> a \<or> a + length xs \<le> b \<Longrightarrow> get_list (put_list a xs d) b n = get_list d b n"
  by (auto simp: get_list_def put_list_def)

lemma get_list_same [layout]: "n = length xs \<Longrightarrow> get_list (put_list a xs d) a n = xs"
  by (auto simp: get_list_def put_list_def intro: nth_equalityI)

lemma put_list_other [layout]: "x < a \<or> a + length xs \<le> x \<Longrightarrow> put_list a xs d x = d x"
  by (auto simp: put_list_def)

lemmas layout_more [layout] = get16_other get16_put32 get32_put16 get16_upd put16_other put32_other get32_put32_other

definition boot_lengths :: "fat32_boot_sector_t \<Rightarrow> bool" where
  "boot_lengths b \<longleftrightarrow> length (jump (bpb b)) = 3 \<and> length (oem_name (bpb b)) = 8 \<and> length (bs_reserved b) = 12
     \<and> length (volume_label b) = 11 \<and> length (fs_type b) = 8 \<and> length (boot_code b) = 420"

lemma boot_bytes_roundtrip:
  assumes "boot_lengths b"
  shows "boot_of_bytes (boot_bytes b) = b"
proof -
  have "bpb (boot_of_bytes (boot_bytes b)) = bpb b"
    using assms by (simp add: boot_lengths_def boot_of_bytes_def boot_bytes_def bpb_bytes_def layout)
  then show ?thesis
    using assms by (intro fat32_boot_sector_t.equality)
      (simp_all add: boot_lengths_def boot_of_bytes_def boot_bytes_def layout)
qed

lemma boot_of_bytes_cong: "(\<And>i. i < 512 \<Longrightarrow> d i = d' i) \<Longrightarrow> boot_of_bytes d = boot_of_bytes d'"
  by (simp add: boot_of_bytes_def get16_def get32_def get_list_def)

section \<open>The formatted disk\<close>

lemma get32_zero: "(\<And>i. i < 4 \<Longrightarrow> d (a + i) = 0) \<Longrightarrow> get32 d a = 0"
  using get32_cong [of d a "\<lambda>_. 0"] by (simp add: get32_def)

lemma format_entry:
  assumes "disk_present s" "2 \<le> unat c" "unat c < 65024"
  shows "ent (fs_format s) c = 0"
proof -
  note f = fs_format_disk [OF assms(1)]
  show ?thesis unfolding ent_def format_geometry(2) [OF f(2)]
  proof (rule get32_zero)
    fix i :: nat assume i: "i < 4"
    define a where "a = 512 * 32 + 4 * unat c + i"
    have a: "512 * 32 + 8 \<le> a" "a < 512 * 540" using assms(2,3) i by (simp_all add: a_def)
    then have s: "32 \<le> a div 512" "a div 512 < 540" by (simp_all add: less_eq_div_iff_mult_less_eq less_mult_imp_div_less)
    have "root_fat (a mod 512) = 0" if "a div 512 = 32"
    proof -
      have "a mod 512 + 512 * (a div 512) = a" by simp
      then have "8 \<le> a mod 512" using a(1) that by linarith
      then show ?thesis by (simp add: root_fat_def put32_other)
    qed
    then show "ram_disk (fs_format s) (512 * 32 + 4 * unat c + i) = 0"
      using s unfolding a_def [symmetric] f(5) by auto
  qed
qed

lemma format_info: "disk_present s \<Longrightarrow> free_count (fs_format s) = 0xFFFFFFFF"
proof -
  assume d: "disk_present s"
  have "free_count (fs_format s) = get32 (ram_disk (fs_format s)) 512"
    using fs_format_disk(2) [OF d] by (simp add: free_count_def format_boot_sector_def)
  also have "\<dots> = get32 info_bytes 0"
  proof -
    have "ram_disk (fs_format s) (512 + i) = info_bytes i" if "i < 4" for i
      using that by (simp add: fs_format_disk(5) [OF d] div_add_self1 mod_add_self1)
    then show ?thesis by (intro get32_cong) simp
  qed
  finally show ?thesis by (simp add: info_bytes_def)
qed

lemma slot_first_byte: "hd (de_name (slot s (c, k, j))) = ram_disk s (caddr s c + 512 * k + 32 * j)"
  by (simp add: slot_def sector_buf_def dir_entries_def upt_conv_Cons Let_def)

lemma format_root_empty:
  assumes "disk_present s"
  shows "listing (fs_format s) [2] = []" "wf_dir (fs_format s) [2]"
proof -
  note f = fs_format_disk [OF assms] and g = format_geometry [OF fs_format_disk(2) [OF assms]]
  have "hd (de_name (slot (fs_format s) (2, 0, j))) = 0" if "j < 16" for j
  proof -
    have "caddr (fs_format s) 2 + 512 * 0 + 32 * j = 512 * 540 + 32 * j" by (simp add: caddr_def g)
    moreover have "(512 * 540 + 32 * j) div 512 = 540" using that by simp
    ultimately show ?thesis by (simp only: slot_first_byte f(5)) simp
  qed
  then have z: "\<forall>e\<in>set (dir_of (fs_format s) [2]). hd (de_name e) = 0"
    by (auto simp: dir_of_def set_slots g)
  then show "listing (fs_format s) [2] = []"
    by (cases "dir_of (fs_format s) [2]") (simp_all add: listing_def live_entries_def)
  show "wf_dir (fs_format s) [2]" using z by (auto simp: wf_dir_def dest: set_dropWhileD)
qed

lemma format_inv:
  assumes "disk_present s" "\<not> fat_cache_ready s"
  shows "fat_inv (fs_format s)" "frees (fs_format s) = {c. valid (fs_format s) c}"
proof -
  note f = fs_format_disk [OF assms(1)] and g = format_geometry [OF fs_format_disk(2) [OF assms(1)]]
  show "fat_inv (fs_format s)" using assms(2) f(1) g(7) by (simp add: fat_inv_def cache_ok_def f(3))
  show "frees (fs_format s) = {c. valid (fs_format s) c}"
    using format_entry [OF assms(1)] by (auto simp: frees_def valid_def g)
qed

text \<open>
  C32. The formatted RAM disk is a consistent file system: its geometry and table satisfy the
  invariant every operation relies on, each sector behind the table belongs to a cluster and each
  cluster has its entry inside the table (the table is neither too small, so that entries would land
  in the data area, nor short of clusters), the free count is marked unknown, the root directory
  lists nothing, and the first sector reads back as the boot sector that was written.
\<close>

theorem fs_format_consistent:
  assumes "disk_present s" "\<not> fat_cache_ready s"
  shows "let t = fs_format s in fat_inv t \<and> fsinfo_ok t \<and> data_start t + (max_cl t - 2) * spc_of t = DISK_MAX_SECTORS
    \<and> (\<forall>c. valid t c \<longrightarrow> 512 * fat_start t + 4 * unat c + 4 \<le> 512 * data_start t)
    \<and> frees t = {c. valid t c} \<and> listing t [root_cluster (boot_sector t)] = []
    \<and> (\<exists>d. disk_read_sector 0 t = Some d \<and> boot_of_bytes d = boot_sector t)"
proof -
  define t where "t = fs_format s"
  note f = fs_format_disk [OF assms(1), folded t_def] and g = format_geometry [OF fs_format_disk(2) [OF assms(1)], folded t_def]
  have "boot_of_bytes (ram_disk t) = boot_of_bytes (boot_bytes format_boot_sector)"
    by (rule boot_of_bytes_cong) (simp add: f(5))
  also have "\<dots> = format_boot_sector"
    by (rule boot_bytes_roundtrip) (simp add: boot_lengths_def format_boot_sector_def FAT32_TYPE_def)
  finally have "disk_read_sector 0 t = Some (ram_disk t) \<and> boot_of_bytes (ram_disk t) = boot_sector t"
    using f(1,2) by (simp add: disk_read_sector_def DISK_MAX_SECTORS_def)
  moreover have "root_cluster (boot_sector t) = 2" using f(2) by (simp add: format_boot_sector_def)
  moreover have "data_start t + (max_cl t - 2) * spc_of t = DISK_MAX_SECTORS" by (simp add: g DISK_MAX_SECTORS_def)
  moreover have "512 * fat_start t + 4 * unat c + 4 \<le> 512 * data_start t" if "valid t c" for c
    using that by (simp add: g valid_def)
  moreover have "fsinfo_ok t" using format_info [OF assms(1)] by (simp add: t_def fsinfo_ok_def)
  ultimately show ?thesis
    using format_inv [OF assms(1,2)] format_root_empty(1) [OF assms(1)]
    unfolding t_def [symmetric] Let_def by simp
qed

text \<open>The state before the first format: a present, empty RAM disk.\<close>

definition blank_disk :: fat_state where
  "blank_disk = \<lparr>disk_present = True, ram_disk = \<lambda>_. 0, boot_sector = format_boot_sector, fat_buffer = \<lambda>_. 0,
     fat_cache_ready = False, fat_alloc_hint = 2\<rparr>"

lemma blank_disk_fields: "disk_present blank_disk" "\<not> fat_cache_ready blank_disk" "fat_alloc_hint blank_disk = 2"
  by (simp_all add: blank_disk_def)

theorem fs_format_consistent_witness:
  "disk_present blank_disk \<and> fat_inv (fs_format blank_disk) \<and> listing (fs_format blank_disk) [root_cluster (boot_sector (fs_format blank_disk))] = []"
  using fs_format_consistent [OF blank_disk_fields(1,2)] blank_disk_fields(1) by (simp add: Let_def)

section \<open>The first allocation\<close>

lemma alloc_hint_free:
  assumes inv: "fat_inv s" and h: "fat_alloc_hint s \<in> frees s"
  shows "\<exists>s'. fat_alloc_cluster s = Some (fat_alloc_hint s, s')"
proof -
  have v: "valid s (fat_alloc_hint s)" "ent s (fat_alloc_hint s) = 0" using h by (simp_all add: frees_def)
  note t = valid_in_table [OF v(1)]
  have m: "unat (alloc_max_cluster s) = max_cl s" using inv by (simp add: unat_max_cluster fat_inv_def)
  then have "\<not> (fat_alloc_hint s < 2 \<or> fat_alloc_hint s \<ge> alloc_max_cluster s)"
    using v(1) by (auto simp: valid_def word_less_nat_alt word_le_nat_alt)
  moreover obtain s' where "fat_write_entry (fat_alloc_hint s) FAT32_EOC_MARK s = (True, s')"
    by (rule fat_write_entry_step [OF inv t])
  ultimately show ?thesis
    using fat_read_entry_eq [OF inv t] v(2)
    by (simp add: fat_alloc_cluster_def alloc_scan.simps Let_def)
qed

text \<open>
  C36. The format leaves the table entry of the root directory free: on a freshly formatted disk with
  the boot-time allocation hint, the first cluster the allocator hands out (to \<open>/home\<close>, which
  \<open>fs_init\<close> creates next) is the root directory's own cluster.
\<close>

theorem format_root_unreserved:
  assumes "disk_present s" "\<not> fat_cache_ready s" "fat_alloc_hint s = 2"
  shows "\<exists>s'. fat_alloc_cluster (fs_format s) = Some (root_cluster (boot_sector (fs_format s)), s')"
proof -
  note f = fs_format_disk [OF assms(1)] and g = format_geometry [OF fs_format_disk(2) [OF assms(1)]]
  have "root_cluster (boot_sector (fs_format s)) = fat_alloc_hint (fs_format s)"
    using f(2,4) assms(3) by (simp add: format_boot_sector_def)
  moreover have "fat_alloc_hint (fs_format s) \<in> frees (fs_format s)"
    using format_inv(2) [OF assms(1,2)] f(4) assms(3) by (simp add: valid_def g)
  ultimately show ?thesis using alloc_hint_free [OF format_inv(1) [OF assms(1,2)]] by simp
qed

theorem format_root_unreserved_witness:
  "\<exists>s'. fat_alloc_cluster (fs_format blank_disk) = Some (root_cluster (boot_sector (fs_format blank_disk)), s')"
  using format_root_unreserved [OF blank_disk_fields] .

end
