(* ===== verification/Fs_Files.thy ===== *)
theory Fs_Files
  imports Fs_Format
begin

unbundle bit_operations_syntax

text \<open>
  Writing and reading files on the FAT disk: what is written is read back, nobody else's clusters
  are touched, and a write that does not fit changes nothing.
\<close>

section \<open>States that agree on the disk\<close>

definition fat_same :: "'a fat \<Rightarrow> 'b fat \<Rightarrow> bool" where
  "fat_same s t \<longleftrightarrow> disk_present t = disk_present s \<and> ram_disk t = ram_disk s \<and> boot_sector t = boot_sector s
     \<and> fat_buffer t = fat_buffer s \<and> fat_cache_ready t = fat_cache_ready s"

lemma fat_same_eq:
  assumes "fat_same s t"
  shows "fat_inv t = fat_inv s" "fchain t = fchain s" "frees t = frees s" "content t = content s"
    "fsinfo_ok t = fsinfo_ok s" "valid t = valid s" "slot t = slot s" "slots t = slots s" "cbytes t = cbytes s"
    "clusters_for t = clusters_for s"
proof -
  have b: "boot_sector t = boot_sector s" and r: "ram_disk t = ram_disk s"
    and o: "disk_present t = disk_present s" "fat_buffer t = fat_buffer s" "fat_cache_ready t = fat_cache_ready s"
    using assms by (auto simp: fat_same_def)
  have geo: "spc_of t = spc_of s" "fat_start t = fat_start s" "fat_sectors t = fat_sectors s" "data_start t = data_start s"
    "max_cl t = max_cl s" "valid t = valid s" "in_table t = in_table s" "cbytes t = cbytes s" "caddr t = caddr s"
    by (simp_all only: spc_of_def fat_start_def fat_sectors_def data_start_def max_cl_def valid_def [abs_def]
        in_table_def [abs_def] cbytes_def caddr_def [abs_def] b)
  have e: "ent t = ent s" by (simp only: ent_def [abs_def] geo r)
  show "fat_inv t = fat_inv s" by (simp only: fat_inv_def geom_def cache_ok_def geo e b o)
  show "fchain t = fchain s" by (simp only: fchain_def [abs_def] geo e)
  show fr: "frees t = frees s" by (simp only: frees_def geo e)
  show "content t = content s" by (simp only: content_def [abs_def] chain_byte_def [abs_def] geo r)
  show "fsinfo_ok t = fsinfo_ok s" by (simp only: fsinfo_ok_def free_count_def fr b r)
  show "valid t = valid s" "cbytes t = cbytes s" by (fact geo)+
  show "slot t = slot s" by (simp only: slot_def [abs_def] sector_buf_def geo r)
  show "slots t = slots s" by (simp only: slots_def [abs_def] geo)
  show "clusters_for t = clusters_for s" by (simp only: clusters_for_def [abs_def] geo)
qed

lemma fat_same_upd_ent [simp]: "fat_same s (upd_ent p f s)"
  by (simp add: fat_same_def upd_ent_def)

lemma fat_same_error [simp]: "fat_same s (s\<lparr>fs_last_error := e\<rparr>)"
  by (simp add: fat_same_def)

lemma same_more:
  fixes s t :: fs_state
  assumes "fat_state.more t = fat_state.more s"
  shows "ents t = ents s" "kids t = kids s" "fs_heap t = fs_heap s" "fs_root t = fs_root s"
    "fs_current t = fs_current s" "fs_last_error t = fs_last_error s"
  using assms by (cases s; cases t; simp)+

lemma fs_frame_more: "fs_frame C s t \<Longrightarrow> fat_state.more t = fat_state.more s"
  by (simp add: fs_frame_def)

section \<open>The directory entry of a file\<close>

definition names_file :: "u8 list \<Rightarrow> fat32_dir_entry_t \<Rightarrow> bool" where
  "names_file sn e \<longleftrightarrow> de_name e = sn \<and> hd (de_name e) \<noteq> 0xE5"

text \<open>The first element with a property, replaced.\<close>

fun upd_first :: "('e \<Rightarrow> bool) \<Rightarrow> ('e \<Rightarrow> 'e) \<Rightarrow> 'e list \<Rightarrow> 'e list" where
  "upd_first P f [] = []"
| "upd_first P f (x # xs) = (if P x then f x # xs else x # upd_first P f xs)"

lemma upd_first_split: "\<forall>x\<in>set pre. \<not> P x \<Longrightarrow> P y \<Longrightarrow> upd_first P f (pre @ y # post) = pre @ f y # post"
  by (induction pre) auto

lemma upd_first_none: "\<forall>x\<in>set xs. \<not> P x \<Longrightarrow> upd_first P f xs = xs"
  by (induction xs) auto

lemma update_parent_spec:
  fixes s :: fs_state
  assumes inv: "fat_inv s" and ch: "fchain s ds" and p: "fe_parent (ents s file) \<noteq> 0"
    and d: "hd ds = fe_first_cluster (ents s (fe_parent (ents s file)))"
  obtains s' where "update_parent file c sz s = Some (True, s')" "fs_frame (set ds) s s'" "fchain s' ds"
    "frees s' = frees s" "fsinfo_ok s \<longrightarrow> fsinfo_ok s'"
    "dir_of s' ds = upd_first (names_file (fe_disk_name (ents s file))) (set_entry_file c sz) (dir_of s ds)"
proof -
  let ?P = "names_file (fe_disk_name (ents s file))"
  obtain d0 ds' where ds: "ds = d0 # ds'" using ch by (cases ds) (auto simp: fchain_def)
  have loop: "find_entry_loop ?P (hd ds) s = Some (map_option (slot_ref s) (find_pos ?P s (slots s ds)))"
    using find_entry_loop_spec [OF inv, of d0 ds' ?P] ch by (simp add: ds)
  note eq = update_parent_def names_file_def [of "fe_disk_name (ents s file)", abs_def, symmetric]
  show thesis
  proof (cases "find_pos ?P s (slots s ds)")
    case None
    then have "update_parent file c sz s = Some (True, s)"
      using loop p d by (simp add: eq)
    moreover have "\<forall>x\<in>set (dir_of s ds). \<not> ?P x" using None by (auto simp: find_pos_None dir_of_def)
    ultimately show thesis using that fs_frame_refl [OF inv] ch by (simp add: upd_first_none)
  next
    case (Some q)
    obtain sector buffer j where r: "slot_ref s q = (sector, buffer, j)" by (rule prod_cases3)
    have g: "geom s" and v: "\<forall>c\<in>set ds. valid s c" using inv ch by (auto simp: fat_inv_def fchain_def)
    let ?e = "set_entry_file c sz (slot s q)"
    have e: "dir_entries buffer j = slot s q"
      using r prod_cases3 [of q] by (auto simp: slot_ref_def slot_def split: prod.splits)
    have "update_parent file c sz s = Some (True, put_slot q ?e s)"
      using write_slot_ref [OF g find_pos_Some(1) [OF Some] v r, of ?e] loop p d Some r e by (simp add: eq)
    moreover have "length (de_name ?e) = 11" by (simp add: set_entry_file_def flip: e)
    note pd = put_slot_dir [OF inv ch this Some]
    obtain pre post where "dir_of s ds = pre @ slot s q # post" "dir_of (put_slot q ?e s) ds = pre @ ?e # post" "\<forall>x\<in>set pre. \<not> ?P x"
      using pd(5) by blast
    then have "dir_of (put_slot q ?e s) ds = upd_first ?P (set_entry_file c sz) (dir_of s ds)"
      using find_pos_Some(2) [OF Some] by (simp add: upd_first_split)
    ultimately show thesis using that pd(1-4) by blast
  qed
qed

section \<open>Chains that survive\<close>

text \<open>A chain that is as it was: linked, holding the same bytes and, read as a directory, the same entries.\<close>

definition kept :: "u32 list \<Rightarrow> 'a fat \<Rightarrow> 'a fat \<Rightarrow> bool" where
  "kept gs s s' \<longleftrightarrow> fchain s' gs \<and> cbytes s' = cbytes s \<and> dir_of s' gs = dir_of s gs
     \<and> (\<forall>n. n \<le> cbytes s * length gs \<longrightarrow> content s' gs n = content s gs n)"

lemma kept_trans: "kept gs s s' \<Longrightarrow> kept gs s' s'' \<Longrightarrow> kept gs s s''"
  by (simp add: kept_def)

lemma kept_same: "fat_same s s' \<Longrightarrow> fchain s gs \<Longrightarrow> kept gs s s'"
  by (simp add: kept_def dir_of_def fat_same_eq [of s s'])

lemma kept_frame:
  assumes "fs_frame C s s'" "fchain s gs" "set gs \<inter> C = {}" "\<And>d. d \<in> C \<Longrightarrow> valid s d"
  shows "kept gs s s'"
proof -
  note same = fs_frame_same [OF assms(1)]
  have "dir_of s' gs = dir_of s gs"
    using assms(2,3) by (intro dir_of_frame [OF same(2)] fs_frame_byte [OF assms(1) _ _ assms(4)]) (auto simp: fchain_def)
  then show ?thesis
    using chain_frame [OF assms(1,2,3)] content_frame [OF assms] same(5) by (simp add: kept_def)
qed

section \<open>Writing\<close>

text \<open>The chain of the old content: empty for a file that has none.\<close>

definition old_chain :: "fs_state \<Rightarrow> u64 \<Rightarrow> u32 list \<Rightarrow> bool" where
  "old_chain s file cs \<longleftrightarrow> (if fe_first_cluster (ents s file) = 0 then cs = []
     else fchain s cs \<and> hd cs = fe_first_cluster (ents s file))"

text \<open>The release of the old content.\<close>

lemma free_old_chain:
  fixes s :: fs_state
  assumes inv: "fat_inv s" and old: "c = 0 \<and> cs = [] \<or> c \<noteq> 0 \<and> fchain s cs \<and> hd cs = c"
  obtains s' where "(if c \<noteq> 0 then map_option (\<lambda>(_, s). (n, s)) (fat_free_cluster_chain c s) else Some (n, s)) = Some (n, s')"
    "fs_frame (set cs) s s'" "frees s' = frees s \<union> set cs" "fsinfo_ok s \<longrightarrow> fsinfo_ok s'"
proof (cases "c = 0")
  case True
  then show thesis using that [of s] old fs_frame_refl [OF inv] by simp
next
  case False
  obtain d ds where cs: "cs = d # ds" using old False by (cases cs) (auto simp: fchain_def)
  have ch: "fchain s (c # ds)" using old False by (auto simp: cs)
  obtain s' where s': "fat_free_cluster_chain c s = Some (True, s')"
    "fat_step (\<lambda>x. if x \<in> set (c # ds) then 0 else ent s x) s s'" "fsinfo_ok s \<longrightarrow> fsinfo_ok s'"
    using fat_free_cluster_chain_spec [OF inv ch] by blast
  have "frees s' = frees s \<union> set cs"
    unfolding frees_step [OF s'(2)] using ch old False by (auto simp: frees_def fchain_def cs)
  moreover have "fs_frame (set cs) s s'"
    using old False by (intro fs_frame_step [OF s'(2)]) (auto simp: cs)
  ultimately show thesis using that [of s'] s'(1,3) False by simp
qed

lemma clusters_hold:
  assumes "geom s"
  shows "sz \<le> cbytes s * clusters_for s sz"
  using dividend_less_times_div [OF cbytes_pos [OF assms], of "sz - 1"] by (simp add: clusters_for_def)

lemma old_chain_valid: "old_chain s file os \<Longrightarrow> c \<in> set os \<Longrightarrow> valid s c"
  by (auto simp: old_chain_def fchain_def split: if_splits)

text \<open>The first half of a write: the new content and the directory entry that names it.\<close>

lemma write_new_content:
  fixes s :: fs_state
  assumes inv: "fat_inv s" and ds: "fchain s ds" "hd ds = fe_first_cluster (ents s (fe_parent (ents s file)))"
    and p: "fe_parent (ents s file) \<noteq> 0" and room: "clusters_for s sz \<le> card (frees s)"
  obtains s1 s2 cs where "fat_write_data sz data s = Some (Inr (hd cs), s1)" "update_parent file (hd cs) sz s1 = Some (True, s2)"
    "fs_frame (set cs \<union> set ds) s s2" "length cs = clusters_for s sz" "set cs \<subseteq> frees s" "frees s2 = frees s - set cs"
    "fchain s2 cs" "content s2 cs sz = map data [0..<sz]" "fsinfo_ok s \<longrightarrow> fsinfo_ok s2" "fchain s2 ds"
    "ents s1 = ents s"
    "dir_of s2 ds = upd_first (names_file (fe_disk_name (ents s file))) (set_entry_file (hd cs) sz) (dir_of s ds)"
proof -
  obtain cs s1 where s1: "fat_write_data sz data s = Some (Inr (hd cs), s1)" "length cs = clusters_for s sz"
    "set cs \<subseteq> frees s" "fchain s1 cs" "fs_frame (set cs) s s1" "frees s1 = frees s - set cs"
    "content s1 cs sz = map data [0..<sz]" "fsinfo_ok s \<longrightarrow> fsinfo_ok s1"
    using fat_write_data_ok [OF inv room, of data] by blast
  note same1 = fs_frame_same [OF s1(5)] and more1 = same_more [OF fs_frame_more [OF s1(5)]]
  have disj: "set ds \<inter> set cs = {}" using chain_not_free [OF ds(1)] s1(3) by blast
  have vc: "valid s c" if "c \<in> set cs" for c using s1(3) that by (auto simp: frees_def)
  have k1: "kept ds s s1" by (rule kept_frame [OF s1(5) ds(1) disj vc])
  then have ds1: "fchain s1 ds" by (simp add: kept_def)
  obtain s2 where s2: "update_parent file (hd cs) sz s1 = Some (True, s2)" "fs_frame (set ds) s1 s2" "fchain s2 ds"
    "frees s2 = frees s1" "fsinfo_ok s1 \<longrightarrow> fsinfo_ok s2"
    "dir_of s2 ds = upd_first (names_file (fe_disk_name (ents s1 file))) (set_entry_file (hd cs) sz) (dir_of s1 ds)"
    using update_parent_spec [OF same1(1) ds1, where c = "hd cs"] p ds(2) more1(1) by metis
  have vd: "valid s1 c" if "c \<in> set ds" for c using ds1 that by (simp add: fchain_def)
  have kc: "kept cs s1 s2" by (rule kept_frame [OF s2(2) s1(4) _ vd]) (use disj in blast)
  have "sz \<le> cbytes s1 * length cs"
    using clusters_hold [of s sz] inv by (simp add: s1(2) same1(5) fat_inv_def)
  then have ct: "fchain s2 cs" "content s2 cs sz = map data [0..<sz]" using kc s1(7) by (simp_all add: kept_def)
  have fr: "fs_frame (set cs \<union> set ds) s s2"
    by (rule fs_frame_trans [OF fs_frame_mono [OF s1(5)] fs_frame_mono [OF s2(2)]]) simp_all
  show thesis
    by (rule that [OF s1(1) s2(1) fr s1(2,3) _ ct _ s2(3) more1(1)])
      (use s1(6,8) s2(4-6) k1 more1(1) in \<open>auto simp: kept_def\<close>)
qed

lemma fs_write_file_fat_ok:
  fixes s :: fs_state
  assumes inv: "fat_inv s" and ds: "fchain s ds" "hd ds = fe_first_cluster (ents s (fe_parent (ents s file)))"
    and p: "fe_parent (ents s file) \<noteq> 0" and old: "old_chain s file os" and disj: "set os \<inter> set ds = {}"
    and room: "clusters_for s sz \<le> card (frees s)"
  obtains s' cs where "fs_write_file_fat file sz data s = Some (int sz, s')" "fat_inv s'" "fchain s' cs"
    "length cs = clusters_for s sz" "content s' cs sz = map data [0..<sz]" "boot_sector s' = boot_sector s"
    "ents s' = (ents s)(file := (ents s file)\<lparr>fe_first_cluster := hd cs, fe_size := of_nat sz\<rparr>)"
    "frees s' = (frees s - set cs) \<union> set os" "fsinfo_ok s \<longrightarrow> fsinfo_ok s'"
    "\<forall>gs. fchain s gs \<and> set gs \<inter> (set os \<union> set ds) = {} \<longrightarrow> kept gs s s'" "fchain s' ds"
    "dir_of s' ds = upd_first (names_file (fe_disk_name (ents s file))) (set_entry_file (hd cs) sz) (dir_of s ds)"
    "set cs \<subseteq> frees s" "kids s' = kids s" "fs_heap s' = fs_heap s" "fs_root s' = fs_root s" "fs_current s' = fs_current s"
proof -
  obtain s1 s2 cs where s2: "fat_write_data sz data s = Some (Inr (hd cs), s1)" "update_parent file (hd cs) sz s1 = Some (True, s2)"
    "fs_frame (set cs \<union> set ds) s s2" "length cs = clusters_for s sz" "set cs \<subseteq> frees s" "frees s2 = frees s - set cs"
    "fchain s2 cs" "content s2 cs sz = map data [0..<sz]" "fsinfo_ok s \<longrightarrow> fsinfo_ok s2" "fchain s2 ds"
    "ents s1 = ents s"
    "dir_of s2 ds = upd_first (names_file (fe_disk_name (ents s file))) (set_entry_file (hd cs) sz) (dir_of s ds)"
    by (rule write_new_content [OF inv ds p room])
  note same2 = fs_frame_same [OF s2(3)] and more2 = same_more [OF fs_frame_more [OF s2(3)]]
  have vs: "valid s c" if "c \<in> set cs \<union> set ds" for c using s2(5) that ds(1) by (auto simp: frees_def fchain_def)
  have nf: "set gs \<inter> set cs = {}" if "fchain s gs" for gs using chain_not_free [OF that] s2(5) by blast
  have k2: "kept gs s s2" if "fchain s gs" "set gs \<inter> set ds = {}" for gs
    by (rule kept_frame [OF s2(3) that(1) _ vs]) (use nf [OF that(1)] that(2) in blast)
  let ?s = "upd_ent file (\<lambda>n. n\<lparr>fe_first_cluster := hd cs, fe_size := of_nat sz\<rparr>) s2"
  note eq = fat_same_eq [OF fat_same_upd_ent [of s2 "file" "\<lambda>n. n\<lparr>fe_first_cluster := hd cs, fe_size := of_nat sz\<rparr>"]]
  have "fe_first_cluster (ents s file) = 0 \<and> os = [] \<or>
    fe_first_cluster (ents s file) \<noteq> 0 \<and> fchain ?s os \<and> hd os = fe_first_cluster (ents s file)"
    using old k2 [of os] disj eq(2) by (auto simp: old_chain_def kept_def split: if_splits)
  then obtain s3 where s3: "(if fe_first_cluster (ents s file) \<noteq> 0
      then map_option (\<lambda>(_, s). (int sz, s)) (fat_free_cluster_chain (fe_first_cluster (ents s file)) ?s)
      else Some (int sz, ?s)) = Some (int sz, s3)"
    "fs_frame (set os) ?s s3" "frees s3 = frees ?s \<union> set os" "fsinfo_ok ?s \<longrightarrow> fsinfo_ok s3"
    using free_old_chain [of ?s _ os "int sz"] same2(1) eq(1) by metis
  note same3 = fs_frame_same [OF s3(2)] and more3 = same_more [OF fs_frame_more [OF s3(2)]]
  have k3: "kept gs s2 s3" if "fchain s2 gs" "set gs \<inter> set os = {}" for gs
    using kept_trans [OF kept_same [OF fat_same_upd_ent that(1)] kept_frame [OF s3(2)]] that old_chain_valid [OF old] eq(2,6) same2(3) by simp
  have others: "kept gs s s3" if "fchain s gs" "set gs \<inter> (set os \<union> set ds) = {}" for gs
    using kept_trans [OF k2 [OF that(1)] k3] k2 [OF that(1)] that(2) by (simp add: kept_def Int_Un_distrib)
  have kds: "kept ds s2 s3" using k3 [OF s2(10)] disj by blast
  have kcs: "kept cs s2 s3" using k3 [OF s2(7)] nf [of os] old by (auto simp: old_chain_def split: if_splits)
  have hold: "sz \<le> cbytes s2 * length cs" using clusters_hold [of s sz] inv by (simp add: s2(4) same2(5) fat_inv_def)
  show thesis
  proof (rule that [of s3 cs])
    show "fs_write_file_fat file sz data s = Some (int sz, s3)"
      using s3(1) by (simp add: fs_write_file_fat_def s2(1,2) more2(1) Let_def split: if_splits)
    show "fchain s3 cs" "content s3 cs sz = map data [0..<sz]" "fchain s3 ds"
      using kcs kds hold s2(8) by (simp_all add: kept_def)
    show "boot_sector s3 = boot_sector s" using same2(2) same3(2) by (simp add: upd_ent_def)
    show "ents s3 = (ents s)(file := (ents s file)\<lparr>fe_first_cluster := hd cs, fe_size := of_nat sz\<rparr>)"
      using more2(1) more3(1) by (simp add: upd_ent_def)
    show "dir_of s3 ds = upd_first (names_file (fe_disk_name (ents s file))) (set_entry_file (hd cs) sz) (dir_of s ds)"
      using s2(12) kds by (simp add: kept_def)
    show "kids s3 = kids s" "fs_heap s3 = fs_heap s" "fs_root s3 = fs_root s" "fs_current s3 = fs_current s"
      using more2(2-5) more3(2-5) by (simp_all add: upd_ent_def)
  qed (use same3(1) s2(4,5,6,9) s3(3,4) eq(3,5) others in auto)
qed

lemma fs_read_chain:
  fixes s :: fs_state and n :: nat
  assumes inv: "fat_inv s" and ch: "fchain s cs" and f: "file \<noteq> 0" "fe_type (ents s file) = FS_TYPE_FILE"
    "fe_backend (ents s file) = FS_BACKEND_FAT" "fe_first_cluster (ents s file) = hd cs"
    and fit: "unat (fe_size (ents s file)) \<le> cbytes s * length cs"
  defines "m \<equiv> min n (unat (fe_size (ents s file)))"
  shows "\<exists>b. fs_read_file x file n s buffer = Some (int m, b) \<and> (\<forall>i. b i = (if i < m then chain_byte s cs i else buffer i))"
proof -
  obtain c ds where cs: "cs = c # ds" using ch by (cases cs) (auto simp: fchain_def)
  have nz: "c \<noteq> 0" using ch valid_not_mark [of s c] by (simp add: cs fchain_def)
  have "m \<le> 0 + cbytes s * length (c # ds)" using fit by (simp add: m_def cs)
  from read_clusters_spec [OF inv ch [unfolded cs] le0 this, of buffer]
  obtain b where "read_clusters c 0 m s buffer = Some (True, m, b)"
    "\<forall>i. b i = (if i < m then chain_byte s cs i else buffer i)" by (auto simp: cs)
  moreover have "(if unat (fe_size (ents s file)) < n then unat (fe_size (ents s file)) else n) = m" by (simp add: m_def)
  ultimately show ?thesis using f nz by (simp add: fs_read_file_def cs)
qed

text \<open>
  C10. A file written to the FAT disk is read back: the write stores every byte, a later read of any
  length into any buffer returns exactly the bytes written (up to the end of the file) and leaves the
  rest of the buffer alone. The file gets a chain of free clusters of the right length, its old
  clusters become free, its directory entry carries the new first cluster and size, every other chain
  of the disk keeps its links and its bytes, and the free count of the FSInfo sector stays exact.
\<close>

theorem fs_write_read:
  fixes s :: fs_state
  assumes inv: "fat_inv s" and f: "file \<noteq> 0" "fe_type (ents s file) = FS_TYPE_FILE" "fe_backend (ents s file) = FS_BACKEND_FAT"
    and ds: "fchain s ds" "hd ds = fe_first_cluster (ents s (fe_parent (ents s file)))" "fe_parent (ents s file) \<noteq> 0"
    and old: "old_chain s file os" "set os \<inter> set ds = {}"
    and room: "sz \<le> MAX_FILE_SIZE" "clusters_for s sz \<le> card (frees s)"
  shows "\<exists>s' cs. fs_write_file x file sz (Some data) s = Some (int sz, s')
    \<and> (\<forall>n buffer. \<exists>b. fs_read_file x file n s' buffer = Some (int (min n sz), b)
          \<and> (\<forall>i. b i = (if i < min n sz then data i else buffer i)))
    \<and> fat_inv s' \<and> fchain s' cs \<and> set cs \<subseteq> frees s \<and> length cs = clusters_for s sz
    \<and> frees s' = (frees s - set cs) \<union> set os
    \<and> dir_of s' ds = upd_first (names_file (fe_disk_name (ents s file))) (set_entry_file (hd cs) sz) (dir_of s ds)
    \<and> (\<forall>gs. fchain s gs \<and> set gs \<inter> (set os \<union> set ds) = {} \<longrightarrow> kept gs s s')
    \<and> (fsinfo_ok s \<longrightarrow> fsinfo_ok s')"
proof -
  obtain s' cs where s': "fs_write_file_fat file sz data s = Some (int sz, s')" "fat_inv s'" "fchain s' cs"
    "length cs = clusters_for s sz" "content s' cs sz = map data [0..<sz]" "boot_sector s' = boot_sector s"
    "ents s' = (ents s)(file := (ents s file)\<lparr>fe_first_cluster := hd cs, fe_size := of_nat sz\<rparr>)"
    "frees s' = (frees s - set cs) \<union> set os" "fsinfo_ok s \<longrightarrow> fsinfo_ok s'"
    "\<forall>gs. fchain s gs \<and> set gs \<inter> (set os \<union> set ds) = {} \<longrightarrow> kept gs s s'" "fchain s' ds"
    "dir_of s' ds = upd_first (names_file (fe_disk_name (ents s file))) (set_entry_file (hd cs) sz) (dir_of s ds)"
    "set cs \<subseteq> frees s"
    by (rule fs_write_file_fat_ok [OF inv ds old room(2)])
  have sz: "unat (fe_size (ents s' file)) = sz"
    using room(1) by (simp add: s'(7) unat_of_nat MAX_FILE_SIZE_def)
  have hold: "sz \<le> cbytes s' * length cs"
    using clusters_hold [of s sz] inv by (simp add: s'(4) same_places [OF s'(6)] fat_inv_def)
  have byte: "chain_byte s' cs i = data i" if "i < sz" for i
    using arg_cong [OF s'(5), of "\<lambda>l. l ! i"] that by (simp add: content_def)
  have rd: "fe_type (ents s' file) = FS_TYPE_FILE" "fe_backend (ents s' file) = FS_BACKEND_FAT"
    "fe_first_cluster (ents s' file) = hd cs" using f by (simp_all add: s'(7))
  have "\<exists>b. fs_read_file x file n s' buffer = Some (int (min n sz), b)
    \<and> (\<forall>i. b i = (if i < min n sz then data i else buffer i))" for n buffer
  proof -
    obtain b where b: "fs_read_file x file n s' buffer = Some (int (min n sz), b)"
      "\<forall>i. b i = (if i < min n sz then chain_byte s' cs i else buffer i)"
      using fs_read_chain [OF s'(2,3) f(1) rd, of x n buffer] hold unfolding sz by blast
    then show ?thesis using byte by auto
  qed
  moreover have "fs_write_file x file sz (Some data) s = Some (int sz, s')"
    using s'(1) f room(1) by (simp add: fs_write_file_def)
  ultimately show ?thesis using s' by blast
qed

text \<open>
  C23. A write that does not fit fails cleanly: it returns -1 with \<open>FS_ERR_FULL\<close>, every node keeps its
  first cluster and size, every cluster that was free is free again, and every chain of the disk,
  the file's old content included, keeps its links and its bytes.
\<close>

theorem fs_write_full:
  fixes s :: fs_state
  assumes inv: "fat_inv s" and f: "file \<noteq> 0" "fe_type (ents s file) = FS_TYPE_FILE" "fe_backend (ents s file) = FS_BACKEND_FAT"
    and room: "sz \<le> MAX_FILE_SIZE" "card (frees s) < clusters_for s sz"
  shows "\<exists>s'. fs_write_file x file sz (Some data) s = Some (-1, s') \<and> fs_last_error s' = Some FS_ERR_FULL
    \<and> ents s' = ents s \<and> fat_inv s' \<and> frees s' = frees s \<and> (\<forall>gs. fchain s gs \<longrightarrow> kept gs s s')
    \<and> (fsinfo_ok s \<longrightarrow> fsinfo_ok s')"
proof -
  obtain t where t: "fat_write_data sz data s = Some (Inl FS_ERR_FULL, t)" "fs_frame (frees s) s t"
    "\<forall>d. in_table s d \<longrightarrow> ent t d = ent s d" "fsinfo_ok s \<longrightarrow> fsinfo_ok t"
    using fat_write_data_full [OF inv room(2), of data] by blast
  let ?t = "t\<lparr>fs_last_error := Some FS_ERR_FULL\<rparr>"
  note eq = fat_same_eq [OF fat_same_error [of t "Some FS_ERR_FULL"]]
  have k: "kept gs s ?t" if g: "fchain s gs" for gs
  proof (rule kept_trans)
    show "kept gs s t" by (rule kept_frame [OF t(2) g chain_not_free [OF g]]) (simp add: frees_def)
    then show "kept gs t ?t" by (intro kept_same) (simp_all add: kept_def)
  qed
  have "fs_write_file x file sz (Some data) s = Some (-1, ?t)"
    using f room(1) t(1) by (simp add: fs_write_file_def fs_write_file_fat_def)
  moreover have "ents ?t = ents s" using same_more(1) [OF fs_frame_more [OF t(2)]] by simp
  moreover have "fat_inv ?t \<and> frees ?t = frees s \<and> (fsinfo_ok s \<longrightarrow> fsinfo_ok ?t)"
    using fs_frame_same(1) [OF t(2)] same_table(1) [OF t(2,3)] t(4) eq by simp
  ultimately show ?thesis using k by (intro exI [of _ ?t]) simp
qed

section \<open>A disk with one file\<close>

text \<open>A formatted disk whose root directory occupies cluster 2 and whose one file occupies cluster 3.\<close>

definition demo_disk :: bytes where
  "demo_disk = put32 16392 FAT32_EOC_MARK (put32 16396 FAT32_EOC_MARK (\<lambda>_. 0))"

definition demo_node :: fs_entry where
  "demo_node = \<lparr>fe_name = [0x66], fe_type = FS_TYPE_FILE, fe_size = 10, fe_first_cluster = 3, fe_attributes = 0,
     fe_backend = FS_BACKEND_FAT, fe_inode_no = 0, fe_mem_data = 0, fe_mnt = 0,
     fe_disk_name = 0x46 # replicate 10 0x20, fe_parent = 0x1000, fe_children = 0\<rparr>"

definition demo_fs :: fs_state where
  "demo_fs = \<lparr>disk_present = True, ram_disk = demo_disk, boot_sector = format_boot_sector, fat_buffer = \<lambda>_. 0,
     fat_cache_ready = False, fat_alloc_hint = 2, fs_heap = demo_heap,
     ents = (\<lambda>_. demo_node)(0x1000 := demo_node\<lparr>fe_type := FS_TYPE_DIRECTORY, fe_first_cluster := 2, fe_parent := 0\<rparr>),
     kids = \<lambda>_ _. 0, fs_root = 0x1000, fs_current = 0x1000, fs_last_error = None, ext2_mode = False\<rparr>"

definition no_ext2 :: ext2_driver where
  "no_ext2 = \<lparr>x_writable = \<lambda>_ _. False, x_create_file = \<lambda>_ _ _ s. (0, s), x_create_dir = \<lambda>_ _ _ s. (0, s),
     x_write_file = \<lambda>_ _ _ _ s. (-1, s), x_read_file = \<lambda>_ _ _ _ b. (-1, b)\<rparr>"

lemma demo_geometry: "boot_sector demo_fs = format_boot_sector" "disk_present demo_fs" "\<not> fat_cache_ready demo_fs"
  "ram_disk demo_fs = demo_disk"
  by (simp_all add: demo_fs_def)

lemma demo_inv: "fat_inv demo_fs"
  using demo_geometry format_geometry(7) [OF demo_geometry(1)] by (simp add: fat_inv_def cache_ok_def)

lemma demo_ent:
  assumes "2 \<le> unat c"
  shows "ent demo_fs c = (if c = 2 \<or> c = 3 then FAT32_EOC_MARK else 0)"
proof -
  have e: "ent demo_fs c = get32 demo_disk (16384 + 4 * unat c)"
    by (simp add: ent_def format_geometry [OF demo_geometry(1)] demo_geometry)
  have "c = 2 \<or> c = 3 \<or> 4 \<le> unat c" using assms by (auto simp: word_unat_eq_iff)
  moreover have "ent demo_fs c = 0 \<and> c \<noteq> 2 \<and> c \<noteq> 3" if "4 \<le> unat c"
    using that unfolding e by (auto simp: demo_disk_def get32_put32_other) (simp add: get32_def)
  ultimately show ?thesis by (auto simp: e demo_disk_def get32_put32_other)
qed

lemma demo_frees: "frees demo_fs = {c. 4 \<le> unat c \<and> unat c < 64998}"
proof -
  have "valid demo_fs c \<and> ent demo_fs c = 0 \<longleftrightarrow> 4 \<le> unat c \<and> unat c < 64998" for c
  proof (cases "2 \<le> unat c")
    case True
    have "c = 2 \<longleftrightarrow> unat c = 2" "c = 3 \<longleftrightarrow> unat c = 3" by (simp_all add: word_unat_eq_iff)
    then show ?thesis using True by (auto simp: demo_ent [OF True] valid_def format_geometry [OF demo_geometry(1)])
  qed (simp add: valid_def)
  then show ?thesis by (simp add: frees_def)
qed

lemma demo_chains: "fchain demo_fs [2]" "fchain demo_fs [3]" "old_chain demo_fs 0x2000 [3]"
  by (simp_all add: fchain_def demo_ent valid_def format_geometry [OF demo_geometry(1)] old_chain_def)
    (simp add: demo_fs_def demo_node_def)

lemma demo_nodes: "fe_type (ents demo_fs 0x2000) = FS_TYPE_FILE" "fe_backend (ents demo_fs 0x2000) = FS_BACKEND_FAT"
  "fe_parent (ents demo_fs 0x2000) = 0x1000" "fe_first_cluster (ents demo_fs 0x1000) = 2"
  by (simp_all add: demo_fs_def demo_node_def)

lemma demo_fs_room: "clusters_for demo_fs 600 \<le> card (frees demo_fs)"
proof -
  have "{4, 5} \<subseteq> frees demo_fs" by (simp add: demo_frees)
  then have "card {4, 5 :: u32} \<le> card (frees demo_fs)" by (rule card_mono [rotated]) simp
  then show ?thesis by (simp add: clusters_for_def format_geometry [OF demo_geometry(1)])
qed

theorem fs_write_read_witness:
  "\<exists>s' b. fs_write_file no_ext2 0x2000 600 (Some (\<lambda>i. of_nat i)) demo_fs = Some (600, s')
    \<and> fs_read_file no_ext2 0x2000 1000 s' (\<lambda>_. 9) = Some (600, b) \<and> b 599 = 87 \<and> b 600 = 9"
proof -
  have "set [3 :: u32] \<inter> set [2] = {}" "600 \<le> MAX_FILE_SIZE" "(0x2000 :: u64) \<noteq> 0"
    "hd [2] = fe_first_cluster (ents demo_fs (fe_parent (ents demo_fs 0x2000)))" "fe_parent (ents demo_fs 0x2000) \<noteq> 0"
    by (simp_all add: MAX_FILE_SIZE_def demo_nodes)
  from fs_write_read [OF demo_inv this(3) demo_nodes(1,2) demo_chains(1) this(4,5) demo_chains(3) this(1,2) demo_fs_room, of no_ext2 of_nat]
  obtain s' where s': "fs_write_file no_ext2 0x2000 600 (Some of_nat) demo_fs = Some (int 600, s')"
    "\<forall>n buffer. \<exists>b. fs_read_file no_ext2 0x2000 n s' buffer = Some (int (min n 600), b)
          \<and> (\<forall>i. b i = (if i < min n 600 then of_nat i else buffer i))" by blast
  obtain b where "fs_read_file no_ext2 0x2000 1000 s' (\<lambda>_. 9) = Some (600, b)" "\<forall>i. b i = (if i < 600 then of_nat i else 9)"
    using s'(2) [rule_format, of 1000 "\<lambda>_. 9"] by auto
  then show ?thesis using s'(1) by auto
qed

lemma demo_frees_card: "card (frees demo_fs) \<le> 64994"
proof -
  have "inj_on unat (frees demo_fs)" by (auto intro!: inj_onI simp: word_unat_eq_iff)
  then have "card (frees demo_fs) = card (unat ` frees demo_fs)" by (rule card_image [symmetric])
  also have "\<dots> \<le> card {4 ..< 64998 :: nat}" by (rule card_mono) (auto simp: demo_frees)
  finally show ?thesis by simp
qed

theorem fs_write_full_witness:
  "\<exists>s'. fs_write_file no_ext2 0x2000 MAX_FILE_SIZE (Some (\<lambda>_. 1)) demo_fs = Some (-1, s') \<and> fs_last_error s' = Some FS_ERR_FULL
    \<and> kept [3] demo_fs s'"
proof -
  have "card (frees demo_fs) < clusters_for demo_fs MAX_FILE_SIZE"
    using demo_frees_card by (simp add: clusters_for_def format_geometry [OF demo_geometry(1)] MAX_FILE_SIZE_def)
  from fs_write_full [OF demo_inv _ demo_nodes(1,2) _ this, of no_ext2 "\<lambda>_. 1"] show ?thesis
    using demo_chains(2) by auto
qed

end
