(* ===== verification/Fat_Names.thy ===== *)
theory Fat_Names
  imports Fat_Slots
begin

unbundle bit_operations_syntax

text \<open>
  Short names: the name \<open>format_short_name_unique\<close> chooses is well formed and new in its directory.
\<close>

section \<open>The names of a directory\<close>

definition in_use :: "fat32_dir_entry_t \<Rightarrow> bool" where
  "in_use e \<longleftrightarrow> hd (de_name e) \<noteq> 0xE5"

definition dir_names :: "'a fat \<Rightarrow> u32 list \<Rightarrow> u8 list list" where
  "dir_names s cs = map de_name (filter in_use (live_entries (dir_of s cs)))"

text \<open>What may stand in the name field of an entry that is in use.\<close>

definition name_ok :: "u8 list \<Rightarrow> bool" where
  "name_ok sn \<longleftrightarrow> length sn = 11 \<and> hd sn \<noteq> 0 \<and> hd sn \<noteq> 0xE5 \<and> hd sn \<noteq> 0x2E"

lemma find_live:
  assumes "hd sn \<noteq> 0" "hd sn \<noteq> 0xE5"
  shows "(case List.find (\<lambda>x. ends_or_has sn (f x)) xs of None \<Rightarrow> False | Some x \<Rightarrow> hd (de_name (f x)) \<noteq> 0)
    \<longleftrightarrow> sn \<in> set (map de_name (filter in_use (live_entries (map f xs))))"
  using assms by (induction xs) (auto simp: ends_or_has_def live_entries_def in_use_def)

lemma short_name_exists_spec:
  assumes inv: "fat_inv s" and ch: "fchain s cs" and sn: "name_ok sn"
  shows "fat_short_name_exists (hd cs) sn s = Some (sn \<in> set (dir_names s cs))"
proof -
  obtain c ds where cs: "cs = c # ds" using ch by (cases cs) (auto simp: fchain_def)
  have "c \<noteq> 0" using ch valid_not_mark [of s c] by (simp add: cs fchain_def)
  then have "fat_short_name_exists (hd cs) sn s = exists_loop sn c s"
    by (simp add: fat_short_name_exists_def dir_cluster_def cs)
  also have "\<dots> = Some (sn \<in> set (dir_names s cs))"
    using exists_loop_spec [OF inv ch [unfolded cs]] sn
    by (simp add: find_pos_def find_live dir_names_def dir_of_def cs name_ok_def)
  finally show ?thesis .
qed

section \<open>The shape of a short name\<close>

lemma length_pad_to [simp]: "length (pad_to n cs) = n"
  by (simp add: pad_to_def)

lemma length_fix_e5 [simp]: "length (fix_e5 cs) = length cs"
  by (simp add: fix_e5_def)

lemma to_upper_keeps: "to_upper c = 0 \<longleftrightarrow> c = 0" "to_upper c = 0x2E \<longleftrightarrow> c = 0x2E"
proof -
  have "c - 32 \<noteq> 0 \<and> c - 32 \<noteq> 0x2E" if "0x61 \<le> c" "c \<le> 0x7A"
    using that by (auto simp: word_le_nat_alt word_unat_eq_iff unat_sub_le)
  then show "to_upper c = 0 \<longleftrightarrow> c = 0" "to_upper c = 0x2E \<longleftrightarrow> c = 0x2E" by (auto simp: to_upper_def)
qed

lemma fix_e5_hd:
  assumes "cs \<noteq> []" "hd cs \<noteq> 0" "hd cs \<noteq> 0x2E"
  shows "hd (fix_e5 cs) \<noteq> 0 \<and> hd (fix_e5 cs) \<noteq> 0xE5 \<and> hd (fix_e5 cs) \<noteq> 0x2E"
  using assms by (cases cs) (auto simp: fix_e5_def)

lemma pad_to_hd: "0 < n \<Longrightarrow> hd (pad_to n cs) = (if cs = [] then 0x20 else hd cs)"
  by (cases cs; cases n) (auto simp: pad_to_def)

lemma stem_chars: "c \<in> set (legal_upper cs) \<Longrightarrow> 0 \<notin> set cs \<Longrightarrow> 0x2E \<notin> set cs \<Longrightarrow> c \<noteq> 0 \<and> c \<noteq> 0x2E"
  by (auto simp: legal_upper_def to_upper_keeps)

lemma name_stem_chars: "0 \<notin> set name \<Longrightarrow> 0 \<notin> set (name_stem name) \<and> 0x2E \<notin> set (name_stem name)"
  by (auto simp: name_stem_def dest: set_takeWhileD)

lemma format_short_name_ok:
  assumes "0 \<notin> set name"
  shows "name_ok (format_short_name name)"
proof -
  let ?u = "legal_upper (take 8 (name_stem name))"
  have "\<forall>c\<in>set ?u. c \<noteq> 0 \<and> c \<noteq> 0x2E"
    using name_stem_chars [OF assms] by (auto dest!: stem_chars in_set_takeD)
  then have "hd (pad_to 8 ?u) \<noteq> 0 \<and> hd (pad_to 8 ?u) \<noteq> 0x2E" by (auto simp: pad_to_hd)
  moreover have "pad_to 8 ?u \<noteq> []" by (metis length_0_conv length_pad_to zero_neq_numeral)
  ultimately show ?thesis
    using fix_e5_hd [of "pad_to 8 ?u"] by (simp add: name_ok_def format_short_name_def hd_append flip: length_0_conv)
qed

lemma mangled_name_ok:
  assumes "0 \<notin> set name"
  shows "name_ok (mangled_name name n)"
proof -
  define u where "u = take 6 (legal_upper (name_stem name))"
  define t where "t = take (min (6 - length (dec_digits n)) (length u)) u"
  define p where "p = pad_to 8 (t @ [0x7E] @ dec_digits n)"
  have "set t \<subseteq> set (legal_upper (name_stem name))" unfolding t_def u_def by (auto dest!: in_set_takeD)
  then have "\<forall>c\<in>set t. c \<noteq> 0 \<and> c \<noteq> 0x2E" using name_stem_chars [OF assms] stem_chars by blast
  then have "hd p \<noteq> 0 \<and> hd p \<noteq> 0x2E" unfolding p_def by (cases t) (auto simp: pad_to_hd)
  moreover have l: "length p = 8" by (simp add: p_def)
  then have "p \<noteq> []" by auto
  moreover have "mangled_name name n = fix_e5 p @ pad_to 3 (take 3 (legal_upper (name_ext name)))"
    by (simp add: mangled_name_def Let_def p_def t_def u_def)
  moreover have "fix_e5 p \<noteq> []" using l length_fix_e5 [of p] by (metis length_0_conv zero_neq_numeral)
  ultimately show ?thesis using fix_e5_hd [of p] l by (simp add: name_ok_def)
qed

section \<open>Candidates differ\<close>

lemma dec_digits_length: "n < 10 ^ k \<Longrightarrow> 0 < k \<Longrightarrow> length (dec_digits n) \<le> k"
proof (induction n arbitrary: k rule: dec_digits.induct)
  case (1 n k)
  show ?case
  proof (cases "n < 10")
    case False
    then have "k \<noteq> 1" using "1.prems" by auto
    then obtain j where j: "k = Suc j" "0 < j" using "1.prems"(2) by (cases k) auto
    have "n div 10 < 10 ^ j" using "1.prems"(1) by (simp add: j less_mult_imp_div_less)
    from "1.IH" [OF False this j(2)] show ?thesis using False by (simp add: dec_digits.simps [of n] j)
  qed (use "1.prems" in \<open>simp add: dec_digits.simps [of n]\<close>)
qed

lemma dec_digit_range: "d \<in> set (dec_digits n) \<Longrightarrow> 0x30 \<le> d \<and> d \<le> 0x39"
proof (induction n rule: dec_digits.induct)
  case (1 n)
  have r: "(0x30 :: u8) \<le> 0x30 + of_nat k \<and> 0x30 + of_nat k \<le> (0x39 :: u8)" if "k < 10" for k :: nat
    using that by (simp add: word_le_nat_alt unat_add_small unat_of_nat_small)
  show ?case using 1 r [of n] r [of "n mod 10"] by (cases "n < 10") (auto simp: dec_digits.simps [of n])
qed

lemma dec_digits_value: "foldl (\<lambda>a d. 10 * a + unat (d - 0x30)) 0 (dec_digits n) = n"
proof (induction n rule: dec_digits.induct)
  case (1 n)
  then show ?case by (cases "n < 10") (simp_all add: dec_digits.simps [of n] unat_of_nat_small)
qed

lemma dec_digits_inject: "dec_digits n = dec_digits m \<Longrightarrow> n = m"
  by (metis dec_digits_value)

text \<open>The characters of the padded stem.\<close>

lemma candidate_chars:
  fixes u ds :: "u8 list"
  assumes "length u \<le> 6" "length ds \<le> 6"
  defines "k \<equiv> min (6 - length ds) (length u)"
  defines "p \<equiv> fix_e5 (pad_to 8 (take k u @ [0x7E] @ ds))"
  shows "0 < k \<Longrightarrow> p ! k = 0x7E" "i < length ds \<Longrightarrow> p ! (k + 1 + i) = ds ! i" "p ! (k + 1 + length ds) = 0x20"
proof -
  have k: "k \<le> length u" "k + length ds \<le> 6" using assms(1,2) by (simp_all add: k_def)
  have p: "p ! j = (take k u @ [0x7E] @ ds @ replicate 8 0x20) ! j" if "0 < j" "j < 8" for j
    using that by (simp add: p_def pad_to_def fix_e5_def del: take_append)
  show "p ! k = 0x7E" if "0 < k" using k p [OF that] by (simp add: nth_append)
  show "p ! (k + 1 + i) = ds ! i" if "i < length ds" using k that p [of "k + 1 + i"] by (simp add: nth_append)
  show "p ! (k + 1 + length ds) = 0x20" using k p [of "k + 1 + length ds"] by (simp add: nth_append)
qed

lemma candidate_inject:
  fixes u ds es :: "u8 list"
  defines "k \<equiv> \<lambda>ds. min (6 - length ds) (length u)"
  defines "p \<equiv> \<lambda>ds. fix_e5 (pad_to 8 (take (k ds) u @ [0x7E] @ ds))"
  assumes u: "length u \<le> 6" and ds: "length ds \<le> length es" "length es \<le> 6"
    and digits: "\<forall>d\<in>set ds \<union> set es. 0x30 \<le> d \<and> d \<le> (0x39 :: u8)" and eq: "p ds = p es"
  shows "ds = es"
proof -
  have cd: "0 < k d \<Longrightarrow> p d ! k d = 0x7E" "i < length d \<Longrightarrow> p d ! (k d + 1 + i) = d ! i" "p d ! (k d + 1 + length d) = 0x20"
    if "length d \<le> 6" for d i
    using candidate_chars [OF u that] by (simp_all only: k_def p_def)
  have l6: "length ds \<le> 6" using ds by simp
  have k: "k es \<le> k ds" using ds by (auto simp: k_def)
  have e: "es ! i \<noteq> 0x7E \<and> es ! i \<noteq> 0x20" if "i < length es" for i
  proof -
    have "0x30 \<le> es ! i \<and> es ! i \<le> 0x39" using digits nth_mem [OF that] by blast
    then show ?thesis by auto
  qed
  show ?thesis
  proof (cases "k es = k ds")
    case False
    then have lt: "k es < k ds" using k by simp
    then have "k ds - k es - 1 < length es" using ds by (auto simp: k_def)
    moreover have "k es + 1 + (k ds - k es - 1) = k ds" using lt by simp
    ultimately show ?thesis using cd(1) [OF l6] cd(2) [OF ds(2)] e lt eq by (metis gr_zeroI not_less_zero)
  next
    case True
    have "length ds = length es"
    proof (rule ccontr)
      assume "length ds \<noteq> length es"
      then have "length ds < length es" using ds(1) by simp
      then show False using cd(3) [OF l6] cd(2) [OF ds(2)] e eq True by metis
    qed
    then show ?thesis using cd(2) [OF l6] cd(2) [OF ds(2)] eq True by (metis nth_equalityI)
  qed
qed

lemma mangled_name_inject:
  assumes "mangled_name name n = mangled_name name m" "n \<le> 999999" "m \<le> 999999"
  shows "n = m"
proof -
  define u where "u = take 6 (legal_upper (name_stem name))"
  define p where "p = (\<lambda>ds. fix_e5 (pad_to 8 (take (min (6 - length ds) (length u)) u @ [0x7E] @ ds)))"
  have "take 8 (mangled_name name k) = p (dec_digits k)" for k
    by (simp add: mangled_name_def Let_def p_def u_def)
  then have eq: "p (dec_digits n) = p (dec_digits m)" using assms(1) by metis
  have l: "length (dec_digits n) \<le> 6" "length (dec_digits m) \<le> 6" using assms(2,3) by (simp_all add: dec_digits_length)
  have d: "\<forall>d\<in>set (dec_digits n) \<union> set (dec_digits m). 0x30 \<le> d \<and> d \<le> 0x39" using dec_digit_range by blast
  have "dec_digits n = dec_digits m"
  proof (cases "length (dec_digits n) \<le> length (dec_digits m)")
    case True
    then show ?thesis using candidate_inject [of u "dec_digits n" "dec_digits m"] l d eq by (simp add: u_def p_def)
  next
    case False
    then show ?thesis using candidate_inject [of u "dec_digits m" "dec_digits n"] l d eq by (simp add: u_def p_def Un_commute)
  qed
  then show ?thesis by (rule dec_digits_inject)
qed

section \<open>The chosen name\<close>

lemma mangle_loop_spec:
  assumes inv: "fat_inv s" and ch: "fchain s cs" and nm: "0 \<notin> set name"
    and some: "\<exists>m. n \<le> m \<and> m \<le> 999999 \<and> mangled_name name m \<notin> set (dir_names s cs)"
  shows "\<exists>m. mangle_loop name (hd cs) n s = Some (mangled_name name m) \<and> mangled_name name m \<notin> set (dir_names s cs)"
  using some
proof (induction "999999 - n" arbitrary: n)
  case 0
  then have "n = 999999" by auto
  then show ?case using 0 short_name_exists_spec [OF inv ch mangled_name_ok [OF nm], of n]
    by (subst mangle_loop.simps) auto
next
  case (Suc k)
  note ex = short_name_exists_spec [OF inv ch mangled_name_ok [OF nm], of n]
  show ?case
  proof (cases "mangled_name name n \<in> set (dir_names s cs)")
    case True
    have "n \<noteq> 999999" using Suc.hyps(2) by auto
    then have "mangle_loop name (hd cs) n s = mangle_loop name (hd cs) (n + 1) s"
      using ex True by (subst mangle_loop.simps) simp
    moreover have "\<exists>m. n + 1 \<le> m \<and> m \<le> 999999 \<and> mangled_name name m \<notin> set (dir_names s cs)"
      using Suc.prems True by (metis Suc_eq_plus1 Suc_leI le_neq_implies_less)
    ultimately show ?thesis using Suc.hyps(1) [of "n + 1"] Suc.hyps(2) by simp
  next
    case False
    then show ?thesis using ex by (subst mangle_loop.simps) auto
  qed
qed

lemma free_candidate:
  assumes "finite A" "card A < 999999"
  shows "\<exists>m. 1 \<le> m \<and> m \<le> 999999 \<and> mangled_name name m \<notin> A"
proof (rule ccontr)
  assume none: "\<not> (\<exists>m. 1 \<le> m \<and> m \<le> 999999 \<and> mangled_name name m \<notin> A)"
  have sub: "mangled_name name ` {1..999999} \<subseteq> A"
  proof (rule image_subsetI, rule ccontr)
    fix m assume "m \<in> {1..999999 :: nat}" "mangled_name name m \<notin> A"
    then have "1 \<le> m \<and> m \<le> 999999 \<and> mangled_name name m \<notin> A" by simp
    with none show False by (rule notE [OF _ exI])
  qed
  have "inj_on (mangled_name name) {1..999999}"
    by (rule inj_onI, rule mangled_name_inject) simp_all
  then have "card (mangled_name name ` {1..999999}) = card {1..999999 :: nat}" by (rule card_image)
  then show False using card_mono [OF assms(1) sub] assms(2) by simp
qed

lemma format_short_name_unique_spec:
  assumes inv: "fat_inv s" and ch: "fchain s cs" and nm: "0 \<notin> set name"
    and few: "card (set (dir_names s cs) \<inter> {sn. name_ok sn}) < 999999"
  obtains sn where "format_short_name_unique name (hd cs) s = Some sn" "name_ok sn" "sn \<notin> set (dir_names s cs)"
proof -
  have "hd cs \<noteq> 0" using ch valid_not_mark [of s "hd cs"] by (cases cs) (auto simp: fchain_def)
  then have d: "dir_cluster s (hd cs) = hd cs" by (simp add: dir_cluster_def)
  note ex = short_name_exists_spec [OF inv ch format_short_name_ok [OF nm]]
  show thesis
  proof (cases "format_short_name name \<in> set (dir_names s cs)")
    case True
    have "\<exists>m. 1 \<le> m \<and> m \<le> 999999 \<and> mangled_name name m \<notin> set (dir_names s cs)"
      using free_candidate [OF _ few, of name] mangled_name_ok [OF nm] by auto
    then obtain m where "mangle_loop name (hd cs) 1 s = Some (mangled_name name m)" "mangled_name name m \<notin> set (dir_names s cs)"
      using mangle_loop_spec [OF inv ch nm] by blast
    then show thesis using that [of "mangled_name name m"] mangled_name_ok [OF nm] ex True
      by (simp add: format_short_name_unique_def d Let_def)
  next
    case False
    then show thesis using that [of "format_short_name name"] format_short_name_ok [OF nm] ex
      by (simp add: format_short_name_unique_def d Let_def)
  qed
qed

end
