(* ===== verification/Spec2Isabelle.thy ===== *)
theory Spec2Isabelle
  imports Heap Vmm Klib Sched Net_Stack Sha256 Gzip Fs_Files Fat_Names
begin

text \<open>
  Kil0yOS, an x86-64 kernel in C: a verification library of its core. File names below are relative
  to \<open>src/kernel\<close> of the repository.

  \<^bold>\<open>The program and its parts.\<close> At the bottom \<open>mm/memory.c\<close> manages physical pages (PMM), the
  kernel heap and the page tables (VMM); the heap reserves its arena in the PMM and the VMM takes
  its tables from it. \<open>lib/\<close> is the C library of the kernel. \<open>sched/\<close> shares the CPU between kernel
  tasks and the user processes of \<open>core/process.c\<close> and lets them sleep on wait queues. \<open>net/\<close> is an
  IPv4 stack from the driver hooks of \<open>netif_t\<close> up to TCP and UDP sockets. \<open>fs/fs.c\<close> is the file
  system: a tree of nodes on the heap over a FAT32 disk. \<open>pkg/\<close> is the package manager: it downloads,
  checks and unpacks archives.

  \<^bold>\<open>Theories.\<close>
  \<^item> \<open>Kernel_Prelude\<close>: the C integer types as words, the rule collections, facts on words and searches.
  \<^item> \<open>Pmm\<close>: \<open>mm/memory.c\<close>, section PMM. The record \<open>pmm_state\<close> has the bitmap, the hint, the counter,
    the table of usable ranges and the top of RAM; there is one definition per function, the parsers
    of the boot loader's memory maps included. The lemmas show that the counter agrees with the
    bitmap, that the allocator finds a run exactly when there is one and never hands out a page
    twice, and that \<open>pmm_init\<close> returns on well-formed boot information and what it leaves reserved. The locale \<open>page_allocator\<close> is the contract the
    page-table code relies on.
  \<^item> \<open>Heap\<close>: the heap of \<open>mm/memory.c\<close>. Block headers are a map from addresses, the payload is a byte
    memory. The invariant is a chain of blocks that tiles the arena. \<open>kmalloc\<close> refines first fit with
    splitting, \<open>kfree\<close> leaves no two adjacent free blocks, \<open>krealloc\<close> keeps contents. The locale
    \<open>object_allocator\<close> states what clients get: live objects never overlap. The theorems on requests
    carry the bound \<open>kmalloc_ok\<close>, beyond which the size arithmetic of the append path wraps
    (\<open>kmalloc_append_wraps\<close>).
  \<^item> \<open>Vmm\<close>: the page tables of \<open>mm/memory.c\<close>. Table memory maps a page base and an index to an entry.
    The invariant says which pages are tables of which level and that they are distinct; mapping and
    unmapping change one translation, and address spaces give back what they took.
  \<^item> \<open>Klib\<close>: \<open>lib/string.c\<close> and \<open>lib/stdlib.c\<close> over a byte memory.
  \<^item> \<open>Sched\<close>: \<open>sched/wait.c\<close>, \<open>sched/scheduler.c\<close> and the part of \<open>core/process.c\<close> they use. Wait
    queues implement the locale \<open>fifo_queue\<close>; task and tick operations are an inductive reachability
    relation with an invariant, and every live task runs within a bounded number of ticks.
  \<^item> \<open>Net_Base\<close>, \<open>Tcp\<close>, \<open>Net_Stack\<close>: \<open>net/netif.c\<close>, \<open>ethernet.c\<close>, \<open>arp.c\<close>, \<open>ipv4.c\<close>, \<open>icmp.c\<close>,
    \<open>udp.c\<close>, \<open>tcp.c\<close>. A machine is one record \<open>net\<close>, a packet a list of bytes. The ARP cache implements
    the locale \<open>neighbour_cache\<close>; the theorems follow a datagram from one machine to the other and the
    TCP receiver over any arrival order.
  \<^item> \<open>Fat\<close>, \<open>Fat_Chain\<close>, \<open>Fat_Data\<close>: the RAM disk of \<open>drivers/disk.c\<close> and the FAT half of
    \<open>fs/fs.c\<close>: table entries with their memory copy, allocation and release of clusters with the
    FSInfo sector, the loops that write and read cluster chains. The record \<open>fat_state\<close> has the disk and
    the static variables of \<open>fs.c\<close>. The lemmas relate every operation to the table as a function from
    clusters to entries, to chains as lists of clusters and to the bytes they hold.
  \<^item> \<open>Fat_Dir\<close>, \<open>Fat_Slots\<close>: directory entries and 8.3 names; a directory is the list of slots of
    its chain, and every search and insertion loop of the code is a search in that list.
  \<^item> \<open>Fs\<close>, \<open>Fs_Format\<close>, \<open>Fs_Files\<close>: the tree of nodes (\<open>fs_state\<close> extends \<open>fat_state\<close> by the heap, the
    nodes and their child tables), paths, creation, deletion, format, load and save. The ext2 driver is
    a record of functions the operations take as an argument. The theorems say what a formatted disk
    is, that a file reads back what was written to it while every other chain keeps its links and
    bytes, and that a write that does not fit changes nothing.
  \<^item> \<open>Sha256\<close>: \<open>pkg/sha256.c\<close> and its equality with the standard.
  \<^item> \<open>Inflate\<close>, \<open>Deflate\<close>, \<open>Deflate_Refine\<close>: \<open>pkg/inflate.c\<close>, the format it accepts as a decoder on lists
    of bits, and the refinement of the second by the first. \<open>Deflate_Rfc\<close> has the decoder of RFC 1951 with
    tables of its own and shows that the two decoders agree on every stream whose dynamic blocks have
    usual headers. \<open>Gzip_Format\<close> has the files of RFC 1952 and the CRC-32 as a remainder of polynomials,
    and \<open>Gzip\<close> shows what \<open>gzip_inflate()\<close> does with them.

  \<^bold>\<open>State, errors and loops.\<close> C integers keep their width where they can wrap; indices that the code
  bounds are \<open>nat\<close>. Pointers into tables are indices, pointers to memory are addresses, and 0 is
  \<open>NULL\<close>. A loop that may not end is a \<open>partial_function (option)\<close>: \<open>None\<close> is a call that never
  returns (in \<open>Vmm\<close> a kernel panic), and the theorems that promise a result prove \<open>Some\<close>. The
  remaining loops have a measure, with one exception: the round robin \<open>next_task\<close> of \<open>Sched\<close> is bounded
  by \<open>MAX_TASKS\<close> turns, after which it is back at the current task (\<open>next_task_enough\<close>). An operation runs to its end without being
  interrupted; interleaving is modelled as sequences of operations (allocator clients, ticks, task
  operations, arriving packets).

  \<^bold>\<open>Not modelled.\<close>
  \<^item> Boot code, descriptor tables, interrupt entry, the start of further processors and the watchdog:
    assembly and register programming with no state a C-level model could observe.
  \<^item> Device drivers (ATA disks, AHCI, audio, video, input, USB, network cards) and the Linux driver shim:
    what they do is decided by the devices.
  \<^item> The creation of processes, the Linux system-call layer and its file layer
    (\<open>core/syscall*.c\<close>, \<open>core/lnxvfs.c\<close>, most of \<open>core/process.c\<close>): they work on raw user memory, on
    register frames and on all other components at once.
  \<^item> The part of \<open>fs_init\<close> that mounts an ext2 root or fills the memory file system.
  \<^item> The ext2 file system, the zstd decoder, the dpkg front end, the network clients above sockets, the shell, the
    editor: left out so far; nothing in the theories above depends on them.
  \<^item> Text printed by the kernel, and memory barriers and interrupt masking.
\<close>

end
